(* ===== verification/Prelude.thy ===== *)
theory Prelude
  imports Main "HOL-Library.Word" "HOL-Library.Monad_Syntax"
begin

text \<open>
  Shared ground of the development: the machine integer types of \<^verbatim>\<open>src/types.h\<close>, the fact
  collections the component proofs share, little-endian access to byte lists, and generic facts
  about words, lists and options.

  Conventions. A C \<^verbatim>\<open>int\<close> or \<^verbatim>\<open>unsigned\<close> is a 32-bit word; the signed reading is
  \<open>sint\<close>. A C string (an object reached through a \<^verbatim>\<open>char *\<close>) is the list of the
  bytes from the pointer to the end of the object; running off that end is the result \<open>None\<close>.
  A loop that need not stop is a \<open>partial_function (option)\<close>, so that not returning is \<open>None\<close>.
\<close>

unbundle bit_operations_syntax

section \<open>Machine integers\<close>

type_synonym u8 = "8 word"
type_synonym u16 = "16 word"
type_synonym u32 = "32 word"

named_theorems layout_simps \<open>address and field arithmetic of the kernel's data structures\<close>
named_theorems frame_simps \<open>what an operation leaves unchanged\<close>
named_theorems inv_intros \<open>preservation of the component invariants\<close>

lemma unat_u32_less [simp]: "unat (x :: u32) < 4294967296"
  using unsigned_less [of x] by simp

lemma unat_u8_less [simp]: "unat (x :: u8) < 256"
  using unsigned_less [of x] by simp

lemma unat_add_lt:
  "unat a + unat b < 4294967296 \<Longrightarrow> unat (a + b :: u32) = unat a + unat b"
  by (simp add: unat_word_ariths)

lemma unat_add_of_nat:
  "unat a + n < 4294967296 \<Longrightarrow> unat (a + of_nat n :: u32) = unat a + n"
  by (simp add: unat_word_ariths unat_of_nat mod_add_right_eq)

lemma unat_diff_le: "b \<le> a \<Longrightarrow> unat (a - b :: u32) = unat a - unat b"
  by (simp add: unat_sub)

lemma mask_numerals:
  "(0xff :: 'a :: len word) = mask 8"
  "(0x3ff :: 'a :: len word) = mask 10"
  "(0xfff :: 'a :: len word) = mask 12"
  "(0xffff :: 'a :: len word) = mask 16"
  by (simp_all add: mask_eq_exp_minus_1)

section \<open>Byte extraction\<close>

text \<open>Byte \<open>k\<close> of a 32-bit value, and the value four bytes make (x86 is little endian).\<close>

definition byte_of :: "u32 \<Rightarrow> nat \<Rightarrow> u8" where
  "byte_of v k = ucast (drop_bit (8 * k) v)"

definition word_of_bytes :: "u8 \<Rightarrow> u8 \<Rightarrow> u8 \<Rightarrow> u8 \<Rightarrow> u32" where
  "word_of_bytes b0 b1 b2 b3 =
     ucast b0 OR push_bit 8 (ucast b1) OR push_bit 16 (ucast b2) OR push_bit 24 (ucast b3)"

lemma word_of_bytes_byte_of [simp]:
  "word_of_bytes (byte_of v 0) (byte_of v 1) (byte_of v 2) (byte_of v 3) = v"
proof (rule bit_word_eqI)
  fix n assume n: "n < LENGTH(32)"
  then consider "n < 8" | "8 \<le> n" "n < 16" | "16 \<le> n" "n < 24" | "24 \<le> n" "n < 32" by fastforce
  then show "bit (word_of_bytes (byte_of v 0) (byte_of v 1) (byte_of v 2) (byte_of v 3)) n = bit v n"
    by cases (auto simp: word_of_bytes_def byte_of_def bit_simps not_less)
qed

lemmas word_of_bytes_byte_of_Suc [simp] = word_of_bytes_byte_of [unfolded One_nat_def]

lemma byte_of_word_of_bytes [simp]:
  "byte_of (word_of_bytes a b c d) 0 = a"
  "byte_of (word_of_bytes a b c d) 1 = b"
  "byte_of (word_of_bytes a b c d) (Suc 0) = b"
  "byte_of (word_of_bytes a b c d) 2 = c"
  "byte_of (word_of_bytes a b c d) 3 = d"
  by (rule bit_word_eqI; auto simp: word_of_bytes_def byte_of_def bit_simps
        dest: bit_imp_le_length)+

text \<open>The four bytes of a value in memory order.\<close>

definition bytes_of :: "u32 \<Rightarrow> u8 list" where
  "bytes_of v = [byte_of v 0, byte_of v 1, byte_of v 2, byte_of v 3]"

lemma length_bytes_of [simp]: "length (bytes_of v) = 4"
  by (simp add: bytes_of_def)

fun words_of :: "u8 list \<Rightarrow> u32 list" where
  "words_of (a # b # c # d # bs) = word_of_bytes a b c d # words_of bs"
| "words_of _ = []"

lemma words_of_bytes_of [simp]: "words_of (concat (map bytes_of ws)) = ws"
  by (induction ws) (simp_all add: bytes_of_def)

lemma length_concat_bytes_of [simp]: "length (concat (map bytes_of ws)) = 4 * length ws"
  by (induction ws) simp_all

lemma concat_bytes_of_words_of:
  "length bs = 4 * n \<Longrightarrow> concat (map bytes_of (words_of bs)) = bs"
proof (induction bs arbitrary: n rule: words_of.induct)
  case (1 a b c d bs)
  then have "length bs = 4 * (n - 1)" by simp
  with "1.IH" show ?case by (simp add: bytes_of_def)
qed (simp_all, presburger+)

lemma length_ge_4E:
  assumes "4 \<le> length xs"
  obtains a b c d ys where "xs = a # b # c # d # ys"
  using assms by (auto simp: numeral_eq_Suc Suc_le_length_iff)

lemma length_words_of [simp]: "length (words_of bs) = length bs div 4"
  by (induction bs rule: words_of.induct) auto

section \<open>Fields inside byte lists\<close>

text \<open>
  \<open>get32\<close> and \<open>put32\<close> are the load and store of a 32-bit field at an offset of an
  object; \<open>blit\<close> is a copy of bytes into an object (what \<^verbatim>\<open>memmove\<close> does between two
  different objects).
\<close>

definition get32 :: "u8 list \<Rightarrow> nat \<Rightarrow> u32" where
  "get32 bs i = word_of_bytes (bs ! i) (bs ! (i + 1)) (bs ! (i + 2)) (bs ! (i + 3))"

definition blit :: "u8 list \<Rightarrow> nat \<Rightarrow> u8 list \<Rightarrow> u8 list" where
  "blit bs i new = take i bs @ new @ drop (i + length new) bs"

definition put32 :: "u8 list \<Rightarrow> nat \<Rightarrow> u32 \<Rightarrow> u8 list" where
  "put32 bs i v = blit bs i (bytes_of v)"

lemma length_blit [simp]:
  "i + length new \<le> length bs \<Longrightarrow> length (blit bs i new) = length bs"
  by (simp add: blit_def)

lemma nth_blit:
  "i + length new \<le> length bs \<Longrightarrow> j < length bs \<Longrightarrow>
   blit bs i new ! j = (if i \<le> j \<and> j < i + length new then new ! (j - i) else bs ! j)"
  by (auto simp: blit_def nth_append)

lemma take_drop_blit_same [simp]:
  "i + length new \<le> length bs \<Longrightarrow> take (length new) (drop i (blit bs i new)) = new"
  by (simp add: blit_def)

lemma take_drop_blit_other:
  "i + length new \<le> length bs \<Longrightarrow> j + n \<le> i \<or> i + length new \<le> j \<Longrightarrow> j + n \<le> length bs \<Longrightarrow>
   take n (drop j (blit bs i new)) = take n (drop j bs)"
  by (rule nth_equalityI) (auto simp: nth_blit)

lemma blit_Nil [simp]: "blit bs i [] = bs"
  by (simp add: blit_def)

text \<open>Writing one byte after the other, from the front and at the end.\<close>

lemma blit_Cons: "i + length (v # w) \<le> length bs \<Longrightarrow> blit (bs[i := v]) (Suc i) w = blit bs i (v # w)"
  by (rule nth_equalityI) (auto simp: nth_blit nth_list_update nth_Cons' less_Suc_eq_le)

lemma blit_extend:
  "i + length w < length bs \<Longrightarrow> (blit bs i w)[i + length w := v] = blit bs i (w @ [v])"
  by (rule nth_equalityI) (auto simp: nth_blit nth_list_update nth_append)

lemma length_put32 [simp]: "i + 4 \<le> length bs \<Longrightarrow> length (put32 bs i v) = length bs"
  by (simp add: put32_def)

lemma get32_put32 [simp]: "i + 4 \<le> length bs \<Longrightarrow> get32 (put32 bs i v) i = v"
  by (simp add: get32_def put32_def nth_blit bytes_of_def nth_Cons')

lemma get32_put32_other:
  "i + 4 \<le> length bs \<Longrightarrow> j + 4 \<le> length bs \<Longrightarrow> j + 4 \<le> i \<or> i + 4 \<le> j \<Longrightarrow>
   get32 (put32 bs i v) j = get32 bs j"
  by (auto simp: get32_def put32_def nth_blit)

lemma get32_blit_other:
  "i + length new \<le> length bs \<Longrightarrow> j + 4 \<le> length bs \<Longrightarrow> j + 4 \<le> i \<or> i + length new \<le> j \<Longrightarrow>
   get32 (blit bs i new) j = get32 bs j"
  by (auto simp: get32_def nth_blit)

lemma sint_small:
  assumes "unat (w :: u32) < 2147483648"
  shows "sint w = int (unat w)"
proof -
  have u: "uint w = int (unat w)" by (rule uint_nat)
  have p: "(2 :: int) ^ 31 = 2147483648" by simp
  have "uint w < 2 ^ 31" unfolding u p using assms by linarith
  moreover have "- (2 ^ 31) \<le> uint w" unfolding u p by linarith
  ultimately have "signed_take_bit 31 (uint w) = uint w" by (intro signed_take_bit_int_eq_self)
  moreover have "sint w = signed_take_bit 31 (uint w)" by (simp add: sint_uint)
  ultimately show ?thesis using u by (simp only:)
qed

section \<open>C strings\<close>

text \<open>The bytes of a string literal, with its terminator.\<close>

definition cstr :: "string \<Rightarrow> u8 list" where
  "cstr s = map of_char s @ [0]"

lemma length_cstr [simp]: "length (cstr s) = Suc (length s)"
  by (simp add: cstr_def)

text \<open>The text an object holds as a C string: its bytes up to the first terminator.\<close>

fun c_text :: "u8 list \<Rightarrow> u8 list option" where
  "c_text [] = None"
| "c_text (c # cs) = (if c = 0 then Some [] else map_option ((#) c) (c_text cs))"

lemma c_text_Some_iff: "c_text xs = Some t \<longleftrightarrow> (\<exists>r. xs = t @ 0 # r) \<and> 0 \<notin> set t"
  by (induction xs arbitrary: t rule: c_text.induct) (auto simp: Cons_eq_append_conv)

lemma c_text_None_iff: "c_text xs = None \<longleftrightarrow> 0 \<notin> set xs"
  by (induction xs rule: c_text.induct) auto

lemma c_text_append [simp]: "0 \<notin> set t \<Longrightarrow> c_text (t @ 0 # r) = Some t"
  by (auto simp: c_text_Some_iff)

end
