(* ===== verification/Hardware.thy ===== *)
theory Hardware
  imports Prelude
begin

text \<open>
  The machine the kernel runs on, as far as the C code drives it: the port instructions of
  \<^verbatim>\<open>src/port.c\<close> and the interrupt flag (\<^verbatim>\<open>cli\<close> and \<^verbatim>\<open>sti\<close> of \<^verbatim>\<open>src/idt.c\<close>).

  The kernel's side of the port traffic is a trace of events, latest first. What a device answers
  is not code of this repository: it is a parameter \<open>dev\<close> of every operation that reads a port,
  a function of the whole history of the traffic and of the port, so any deterministic device can
  be put in its place.
\<close>

section \<open>Port traffic\<close>

datatype ioev = Outb u16 u8 | Inb u16 | Outl u16 u32 | Inl u16

record device =
  rd8 :: "ioev list \<Rightarrow> u16 \<Rightarrow> u8"
  rd32 :: "ioev list \<Rightarrow> u16 \<Rightarrow> u32"

record hw =
  iotrace :: "ioev list"
  iflag :: bool

definition inb :: "device \<Rightarrow> u16 \<Rightarrow> 'a hw_scheme \<Rightarrow> u8 \<times> 'a hw_scheme" where
  "inb dev port s = (rd8 dev (iotrace s) port, s\<lparr>iotrace := Inb port # iotrace s\<rparr>)"

definition outb :: "u16 \<Rightarrow> u8 \<Rightarrow> 'a hw_scheme \<Rightarrow> 'a hw_scheme" where
  "outb port b s = s\<lparr>iotrace := Outb port b # iotrace s\<rparr>"

text \<open>
  The string instructions move \<open>cnt\<close> 32-bit units between the port and consecutive memory: the
  bytes read are returned, the bytes to be written are the argument.
\<close>

fun insl :: "device \<Rightarrow> u16 \<Rightarrow> nat \<Rightarrow> 'a hw_scheme \<Rightarrow> u8 list \<times> 'a hw_scheme" where
  "insl dev port 0 s = ([], s)"
| "insl dev port (Suc cnt) s =
     (let v = rd32 dev (iotrace s) port;
          (bs, s') = insl dev port cnt (s\<lparr>iotrace := Inl port # iotrace s\<rparr>)
      in (bytes_of v @ bs, s'))"

fun outsl :: "u16 \<Rightarrow> u8 list \<Rightarrow> nat \<Rightarrow> 'a hw_scheme \<Rightarrow> 'a hw_scheme" where
  "outsl port addr 0 s = s"
| "outsl port addr (Suc cnt) s =
     outsl port (drop 4 addr) cnt (s\<lparr>iotrace := Outl port (get32 addr 0) # iotrace s\<rparr>)"

section \<open>The interrupt flag\<close>

definition cli :: "'a hw_scheme \<Rightarrow> 'a hw_scheme" where
  "cli s = s\<lparr>iflag := False\<rparr>"

definition sti :: "'a hw_scheme \<Rightarrow> 'a hw_scheme" where
  "sti s = s\<lparr>iflag := True\<rparr>"

section \<open>Facts about the port operations\<close>

lemma length_insl [simp]: "length (fst (insl dev port cnt s)) = 4 * cnt"
  by (induction cnt arbitrary: s) (simp_all add: Let_def split_beta)

lemma insl_frame [simp]:
  "iflag (snd (insl dev port cnt s)) = iflag s"
  "hw.more (snd (insl dev port cnt s)) = hw.more s"
  by (induction cnt arbitrary: s) (simp_all add: Let_def split_beta)

lemma insl_trace:
  "iotrace (snd (insl dev port cnt s)) = replicate cnt (Inl port) @ iotrace s"
  by (induction cnt arbitrary: s) (simp_all add: Let_def split_beta replicate_app_Cons_same)

lemma outsl_trace:
  "length addr = 4 * cnt \<Longrightarrow>
   outsl port addr cnt s = s\<lparr>iotrace := map (Outl port) (rev (words_of addr)) @ iotrace s\<rparr>"
proof (induction cnt arbitrary: addr s)
  case 0
  then show ?case by simp
next
  case (Suc cnt)
  then have "4 \<le> length addr" by simp
  then obtain a b c d rest where addr: "addr = a # b # c # d # rest"
    by (rule length_ge_4E)
  with Suc.prems Suc.IH [of rest] show ?case
    by (simp add: get32_def)
qed

lemma iflag_cli_sti [simp]: "\<not> iflag (cli s)" "iflag (sti s)"
  by (simp_all add: cli_def sti_def)

text \<open>The words a string read takes from the port.\<close>

fun read_words :: "device \<Rightarrow> u16 \<Rightarrow> ioev list \<Rightarrow> nat \<Rightarrow> u32 list" where
  "read_words dev port t 0 = []"
| "read_words dev port t (Suc n) = rd32 dev t port # read_words dev port (Inl port # t) n"

lemma length_read_words [simp]: "length (read_words dev port t n) = n"
  by (induction n arbitrary: t) simp_all

lemma insl_eq:
  "insl dev port n s = (concat (map bytes_of (read_words dev port (iotrace s) n)),
     s\<lparr>iotrace := replicate n (Inl port) @ iotrace s\<rparr>)"
  by (induction n arbitrary: s) (simp_all add: replicate_app_Cons_same)

end
