(* ===== verification/Concurrency.thy ===== *)
theory Concurrency
  imports Hardware
begin

text \<open>
  The spinlocks of \<^verbatim>\<open>src/concurrency.c\<close>, and the lock interface their clients (the console,
  the thread library) rely on. Taking a lock first masks interrupts on the only processor, so a
  lock that is already taken is never released again: the spin loop does not return, which is the
  result \<open>None\<close>.
\<close>

section \<open>Spinlocks\<close>

record spinlock =
  lock :: u32

text \<open>\<^verbatim>\<open>lock; xchg\<close>: the old value, and the cell with the new one.\<close>

definition xchg :: "u32 \<Rightarrow> u32 \<Rightarrow> u32 \<times> u32" where
  "xchg addr val = (addr, val)"

definition spinlockInit :: "spinlock \<Rightarrow> spinlock" where
  "spinlockInit spl = spl\<lparr>lock := 0\<rparr>"

partial_function (option) spin :: "spinlock \<Rightarrow> spinlock option" where
  "spin spl =
     (let (result, cell) = xchg (lock spl) 1; spl' = spl\<lparr>lock := cell\<rparr>
      in if result \<noteq> 0 then spin spl' else Some spl')"

definition spinlockLock ::
  "spinlock \<Rightarrow> 'a hw_scheme \<Rightarrow> (spinlock \<times> 'a hw_scheme) option" where
  "spinlockLock spl s = do { let s = cli s; spl \<leftarrow> spin spl; Some (spl, s) }"

definition spinlockUnlock :: "spinlock \<Rightarrow> 'a hw_scheme \<Rightarrow> spinlock \<times> 'a hw_scheme" where
  "spinlockUnlock spl s = (let spl = spl\<lparr>lock := 0\<rparr> in (spl, sti s))"

text \<open>The loop returns exactly when the lock was free; otherwise it spins for ever.\<close>

lemma spin_returns:
  assumes ret: "spin spl = Some spl'"
  shows "lock spl = 0 \<and> lock spl' = 1"
proof (rule spin.raw_induct [where P = "\<lambda>l r. lock l = 0 \<and> lock r = 1", OF _ ret])
  fix f l r
  assume IH: "\<And>l r. f l = Some r \<Longrightarrow> lock l = 0 \<and> lock r = 1"
    and eq: "(let (result, cell) = xchg (lock l) 1; l' = l\<lparr>lock := cell\<rparr>
              in if result \<noteq> 0 then f l' else Some l') = Some r"
  show "lock l = 0 \<and> lock r = 1"
    using eq IH [of "l\<lparr>lock := 1\<rparr>" r] by (auto simp: xchg_def Let_def split: if_splits)
qed

lemma spin_free [simp]: "lock spl = 0 \<Longrightarrow> spin spl = Some (spl\<lparr>lock := 1\<rparr>)"
  by (simp add: spin.simps xchg_def)

lemma spin_held [simp]: "lock spl \<noteq> 0 \<Longrightarrow> spin spl = None"
  using spin_returns [of spl] by (cases "spin spl") auto

lemma spinlockLock_free:
  "lock spl = 0 \<Longrightarrow> spinlockLock spl s = Some (spl\<lparr>lock := 1\<rparr>, cli s)"
  by (simp add: spinlockLock_def)

lemma spinlockLock_held: "lock spl \<noteq> 0 \<Longrightarrow> spinlockLock spl s = None"
  by (simp add: spinlockLock_def)

section \<open>The lock interface\<close>

text \<open>
  What a client of a lock needs: acquiring returns exactly when the lock is free, it then is held,
  and releasing frees it. The state is the lock with the processor state around it.
\<close>

locale lock_interface =
  fixes acquire :: "'s \<Rightarrow> 's option"
    and release :: "'s \<Rightarrow> 's"
    and held :: "'s \<Rightarrow> bool"
  assumes acquire_held: "held s \<Longrightarrow> acquire s = None"
    and acquire_free: "\<not> held s \<Longrightarrow> \<exists>s'. acquire s = Some s' \<and> held s'"
    and release_free: "\<not> held (release s)"
begin

definition guarded :: "('s \<Rightarrow> 's option) \<Rightarrow> 's \<Rightarrow> 's option" where
  "guarded body s = do { s \<leftarrow> acquire s; s \<leftarrow> body s; Some (release s) }"

lemma acquire_Some_iff: "(\<exists>s'. acquire s = Some s') \<longleftrightarrow> \<not> held s"
  using acquire_held acquire_free by fastforce

lemma acquire_holds: "acquire s = Some s' \<Longrightarrow> held s'"
  using acquire_held acquire_free by (metis option.distinct(1) option.inject)

lemma no_reacquire: "acquire s = Some s' \<Longrightarrow> acquire s' = None"
  by (simp add: acquire_held acquire_holds)

lemma acquire_release: "\<exists>s'. acquire (release s) = Some s'"
  by (simp add: acquire_Some_iff release_free)

lemma guarded_held: "held s \<Longrightarrow> guarded body s = None"
  by (simp add: guarded_def acquire_held)

lemma guarded_frees: "guarded body s = Some s' \<Longrightarrow> \<not> held s'"
  by (auto simp: guarded_def bind_eq_Some_conv release_free)

lemma guarded_nested: "guarded (guarded body) s = None"
  by (cases "acquire s") (simp_all add: guarded_def acquire_held acquire_holds)

end

interpretation spl: lock_interface
  "\<lambda>(l, s :: 'a hw_scheme). spinlockLock l s"
  "\<lambda>(l, s). spinlockUnlock l s"
  "\<lambda>(l, s). lock l \<noteq> 0"
  by unfold_locales
    (auto simp: spinlockLock_free spinlockLock_held spinlockUnlock_def Let_def)

end
