(* ===== verification/Console.thy ===== *)
theory Console
  imports Concurrency "HOL-Library.Signed_Division"
begin

text \<open>
  The text console of \<^verbatim>\<open>src/console.c\<close>: the character grid in video memory, the cursor, the
  number printer and \<^verbatim>\<open>printf\<close>.

  \<open>videoMemory i\<close> is the 16-bit cell the C expression \<^verbatim>\<open>videoMemory[i]\<close> denotes, for any \<^verbatim>\<open>int\<close>
  index (the array has no declared bound); \<open>row\<close> and \<open>col\<close> are C \<^verbatim>\<open>int\<close>s far from overflow, as
  \<open>cursor_ok\<close> below shows.
\<close>

section \<open>State\<close>

record console = hw +
  row :: int
  col :: int
  videoMemory :: "int \<Rightarrow> u16"
  cslLock :: spinlock

abbreviation (input) CSL_WIDTH :: int where "CSL_WIDTH \<equiv> 80"
abbreviation (input) CSL_HEIGHT :: int where "CSL_HEIGHT \<equiv> 25"
abbreviation (input) CSL_PORT_CMD :: u16 where "CSL_PORT_CMD \<equiv> 0x3d4"
abbreviation (input) CSL_PORT_DATA :: u16 where "CSL_PORT_DATA \<equiv> 0x3d5"

text \<open>A cell keeps its attribute byte; the character is a signed \<^verbatim>\<open>char\<close>, promoted and truncated.\<close>

definition set_char :: "u16 \<Rightarrow> u8 \<Rightarrow> u16" where
  "set_char old c = (old AND 0xff00) OR scast c"

section \<open>Operations\<close>

definition clear :: "'a console_scheme \<Rightarrow> 'a console_scheme" where
  "clear s = s\<lparr>videoMemory :=
      fold (\<lambda>c vm. fold (\<lambda>r vm.
          vm(CSL_WIDTH * int r + int c := set_char (vm (CSL_WIDTH * int r + int c)) 0x20))
        [0..<nat CSL_HEIGHT] vm) [0..<nat CSL_WIDTH] (videoMemory s),
      row := 0, col := 0\<rparr>"

definition getCursor :: "device \<Rightarrow> 'a console_scheme \<Rightarrow> (int \<times> int) \<times> 'a console_scheme" where
  "getCursor dev s =
     (let s = outb CSL_PORT_CMD 14 s;
          (hi, s) = inb dev CSL_PORT_DATA s;
          offset = push_bit 8 (uint hi);
          s = outb CSL_PORT_CMD 15 s;
          (lo, s) = inb dev CSL_PORT_DATA s;
          offset = offset + uint lo
      in ((offset sdiv 80, offset smod 80), s))"

definition setCursor :: "int \<Rightarrow> int \<Rightarrow> 'a console_scheme \<Rightarrow> 'a console_scheme" where
  "setCursor x y s =
     (let offset = word_of_int (x * 80 + y) :: u32;
          s = outb CSL_PORT_CMD 14 s;
          s = outb CSL_PORT_DATA (ucast (signed_drop_bit 8 offset AND 0xff)) s;
          s = outb CSL_PORT_CMD 15 s
      in outb CSL_PORT_DATA (ucast (offset AND 0xff)) s)"

definition lock_console :: "'a console_scheme \<Rightarrow> 'a console_scheme option" where
  "lock_console s = do { (l, s) \<leftarrow> spinlockLock (cslLock s) s; Some (s\<lparr>cslLock := l\<rparr>) }"

definition unlock_console :: "'a console_scheme \<Rightarrow> 'a console_scheme" where
  "unlock_console s = (let (l, s) = spinlockUnlock (cslLock s) s in s\<lparr>cslLock := l\<rparr>)"

definition getPos :: "'a console_scheme \<Rightarrow> ((int \<times> int) \<times> 'a console_scheme) option" where
  "getPos s = do {
     s \<leftarrow> lock_console s;
     let pos = (row s, col s);
     Some (pos, unlock_console s) }"

definition setPos :: "int \<Rightarrow> int \<Rightarrow> u8 \<Rightarrow> 'a console_scheme \<Rightarrow> 'a console_scheme option" where
  "setPos x y c s = do {
     s \<leftarrow> lock_console s;
     let s = s\<lparr>row := x, col := y\<rparr>;
     let i = CSL_WIDTH * row s + col s;
     let s = s\<lparr>videoMemory := (videoMemory s)(i := set_char (videoMemory s i) c)\<rparr>;
     Some (unlock_console s) }"

definition scroll :: "'a console_scheme \<Rightarrow> 'a console_scheme" where
  "scroll s =
     (if row s \<ge> CSL_HEIGHT
      then s\<lparr>videoMemory := fold (\<lambda>i vm. vm(int i := vm (int i + CSL_WIDTH)))
               [0..<nat (CSL_HEIGHT * CSL_WIDTH)] (videoMemory s),
             row := CSL_HEIGHT - 1\<rparr>
      else s)"

definition putc :: "u8 \<Rightarrow> 'a console_scheme \<Rightarrow> 'a console_scheme" where
  "putc c s =
     (let i = CSL_WIDTH * row s + col s;
          s = s\<lparr>videoMemory :=
                 (videoMemory s)(i := set_char (videoMemory s i) (if c = 10 then 0x20 else c))\<rparr>;
          s = s\<lparr>col := col s + 1\<rparr>;
          s = (if col s > CSL_WIDTH \<or> c = 10 then s\<lparr>row := row s + 1, col := 0\<rparr> else s)
      in if row s > CSL_HEIGHT then clear s else s)"

text \<open>A string is read up to its terminator; a string without one is read past its end.\<close>

fun puts :: "u8 list \<Rightarrow> 'a console_scheme \<Rightarrow> 'a console_scheme option" where
  "puts [] s = None"
| "puts (c # str) s = (if c = 0 then Some s else puts str (putc c s))"

section \<open>Printing numbers\<close>

text \<open>\<open>None\<close> is an access outside \<^verbatim>\<open>digits\<close> or \<^verbatim>\<open>buf[32]\<close>, or a division by zero.\<close>

definition digit_at :: "int \<Rightarrow> u8 option" where
  "digit_at i =
     (if 0 \<le> i \<and> i < 17 then Some (cstr ''0123456789abcdef'' ! nat i) else None)"

function printi_loop :: "int \<Rightarrow> int \<Rightarrow> u8 list \<Rightarrow> u8 list option" where
  "printi_loop num base buf =
     (if num = 0 then Some buf
      else if base = 0 \<or> 32 \<le> length buf then None
      else case digit_at (num smod base) of
        None \<Rightarrow> None
      | Some d \<Rightarrow> printi_loop (num sdiv base) base (buf @ [d]))"
  by pat_completeness auto
termination
  by (relation "measure (\<lambda>(num, base, buf). 32 - length buf)") auto

declare printi_loop.simps [simp del]

definition printi :: "u32 \<Rightarrow> int \<Rightarrow> 'a console_scheme \<Rightarrow> 'a console_scheme option" where
  "printi num base s =
     (if num = 0 then Some (putc 0x30 s)
      else do {
        let neg = sint num < 0;
        let num = (if neg then - num else num);
        buf \<leftarrow> printi_loop (sint num) base [];
        buf \<leftarrow> (if neg then if length buf < 32 then Some (buf @ [0x2d]) else None else Some buf);
        Some (fold putc (rev buf) s) })"

section \<open>printf\<close>

text \<open>
  A variadic argument is the 32-bit slot the caller pushed: a number, or a pointer to a string.
  Reading a slot that was not pushed, or using a number as a string, is \<open>None\<close>.
\<close>

datatype parg = Num u32 | Str "u8 list"

definition printf_arg :: "u8 \<Rightarrow> parg list \<Rightarrow> 'a console_scheme \<Rightarrow> 'a console_scheme option" where
  "printf_arg d args s =
     (if d = 0x64 then (case args of Num w # _ \<Rightarrow> printi w 10 s | _ \<Rightarrow> None)
      else if d = 0x78 then (case args of Num w # _ \<Rightarrow> printi w 16 s | _ \<Rightarrow> None)
      else if d = 0x73 then (case args of Str p # _ \<Rightarrow> puts p s | _ \<Rightarrow> None)
      else if d = 0x63 then (case args of Num w # _ \<Rightarrow> Some (putc (ucast w) s) | _ \<Rightarrow> None)
      else Some s)"

fun printf_loop :: "u8 list \<Rightarrow> parg list \<Rightarrow> 'a console_scheme \<Rightarrow> 'a console_scheme option" where
  "printf_loop [] args s = None"
| "printf_loop (c # p) args s =
     (if c = 0 then Some s
      else if c = 0x25 then
        (case p of
          [] \<Rightarrow> None
        | d # p' \<Rightarrow> do { s \<leftarrow> printf_arg d args s; printf_loop p' (tl args) s })
      else printf_loop p args (putc c s))"

definition printf :: "u8 list \<Rightarrow> parg list \<Rightarrow> 'a console_scheme \<Rightarrow> 'a console_scheme option" where
  "printf format args s = do {
     s \<leftarrow> lock_console s;
     s \<leftarrow> printf_loop format args s;
     Some (unlock_console s) }"

definition cslInit :: "'a console_scheme \<Rightarrow> 'a console_scheme option" where
  "cslInit s = do {
     let s = s\<lparr>cslLock := spinlockInit (cslLock s)\<rparr>;
     s \<leftarrow> lock_console s;
     let s = s\<lparr>row := 0, col := 0\<rparr>;
     Some (unlock_console s) }"

section \<open>The console lock\<close>

interpretation csl: lock_interface lock_console unlock_console "\<lambda>s. lock (cslLock s) \<noteq> 0"
  by unfold_locales
    (auto simp: lock_console_def unlock_console_def spinlockLock_free spinlockLock_held
      spinlockUnlock_def Let_def)

lemma printf_guarded: "printf format args = csl.guarded (printf_loop format args)"
  by (simp add: fun_eq_iff printf_def csl.guarded_def)

lemma lock_console_free:
  "lock (cslLock s) = 0 \<Longrightarrow>
   lock_console s = Some (cli s\<lparr>cslLock := (cslLock s)\<lparr>lock := 1\<rparr>\<rparr>)"
  by (simp add: lock_console_def spinlockLock_free)

lemma lock_console_held: "lock (cslLock s) \<noteq> 0 \<Longrightarrow> lock_console s = None"
  by (rule csl.acquire_held)

section \<open>The screen\<close>

text \<open>What a loop of idempotent cell updates leaves in memory.\<close>

lemma fold_cell_update:
  assumes "\<And>x. h (h x) = h x"
  shows "fold (\<lambda>x m. m(g x := h (m (g x)))) xs m = (\<lambda>i. if i \<in> g ` set xs then h (m i) else m i)"
  using assms by (induction xs arbitrary: m) (auto simp: fun_eq_iff)

lemma set_char_idem [simp]: "set_char (set_char v c) c = set_char v c"
  by (rule bit_word_eqI) (auto simp: set_char_def bit_simps)

definition screen_cell :: "int \<Rightarrow> bool" where
  "screen_cell i \<longleftrightarrow> 0 \<le> i \<and> i < CSL_WIDTH * CSL_HEIGHT"

lemma screen_cell_rows:
  "screen_cell i \<longleftrightarrow> (\<exists>c \<in> {0..<80}. \<exists>r \<in> {0..<25}. i = 80 * int r + int c)"
proof
  assume "screen_cell i"
  then have "i = 80 * int (nat (i div 80)) + int (nat (i mod 80))"
    "nat (i mod 80) \<in> {0..<80}" "nat (i div 80) \<in> {0..<25}"
    by (auto simp: screen_cell_def)
  then show "\<exists>c \<in> {0..<80}. \<exists>r \<in> {0..<25}. i = 80 * int r + int c" by blast
qed (auto simp: screen_cell_def)

lemma fold_nested_update:
  assumes "\<And>x. h (h x) = h x"
  shows "fold (\<lambda>c. fold (\<lambda>r m. m(g r c := h (m (g r c)))) rs) cs m =
    (\<lambda>i. if \<exists>c \<in> set cs. \<exists>r \<in> set rs. i = g r c then h (m i) else m i)"
proof (induction cs arbitrary: m)
  case (Cons c cs)
  have *: "fold (\<lambda>r m. m(g r c := h (m (g r c)))) rs m =
      (\<lambda>i. if i \<in> (\<lambda>r. g r c) ` set rs then h (m i) else m i)"
    by (rule fold_cell_update [OF assms])
  show ?case
    by (simp only: fold_simps(2) comp_apply Cons.IH *) (auto simp: fun_eq_iff assms)
qed simp

lemma clear_videoMemory:
  "videoMemory (clear s) i =
     (if screen_cell i then set_char (videoMemory s i) 0x20 else videoMemory s i)"
proof -
  have "fold (\<lambda>c. fold (\<lambda>r m. m(80 * int r + int c := set_char (m (80 * int r + int c)) 0x20))
        [0..<25]) [0..<80] (videoMemory s) =
      (\<lambda>i. if \<exists>c \<in> set [0..<80]. \<exists>r \<in> set [0..<25]. i = 80 * int r + int c
           then set_char (videoMemory s i) 0x20 else videoMemory s i)"
    by (rule fold_nested_update [where h = "\<lambda>v. set_char v 0x20" and g = "\<lambda>r c. 80 * int r + int c"])
      simp
  then show ?thesis by (simp add: clear_def screen_cell_rows)
qed

lemma clear_cursor [simp]: "row (clear s) = 0" "col (clear s) = 0"
  by (simp_all add: clear_def)

text \<open>The cursor stays in a box one cell wider and one row higher than the screen.\<close>

definition cursor_ok :: "'a console_scheme \<Rightarrow> bool" where
  "cursor_ok s \<longleftrightarrow> 0 \<le> row s \<and> row s \<le> CSL_HEIGHT \<and> 0 \<le> col s \<and> col s \<le> CSL_WIDTH"

lemma putc_cursor_ok [inv_intros]: "cursor_ok s \<Longrightarrow> cursor_ok (putc c s)"
  by (auto simp: putc_def cursor_ok_def Let_def)

lemma fold_putc_cursor_ok [inv_intros]: "cursor_ok s \<Longrightarrow> cursor_ok (fold putc cs s)"
  by (induction cs arbitrary: s) (auto intro: inv_intros)

text \<open>Nothing outside 26 rows and one cell is ever written by \<^verbatim>\<open>putc\<close>.\<close>

lemma putc_frame:
  "cursor_ok s \<Longrightarrow> i < 0 \<or> 2080 < i \<Longrightarrow> videoMemory (putc c s) i = videoMemory s i"
  by (auto simp: putc_def cursor_ok_def Let_def clear_videoMemory screen_cell_def)

lemma fold_putc_frame:
  "cursor_ok s \<Longrightarrow> i < 0 \<or> 2080 < i \<Longrightarrow> videoMemory (fold putc cs s) i = videoMemory s i"
  by (induction cs arbitrary: s) (simp_all add: putc_frame putc_cursor_ok)

section \<open>printf is its formatted text\<close>

text \<open>
  The reference: the text of a number, and the text of a format with its arguments, computed
  without any console. The operations print exactly this text, one \<^verbatim>\<open>putc\<close> per character.
\<close>

definition num_text :: "u32 \<Rightarrow> int \<Rightarrow> u8 list option" where
  "num_text num base =
     (if num = 0 then Some [0x30]
      else map_option rev
        (if sint num < 0 then
           Option.bind (printi_loop (sint (- num)) base [])
             (\<lambda>buf. if length buf < 32 then Some (buf @ [0x2d]) else None)
         else printi_loop (sint num) base []))"

definition arg_text :: "u8 \<Rightarrow> parg list \<Rightarrow> u8 list option" where
  "arg_text d args =
     (if d = 0x64 then (case args of Num w # _ \<Rightarrow> num_text w 10 | _ \<Rightarrow> None)
      else if d = 0x78 then (case args of Num w # _ \<Rightarrow> num_text w 16 | _ \<Rightarrow> None)
      else if d = 0x73 then (case args of Str p # _ \<Rightarrow> c_text p | _ \<Rightarrow> None)
      else if d = 0x63 then (case args of Num w # _ \<Rightarrow> Some [ucast w] | _ \<Rightarrow> None)
      else Some [])"

fun fmt_text :: "u8 list \<Rightarrow> parg list \<Rightarrow> u8 list option" where
  "fmt_text [] args = None"
| "fmt_text (c # p) args =
     (if c = 0 then Some []
      else if c = 0x25 then
        (case p of
          [] \<Rightarrow> None
        | d # p' \<Rightarrow>
            Option.bind (arg_text d args) (\<lambda>t. map_option ((@) t) (fmt_text p' (tl args))))
      else map_option ((#) c) (fmt_text p args))"

lemma printi_text: "printi num base s = map_option (\<lambda>t. fold putc t s) (num_text num base)"
  by (cases "printi_loop (sint (- num)) base []"; cases "printi_loop (sint num) base []")
    (auto simp: printi_def num_text_def Let_def)

lemma puts_text: "puts str s = map_option (\<lambda>t. fold putc t s) (c_text str)"
  by (induction str s rule: puts.induct) (auto simp: option.map_comp comp_def)

lemma printf_arg_text:
  "printf_arg d args s = map_option (\<lambda>t. fold putc t s) (arg_text d args)"
  by (auto simp: printf_arg_def arg_text_def printi_text puts_text
      split: list.split parg.split)

lemma printf_loop_text:
  "printf_loop p args s = map_option (\<lambda>t. fold putc t s) (fmt_text p args)"
proof (induction p args s rule: printf_loop.induct)
  case (2 c p args s)
  consider "c = 0" | "c \<noteq> 0" "c \<noteq> 0x25" | "c = 0x25" "p = []"
    | d q where "c = 0x25" "p = d # q" by (cases p) auto
  then show ?case
  proof cases
    case 4
    then show ?thesis
      using "2.IH"(1) [of d q] by (cases "arg_text d args")
        (auto simp: printf_arg_text option.map_comp comp_def)
  qed (use "2.IH"(2) in \<open>auto simp: option.map_comp comp_def\<close>)
qed simp

section \<open>The printed number reads back\<close>

text \<open>The value of a digit, of digits listed least significant first, and of a printed text.\<close>

definition digit_val :: "u8 \<Rightarrow> int" where
  "digit_val d = (if d \<le> 0x39 then uint d - 0x30 else uint d - 0x57)"

fun digits_val :: "int \<Rightarrow> u8 list \<Rightarrow> int" where
  "digits_val base [] = 0"
| "digits_val base (d # ds) = digit_val d + base * digits_val base ds"

definition read_num :: "int \<Rightarrow> u8 list \<Rightarrow> int" where
  "read_num base t =
     (case t of
        c # ds \<Rightarrow> if c = 0x2d then - digits_val base (rev ds) else digits_val base (rev t)
      | [] \<Rightarrow> 0)"

lemma digit_at_val:
  assumes "0 \<le> i" "i < 16"
  shows "\<exists>d. digit_at i = Some d \<and> digit_val d = i \<and> d \<noteq> 0x2d \<and> d \<noteq> 0"
proof -
  have "list_all (\<lambda>k. case digit_at (int k) of None \<Rightarrow> False
      | Some d \<Rightarrow> digit_val d = int k \<and> d \<noteq> 0x2d \<and> d \<noteq> 0) [0..<16]"
    by code_simp
  moreover have "nat i \<in> set [0..<16]" using assms by auto
  ultimately have "case digit_at (int (nat i)) of None \<Rightarrow> False
      | Some d \<Rightarrow> digit_val d = int (nat i) \<and> d \<noteq> 0x2d \<and> d \<noteq> 0"
    unfolding list_all_iff by blast
  with assms(1) show ?thesis by (simp split: option.splits)
qed

lemma printi_loop_digits:
  assumes "2 \<le> base" "base \<le> 16"
  shows "0 \<le> num \<Longrightarrow> num < 2 ^ k \<Longrightarrow> length buf + k \<le> 32 \<Longrightarrow>
    \<exists>ds. printi_loop num base buf = Some (buf @ ds) \<and> length ds \<le> k \<and>
      digits_val base ds = num \<and> (\<forall>d \<in> set ds. d \<noteq> 0x2d \<and> d \<noteq> 0) \<and>
      (num \<noteq> 0 \<longrightarrow> ds \<noteq> [] \<and> digit_val (last ds) \<noteq> 0)"
proof (induction k arbitrary: num buf)
  case 0
  then show ?case by (simp add: printi_loop.simps)
next
  case (Suc k)
  show ?case
  proof (cases "num = 0")
    case True
    then show ?thesis by (simp add: printi_loop.simps)
  next
    case False
    have sd: "num smod base = num mod base" "num sdiv base = num div base"
      using Suc.prems assms False by (simp_all add: signed_modulo_int_def signed_divide_int_def)
    have "0 \<le> num mod base" "num mod base < 16"
      using assms by (auto intro: order_less_le_trans [OF pos_mod_bound])
    then obtain d where d: "digit_at (num mod base) = Some d" "digit_val d = num mod base"
        "d \<noteq> 0x2d" "d \<noteq> 0"
      using digit_at_val by blast
    have q: "0 \<le> num div base" using Suc.prems assms by (simp add: pos_imp_zdiv_nonneg_iff)
    have "num div base \<le> num div 2"
      using Suc.prems assms by (intro zdiv_mono2) auto
    with Suc.prems have q': "num div base < 2 ^ k" by simp
    from Suc.IH [OF q q', of "buf @ [d]"] Suc.prems obtain ds where
      ds: "printi_loop (num div base) base (buf @ [d]) = Some (buf @ d # ds)" "length ds \<le> k"
        "digits_val base ds = num div base" "\<forall>d \<in> set ds. d \<noteq> 0x2d \<and> d \<noteq> 0"
        "num div base \<noteq> 0 \<longrightarrow> ds \<noteq> [] \<and> digit_val (last ds) \<noteq> 0" by auto
    have "digit_val (last (d # ds)) \<noteq> 0"
    proof (cases "num div base = 0")
      case True
      with False have "num mod base \<noteq> 0" by (metis mult_div_mod_eq add_0 mult_zero_right)
      moreover have "printi_loop 0 base (buf @ [d]) = Some (buf @ [d])"
        by (simp add: printi_loop.simps)
      ultimately show ?thesis using ds(1) True d(2) by simp
    qed (use ds(5) in auto)
    with False Suc.prems assms ds d show ?thesis
      by (intro exI [of _ "d # ds"])
        (simp add: printi_loop.simps [of num] sd mult_div_mod_eq add.commute)
  qed
qed

lemma sint_u32_bounds: "- 2147483648 \<le> sint (w :: u32)" "sint (w :: u32) < 2147483648"
  using sint_ge [of w] sint_lt [of w] by simp_all

lemma sint_uminus:
  assumes "w \<noteq> (0x80000000 :: u32)"
  shows "sint (- w) = - sint w"
proof -
  have "sint w \<noteq> sint (0x80000000 :: u32)"
    using assms signed_word_eqI [of w "0x80000000"] by blast
  then have "sint w \<noteq> - 2147483648" by simp
  then show ?thesis
    using sint_u32_bounds [of w]
    by (simp add: sint_word_ariths signed_take_bit_int_eq_self)
qed

text \<open>A number prints in every base from 2 to 16, unless it is the least one.\<close>

lemma num_text_reads_back:
  assumes w: "w \<noteq> 0x80000000" and base: "2 \<le> base" "base \<le> 16"
  shows "\<exists>t. num_text w base = Some t \<and> read_num base t = sint w \<and> length t \<le> 32"
proof (cases "w = 0")
  case True
  then show ?thesis by (simp add: num_text_def read_num_def digit_val_def)
next
  case w0: False
  then have nz: "sint w \<noteq> 0" using signed_word_eqI [of w 0] by auto
  show ?thesis
  proof (cases "sint w < 0")
    case True
    have "- sint w < 2 ^ 31" using sint_uminus [OF w] sint_u32_bounds(2) [of "- w"] by simp
    with True obtain ds where ds: "printi_loop (- sint w) base [] = Some ds" "length ds \<le> 31"
        "digits_val base ds = - sint w"
      using printi_loop_digits [OF base, of "- sint w" 31 "[]"] by auto
    with w0 True sint_uminus [OF w] show ?thesis
      by (simp add: num_text_def read_num_def)
  next
    case False
    with sint_u32_bounds(2) [of w] obtain ds where
      ds: "printi_loop (sint w) base [] = Some ds" "length ds \<le> 31" "digits_val base ds = sint w"
        "ds \<noteq> []" "\<forall>d \<in> set ds. d \<noteq> 0x2d"
      using printi_loop_digits [OF base, of "sint w" 31 "[]"] nz by auto
    then obtain d r where "rev ds = d # r" by (cases "rev ds") auto
    moreover from this ds(5) have "d \<noteq> 0x2d" by (metis list.set_intros(1) set_rev)
    moreover from calculation(1) have "ds = rev r @ [d]" by (simp add: rev_swap)
    ultimately show ?thesis using w0 False ds by (simp add: num_text_def read_num_def)
  qed
qed

lemma num_text_least: "num_text 0x80000000 10 = None" "num_text 0x80000000 16 = None"
  by (simp_all add: num_text_def printi_loop.simps digit_at_def signed_modulo_int_def
      signed_divide_int_def)

section \<open>The hardware cursor\<close>

text \<open>
  The display controller as its documentation describes it: a write to the command port selects a
  register, a write to the data port stores into the selected register, a read of the data port
  returns the selected register.
\<close>

fun crtc_index :: "ioev list \<Rightarrow> u8" where
  "crtc_index [] = 0"
| "crtc_index (Outb p v # tr) = (if p = CSL_PORT_CMD then v else crtc_index tr)"
| "crtc_index (_ # tr) = crtc_index tr"

fun crtc_reg :: "ioev list \<Rightarrow> u8 \<Rightarrow> u8" where
  "crtc_reg [] r = 0"
| "crtc_reg (Outb p v # tr) r =
     (if p = CSL_PORT_DATA \<and> crtc_index tr = r then v else crtc_reg tr r)"
| "crtc_reg (_ # tr) r = crtc_reg tr r"

definition crtc_device :: "device \<Rightarrow> bool" where
  "crtc_device dev \<longleftrightarrow> (\<forall>tr. rd8 dev tr CSL_PORT_DATA = crtc_reg tr (crtc_index tr))"

lemma offset_bytes:
  assumes "0 \<le> n" "n < 65536"
  shows "push_bit 8 (uint (ucast (signed_drop_bit 8 (word_of_int n :: u32) AND 0xff) :: u8)) +
    uint (ucast ((word_of_int n :: u32) AND 0xff) :: u8) = n"
proof -
  let ?w = "word_of_int n :: u32"
  have "ucast (signed_drop_bit 8 ?w AND 0xff) = (ucast (drop_bit 8 ?w) :: u8)"
    by (rule bit_word_eqI) (auto simp: bit_simps mask_numerals)
  moreover have "ucast (?w AND 0xff) = (ucast ?w :: u8)"
    by (rule bit_word_eqI) (auto simp: bit_simps mask_numerals)
  moreover have "uint (ucast (drop_bit 8 ?w) :: u8) = n div 256"
    "uint (ucast ?w :: u8) = n mod 256"
    using assms by (simp_all add: unsigned_ucast_eq unsigned_drop_bit_eq unsigned_of_int
        take_bit_eq_mod drop_bit_eq_div [where 'a = int])
  ultimately show ?thesis by (simp add: push_bit_eq_mult)
qed

section \<open>Text within a row\<close>

lemma putc_in_row:
  assumes "c \<noteq> 10" "col s < CSL_WIDTH" "row s \<le> CSL_HEIGHT"
  shows "putc c s = s\<lparr>videoMemory := (videoMemory s)(CSL_WIDTH * row s + col s :=
      set_char (videoMemory s (CSL_WIDTH * row s + col s)) c), col := col s + 1\<rparr>"
  using assms by (simp add: putc_def Let_def)

lemma fold_putc_row:
  assumes "10 \<notin> set cs" "col s + int (length cs) \<le> CSL_WIDTH" "row s \<le> CSL_HEIGHT"
  shows "fold putc cs s = s\<lparr>videoMemory := (\<lambda>i.
      let j = i - (CSL_WIDTH * row s + col s)
      in if 0 \<le> j \<and> j < int (length cs) then set_char (videoMemory s i) (cs ! nat j)
         else videoMemory s i), col := col s + int (length cs)\<rparr>"
  using assms
proof (induction cs arbitrary: s)
  case Nil
  show ?case by (rule console.equality) (auto simp: Let_def fun_eq_iff)
next
  case (Cons c cs)
  let ?s = "putc c s"
  have s': "?s = s\<lparr>videoMemory := (videoMemory s)(CSL_WIDTH * row s + col s :=
      set_char (videoMemory s (CSL_WIDTH * row s + col s)) c), col := col s + 1\<rparr>"
    using Cons.prems by (intro putc_in_row) auto
  have "10 \<notin> set cs" "col ?s + int (length cs) \<le> CSL_WIDTH" "row ?s \<le> CSL_HEIGHT"
    using Cons.prems s' by simp_all
  note IH = Cons.IH [OF this]
  have cell: "nat (i - (80 * row s + (col s + 1))) = nat (i - (80 * row s + col s)) - Suc 0" for i
    by simp
  have "fold putc (c # cs) s = fold putc cs ?s" by simp
  also note IH
  finally show ?case
    unfolding s' by (simp only:, intro console.equality) (auto simp: Let_def fun_eq_iff cell)
qed

text \<open>A state to evaluate on: blank screen, cursor at the top left, lock free.\<close>

definition blank_console :: console where
  "blank_console = \<lparr>iotrace = [], iflag = True, row = 0, col = 0, videoMemory = (\<lambda>_. 0x0700),
     cslLock = \<lparr>lock = 0\<rparr>\<rparr>"

section \<open>Properties\<close>

text \<open>
  C38. \<^verbatim>\<open>printf\<close> deadlocks when the console lock is taken; otherwise it prints, character by
  character through \<^verbatim>\<open>putc\<close>, exactly the text its format and arguments denote, fails where
  that text is not defined, and leaves the lock free with interrupts on.
\<close>

theorem printf_prints_text:
  "printf format args s =
     (if lock (cslLock s) \<noteq> 0 then None
      else map_option
        (\<lambda>t. unlock_console (fold putc t (cli s\<lparr>cslLock := (cslLock s)\<lparr>lock := 1\<rparr>\<rparr>)))
        (fmt_text format args))"
  by (cases "fmt_text format args")
    (simp_all add: printf_def lock_console_held lock_console_free printf_loop_text)

text \<open>
  C32. Number printing: in every base from 2 to 16, every number but the least one is printed as a
  text that reads back as the number, within the 32 bytes of the buffer.
\<close>

theorem printi_reads_back:
  assumes "w \<noteq> 0x80000000" "2 \<le> base" "base \<le> 16"
  shows "\<exists>t. printi w base s = Some (fold putc t s) \<and> read_num base t = sint w \<and> length t \<le> 32"
  using num_text_reads_back [OF assms] by (auto simp: printi_text)

theorem printi_reads_back_witness:
  "\<exists>t. printi (- 42) 10 blank_console = Some (fold putc t blank_console) \<and> read_num 10 t = - 42 \<and>
     length t \<le> 32"
  using printi_reads_back [of "- 42" 10 blank_console] by simp

text \<open>
  The least \<^verbatim>\<open>int\<close> is not printed: its negation is itself, the remainders are negative, and
  the first digit is read in front of the digit table.
\<close>

theorem printi_least_fails:
  "printi 0x80000000 10 s = None" "printi 0x80000000 16 s = None"
  by (simp_all add: printi_text num_text_least)



text \<open>
  Text without line breaks that fits into the rest of a row appears there, one cell per
  character with the attributes of the cells kept, and moves the cursor behind it; every other
  cell stays.
\<close>

theorem puts_writes_row:
  assumes "c_text str = Some t" "10 \<notin> set t" "col s + int (length t) \<le> CSL_WIDTH"
    and "row s \<le> CSL_HEIGHT"
  shows "\<exists>s'. puts str s = Some s' \<and> row s' = row s \<and> col s' = col s + int (length t) \<and>
    (\<forall>i. videoMemory s' i =
      (let j = i - (CSL_WIDTH * row s + col s)
       in if 0 \<le> j \<and> j < int (length t) then set_char (videoMemory s i) (t ! nat j)
          else videoMemory s i))"
  using assms by (simp add: puts_text fold_putc_row)

theorem puts_writes_row_witness:
  "\<exists>s'. puts (cstr ''ok'') blank_console = Some s' \<and> videoMemory s' 1 = 0x076b"
proof -
  have t: "c_text (cstr ''ok'') = Some [0x6f, 0x6b]" by (simp add: cstr_def)
  obtain s' where s': "puts (cstr ''ok'') blank_console = Some s'"
    and cell: "\<And>i. videoMemory s' i =
      (let j = i - (CSL_WIDTH * row blank_console + col blank_console)
       in if 0 \<le> j \<and> j < int (length [0x6f, 0x6b :: u8])
          then set_char (videoMemory blank_console i) ([0x6f, 0x6b] ! nat j)
          else videoMemory blank_console i)"
    using puts_writes_row [OF t, of blank_console] by (auto simp: blank_console_def)
  have "videoMemory s' 1 = 0x076b"
    by (subst cell) (simp add: blank_console_def set_char_def)
  with s' show ?thesis by blast
qed

text \<open>
  The hardware cursor: on a display controller that keeps its registers, the position set is
  the position read back.
\<close>

theorem cursor_roundtrip:
  assumes "crtc_device dev" "0 \<le> x" "0 \<le> y" "y < 80" "x * 80 + y < 65536"
  shows "fst (getCursor dev (setCursor x y s)) = (x, y)"
proof -
  have "0 \<le> x * 80 + y" using assms by simp
  note off = offset_bytes [OF this assms(5)]
  have "(x * 80 + y) sdiv 80 = x" "(x * 80 + y) smod 80 = y"
    using assms by (simp_all add: signed_divide_int_def signed_modulo_int_def sgn_if)
  with assms(1) off show ?thesis
    by (simp add: getCursor_def setCursor_def crtc_device_def inb_def outb_def Let_def)
qed

theorem cursor_roundtrip_witness:
  "fst (getCursor \<lparr>rd8 = (\<lambda>tr p. crtc_reg tr (crtc_index tr)), rd32 = (\<lambda>_ _. 0)\<rparr>
     (setCursor 12 34 blank_console)) = (12, 34)"
  by (rule cursor_roundtrip) (simp_all add: crtc_device_def)

text \<open>
  The right margin: the 81st character of a line goes to the first cell of the next row, and
  the character that follows it, the first of the next line, overwrites it.
\<close>

theorem putc_loses_81st:
  assumes "row s < CSL_HEIGHT" "col s = CSL_WIDTH" "c \<noteq> 10" "d \<noteq> 10"
  shows "row (putc c s) = row s + 1 \<and> col (putc c s) = 0 \<and>
    videoMemory (putc c s) (CSL_WIDTH * (row s + 1)) =
      set_char (videoMemory s (CSL_WIDTH * (row s + 1))) c \<and>
    videoMemory (putc d (putc c s)) (CSL_WIDTH * (row s + 1)) =
      set_char (videoMemory (putc c s) (CSL_WIDTH * (row s + 1))) d"
  using assms by (simp add: putc_def Let_def algebra_simps)

theorem putc_loses_81st_witness:
  "videoMemory (putc 0x42 (putc 0x41 (blank_console\<lparr>col := 80\<rparr>))) 80 = 0x0742"
  using putc_loses_81st [of "blank_console\<lparr>col := 80\<rparr>" "0x41" "0x42"]
  by (simp add: blank_console_def set_char_def)

end
