(* ===== verification/Util.thy ===== *)
theory Util
  imports Prelude "HOL-Library.Sublist"
begin

text \<open>
  The memory and string routines of \<^verbatim>\<open>src/util.c\<close>. \<^verbatim>\<open>memmove\<close> works on the flat byte memory, so
  that overlapping ranges are part of the model. The string routines work on the objects their
  pointers lead to (distinct objects at every call in the kernel); an access behind the end of an
  object is the result \<open>None\<close>.
\<close>

section \<open>Memory\<close>

type_synonym mem = "u32 \<Rightarrow> u8"

fun memmove_loop :: "mem \<Rightarrow> u32 \<Rightarrow> u32 \<Rightarrow> nat \<Rightarrow> mem" where
  "memmove_loop m d s 0 = m"
| "memmove_loop m d s (Suc cnt) = memmove_loop (m(d := m s)) (d + 1) (s + 1) cnt"

definition memmove :: "mem \<Rightarrow> u32 \<Rightarrow> u32 \<Rightarrow> u32 \<Rightarrow> u32 \<times> mem" where
  "memmove m dst src cnt = (dst, memmove_loop m dst src (unat cnt))"

section \<open>Strings\<close>

fun strcmp :: "u8 list \<Rightarrow> u8 list \<Rightarrow> int option" where
  "strcmp (a # p1) (b # p2) =
     (if a = b then if a = 0 \<and> b = 0 then Some 0 else strcmp p1 p2
      else Some (if a = 0 then - 1 else 1))"
| "strcmp _ _ = None"

text \<open>The result is the destination object and the count that is left.\<close>

fun strncpy :: "u8 list \<Rightarrow> u8 list \<Rightarrow> nat \<Rightarrow> (u8 list \<times> nat) option" where
  "strncpy d s 0 = Some (d, 0)"
| "strncpy d [] (Suc cnt) = None"
| "strncpy d (x # s) (Suc cnt) =
     (if x = 0 then Some (d, Suc cnt)
      else case d of
        [] \<Rightarrow> None
      | _ # d' \<Rightarrow> map_option (\<lambda>(d'', n). (x # d'', n)) (strncpy d' s cnt))"

fun strlen :: "u8 list \<Rightarrow> nat option" where
  "strlen [] = None"
| "strlen (x # p) = (if x = 0 then Some 0 else map_option Suc (strlen p))"

fun strcat_copy :: "u8 list \<Rightarrow> u8 list \<Rightarrow> u8 list option" where
  "strcat_copy d [] = None"
| "strcat_copy d (x # s) =
     (if x = 0 then Some d
      else case d of [] \<Rightarrow> None | _ # d' \<Rightarrow> map_option ((#) x) (strcat_copy d' s))"

fun strcat :: "u8 list \<Rightarrow> u8 list \<Rightarrow> u8 list option" where
  "strcat [] s = None"
| "strcat (x # d) s =
     (if x = 0 then strcat_copy (x # d) s else map_option ((#) x) (strcat d s))"

text \<open>
  \<^verbatim>\<open>split\<close>: the two-dimensional array \<^verbatim>\<open>terms[NTERM][LTERM]\<close> is its 200 bytes in memory order,
  \<^verbatim>\<open>terms[i][j]\<close> the byte \<^verbatim>\<open>20 * i + j\<close>.
\<close>

abbreviation (input) NTERM :: nat where "NTERM \<equiv> 10"
abbreviation (input) LTERM :: nat where "LTERM \<equiv> 20"

definition put_term :: "u8 list \<Rightarrow> nat \<Rightarrow> nat \<Rightarrow> u8 \<Rightarrow> u8 list option" where
  "put_term terms i j b =
     (let k = LTERM * i + j in if k < length terms then Some (terms[k := b]) else None)"

fun split_skip :: "u8 list \<Rightarrow> u8 \<Rightarrow> u8 list option" where
  "split_skip [] c = None"
| "split_skip (x # p) c = (if x = c then split_skip p c else Some (x # p))"

fun split_loop :: "u8 list \<Rightarrow> u8 \<Rightarrow> nat \<Rightarrow> nat \<Rightarrow> u8 list \<Rightarrow> (nat \<times> u8 list) option" where
  "split_loop [] c i j terms = None"
| "split_loop (x # p) c i j terms =
     (if x = 0 then Some (i, terms)
      else if x = c then do { terms \<leftarrow> put_term terms i j 0; split_loop p c (i + 1) 0 terms }
      else do { terms \<leftarrow> put_term terms i j x; split_loop p c i (j + 1) terms })"

definition split :: "u8 list \<Rightarrow> u8 \<Rightarrow> u8 list \<Rightarrow> (nat \<times> u8 list) option" where
  "split str c terms = do { p \<leftarrow> split_skip str c; split_loop p c 0 0 terms }"

section \<open>What memmove does\<close>

lemma memmove_loop_snoc:
  "memmove_loop m d s (Suc n) =
     (let m' = memmove_loop m d s n in m'(d + of_nat n := m' (s + of_nat n)))"
proof (induction n arbitrary: m d s)
  case (Suc n)
  let ?m = "m(d := m s)"
  have "memmove_loop m d s (Suc (Suc n)) = memmove_loop ?m (d + 1) (s + 1) (Suc n)"
    by (rule memmove_loop.simps(2))
  also have "\<dots> = (let m' = memmove_loop ?m (d + 1) (s + 1) n
      in m'(d + 1 + of_nat n := m' (s + 1 + of_nat n)))"
    by (rule Suc.IH)
  also have "memmove_loop ?m (d + 1) (s + 1) n = memmove_loop m d s (Suc n)"
    by (rule memmove_loop.simps(2) [symmetric])
  finally show ?case by (simp only: of_nat_Suc add.assoc)
qed simp

lemma of_nat_u32_eq_iff:
  "i < 4294967296 \<Longrightarrow> j < 4294967296 \<Longrightarrow> (of_nat i :: u32) = of_nat j \<longleftrightarrow> i = j"
  by (simp add: word_of_nat_eq_iff take_bit_eq_mod)

lemma unat_of_nat_u32: "i < 4294967296 \<Longrightarrow> unat (of_nat i :: u32) = i"
  by (simp add: unat_of_nat)

lemma memmove_loop_outside:
  "n < 4294967296 \<Longrightarrow> n \<le> unat (x - d) \<Longrightarrow> memmove_loop m d s n x = m x"
proof (induction n)
  case (Suc n)
  then have "x \<noteq> d + of_nat n" by (auto simp: unat_of_nat)
  with Suc show ?case by (simp add: memmove_loop_snoc Let_def del: memmove_loop.simps)
qed simp

text \<open>
  With the destination \<open>k\<close> bytes behind the source, the result is the first \<open>k\<close> source bytes
  repeated: a copy when the ranges do not overlap that way (\<open>n \<le> k\<close>).
\<close>

lemma memmove_loop_inside:
  assumes k: "k = unat (d - s)" "0 < k"
  shows "n < 4294967296 \<Longrightarrow> i < n \<Longrightarrow>
    memmove_loop m d s n (d + of_nat i) = m (s + of_nat (i mod k))"
proof (induction n arbitrary: i)
  case (Suc n)
  have d: "d = s + of_nat k" using k by simp
  have klt: "k < 4294967296" using k by simp
  show ?case
  proof (cases "i = n")
    case False
    with Suc.prems have "d + of_nat i \<noteq> d + of_nat n" by (simp add: of_nat_u32_eq_iff)
    with False Suc show ?thesis by (simp add: memmove_loop_snoc Let_def del: memmove_loop.simps)
  next
    case i: True
    have "memmove_loop m d s n (s + of_nat n) = m (s + of_nat (n mod k))"
    proof (cases "n < k")
      case True
      have "s + of_nat n - d = of_nat n - of_nat k" using d by simp
      also have "unat (of_nat n - of_nat k :: u32) = 4294967296 - (k - n)"
        using True klt Suc.prems by (simp add: unat_sub_if_size word_size unat_of_nat)
      finally have "n \<le> unat (s + of_nat n - d)" using True klt by simp
      with True Suc.prems show ?thesis by (simp add: memmove_loop_outside)
    next
      case False
      then have s: "s + of_nat n = d + of_nat (n - k)" using d by simp
      have nk: "(n - k) mod k = n mod k" using False by (simp add: le_mod_geq)
      have "n < 4294967296" "n - k < n" using Suc.prems k(2) False by simp_all
      from Suc.IH [OF this] show ?thesis by (simp only: s nk)
    qed
    with i show ?thesis by (simp add: memmove_loop_snoc Let_def del: memmove_loop.simps)
  qed
qed simp

text \<open>Onto itself, nothing changes.\<close>

lemma memmove_loop_same: "memmove_loop m d d n = m"
  by (induction n arbitrary: d m) simp_all

section \<open>What the string routines do\<close>

lemma strlen_text: "strlen s = map_option length (c_text s)"
  by (induction s) (auto simp: option.map_comp comp_def)

lemma strcmp_text:
  "c_text p1 = Some a \<Longrightarrow> c_text p2 = Some b \<Longrightarrow>
   strcmp p1 p2 = Some (if a = b then 0 else if strict_prefix a b then - 1 else 1)"
  by (induction p1 p2 arbitrary: a b rule: strcmp.induct)
    (auto split: if_splits simp: strict_prefix_def)

lemma strncpy_text:
  "c_text s = Some t \<Longrightarrow> min n (length t) \<le> length d \<Longrightarrow>
   strncpy d s n = Some (blit d 0 (take n t), n - length t)"
proof (induction d s n arbitrary: t rule: strncpy.induct)
  case (3 d x s cnt)
  show ?case
  proof (cases "x = 0")
    case False
    with 3(2) obtain t' where t': "c_text s = Some t'" "t = x # t'" by auto
    with 3(3) obtain y d' where d: "d = y # d'" "min cnt (length t') \<le> length d'"
      by (cases d) auto
    show ?thesis
      using "3.IH" [OF False d(1) t'(1) d(2)] False t' d by (simp add: blit_def)
  qed (use 3 in \<open>auto simp: blit_def\<close>)
qed (auto simp: blit_def)

lemma strcat_copy_text:
  "c_text s = Some t \<Longrightarrow> length t \<le> length d \<Longrightarrow> strcat_copy d s = Some (blit d 0 t)"
proof (induction d s arbitrary: t rule: strcat_copy.induct)
  case (2 d x s)
  then show ?case
    by (cases d) (auto simp: blit_def split: if_splits)
qed simp

lemma strcat_text:
  "c_text d = Some a \<Longrightarrow> c_text s = Some b \<Longrightarrow> length a + length b \<le> length d \<Longrightarrow>
   strcat d s = Some (blit d (length a) b)"
proof (induction d s arbitrary: a rule: strcat.induct)
  case (2 x d s)
  show ?case
  proof (cases "x = 0")
    case True
    with 2 strcat_copy_text [of s b "x # d"] show ?thesis by simp
  next
    case False
    with 2 show ?thesis by (auto simp: blit_def)
  qed
qed simp

section \<open>What split does\<close>

text \<open>
  A path is a run of separators, then tokens each closed by a separator, then a rest that no
  separator closes. Each closed token becomes a terminated row; the rest is written to the row
  behind them but neither terminated nor counted.
\<close>

definition clean :: "u8 \<Rightarrow> u8 list \<Rightarrow> bool" where
  "clean c t \<longleftrightarrow> c \<notin> set t \<and> 0 \<notin> set t"

lemma put_term_Some:
  "LTERM * i + j < length terms \<Longrightarrow> put_term terms i j b = Some (terms[LTERM * i + j := b])"
  by (simp add: put_term_def Let_def)

lemma split_loop_token:
  "clean c t \<Longrightarrow> LTERM * i + j + length t \<le> length terms \<Longrightarrow>
   split_loop (t @ p) c i j terms =
     split_loop p c i (j + length t) (blit terms (LTERM * i + j) t)"
proof (induction t arbitrary: j terms)
  case Nil
  then show ?case by (simp add: blit_def)
next
  case (Cons x t)
  then have "clean c t" "LTERM * i + (j + 1) + length t \<le> length terms" "x \<noteq> 0" "x \<noteq> c"
    by (auto simp: clean_def)
  with Cons.IH [of "j + 1" "terms[LTERM * i + j := x]"] Cons.prems show ?case
    using blit_Cons [of "LTERM * i + j" x t terms] by (simp add: put_term_Some)
qed

lemma split_loop_closed:
  assumes "clean c t" "c \<noteq> 0" "LTERM * i + length t < length terms"
  shows "split_loop (t @ c # p) c i 0 terms =
    split_loop p c (i + 1) 0 (blit terms (LTERM * i) (t @ [0]))"
proof -
  have "(blit terms (LTERM * i) t)[LTERM * i + length t := 0] = blit terms (LTERM * i) (t @ [0])"
    using assms(3) by (intro nth_equalityI) (auto simp: nth_blit nth_list_update nth_append)
  with assms show ?thesis
    by (simp add: split_loop_token put_term_Some)
qed

lemma split_skip_replicate:
  "x \<noteq> c \<Longrightarrow> split_skip (replicate k c @ x # p) c = Some (x # p)"
  by (induction k) simp_all

text \<open>Row \<open>i\<close> of the array as a C string.\<close>

definition term_row :: "u8 list \<Rightarrow> nat \<Rightarrow> u8 list option" where
  "term_row terms i = c_text (drop (LTERM * i) terms)"

lemma c_text_agree:
  assumes "c_text xs = Some t" "take (Suc (length t)) ys = take (Suc (length t)) xs"
  shows "c_text ys = Some t"
proof -
  from assms(1) have "take (Suc (length t)) xs = t @ [0]" "0 \<notin> set t"
    by (auto simp: c_text_Some_iff)
  with assms(2) have "ys = t @ 0 # drop (Suc (length t)) ys"
    by (metis append_Cons append_Nil append_assoc append_take_drop_id)
  with \<open>0 \<notin> set t\<close> show ?thesis by (metis c_text_append)
qed

lemma term_row_blit_same:
  assumes "0 \<notin> set t" "LTERM * i + length t < length terms"
  shows "term_row (blit terms (LTERM * i) (t @ [0])) i = Some t"
  using assms by (simp add: term_row_def blit_def)

lemma term_row_blit_later:
  assumes "term_row terms k = Some t" "length t < LTERM" "k < i" "LTERM * i + length new \<le> length terms"
  shows "term_row (blit terms (LTERM * i) new) k = Some t"
proof -
  have "take (Suc (length t)) (drop (LTERM * k) (blit terms (LTERM * i) new)) =
      take (Suc (length t)) (drop (LTERM * k) terms)"
    using assms(2-4) by (intro take_drop_blit_other) auto
  with assms(1) show ?thesis unfolding term_row_def by (rule c_text_agree)
qed

lemma split_loop_tokens:
  assumes "c \<noteq> 0" "length terms = 200" "clean c rest"
    "LTERM * (i + length ts) + length rest \<le> 200"
    and "\<forall>t \<in> set ts. clean c t \<and> length t < LTERM"
  shows "\<exists>terms'. split_loop (concat (map (\<lambda>t. t @ [c]) ts) @ rest @ 0 # r) c i 0 terms =
      Some (i + length ts, terms') \<and> length terms' = 200 \<and>
    (\<forall>k < length ts. term_row terms' (i + k) = Some (ts ! k)) \<and>
    (\<forall>k t. k < i \<longrightarrow> length t < LTERM \<longrightarrow> term_row terms k = Some t \<longrightarrow> term_row terms' k = Some t)"
  using assms(2-5)
proof (induction ts arbitrary: i terms)
  case Nil
  with assms(1) show ?case
    by (auto simp: split_loop_token clean_def intro!: term_row_blit_later)
next
  case (Cons t ts)
  let ?terms = "blit terms (LTERM * i) (t @ [0])"
  have t: "clean c t" "length t < LTERM" "LTERM * i + length t < length terms"
    using Cons.prems by auto
  from t Cons.prems have "length ?terms = 200" "LTERM * (i + 1 + length ts) + length rest \<le> 200"
    "\<forall>t \<in> set ts. clean c t \<and> length t < LTERM" by simp_all
  from Cons.IH [OF this(1) Cons.prems(2) this(2,3)] obtain terms' where
    run: "split_loop (concat (map (\<lambda>t. t @ [c]) ts) @ rest @ 0 # r) c (i + 1) 0 ?terms =
        Some (i + 1 + length ts, terms')" "length terms' = 200"
    and rows: "\<forall>k < length ts. term_row terms' (i + 1 + k) = Some (ts ! k)"
    and keep: "\<And>k u. k < i + 1 \<Longrightarrow> length u < LTERM \<Longrightarrow> term_row ?terms k = Some u \<Longrightarrow>
        term_row terms' k = Some u" by blast
  have row: "term_row ?terms i = Some t"
    using t by (intro term_row_blit_same) (auto simp: clean_def)
  have "term_row terms' (i + k) = Some ((t # ts) ! k)" if "k < length (t # ts)" for k
    using that rows keep [of i t] row t by (cases k) auto
  moreover have "term_row terms' k = Some u"
    if "k < i" "length u < LTERM" "term_row terms k = Some u" for k u
    using that t by (intro keep term_row_blit_later) auto
  ultimately show ?case
    using run split_loop_closed [OF t(1) assms(1) t(3)] by auto
qed

text \<open>The bytes of a memory range; disjoint ranges are copied as \<open>blit\<close> copies lists.\<close>

definition peek :: "mem \<Rightarrow> u32 \<Rightarrow> nat \<Rightarrow> u8 list" where
  "peek m a n = map (\<lambda>i. m (a + of_nat i)) [0..<n]"

lemma memmove_disjoint:
  assumes "unat cnt \<le> unat (dst - src)"
  shows "peek (snd (memmove m dst src cnt)) dst (unat cnt) = peek m src (unat cnt)"
proof (cases "dst = src")
  case False
  then have "0 < unat (dst - src)" by (simp add: unat_gt_0)
  with assms show ?thesis
    by (simp add: peek_def memmove_def memmove_loop_inside)
qed (use assms in \<open>simp add: peek_def memmove_def\<close>)

section \<open>Properties\<close>

text \<open>
  \<^verbatim>\<open>memmove\<close> copies forward: with the destination \<open>k > 0\<close> bytes behind the source, byte \<open>i\<close>
  of the destination becomes source byte \<open>i mod k\<close> (so the copy is exact when \<open>cnt \<le> k\<close> and
  repeats the first \<open>k\<close> bytes when the ranges overlap), nothing else changes, and the
  destination is returned.
\<close>

theorem memmove_forward_copy:
  assumes "k = unat (dst - src)" "0 < k"
  shows "fst (memmove m dst src cnt) = dst \<and>
    (\<forall>i < unat cnt. snd (memmove m dst src cnt) (dst + of_nat i) = m (src + of_nat (i mod k))) \<and>
    (\<forall>x. unat cnt \<le> unat (x - dst) \<longrightarrow> snd (memmove m dst src cnt) x = m x)"
  using assms by (simp add: memmove_def memmove_loop_inside memmove_loop_outside)

theorem memmove_forward_copy_witness:
  "snd (memmove (\<lambda>a. ucast a) 101 100 3) 103 = 100"
proof -
  have "\<forall>i < unat (3 :: u32). snd (memmove (\<lambda>a. ucast a) 101 100 3) (101 + of_nat i) =
      ucast (100 + of_nat (i mod 1) :: u32)"
    using memmove_forward_copy [of 1 101 100 "\<lambda>a. ucast a" 3] by simp
  from this [rule_format, of 2] show ?thesis by simp
qed

text \<open>
  \<^verbatim>\<open>strcmp\<close> on two terminated strings: 0 exactly for equal texts, -1 exactly when the first is
  a proper prefix of the second, and 1 in every other case, whichever is the greater.
\<close>

theorem strcmp_classifies:
  assumes "c_text p1 = Some a" "c_text p2 = Some b"
  shows "strcmp p1 p2 = Some (if a = b then 0 else if strict_prefix a b then - 1 else 1)"
  using assms by (rule strcmp_text)

theorem strcmp_classifies_witness:
  "strcmp (cstr ''b'') (cstr ''a'') = Some 1 \<and> strcmp (cstr ''a'') (cstr ''b'') = Some 1"
proof -
  have "c_text (cstr ''a'') = Some [0x61]" "c_text (cstr ''b'') = Some [0x62]"
    by (simp_all add: cstr_def)
  then show ?thesis
    using strcmp_classifies [of "cstr ''b''" _ "cstr ''a''"] strcmp_classifies [of "cstr ''a''" _ "cstr ''b''"]
    by simp
qed

text \<open>
  \<^verbatim>\<open>strcat\<close> puts the second text over the first one's terminator and writes no terminator: the
  text of the result goes on with whatever the destination object holds behind.
\<close>

theorem strcat_keeps_no_terminator:
  assumes "c_text d = Some a" "c_text s = Some b" "b \<noteq> []" "length a + length b \<le> length d"
  shows "\<exists>d'. strcat d s = Some d' \<and> length d' = length d \<and>
    c_text d' = map_option (\<lambda>r. a @ b @ r) (c_text (drop (length a + length b) d))"
proof -
  have clean: "0 \<notin> set (a @ b)" and d: "take (length a) d = a"
    using assms(1,2) by (auto simp: c_text_Some_iff)
  have app: "0 \<notin> set u \<Longrightarrow> c_text (u @ r) = map_option ((@) u) (c_text r)" for u r :: "u8 list"
    by (cases "c_text r"; induction u; simp)
  have "blit d (length a) b = (a @ b) @ drop (length a + length b) d"
    using d by (simp add: blit_def)
  moreover have "c_text ((a @ b) @ r) = map_option (\<lambda>r. a @ b @ r) (c_text r)" for r
    using app [OF clean, of r] by (cases "c_text r") simp_all
  ultimately show ?thesis
    using strcat_text [OF assms(1,2,4)] assms(4) by simp
qed

theorem strcat_keeps_no_terminator_witness:
  "\<exists>d'. strcat [0x61, 0, 0x78, 0] (cstr ''b'') = Some d' \<and> c_text d' = Some [0x61, 0x62, 0x78]"
  using strcat_keeps_no_terminator [of "[0x61, 0, 0x78, 0]" "[0x61]" "cstr ''b''" "[0x62]"]
  by (simp add: cstr_def)

text \<open>
  \<^verbatim>\<open>split\<close> returns the tokens that a separator closes, one terminated row each, in order; what
  follows the last separator is not counted.
\<close>

theorem split_closed_tokens:
  assumes "c \<noteq> 0" "length terms = 200" "clean c rest" "\<forall>t \<in> set ts. clean c t \<and> length t < LTERM"
    and "LTERM * length ts + length rest \<le> 200" "ts \<noteq> [] \<longrightarrow> hd ts \<noteq> []"
  shows "\<exists>terms'. split (replicate k c @ concat (map (\<lambda>t. t @ [c]) ts) @ rest @ [0]) c terms =
      Some (length ts, terms') \<and> (\<forall>i < length ts. term_row terms' i = Some (ts ! i))"
proof -
  let ?p = "concat (map (\<lambda>t. t @ [c]) ts) @ rest @ [0]"
  obtain x q where "?p = x # q" "x \<noteq> c"
    using assms(1,3,4,6) by (cases ts; cases rest; cases "hd ts") (auto simp: clean_def)
  then have "split_skip (replicate k c @ ?p) c = Some ?p"
    by (simp add: split_skip_replicate)
  with split_loop_tokens [of c terms rest 0 ts "[]"] assms(1-5) show ?thesis
    by (auto simp: split_def)
qed

theorem split_closed_tokens_witness:
  "\<exists>terms'. split (cstr ''/usr/bin'') 0x2f (replicate 200 0) = Some (1, terms') \<and>
     term_row terms' 0 = Some [0x75, 0x73, 0x72]"
  using split_closed_tokens [of "0x2f" "replicate 200 0" "[0x62, 0x69, 0x6e]" "[[0x75, 0x73, 0x72]]" 1]
  by (simp add: clean_def cstr_def)

end
