(* ===== verification/Memory.thy ===== *)
theory Memory
  imports Util
begin

text \<open>
  Physical pages, page tables and the kernel heap of \<^verbatim>\<open>src/memory.c\<close> (with the address macros of
  \<^verbatim>\<open>src/memory.h\<close>, in the configuration \<^verbatim>\<open>VIRTUAL_MACHINE\<close> the header selects).

  The state is the flat byte memory with the globals of the file and the two control registers it
  loads. Paging is never switched on (\<^verbatim>\<open>pgenable\<close> is not called), so every pointer is a physical
  address.
\<close>

section \<open>Addresses\<close>

abbreviation (input) PGSIZE :: u32 where "PGSIZE \<equiv> 4096"
abbreviation (input) KERNELBASE :: u32 where "KERNELBASE \<equiv> 0x8000000"
abbreviation (input) KERNSIZE :: u32 where "KERNSIZE \<equiv> 0x10000000"
abbreviation (input) PAGE_PRESENT :: u32 where "PAGE_PRESENT \<equiv> 1"
abbreviation (input) PAGE_RW :: u16 where "PAGE_RW \<equiv> 2"
abbreviation (input) PAGE_USER :: u16 where "PAGE_USER \<equiv> 4"

definition VTOP :: "u32 \<Rightarrow> u32" where "VTOP a = a - KERNELBASE"
definition PTOV :: "u32 \<Rightarrow> u32" where "PTOV a = a + KERNELBASE"
definition PGDINDEX :: "u32 \<Rightarrow> u32" where "PGDINDEX va = drop_bit 22 va AND 0x3ff"
definition PGTINDEX :: "u32 \<Rightarrow> u32" where "PGTINDEX va = drop_bit 12 va AND 0x3ff"
definition PPN :: "u32 \<Rightarrow> u32" where "PPN pa = pa AND NOT (PGSIZE - 1)"
definition OFFSET :: "u32 \<Rightarrow> u32" where "OFFSET a = a AND 0xfff"
definition PGUPBOUND :: "u32 \<Rightarrow> u32" where "PGUPBOUND a = (a + PGSIZE - 1) AND NOT (PGSIZE - 1)"
definition PGLOWBOUND :: "u32 \<Rightarrow> u32" where "PGLOWBOUND a = a AND NOT (PGSIZE - 1)"

section \<open>State\<close>

record kmem =
  mem :: mem
  pgavail :: int
  pglist_next :: u32
  brk :: u32
  kmsize :: u32
  kpgdir :: u32
  cr3 :: u32
  cr4 :: u32

definition load32 :: "mem \<Rightarrow> u32 \<Rightarrow> u32" where
  "load32 m a = word_of_bytes (m a) (m (a + 1)) (m (a + 2)) (m (a + 3))"

definition store32 :: "mem \<Rightarrow> u32 \<Rightarrow> u32 \<Rightarrow> mem" where
  "store32 m a v = m(a := byte_of v 0, a + 1 := byte_of v 1, a + 2 := byte_of v 2, a + 3 := byte_of v 3)"

section \<open>Operations\<close>

fun stosb_loop :: "mem \<Rightarrow> u32 \<Rightarrow> u8 \<Rightarrow> nat \<Rightarrow> mem" where
  "stosb_loop m addr data 0 = m"
| "stosb_loop m addr data (Suc cnt) = stosb_loop (m(addr := data)) (addr + 1) data cnt"

definition stosb :: "mem \<Rightarrow> u32 \<Rightarrow> u32 \<Rightarrow> u32 \<Rightarrow> mem" where
  "stosb m addr data cnt = stosb_loop m addr (ucast data) (unat cnt)"

definition memset :: "mem \<Rightarrow> u32 \<Rightarrow> u32 \<Rightarrow> u32 \<Rightarrow> mem" where
  "memset m addr data cnt = stosb m addr data cnt"

text \<open>The control registers; \<^verbatim>\<open>cr0\<close> is never accessed.\<close>

definition lcr3 :: "u32 \<Rightarrow> kmem \<Rightarrow> kmem" where [simp]:
  "lcr3 val s = s\<lparr>cr3 := val\<rparr>"

definition rcr3 :: "kmem \<Rightarrow> u32" where [simp]:
  "rcr3 s = cr3 s"

definition lcr4 :: "u32 \<Rightarrow> kmem \<Rightarrow> kmem" where [simp]:
  "lcr4 val s = s\<lparr>cr4 := val\<rparr>"

definition switchPageTable :: "u32 \<Rightarrow> kmem \<Rightarrow> kmem" where
  "switchPageTable pgd s = lcr3 (VTOP pgd) s"

definition switchpgt :: "u32 \<Rightarrow> kmem \<Rightarrow> kmem" where
  "switchpgt npgd s = lcr3 npgd s"

definition pgenable :: "kmem \<Rightarrow> kmem" where
  "pgenable s = (let s = lcr4 PGSIZE s in switchPageTable (kpgdir s) s)"

definition allocPage :: "kmem \<Rightarrow> u32 \<times> kmem" where
  "allocPage s =
     (if pgavail s > 0
      then let p = pglist_next s
           in (load32 (mem s) p, s\<lparr>pglist_next := load32 (mem s) (p + 4), pgavail := pgavail s - 1\<rparr>)
      else (brk s, s\<lparr>brk := brk s + PGSIZE\<rparr>))"

text \<open>
  \<^verbatim>\<open>freePage\<close> writes its list node through a local pointer that it never sets: the value \<open>p\<close> of
  that pointer is whatever the stack holds, a parameter here.
\<close>

definition freePage :: "u32 \<Rightarrow> u32 \<Rightarrow> kmem \<Rightarrow> kmem" where
  "freePage p addr s =
     (let m = store32 (mem s) p addr;
          m = memset m (load32 m p) 0 PGSIZE;
          m = store32 m (p + 4) (pglist_next s)
      in s\<lparr>mem := m, pglist_next := p, pgavail := pgavail s + 1\<rparr>)"

definition getpte :: "u32 \<Rightarrow> u32 \<Rightarrow> kmem \<Rightarrow> u32" where
  "getpte pgd va s =
     (let plb = PGLOWBOUND va;
          pde = load32 (mem s) (pgd + 4 * PGDINDEX plb)
      in if pde AND PAGE_PRESENT \<noteq> 0
         then let pgtbl = PPN pde; e = load32 (mem s) (pgtbl + 4 * PGTINDEX plb)
              in if e AND PAGE_PRESENT \<noteq> 0 then e else 0
         else 0)"

definition translate :: "u32 \<Rightarrow> u32 \<Rightarrow> kmem \<Rightarrow> u32" where
  "translate pgd va s =
     (let pte = getpte pgd va s in if pte \<noteq> 0 then PPN pte OR OFFSET va else 0)"

text \<open>The C function is called \<^verbatim>\<open>map\<close>.\<close>

definition map_page :: "u32 \<Rightarrow> u32 \<Rightarrow> u32 \<Rightarrow> u16 \<Rightarrow> kmem \<Rightarrow> u32 \<times> kmem" where
  "map_page pgd pa va flags s =
     (let plb = PGLOWBOUND va;
          pde = load32 (mem s) (pgd + 4 * PGDINDEX plb);
          (pgtbl, pde, s) =
            (if pde AND PAGE_PRESENT \<noteq> 0 then (PPN pde, pde, s)
             else let (pgtbl, s) = allocPage s;
                      s = s\<lparr>mem := memset (mem s) pgtbl 0 (1024 * 4)\<rparr>
                  in (pgtbl, pgtbl OR ucast flags OR PAGE_PRESENT, s));
          s = s\<lparr>mem := store32 (mem s) (pgd + 4 * PGDINDEX plb) pde\<rparr>;
          s = s\<lparr>mem := store32 (mem s) (pgtbl + 4 * PGTINDEX plb)
                        (PPN pa OR ucast flags OR PAGE_PRESENT)\<rparr>
      in (load32 (mem s) (pgtbl + 4 * PGTINDEX plb), s))"

partial_function (option) rangemap_loop ::
  "u32 \<Rightarrow> u32 \<Rightarrow> u32 \<Rightarrow> u32 \<Rightarrow> u16 \<Rightarrow> kmem \<Rightarrow> kmem option" where
  "rangemap_loop pgd plb pub vlb flags s =
     (if plb < pub
      then rangemap_loop pgd (plb + PGSIZE) pub (vlb + PGSIZE) flags (snd (map_page pgd plb vlb flags s))
      else Some s)"

definition rangemap :: "u32 \<Rightarrow> u32 \<Rightarrow> u32 \<Rightarrow> u32 \<Rightarrow> u16 \<Rightarrow> kmem \<Rightarrow> kmem option" where
  "rangemap pgd pa va sz flags s =
     (let plb = PGLOWBOUND pa; pub = plb + sz; vlb = PGLOWBOUND va
      in rangemap_loop pgd plb pub vlb flags s)"

text \<open>\<open>kernheap\<close> is the end of the kernel image, which the linker provides.\<close>

definition kmemInit :: "u32 \<Rightarrow> kmem \<Rightarrow> kmem option" where
  "kmemInit kernheap s = do {
     let s = s\<lparr>pgavail := 0\<rparr>;
     let s = s\<lparr>brk := PGUPBOUND kernheap\<rparr>;
     let s = s\<lparr>kmsize := brk s\<rparr>;
     let (pgd, s) = allocPage s;
     let s = s\<lparr>kpgdir := pgd\<rparr>;
     let s = s\<lparr>mem := memset (mem s) (kpgdir s) 0 (1024 * 4)\<rparr>;
     s \<leftarrow> rangemap (kpgdir s) 0 (PTOV 0) KERNSIZE PAGE_RW s;
     Some (switchPageTable (kpgdir s) s) }"

partial_function (option) copypgt_loop :: "u32 \<Rightarrow> u32 \<Rightarrow> u32 \<Rightarrow> u32 \<Rightarrow> kmem \<Rightarrow> kmem option" where
  "copypgt_loop opgd npgd sz p s =
     (if p < sz
      then let pte = getpte opgd p s;
               flags = ucast (OFFSET pte) :: u16;
               pa = PPN pte OR ucast flags;
               (npa, s) = allocPage s;
               s = s\<lparr>mem := snd (memmove (mem s) npa (PTOV pa) PGSIZE)\<rparr>;
               s = snd (map_page npgd p (VTOP npa) flags s)
           in copypgt_loop opgd npgd sz (p + PGSIZE) s
      else Some s)"

definition copypgt :: "u32 \<Rightarrow> u32 \<Rightarrow> kmem \<Rightarrow> (u32 \<times> kmem) option" where
  "copypgt opgd sz s =
     (let (npgd, s) = allocPage s
      in do { s \<leftarrow> copypgt_loop opgd npgd sz 0 s; Some (npgd, s) })"

partial_function (option) vmalloc_loop :: "u32 \<Rightarrow> u32 \<Rightarrow> kmem \<Rightarrow> kmem option" where
  "vmalloc_loop upbound newsize s =
     (if upbound < newsize
      then let (pg, s) = allocPage s in vmalloc_loop (upbound + PGSIZE) newsize s
      else Some s)"

text \<open>The page flags \<^verbatim>\<open>vmalloc\<close> computes from the privilege are not used: the mapping is commented out.\<close>

definition vmalloc :: "u32 \<Rightarrow> u32 \<Rightarrow> u32 \<Rightarrow> u32 \<Rightarrow> kmem \<Rightarrow> (u32 \<times> kmem) option" where
  "vmalloc pgd oldsize newsize privilege s = do {
     s \<leftarrow> vmalloc_loop (PGUPBOUND oldsize) newsize s;
     Some (newsize, s) }"

definition sbrk :: "u32 \<Rightarrow> kmem \<Rightarrow> (u32 \<times> kmem) option" where
  "sbrk sz s = do {
     let addr = kmsize s;
     (_, s) \<leftarrow> vmalloc (kpgdir s) (kmsize s) (kmsize s + sz) 3 s;
     Some (addr, s\<lparr>kmsize := kmsize s + sz\<rparr>) }"

definition kmalloc :: "u32 \<Rightarrow> kmem \<Rightarrow> (u32 \<times> kmem) option" where
  "kmalloc sz s = sbrk sz s"

section \<open>Pages and table entries\<close>

lemma PGLOWBOUND_PPN [layout_simps]: "PGLOWBOUND a = PPN a"
  by (simp add: PGLOWBOUND_def PPN_def)

lemma bit_PPN [layout_simps]: "bit (PPN a) n \<longleftrightarrow> 12 \<le> n \<and> bit a n"
proof -
  have "PPN a = a AND NOT (mask 12)" by (simp add: PPN_def mask_eq_exp_minus_1)
  then show ?thesis by (auto simp: bit_simps dest: bit_imp_le_length)
qed

lemma bit_OFFSET [layout_simps]: "bit (OFFSET a) n \<longleftrightarrow> n < 12 \<and> bit a n"
  by (auto simp: OFFSET_def mask_numerals bit_simps dest: bit_imp_le_length)

lemma unat_OFFSET: "unat (OFFSET a) = unat a mod 4096"
  by (simp add: OFFSET_def mask_numerals unsigned_take_bit_eq take_bit_eq_mod [where 'a = nat]
      flip: take_bit_eq_mask)

lemma PPN_OR_OFFSET: "PPN a OR OFFSET a = a"
  by (rule bit_word_eqI) (auto simp: layout_simps bit_simps)

lemma PPN_plus_OFFSET: "PPN a + OFFSET a = a"
proof -
  have "PPN a + OFFSET a = PPN a OR OFFSET a"
    by (rule disjunctive_add) (auto simp: layout_simps)
  then show ?thesis by (simp add: PPN_OR_OFFSET)
qed

lemma unat_PPN: "unat (PPN a) = unat a - unat a mod 4096"
proof -
  have "PPN a = a - OFFSET a" using PPN_plus_OFFSET [of a] by (simp add: algebra_simps)
  moreover have "OFFSET a \<le> a" by (simp add: word_le_nat_alt unat_OFFSET)
  ultimately show ?thesis by (simp add: unat_sub unat_OFFSET)
qed

definition aligned :: "u32 \<Rightarrow> bool" where
  "aligned a \<longleftrightarrow> OFFSET a = 0"

lemma aligned_nat: "aligned a \<longleftrightarrow> unat a mod 4096 = 0"
  by (metis aligned_def unat_OFFSET unat_0 unat_eq_zero)

lemma aligned_PPN [simp]: "aligned (PPN a)"
  by (simp add: aligned_def) (rule bit_word_eqI, auto simp: layout_simps)

lemma PPN_aligned: "aligned a \<Longrightarrow> PPN a = a"
  using PPN_plus_OFFSET [of a] by (simp add: aligned_def)

lemma PPN_idem [simp]: "PPN (PPN a) = PPN a"
  by (simp add: PPN_aligned)

lemma unat_PGDINDEX: "unat (PGDINDEX va) = unat va div 4194304 mod 1024"
  by (simp add: PGDINDEX_def mask_numerals unsigned_take_bit_eq unsigned_drop_bit_eq
      take_bit_eq_mod [where 'a = nat] drop_bit_eq_div [where 'a = nat] flip: take_bit_eq_mask)

lemma unat_PGTINDEX: "unat (PGTINDEX va) = unat va div 4096 mod 1024"
  by (simp add: PGTINDEX_def mask_numerals unsigned_take_bit_eq unsigned_drop_bit_eq
      take_bit_eq_mod [where 'a = nat] drop_bit_eq_div [where 'a = nat] flip: take_bit_eq_mask)

lemma index_less [simp]: "unat (PGDINDEX va) < 1024" "unat (PGTINDEX va) < 1024"
  by (simp_all add: unat_PGDINDEX unat_PGTINDEX)

lemma bit_index [layout_simps]:
  "bit (PGDINDEX a) n \<longleftrightarrow> n < 10 \<and> bit a (22 + n)"
  "bit (PGTINDEX a) n \<longleftrightarrow> n < 10 \<and> bit a (12 + n)"
  by (auto simp: PGDINDEX_def PGTINDEX_def mask_numerals bit_simps)

lemma index_PPN [simp]: "PGDINDEX (PPN a) = PGDINDEX a" "PGTINDEX (PPN a) = PGTINDEX a"
  by (rule bit_word_eqI; auto simp: layout_simps)+

lemma PPN_eq_iff: "PPN a = PPN b \<longleftrightarrow> PGDINDEX a = PGDINDEX b \<and> PGTINDEX a = PGTINDEX b"
proof
  assume "PPN a = PPN b"
  then show "PGDINDEX a = PGDINDEX b \<and> PGTINDEX a = PGTINDEX b"
    by (metis index_PPN)
next
  assume eq: "PGDINDEX a = PGDINDEX b \<and> PGTINDEX a = PGTINDEX b"
  show "PPN a = PPN b"
  proof (rule bit_word_eqI)
    fix n assume "n < LENGTH(32)"
    then consider "n < 12" | "12 \<le> n" "n < 22" | "22 \<le> n" "n < 32" by fastforce
    then show "bit (PPN a) n = bit (PPN b) n"
    proof cases
      case 2
      then have "n - 12 < 10" by simp
      moreover have "bit (PGTINDEX a) (n - 12) = bit (PGTINDEX b) (n - 12)" using eq by simp
      ultimately show ?thesis using 2 by (simp add: layout_simps)
    next
      case 3
      then have "n - 22 < 10" by simp
      moreover have "bit (PGDINDEX a) (n - 22) = bit (PGDINDEX b) (n - 22)" using eq by simp
      ultimately show ?thesis using 3 by (simp add: layout_simps)
    qed (simp add: layout_simps)
  qed
qed

section \<open>Loads and stores\<close>

lemma load32_store32 [simp]: "load32 (store32 m a v) a = v"
  by (simp add: load32_def store32_def flip: One_nat_def)

lemma store32_outside:
  "x \<noteq> a \<Longrightarrow> x \<noteq> a + 1 \<Longrightarrow> x \<noteq> a + 2 \<Longrightarrow> x \<noteq> a + 3 \<Longrightarrow> store32 m a v x = m x"
  by (simp add: store32_def)

lemma load32_cong:
  "(\<And>k. k < 4 \<Longrightarrow> m (a + of_nat k) = m' (a + of_nat k)) \<Longrightarrow> load32 m a = load32 m' a"
proof -
  assume *: "\<And>k. k < 4 \<Longrightarrow> m (a + of_nat k) = m' (a + of_nat k)"
  from *[of 0] *[of 1] *[of 2] *[of 3] show ?thesis by (simp add: load32_def)
qed

lemma unat_plus_small:
  "unat a + k < 4294967296 \<Longrightarrow> unat (a + of_nat k :: u32) = unat a + k"
  by (rule unat_add_of_nat)

lemma load32_store32_other:
  assumes "unat a + 4 \<le> unat b \<or> unat b + 4 \<le> unat a" "unat a + 3 < 4294967296" "unat b + 3 < 4294967296"
  shows "load32 (store32 m a v) b = load32 m b"
proof (rule load32_cong)
  fix k :: nat assume k: "k < 4"
  have ub: "unat (b + of_nat k) = unat b + k" using assms(3) k by (intro unat_plus_small) simp
  have ua: "unat (a + of_nat j) = unat a + j" if "j < 4" for j
    using assms(2) that by (intro unat_plus_small) simp
  have ne: "b + of_nat k \<noteq> a + of_nat j" if "j < 4" for j
  proof
    assume "b + of_nat k = a + of_nat j"
    then have "unat b + k = unat a + j" using ub ua [OF that] by simp
    with assms(1) k that show False by auto
  qed
  from ne [of 0] ne [of 1] ne [of 2] ne [of 3] show "store32 m a v (b + of_nat k) = m (b + of_nat k)"
    by (intro store32_outside) simp_all
qed

lemma stosb_loop_apply:
  "n \<le> 4294967296 \<Longrightarrow> stosb_loop m a d n x = (if unat (x - a) < n then d else m x)"
proof (induction n arbitrary: m a)
  case (Suc n)
  have 1: "unat (x - (a + 1)) < n \<or> x = a \<longleftrightarrow> unat (x - a) < Suc n"
  proof (cases "x = a")
    case False
    then have "0 < unat (x - a)" by (simp add: unat_gt_0)
    then have "unat (x - (a + 1)) = unat (x - a) - 1"
      using unat_sub [of 1 "x - a"] by (simp add: word_le_nat_alt algebra_simps)
    with \<open>0 < unat (x - a)\<close> False show ?thesis by auto
  qed simp
  with Suc show ?case by (auto simp: unat_gt_0)
qed simp

lemma memset_apply:
  "memset m a d n x = (if unat (x - a) < unat n then ucast d else m x)"
  by (simp add: memset_def stosb_def stosb_loop_apply less_imp_le)

section \<open>Tables\<close>

text \<open>Entry \<open>i\<close> of the directory or table at \<open>t\<close>.\<close>

definition entry :: "mem \<Rightarrow> u32 \<Rightarrow> u32 \<Rightarrow> u32" where
  "entry m t i = load32 m (t + 4 * i)"

lemma alignedE:
  assumes "aligned t"
  obtains n where "unat t = 4096 * n" "n < 1048576"
proof
  show "unat t = 4096 * (unat t div 4096)" using assms mult_div_mod_eq [of 4096 "unat t"] by (simp add: aligned_nat)
  show "unat t div 4096 < 1048576" using unat_u32_less [of t] by (simp add: div_less_iff_less_mult)
qed

lemma aligned_le: "aligned t \<Longrightarrow> unat t + 4096 \<le> 4294967296"
  by (erule alignedE) simp

lemma aligned_apart:
  assumes "aligned t" "aligned t'" "t \<noteq> t'"
  shows "unat t + 4096 \<le> unat t' \<or> unat t' + 4096 \<le> unat t"
proof -
  from assms obtain n n' where "unat t = 4096 * n" "unat t' = 4096 * n'"
    by (meson alignedE)
  moreover from this assms(3) have "n \<noteq> n'" by (auto simp: word_unat_eq_iff)
  ultimately show ?thesis by linarith
qed

lemma unat_entry:
  assumes "aligned t" "unat i < 1024"
  shows "unat (t + 4 * i) = unat t + 4 * unat i"
proof -
  have "unat (4 * i :: u32) = 4 * unat i" using assms(2) by (simp add: unat_word_ariths)
  with aligned_le [OF assms(1)] assms(2) show ?thesis by (simp add: unat_add_lt)
qed

lemma entry_store_same [simp]:
  assumes "aligned t" "unat i < 1024" "unat j < 1024"
  shows "entry (store32 m (t + 4 * i) v) t j = (if i = j then v else entry m t j)"
proof (cases "i = j")
  case False
  then have "unat i \<noteq> unat j" by (simp add: word_unat_eq_iff)
  then have "load32 (store32 m (t + 4 * i) v) (t + 4 * j) = load32 m (t + 4 * j)"
    using assms(2,3) aligned_le [OF assms(1)]
    by (intro load32_store32_other) (auto simp: unat_entry [OF assms(1)])
  with False show ?thesis by (simp add: entry_def)
qed (simp add: entry_def)

lemma entry_store_other [simp]:
  assumes "aligned t" "aligned t'" "t \<noteq> t'" "unat i < 1024" "unat j < 1024"
  shows "entry (store32 m (t + 4 * i) v) t' j = entry m t' j"
  unfolding entry_def
proof (rule load32_store32_other)
  show "unat (t + 4 * i) + 4 \<le> unat (t' + 4 * j) \<or> unat (t' + 4 * j) + 4 \<le> unat (t + 4 * i)"
    using aligned_apart [OF assms(1-3)] assms by (auto simp: unat_entry)
  show "unat (t + 4 * i) + 3 < 4294967296" "unat (t' + 4 * j) + 3 < 4294967296"
    using aligned_le [OF assms(1)] aligned_le [OF assms(2)] assms by (simp_all add: unat_entry)
qed

lemma page_offset:
  assumes "aligned t" "aligned t'" "k < 4096"
  shows "unat (t' + of_nat k - t) < 4096 \<longleftrightarrow> t' = t"
proof -
  have u: "unat (t' + of_nat k) = unat t' + k"
    using assms(3) aligned_le [OF assms(2)] by (intro unat_plus_small) simp
  show ?thesis
  proof (cases "t' = t")
    case True
    then show ?thesis using assms(3) by (simp add: unat_of_nat)
  next
    case False
    with aligned_apart [OF assms(1,2)] consider "unat t + 4096 \<le> unat t'" | "unat t' + 4096 \<le> unat t"
      by auto
    then show ?thesis
    proof cases
      case 1
      then have "unat (t' + of_nat k - t) = unat t' + k - unat t"
        using u by (simp add: unat_sub_if')
      with 1 False show ?thesis by simp
    next
      case 2
      then have "unat (t' + of_nat k - t) = 4294967296 + unat t' + k - unat t"
        using u assms(3) by (simp add: unat_sub_if')
      with 2 False aligned_le [OF assms(1)] show ?thesis by simp
    qed
  qed
qed

lemma entry_memset:
  assumes "aligned t" "aligned t'" "unat j < 1024"
  shows "entry (memset m t 0 4096) t' j = (if t = t' then 0 else entry m t' j)"
proof -
  have "memset m t 0 4096 (t' + 4 * j + of_nat k) = (if t = t' then 0 else m (t' + 4 * j + of_nat k))"
    if "k < 4" for k
  proof -
    have "t' + 4 * j + of_nat k = t' + of_nat (4 * unat j + k)" by simp
    moreover have "4 * unat j + k < 4096" using assms(3) that by simp
    ultimately have "unat (t' + 4 * j + of_nat k - t) < 4096 \<longleftrightarrow> t' = t"
      using page_offset [OF assms(1,2)] by metis
    then show ?thesis by (simp add: memset_apply)
  qed
  then have "load32 (memset m t 0 4096) (t' + 4 * j) =
      load32 (\<lambda>x. if t = t' then 0 else m x) (t' + 4 * j)"
    by (intro load32_cong) simp
  also have "\<dots> = (if t = t' then 0 else load32 m (t' + 4 * j))"
    by (simp add: load32_def word_of_bytes_def)
  finally show ?thesis by (simp add: entry_def)
qed

section \<open>Page directories\<close>

definition present :: "u32 \<Rightarrow> bool" where
  "present v \<longleftrightarrow> v AND PAGE_PRESENT \<noteq> 0"

text \<open>The table entry a directory in memory gives for an address (0 when there is none).\<close>

definition pte_of :: "mem \<Rightarrow> u32 \<Rightarrow> u32 \<Rightarrow> u32" where
  "pte_of m pgd va =
     (let d = entry m pgd (PGDINDEX va); e = entry m (PPN d) (PGTINDEX va)
      in if present d \<and> present e then e else 0)"

lemma getpte_pte_of: "getpte pgd va s = pte_of (mem s) pgd va"
  by (simp add: getpte_def pte_of_def present_def entry_def layout_simps Let_def)

text \<open>
  A well-formed directory: page aligned, its tables are pages different from it and from each other.
\<close>

definition wf_dir :: "mem \<Rightarrow> u32 \<Rightarrow> bool" where
  "wf_dir m pgd \<longleftrightarrow> aligned pgd \<and>
     (\<forall>i. unat i < 1024 \<longrightarrow> present (entry m pgd i) \<longrightarrow> PPN (entry m pgd i) \<noteq> pgd \<and>
        (\<forall>j. unat j < 1024 \<longrightarrow> present (entry m pgd j) \<longrightarrow>
           PPN (entry m pgd i) = PPN (entry m pgd j) \<longrightarrow> i = j))"

definition fresh_page :: "mem \<Rightarrow> u32 \<Rightarrow> u32 \<Rightarrow> bool" where
  "fresh_page m pgd t \<longleftrightarrow> aligned t \<and> t \<noteq> pgd \<and>
     (\<forall>i. unat i < 1024 \<longrightarrow> present (entry m pgd i) \<longrightarrow> PPN (entry m pgd i) \<noteq> t)"

lemma wf_dirD:
  assumes "wf_dir m pgd"
  shows "aligned pgd"
    and "unat i < 1024 \<Longrightarrow> present (entry m pgd i) \<Longrightarrow> PPN (entry m pgd i) \<noteq> pgd"
    and "unat i < 1024 \<Longrightarrow> unat j < 1024 \<Longrightarrow> present (entry m pgd i) \<Longrightarrow> present (entry m pgd j) \<Longrightarrow>
      PPN (entry m pgd i) = PPN (entry m pgd j) \<Longrightarrow> i = j"
  using assms unfolding wf_dir_def by blast+

lemma fresh_pageD:
  assumes "fresh_page m pgd t"
  shows "aligned t" "t \<noteq> pgd"
    and "unat i < 1024 \<Longrightarrow> present (entry m pgd i) \<Longrightarrow> PPN (entry m pgd i) \<noteq> t"
  using assms unfolding fresh_page_def by blast+

text \<open>Writing one entry into a present table.\<close>

lemma dir_update_present:
  assumes wf: "wf_dir m pgd" and idx: "unat di < 1024" "unat ti < 1024"
    and d: "d = entry m pgd di" "present d" and e: "present e"
    and m': "m' = store32 (store32 m (pgd + 4 * di) d) (PPN d + 4 * ti) e"
  shows "wf_dir m' pgd"
    and "pte_of m' pgd va = (if PGDINDEX va = di \<and> PGTINDEX va = ti then e else pte_of m pgd va)"
    and "\<And>j. unat j < 1024 \<Longrightarrow> entry m' pgd j = entry m pgd j"
proof -
  note al = wf_dirD(1) [OF wf]
  have ne: "PPN d \<noteq> pgd" using wf_dirD(2) [OF wf idx(1)] d by simp
  show dir: "entry m' pgd j = entry m pgd j" if "unat j < 1024" for j
    using that al ne idx d(1) by (simp add: m')
  show "wf_dir m' pgd" using wf by (simp add: wf_dir_def dir)
  have tab: "entry m' t j = (if t = PPN d \<and> j = ti then e else entry m t j)"
    if "unat j < 1024" "aligned t" "t \<noteq> pgd" for t j
    using that al ne idx by (cases "t = PPN d") (auto simp: m')
  show "pte_of m' pgd va = (if PGDINDEX va = di \<and> PGTINDEX va = ti then e else pte_of m pgd va)"
  proof (cases "present (entry m pgd (PGDINDEX va))")
    case True
    then have "PPN (entry m pgd (PGDINDEX va)) = PPN d \<longleftrightarrow> PGDINDEX va = di"
      and "PPN (entry m pgd (PGDINDEX va)) \<noteq> pgd"
      using wf_dirD(2,3) [OF wf] d idx by auto
    with True e show ?thesis by (auto simp: pte_of_def Let_def dir tab)
  next
    case False
    with d have "PGDINDEX va \<noteq> di" by auto
    with False show ?thesis by (simp add: pte_of_def Let_def dir)
  qed
qed

text \<open>Installing a new table with one entry.\<close>

lemma dir_update_absent:
  assumes wf: "wf_dir m pgd" and idx: "unat di < 1024" "unat ti < 1024"
    and absent: "\<not> present (entry m pgd di)" and fr: "fresh_page m pgd t"
    and d: "present d" "PPN d = t" and e: "present e"
    and m': "m' = store32 (store32 (memset m t 0 4096) (pgd + 4 * di) d) (t + 4 * ti) e"
  shows "wf_dir m' pgd"
    and "pte_of m' pgd va = (if PGDINDEX va = di \<and> PGTINDEX va = ti then e else pte_of m pgd va)"
    and "\<And>j. unat j < 1024 \<Longrightarrow> entry m' pgd j = (if j = di then d else entry m pgd j)"
proof -
  note al = wf_dirD(1) [OF wf] and fr' = fresh_pageD [OF fr]
  show dir: "entry m' pgd j = (if j = di then d else entry m pgd j)" if "unat j < 1024" for j
    using that al idx fr' by (auto simp: m' entry_memset)
  show "wf_dir m' pgd"
    using wf fr' d absent idx unfolding wf_dir_def by (simp add: dir) metis
  have tab: "entry m' t' j = (if t' = t then if j = ti then e else 0 else entry m t' j)"
    if "unat j < 1024" "aligned t'" "t' \<noteq> pgd" for t' j
    using that al idx fr'(1,2) by (cases "t' = t") (auto simp: m' entry_memset)
  show "pte_of m' pgd va = (if PGDINDEX va = di \<and> PGTINDEX va = ti then e else pte_of m pgd va)"
  proof (cases "PGDINDEX va = di")
    case True
    with d e absent fr'(1,2) idx show ?thesis
      by (simp add: pte_of_def Let_def dir tab)
  next
    case False
    then show ?thesis
      using wf_dirD(2) [OF wf, of "PGDINDEX va"] fr'(3) [of "PGDINDEX va"]
      by (auto simp: pte_of_def Let_def dir tab)
  qed
qed

section \<open>Mapping one page\<close>

lemma bit_flags:
  assumes "flags < (4096 :: u16)" "bit flags n"
  shows "n < 12"
proof -
  have "unat (take_bit 12 flags) = unat flags"
    using assms(1) by (simp add: unsigned_take_bit_eq take_bit_eq_mod [where 'a = nat] word_less_nat_alt)
  then have "take_bit 12 flags = flags" by (simp add: word_unat_eq_iff)
  with assms(2) show ?thesis by (metis bit_take_bit_iff)
qed

lemma PPN_flags:
  assumes "flags < (4096 :: u16)"
  shows "PPN (PPN t OR ucast flags OR PAGE_PRESENT) = PPN t"
  by (rule bit_word_eqI) (auto simp: layout_simps bit_simps dest: bit_flags [OF assms])

lemma present_flags [simp]: "present (x OR y OR PAGE_PRESENT)"
proof -
  have "bit ((x OR y OR PAGE_PRESENT) AND PAGE_PRESENT) 0" by (simp add: bit_simps)
  then show ?thesis by (auto simp: present_def simp del: bit_0)
qed

lemma allocPage_mem [simp]: "mem (snd (allocPage s)) = mem s" "kpgdir (snd (allocPage s)) = kpgdir s"
  "kmsize (snd (allocPage s)) = kmsize s"
  by (simp_all add: allocPage_def Let_def)

lemma map_page_eq:
  "map_page pgd pa va flags s =
    (let d = entry (mem s) pgd (PGDINDEX va);
         e = PPN pa OR ucast flags OR PAGE_PRESENT
     in if present d
        then (e, s\<lparr>mem := store32 (store32 (mem s) (pgd + 4 * PGDINDEX va) d)
                    (PPN d + 4 * PGTINDEX va) e\<rparr>)
        else let t = fst (allocPage s)
             in (e, (snd (allocPage s))\<lparr>mem :=
               store32 (store32 (memset (mem s) t 0 4096) (pgd + 4 * PGDINDEX va)
                 (t OR ucast flags OR PAGE_PRESENT)) (t + 4 * PGTINDEX va) e\<rparr>))"
  by (simp add: map_page_def entry_def present_def layout_simps Let_def split_beta)

text \<open>What \<^verbatim>\<open>map\<close> needs: a well-formed directory, and a fresh page if the table has to be made.\<close>

definition map_pre :: "u32 \<Rightarrow> u32 \<Rightarrow> u16 \<Rightarrow> kmem \<Rightarrow> bool" where
  "map_pre pgd va flags s \<longleftrightarrow> wf_dir (mem s) pgd \<and> flags < 4096 \<and>
     (\<not> present (entry (mem s) pgd (PGDINDEX va)) \<longrightarrow> fresh_page (mem s) pgd (fst (allocPage s)))"

lemma map_page_correct:
  fixes pa :: u32
  assumes "map_pre pgd va flags s"
  defines "s' \<equiv> snd (map_page pgd pa va flags s)"
  shows "fst (map_page pgd pa va flags s) = PPN pa OR ucast flags OR PAGE_PRESENT"
    and "wf_dir (mem s') pgd"
    and "pte_of (mem s') pgd va' =
      (if PPN va' = PPN va then PPN pa OR ucast flags OR PAGE_PRESENT else pte_of (mem s) pgd va')"
    and "unat j < 1024 \<Longrightarrow> present (entry (mem s') pgd j) \<Longrightarrow>
      present (entry (mem s) pgd j) \<and> PPN (entry (mem s') pgd j) = PPN (entry (mem s) pgd j) \<or>
      \<not> present (entry (mem s) pgd (PGDINDEX va)) \<and> PPN (entry (mem s') pgd j) = fst (allocPage s)"
proof -
  let ?d = "entry (mem s) pgd (PGDINDEX va)" and ?t = "fst (allocPage s)"
  have wf: "wf_dir (mem s) pgd" and fl: "flags < 4096" using assms(1) by (simp_all add: map_pre_def)
  show "fst (map_page pgd pa va flags s) = PPN pa OR ucast flags OR PAGE_PRESENT"
    by (simp add: map_page_eq Let_def)
  have "wf_dir (mem s') pgd \<and> pte_of (mem s') pgd va' =
      (if PPN va' = PPN va then PPN pa OR ucast flags OR PAGE_PRESENT else pte_of (mem s) pgd va') \<and>
    (unat j < 1024 \<longrightarrow> present (entry (mem s') pgd j) \<longrightarrow>
      present (entry (mem s) pgd j) \<and> PPN (entry (mem s') pgd j) = PPN (entry (mem s) pgd j) \<or>
      \<not> present ?d \<and> PPN (entry (mem s') pgd j) = ?t)"
  proof (cases "present ?d")
    case True
    then have "mem s' = store32 (store32 (mem s) (pgd + 4 * PGDINDEX va) ?d)
        (PPN ?d + 4 * PGTINDEX va) (PPN pa OR ucast flags OR PAGE_PRESENT)"
      by (simp add: s'_def map_page_eq Let_def)
    from dir_update_present [OF wf index_less refl True present_flags this]
    show ?thesis by (simp add: PPN_eq_iff)
  next
    case False
    then have fr: "fresh_page (mem s) pgd ?t" using assms(1) by (simp add: map_pre_def)
    have "PPN (?t OR ucast flags OR PAGE_PRESENT) = ?t"
      using PPN_flags [OF fl, of ?t] PPN_aligned [OF fresh_pageD(1) [OF fr]] by simp
    moreover have "mem s' = store32 (store32 (memset (mem s) ?t 0 4096) (pgd + 4 * PGDINDEX va)
        (?t OR ucast flags OR PAGE_PRESENT)) (?t + 4 * PGTINDEX va)
        (PPN pa OR ucast flags OR PAGE_PRESENT)"
      using False by (simp add: s'_def map_page_eq Let_def)
    ultimately show ?thesis
      using dir_update_absent [OF wf index_less False fr present_flags _ present_flags] False
      by (simp add: PPN_eq_iff)
  qed
  then show "wf_dir (mem s') pgd" and "pte_of (mem s') pgd va' =
      (if PPN va' = PPN va then PPN pa OR ucast flags OR PAGE_PRESENT else pte_of (mem s) pgd va')"
    and "unat j < 1024 \<Longrightarrow> present (entry (mem s') pgd j) \<Longrightarrow>
      present (entry (mem s) pgd j) \<and> PPN (entry (mem s') pgd j) = PPN (entry (mem s) pgd j) \<or>
      \<not> present ?d \<and> PPN (entry (mem s') pgd j) = ?t" by blast+
qed

section \<open>The page supply\<close>

text \<open>
  What the users of the page allocator rely on: while there is room, every page handed out is page
  aligned, was not taken before, and is taken afterwards.
\<close>

locale page_supply =
  fixes alloc :: "'s \<Rightarrow> u32 \<times> 's"
    and taken :: "'s \<Rightarrow> u32 \<Rightarrow> bool"
    and room :: "'s \<Rightarrow> nat \<Rightarrow> bool"
  assumes alloc_fresh: "room s (Suc n) \<Longrightarrow> aligned (fst (alloc s)) \<and> \<not> taken s (fst (alloc s))"
    and alloc_taken: "room s (Suc n) \<Longrightarrow> taken (snd (alloc s)) p \<longleftrightarrow> taken s p \<or> p = fst (alloc s)"
    and alloc_room: "room s (Suc n) \<Longrightarrow> room (snd (alloc s)) n"
    and room_less: "room s (Suc n) \<Longrightarrow> room s n"
begin

fun alloc_list :: "nat \<Rightarrow> 's \<Rightarrow> u32 list \<times> 's" where
  "alloc_list 0 s = ([], s)"
| "alloc_list (Suc n) s =
     (let (p, s') = alloc s; (ps, s'') = alloc_list n s' in (p # ps, s''))"

lemma alloc_list_distinct:
  assumes "room s n"
  shows "distinct (fst (alloc_list n s)) \<and> length (fst (alloc_list n s)) = n \<and>
    (\<forall>p \<in> set (fst (alloc_list n s)). aligned p \<and> \<not> taken s p) \<and>
    (\<forall>p. taken (snd (alloc_list n s)) p \<longleftrightarrow> taken s p \<or> p \<in> set (fst (alloc_list n s)))"
  using assms
proof (induction n arbitrary: s)
  case (Suc n)
  have "room (snd (alloc s)) n" using Suc.prems by (rule alloc_room)
  from Suc.IH [OF this] show ?case
    using alloc_fresh [OF Suc.prems] alloc_taken [OF Suc.prems]
    by (auto simp: Let_def split_beta)
qed simp

end

definition taken :: "kmem \<Rightarrow> u32 \<Rightarrow> bool" where
  "taken s p \<longleftrightarrow> aligned p \<and> p < brk s"

definition room :: "kmem \<Rightarrow> nat \<Rightarrow> bool" where
  "room s n \<longleftrightarrow> pgavail s \<le> 0 \<and> aligned (brk s) \<and> unat (brk s) + 4096 * n < 4294967296"

lemma allocPage_bump:
  "pgavail s \<le> 0 \<Longrightarrow> allocPage s = (brk s, s\<lparr>brk := brk s + PGSIZE\<rparr>)"
  by (simp add: allocPage_def)

lemma room_Suc:
  assumes "room s (Suc n)"
  shows "unat (brk s + PGSIZE) = unat (brk s) + 4096" "aligned (brk s + PGSIZE)"
proof -
  show u: "unat (brk s + PGSIZE) = unat (brk s) + 4096"
    using assms unat_add_lt [of "brk s" 4096] by (simp add: room_def)
  show "aligned (brk s + PGSIZE)"
    using assms by (simp add: aligned_nat u room_def)
qed

lemma aligned_less_step:
  assumes "room s (Suc n)" "aligned p"
  shows "p < brk s + PGSIZE \<longleftrightarrow> p < brk s \<or> p = brk s"
proof -
  obtain a b where "unat p = 4096 * a" "unat (brk s) = 4096 * b"
    using assms by (meson alignedE room_def)
  then show ?thesis
    using room_Suc(1) [OF assms(1)] by (auto simp: word_less_nat_alt word_unat_eq_iff)
qed

interpretation pages: page_supply allocPage taken room
proof
  fix s n assume room: "room s (Suc n)"
  then have alloc: "allocPage s = (brk s, s\<lparr>brk := brk s + PGSIZE\<rparr>)"
    by (simp add: allocPage_bump room_def)
  from room alloc show "aligned (fst (allocPage s)) \<and> \<not> taken s (fst (allocPage s))"
    by (simp add: room_def taken_def)
  show "taken (snd (allocPage s)) p \<longleftrightarrow> taken s p \<or> p = fst (allocPage s)" for p
    using alloc aligned_less_step [OF room, of p] room by (auto simp: taken_def room_def)
  show "room (snd (allocPage s)) n"
    using room alloc room_Suc [OF room] by (simp add: room_def)
  show "room s n" using room by (simp add: room_def)
qed

text \<open>A directory all of whose pages came from the supply; mapping keeps it one.\<close>

definition dir_inv :: "kmem \<Rightarrow> u32 \<Rightarrow> bool" where
  "dir_inv s pgd \<longleftrightarrow> wf_dir (mem s) pgd \<and> taken s pgd \<and>
     (\<forall>i. unat i < 1024 \<longrightarrow> present (entry (mem s) pgd i) \<longrightarrow> taken s (PPN (entry (mem s) pgd i)))"

lemma dir_inv_map_pre:
  assumes "dir_inv s pgd" "room s (Suc n)" "flags < 4096"
  shows "map_pre pgd va flags s"
  using assms pages.alloc_fresh [OF assms(2)]
  by (auto simp: map_pre_def dir_inv_def fresh_page_def)

lemma map_page_state:
  "snd (map_page pgd pa va flags s) =
    (if present (entry (mem s) pgd (PGDINDEX va)) then s else snd (allocPage s))
      \<lparr>mem := mem (snd (map_page pgd pa va flags s))\<rparr>"
  by (simp add: map_page_eq Let_def)

lemma dir_inv_map_page [inv_intros]:
  fixes pa va :: u32
  assumes inv: "dir_inv s pgd" and room: "room s (Suc n)" and fl: "flags < 4096"
  defines "s' \<equiv> snd (map_page pgd pa va flags s)"
  shows "dir_inv s' pgd" "room s' n"
proof -
  note correct = map_page_correct [OF dir_inv_map_pre [OF inv room fl, of va], where pa = pa, folded s'_def]
  have taken_mono: "taken s' p" if "taken s p" for p
    unfolding s'_def using that pages.alloc_taken [OF room, of p]
    by (subst map_page_state) (auto simp: taken_def)
  have taken_new: "taken s' (fst (allocPage s))"
    if "\<not> present (entry (mem s) pgd (PGDINDEX va))"
    unfolding s'_def using that pages.alloc_taken [OF room, of "fst (allocPage s)"]
    by (subst map_page_state) (auto simp: taken_def)
  have "taken s' (PPN (entry (mem s') pgd j))"
    if "unat j < 1024" "present (entry (mem s') pgd j)" for j
    using correct(4) [OF that] taken_mono taken_new inv that(1) unfolding dir_inv_def by metis
  with correct(2) inv taken_mono show "dir_inv s' pgd" by (simp add: dir_inv_def)
  show "room s' n"
    unfolding s'_def using pages.alloc_room [OF room] pages.room_less [OF room]
    by (subst map_page_state) (simp add: room_def)
qed

section \<open>Mapping a range\<close>

lemma PPN_add:
  assumes "aligned a"
  shows "PPN (a + x) = a + PPN x" "OFFSET (a + x) = OFFSET x"
proof -
  have "unat (OFFSET (a + x)) = unat (OFFSET x)"
    using assms by (simp add: unat_OFFSET unat_word_ariths mod_mod_cancel aligned_nat)
      (metis add_0 mod_add_left_eq)
  then show off: "OFFSET (a + x) = OFFSET x" by (simp add: word_unat_eq_iff)
  have "PPN y = y - OFFSET y" for y
    using PPN_plus_OFFSET [of y] by (metis add_diff_cancel_right')
  with off show "PPN (a + x) = a + PPN x" by simp
qed

lemma aligned_add [intro]: "aligned a \<Longrightarrow> aligned b \<Longrightarrow> aligned (a + b)"
  by (simp add: aligned_def PPN_add)

lemma aligned_PGSIZE [simp]: "aligned PGSIZE" "aligned 0"
  by (simp_all add: aligned_def OFFSET_def)

lemma same_page_iff:
  assumes "aligned a"
  shows "PPN x = a \<longleftrightarrow> unat (x - a) < 4096"
proof -
  have "PPN x = a + PPN (x - a)" using PPN_add(1) [OF assms, of "x - a"] by simp
  then have "PPN x = a \<longleftrightarrow> unat (PPN (x - a)) = 0" by (simp add: unat_eq_0)
  also have "\<dots> \<longleftrightarrow> unat (x - a) < 4096"
  proof -
    have "u - u mod 4096 = 0 \<longleftrightarrow> u < 4096" for u :: nat
      using mod_less_divisor [of 4096 u] by (cases "u < 4096") (auto simp del: mod_less_divisor)
    then show ?thesis by (simp only: unat_PPN)
  qed
  finally show ?thesis .
qed

lemma diff_page:
  assumes "4096 \<le> unat (x - a)"
  shows "unat (x - (a + PGSIZE)) = unat (x - a) - 4096"
proof -
  have "unat (y - PGSIZE) = unat y - 4096" if "4096 \<le> unat y" for y
    using that by (simp add: unat_sub_if')
  from this [OF assms] show ?thesis by (simp add: diff_diff_eq)
qed

lemma diff_page_wrap:
  assumes "unat (x - a) < 4096"
  shows "unat (x - (a + PGSIZE)) = 4294963200 + unat (x - a)"
proof -
  have "unat (y - PGSIZE) = 4294963200 + unat y" if "unat y < 4096" for y
    using that by (simp add: unat_sub_if')
  from this [OF assms] show ?thesis by (simp add: diff_diff_eq)
qed

text \<open>The entry a mapped range gives: its pages in order, each with the flags.\<close>

definition range_pte :: "u32 \<Rightarrow> u32 \<Rightarrow> nat \<Rightarrow> u16 \<Rightarrow> (u32 \<Rightarrow> u32) \<Rightarrow> u32 \<Rightarrow> u32" where
  "range_pte pa va n flags old x =
     (if unat (x - va) < 4096 * n then (pa + PPN (x - va)) OR ucast flags OR PAGE_PRESENT else old x)"

lemma range_pte_step:
  assumes al: "aligned plb" "aligned vlb" and n: "n < 1048575"
    and upd: "\<And>x. new x = (if PPN x = vlb then plb OR ucast flags OR PAGE_PRESENT else old x)"
  shows "range_pte (plb + PGSIZE) (vlb + PGSIZE) n flags new = range_pte plb vlb (Suc n) flags old"
proof
  fix x
  show "range_pte (plb + PGSIZE) (vlb + PGSIZE) n flags new x = range_pte plb vlb (Suc n) flags old x"
  proof (cases "unat (x - vlb) < 4096")
    case True
    then have "PPN x = vlb" "PPN (x - vlb) = 0"
      using same_page_iff [OF al(2), of x] same_page_iff [of 0 "x - vlb"] by simp_all
    moreover have "\<not> unat (x - (vlb + PGSIZE)) < 4096 * n"
      using n by (simp only: diff_page_wrap [OF True])
    ultimately show ?thesis using True by (simp add: range_pte_def upd)
  next
    case False
    then have d: "unat (x - (vlb + PGSIZE)) = unat (x - vlb) - 4096" by (simp only: diff_page not_less)
    have p: "PPN (x - vlb) = PGSIZE + PPN (x - (vlb + PGSIZE))"
      using PPN_add(1) [of PGSIZE "x - (vlb + PGSIZE)"] by simp
    have "PPN x \<noteq> vlb" using False same_page_iff [OF al(2), of x] by simp
    moreover have "unat (x - vlb) - 4096 < 4096 * n \<longleftrightarrow> unat (x - vlb) < 4096 * Suc n"
      using False by auto
    ultimately show ?thesis by (simp only: range_pte_def upd d p if_False add.assoc)
  qed
qed

lemma rangemap_loop_correct:
  assumes fl: "flags < 4096"
  shows "dir_inv s pgd \<Longrightarrow> room s n \<Longrightarrow> aligned plb \<Longrightarrow> aligned vlb \<Longrightarrow>
    unat plb + 4096 * n < 4294967296 \<Longrightarrow> unat pub \<le> unat plb + 4096 * n \<Longrightarrow>
    (n > 0 \<longrightarrow> unat plb + 4096 * (n - 1) < unat pub) \<Longrightarrow>
    \<exists>s'. rangemap_loop pgd plb pub vlb flags s = Some s' \<and> dir_inv s' pgd \<and> room s' 0 \<and>
      pte_of (mem s') pgd = range_pte plb vlb n flags (pte_of (mem s) pgd)"
proof (induction n arbitrary: s plb vlb)
  case 0
  then have "\<not> plb < pub" by (simp add: word_less_nat_alt)
  with 0 show ?case by (simp add: rangemap_loop.simps range_pte_def fun_eq_iff)
next
  case (Suc n)
  let ?s = "snd (map_page pgd plb vlb flags s)"
  have lt: "plb < pub" using Suc.prems(7) by (simp add: word_less_nat_alt)
  have plb': "unat (plb + PGSIZE) = unat plb + 4096"
    using Suc.prems(5) unat_add_lt [of plb 4096] by simp
  note step = dir_inv_map_page [OF Suc.prems(1,2) fl, of plb vlb]
    and pte = map_page_correct(3) [OF dir_inv_map_pre [OF Suc.prems(1,2) fl, of vlb], of plb]
  have bounds: "unat (plb + PGSIZE) + 4096 * n < 4294967296"
    "unat pub \<le> unat (plb + PGSIZE) + 4096 * n"
    "n > 0 \<longrightarrow> unat (plb + PGSIZE) + 4096 * (n - 1) < unat pub"
    using Suc.prems(5-7) unfolding plb' by (cases n; simp)+
  obtain s' where s': "rangemap_loop pgd (plb + PGSIZE) pub (vlb + PGSIZE) flags ?s = Some s'"
    "dir_inv s' pgd" "room s' 0"
    "pte_of (mem s') pgd = range_pte (plb + PGSIZE) (vlb + PGSIZE) n flags (pte_of (mem ?s) pgd)"
    using Suc.IH [OF step aligned_add [OF Suc.prems(3) aligned_PGSIZE(1)]
        aligned_add [OF Suc.prems(4) aligned_PGSIZE(1)] bounds] by blast
  have "range_pte (plb + PGSIZE) (vlb + PGSIZE) n flags (pte_of (mem ?s) pgd) =
      range_pte plb vlb (Suc n) flags (pte_of (mem s) pgd)"
    using Suc.prems(3-5) by (intro range_pte_step) (simp_all add: pte PPN_aligned)
  with s' lt show ?case by (simp add: rangemap_loop.simps [of pgd plb])
qed

section \<open>The kernel's own directory\<close>

lemma PGUPBOUND_PPN: "PGUPBOUND a = PPN (a + 4095)"
  by (simp add: PGUPBOUND_def PPN_def add_diff_eq [symmetric])

lemma aligned_PGUPBOUND [simp]: "aligned (PGUPBOUND a)"
  by (simp add: PGUPBOUND_PPN)

lemma unat_PGUPBOUND:
  assumes "unat a < 4294963201"
  shows "unat a \<le> unat (PGUPBOUND a)" "unat (PGUPBOUND a) \<le> unat a + 4095"
proof -
  have u: "unat (a + 4095) = unat a + 4095" using assms unat_add_lt [of a 4095] by simp
  have "n mod 4096 < 4096" for n :: nat by simp
  from this [of "unat a + 4095"] show "unat a \<le> unat (PGUPBOUND a)"
    unfolding PGUPBOUND_PPN unat_PPN u by linarith
  show "unat (PGUPBOUND a) \<le> unat a + 4095" by (simp only: PGUPBOUND_PPN unat_PPN u diff_le_self)
qed

lemma wf_dir_empty: "aligned t \<Longrightarrow> wf_dir (memset m t 0 4096) t"
  by (simp add: wf_dir_def entry_memset present_def)

lemma pte_of_empty: "aligned t \<Longrightarrow> pte_of (memset m t 0 4096) t va = 0"
  by (simp add: pte_of_def entry_memset present_def)

text \<open>The state in which \<^verbatim>\<open>kmemInit\<close> starts to map.\<close>

definition cleared_heap :: "u32 \<Rightarrow> kmem \<Rightarrow> kmem" where
  "cleared_heap kernheap s =
     (let b = PGUPBOUND kernheap
      in s\<lparr>pgavail := 0, kmsize := b, brk := b + PGSIZE, kpgdir := b,
            mem := memset (mem s) b 0 4096\<rparr>)"

lemma kmemInit_eq:
  "kmemInit kernheap s = do {
     s \<leftarrow> rangemap_loop (PGUPBOUND kernheap) 0 KERNSIZE KERNELBASE PAGE_RW (cleared_heap kernheap s);
     Some (switchPageTable (kpgdir s) s) }"
  by (simp add: kmemInit_def cleared_heap_def allocPage_def rangemap_def PTOV_def Let_def
      PGLOWBOUND_def)

lemma cleared_heap_inv:
  assumes "kernheap < 0x80000000"
  shows "dir_inv (cleared_heap kernheap s) (PGUPBOUND kernheap)" "room (cleared_heap kernheap s) 65536"
proof -
  let ?b = "PGUPBOUND kernheap"
  have k: "unat kernheap < 2147483648" using assms by (simp add: word_less_nat_alt)
  with unat_PGUPBOUND [of kernheap] have "unat ?b < 2147487743" by simp
  moreover from this have u: "unat (?b + PGSIZE) = unat ?b + 4096"
    using unat_add_lt [of ?b 4096] by simp
  moreover have "aligned (?b + PGSIZE)" by (intro aligned_add) simp_all
  ultimately show "room (cleared_heap kernheap s) 65536"
    by (simp add: room_def cleared_heap_def Let_def)
  show "dir_inv (cleared_heap kernheap s) ?b"
    using wf_dir_empty [of ?b "mem s"] u
    by (simp add: dir_inv_def cleared_heap_def Let_def taken_def entry_memset present_def
        word_less_nat_alt)
qed

lemma rangemap_loop_globals:
  assumes "rangemap_loop pgd plb pub vlb flags s = Some s'"
  shows "kpgdir s' = kpgdir s \<and> kmsize s' = kmsize s"
proof (rule rangemap_loop.raw_induct
    [where P = "\<lambda>pgd plb pub vlb flags s s'. kpgdir s' = kpgdir s \<and> kmsize s' = kmsize s", OF _ assms])
  fix f :: "u32 \<Rightarrow> u32 \<Rightarrow> u32 \<Rightarrow> u32 \<Rightarrow> u16 \<Rightarrow> kmem \<Rightarrow> kmem option"
    and pgd plb pub vlb flags s s'
  assume IH: "\<And>pgd plb pub vlb flags s s'. f pgd plb pub vlb flags s = Some s' \<Longrightarrow>
      kpgdir s' = kpgdir s \<and> kmsize s' = kmsize s"
    and eq: "(if plb < pub then f pgd (plb + PGSIZE) pub (vlb + PGSIZE) flags
        (snd (map_page pgd plb vlb flags s)) else Some s) = Some s'"
  have "kpgdir (snd (map_page pgd plb vlb flags s)) = kpgdir s \<and>
      kmsize (snd (map_page pgd plb vlb flags s)) = kmsize s"
    by (simp add: map_page_eq Let_def)
  with eq IH show "kpgdir s' = kpgdir s \<and> kmsize s' = kmsize s"
    by (auto split: if_splits)
qed

lemma range_pte_kernel:
  "range_pte 0 KERNELBASE 65536 PAGE_RW (\<lambda>_. 0) x =
     (if x - KERNELBASE < KERNSIZE then PPN (x - KERNELBASE) OR 2 OR PAGE_PRESENT else 0)"
  by (simp add: range_pte_def word_less_nat_alt)

lemma kmemInit_dir:
  assumes "kernheap < 0x80000000"
  shows "\<exists>s'. kmemInit kernheap s = Some s' \<and> kpgdir s' = PGUPBOUND kernheap \<and>
    kmsize s' = PGUPBOUND kernheap \<and> pgavail s' \<le> 0 \<and> dir_inv s' (kpgdir s') \<and>
    pte_of (mem s') (kpgdir s') = range_pte 0 KERNELBASE 65536 PAGE_RW (\<lambda>_. 0)"
proof -
  let ?b = "PGUPBOUND kernheap"
  have "aligned KERNELBASE" by (simp add: aligned_def OFFSET_def)
  then obtain s' where s': "rangemap_loop ?b 0 KERNSIZE KERNELBASE PAGE_RW (cleared_heap kernheap s) = Some s'"
    "dir_inv s' ?b" "room s' 0"
    "pte_of (mem s') ?b = range_pte 0 KERNELBASE 65536 PAGE_RW (pte_of (mem (cleared_heap kernheap s)) ?b)"
    using rangemap_loop_correct [OF _ cleared_heap_inv [OF assms, of s], of PAGE_RW 0 KERNELBASE KERNSIZE]
    by auto
  have "pte_of (mem (cleared_heap kernheap s)) ?b = (\<lambda>_. 0)"
    by (simp add: cleared_heap_def Let_def pte_of_empty fun_eq_iff)
  moreover have "kpgdir s' = ?b \<and> kmsize s' = ?b"
    using rangemap_loop_globals [OF s'(1)] by (simp add: cleared_heap_def Let_def)
  ultimately show ?thesis
    using s' by (simp add: kmemInit_eq switchPageTable_def dir_inv_def taken_def room_def)
qed

section \<open>The kernel heap\<close>

lemma vmalloc_loop_bump:
  "pgavail s \<le> 0 \<Longrightarrow> unat up + 4096 * n < 4294967296 \<Longrightarrow> unat newsize \<le> unat up + 4096 * n \<Longrightarrow>
   (n > 0 \<longrightarrow> unat up + 4096 * (n - 1) < unat newsize) \<Longrightarrow>
   vmalloc_loop up newsize s = Some (s\<lparr>brk := brk s + of_nat (4096 * n)\<rparr>)"
proof (induction n arbitrary: s up)
  case 0
  then have "\<not> up < newsize" by (simp add: word_less_nat_alt)
  then show ?case by (simp add: vmalloc_loop.simps)
next
  case (Suc n)
  have lt: "up < newsize" using Suc.prems(4) by (simp add: word_less_nat_alt)
  have up': "unat (up + PGSIZE) = unat up + 4096"
    using Suc.prems(2) unat_add_lt [of up 4096] by simp
  have "vmalloc_loop (up + PGSIZE) newsize (s\<lparr>brk := brk s + PGSIZE\<rparr>) =
      Some (s\<lparr>brk := brk s + PGSIZE + of_nat (4096 * n)\<rparr>)"
    using Suc.IH [of "s\<lparr>brk := brk s + PGSIZE\<rparr>" "up + PGSIZE"] Suc.prems unfolding up'
    by (cases n) simp_all
  with lt Suc.prems(1) show ?case
    by (simp add: vmalloc_loop.simps [of up] allocPage_bump add.assoc)
qed

text \<open>The number of pages that growing the heap from \<open>old\<close> to \<open>new\<close> takes.\<close>

definition grow_pages :: "u32 \<Rightarrow> u32 \<Rightarrow> nat" where
  "grow_pages old new = (unat new - unat (PGUPBOUND old) + 4095) div 4096"

lemma grow_pages_bounds:
  "unat new \<le> unat (PGUPBOUND old) + 4096 * grow_pages old new"
  "grow_pages old new > 0 \<longrightarrow> unat (PGUPBOUND old) + 4096 * (grow_pages old new - 1) < unat new"
  "unat (PGUPBOUND old) + 4096 * grow_pages old new \<le> max (unat (PGUPBOUND old)) (unat new + 4095)"
proof -
  let ?d = "unat new - unat (PGUPBOUND old) + 4095"
  have d: "4096 * (?d div 4096) \<le> ?d" "?d < 4096 * (?d div 4096) + 4096"
    by (simp_all add: dividend_less_times_div)
  show "unat new \<le> unat (PGUPBOUND old) + 4096 * grow_pages old new"
    using d unfolding grow_pages_def by linarith
  show "grow_pages old new > 0 \<longrightarrow> unat (PGUPBOUND old) + 4096 * (grow_pages old new - 1) < unat new"
    using d unfolding grow_pages_def by auto
  show "unat (PGUPBOUND old) + 4096 * grow_pages old new \<le> max (unat (PGUPBOUND old)) (unat new + 4095)"
    using d unfolding grow_pages_def by (cases "unat new \<le> unat (PGUPBOUND old)") auto
qed

lemma sbrk_bump:
  assumes "pgavail s \<le> 0" "unat (kmsize s) + unat sz < 4294963200"
  shows "sbrk sz s = Some (kmsize s, s\<lparr>kmsize := kmsize s + sz,
    brk := brk s + of_nat (4096 * grow_pages (kmsize s) (kmsize s + sz))\<rparr>)"
proof -
  let ?up = "PGUPBOUND (kmsize s)" and ?n = "grow_pages (kmsize s) (kmsize s + sz)"
  have new: "unat (kmsize s + sz) = unat (kmsize s) + unat sz"
    using assms(2) by (intro unat_add_lt) simp
  have "unat ?up \<le> unat (kmsize s) + 4095"
    using assms(2) by (intro unat_PGUPBOUND) simp
  then have "unat ?up + 4096 * ?n < 4294967296"
    using grow_pages_bounds(3) [of "kmsize s" "kmsize s + sz"] new assms(2) by linarith
  from vmalloc_loop_bump [OF assms(1) this grow_pages_bounds(1,2)] show ?thesis
    by (simp add: sbrk_def vmalloc_def)
qed

section \<open>The free list\<close>

lemma load32_memset_outside:
  assumes "\<And>k. k < 4 \<Longrightarrow> 4096 \<le> unat (p + of_nat k - addr)"
  shows "load32 (memset m addr 0 PGSIZE) p = load32 m p"
proof (rule load32_cong)
  fix k :: nat assume "k < 4"
  from assms [OF this] show "memset m addr 0 PGSIZE (p + of_nat k) = m (p + of_nat k)"
    by (simp add: memset_apply)
qed

lemma load32_store32_next: "load32 (store32 m (p + 4) v) p = load32 m p"
  by (simp add: load32_def store32_def)

text \<open>The list node at \<open>p\<close> lies outside the page at \<open>addr\<close>.\<close>

definition node_outside :: "u32 \<Rightarrow> u32 \<Rightarrow> bool" where
  "node_outside p addr \<longleftrightarrow> (\<forall>k < 8. 4096 \<le> unat (p + of_nat k - addr))"

lemma freePage_outside:
  fixes s :: kmem
  assumes "node_outside p addr"
  defines "m \<equiv> mem (freePage p addr s)"
  shows "load32 m p = addr" "load32 m (p + 4) = pglist_next s"
    and "k < 4096 \<Longrightarrow> m (addr + of_nat k) = 0"
proof -
  have out: "load32 (memset m' addr 0 PGSIZE) p = load32 m' p" for m'
    using assms(1) by (intro load32_memset_outside) (simp add: node_outside_def)
  show "load32 m p = addr" "load32 m (p + 4) = pglist_next s"
    by (simp_all add: m_def freePage_def Let_def load32_store32_next out)
  have ne: "addr + of_nat k \<noteq> p + of_nat j" if "k < 4096" "j < 8" for j
  proof
    assume "addr + of_nat k = p + of_nat j"
    then have "p + of_nat j - addr = of_nat k" by (simp add: algebra_simps)
    moreover have "unat (of_nat k :: u32) = k" using that(1) by (simp add: unat_of_nat)
    ultimately show False using assms(1) that by (auto simp: node_outside_def)
  qed
  show "m (addr + of_nat k) = 0" if k: "k < 4096"
  proof -
    have "store32 m' (p + 4) v (addr + of_nat k) = m' (addr + of_nat k)" for m' v
      using ne [OF k, of 4] ne [OF k, of 5] ne [OF k, of 6] ne [OF k, of 7]
      by (intro store32_outside) (simp_all add: add.assoc)
    with k show ?thesis
      by (simp add: m_def freePage_def Let_def memset_apply unat_of_nat)
  qed
qed

text \<open>An empty directory at \<^verbatim>\<open>0x1000\<close>, with the page supply behind it.\<close>

definition small_heap :: kmem where
  "small_heap = \<lparr>mem = (\<lambda>_. 0), pgavail = 0, pglist_next = 0, brk = 0x2000, kmsize = 0x2000,
     kpgdir = 0x1000, cr3 = 0, cr4 = 0\<rparr>"

lemma small_heap_inv: "dir_inv small_heap 0x1000" "room small_heap 8"
proof -
  have "entry (\<lambda>_. 0) t i = 0" for t i by (simp add: entry_def load32_def word_of_bytes_def)
  then show "dir_inv small_heap 0x1000"
    by (simp add: dir_inv_def wf_dir_def small_heap_def present_def taken_def aligned_def OFFSET_def)
  show "room small_heap 8" by (simp add: room_def small_heap_def aligned_def OFFSET_def)
qed

section \<open>Properties\<close>

text \<open>The kernel's directory translates linearly.\<close>

lemma kernel_pte_translate:
  assumes "pte_of (mem s) pgd = range_pte 0 KERNELBASE 65536 PAGE_RW (\<lambda>_. 0)"
  shows "translate pgd va s = (if VTOP va < KERNSIZE then VTOP va else 0)"
proof -
  let ?x = "va - KERNELBASE" and ?pte = "PPN (va - KERNELBASE) OR 2 OR PAGE_PRESENT"
  have "PPN ?pte = PPN ?x" using PPN_flags [of PAGE_RW ?x] by simp
  moreover have "?pte \<noteq> 0" using present_flags [of "PPN ?x" 2] by (auto simp: present_def)
  moreover have "OFFSET va = OFFSET ?x"
    using PPN_add(2) [of KERNELBASE ?x] by (simp add: aligned_def OFFSET_def)
  ultimately show ?thesis
    by (simp add: translate_def getpte_pte_of assms range_pte_kernel VTOP_def Let_def PPN_OR_OFFSET)
qed

lemma kmemInit_maps_kernel:
  assumes "kernheap < 0x80000000"
  shows "\<exists>s'. kmemInit kernheap s = Some s' \<and>
    (\<forall>va. translate (kpgdir s') va s' = (if VTOP va < KERNSIZE then VTOP va else 0))"
  using kmemInit_dir [OF assms, of s] kernel_pte_translate by blast

text \<open>
  The kernel's page directory: for a kernel image that ends below 2 GB, \<^verbatim>\<open>kmemInit\<close> returns, and
  afterwards exactly the 256 MB above \<^verbatim>\<open>KERNELBASE\<close> translate, each address to the physical address
  \<^verbatim>\<open>VTOP\<close> computes, byte for byte.
\<close>

theorem kmemInit_translates:
  assumes "kernheap < 0x80000000"
  shows "\<exists>s'. kmemInit kernheap s = Some s' \<and>
    (\<forall>va. translate (kpgdir s') va s' = (if VTOP va < KERNSIZE then VTOP va else 0))"
  using assms by (rule kmemInit_maps_kernel)

theorem kmemInit_translates_witness:
  "\<exists>s'. kmemInit 0x345678 small_heap = Some s' \<and> translate (kpgdir s') 0x8123456 s' = 0x123456"
  using kmemInit_translates [of "0x345678" small_heap] by (auto simp: VTOP_def)

text \<open>
  \<^verbatim>\<open>map\<close> on a well-formed directory: the entry it returns is the one the address then has, every
  address of the same page translates into the physical page, every other address keeps its
  entry, and the directory stays well formed.
\<close>

theorem map_then_translate:
  assumes "map_pre pgd va flags s"
  shows "wf_dir (mem (snd (map_page pgd pa va flags s))) pgd \<and>
    getpte pgd va (snd (map_page pgd pa va flags s)) = fst (map_page pgd pa va flags s) \<and>
    (\<forall>va'. PPN va' = PPN va \<longrightarrow>
      translate pgd va' (snd (map_page pgd pa va flags s)) = (PPN pa OR OFFSET va')) \<and>
    (\<forall>va'. PPN va' \<noteq> PPN va \<longrightarrow>
      getpte pgd va' (snd (map_page pgd pa va flags s)) = getpte pgd va' s)"
proof -
  have "flags < 4096" using assms by (simp add: map_pre_def)
  then have "PPN (PPN pa OR ucast flags OR PAGE_PRESENT) = PPN pa" by (rule PPN_flags)
  moreover have "PPN pa OR ucast flags OR PAGE_PRESENT \<noteq> 0"
    using present_flags [of "PPN pa" "ucast flags"] by (auto simp: present_def)
  ultimately show ?thesis
    using map_page_correct [OF assms]
    by (simp add: getpte_pte_of translate_def Let_def)
qed

theorem map_then_translate_witness:
  "translate 0x1000 0x40201234 (snd (map_page 0x1000 0x77000 0x40201000 PAGE_RW small_heap)) = 0x77234"
proof -
  have pre: "map_pre 0x1000 0x40201000 PAGE_RW small_heap"
    using dir_inv_map_pre [OF small_heap_inv(1), of 7] small_heap_inv(2) by simp
  have "PPN 0x40201234 = PPN 0x40201000" by (simp add: PPN_def)
  with map_then_translate [OF pre, of "0x77000"] show ?thesis by (simp add: PPN_def OFFSET_def)
qed

text \<open>
  C18. \<^verbatim>\<open>rangemap\<close>: on a directory whose pages came from the allocator, with room for one table per
  page and a physical range that does not wrap, the loop ends, and the pages of the range are
  mapped in order, everything else as before.
\<close>

theorem rangemap_maps_range:
  assumes "dir_inv s pgd" "room s n" "flags < 4096" "n = (unat sz + 4095) div 4096"
    and "unat pa + 4096 * n < 4294967296"
  shows "\<exists>s'. rangemap pgd pa va sz flags s = Some s' \<and> dir_inv s' pgd \<and>
    (\<forall>x. getpte pgd x s' =
      (if unat (x - PPN va) < 4096 * n then (PPN pa + PPN (x - PPN va)) OR ucast flags OR PAGE_PRESENT
       else getpte pgd x s))"
proof -
  have le: "unat (PPN pa) \<le> unat pa" by (simp add: unat_PPN)
  have n: "unat sz \<le> 4096 * n" "n > 0 \<longrightarrow> 4096 * (n - 1) < unat sz"
    unfolding assms(4) by auto
  have pub: "unat (PPN pa + sz) = unat (PPN pa) + unat sz"
    using le n assms(5) by (intro unat_add_lt) linarith
  have b: "unat (PPN pa) + 4096 * n < 4294967296" "unat (PPN pa + sz) \<le> unat (PPN pa) + 4096 * n"
    "n > 0 \<longrightarrow> unat (PPN pa) + 4096 * (n - 1) < unat (PPN pa + sz)"
    using le n assms(5) pub by auto
  obtain s' where s': "rangemap_loop pgd (PPN pa) (PPN pa + sz) (PPN va) flags s = Some s'" "dir_inv s' pgd"
    "pte_of (mem s') pgd = range_pte (PPN pa) (PPN va) n flags (pte_of (mem s) pgd)"
    using rangemap_loop_correct [OF assms(3,1,2) aligned_PPN aligned_PPN b] by blast
  from s'(1) have "rangemap pgd pa va sz flags s = Some s'"
    by (simp only: rangemap_def PGLOWBOUND_PPN Let_def)
  moreover from s'(3) have "getpte pgd x s' =
      (if unat (x - PPN va) < 4096 * n then (PPN pa + PPN (x - PPN va)) OR ucast flags OR PAGE_PRESENT
       else getpte pgd x s)" for x
    by (simp only: getpte_pte_of range_pte_def)
  ultimately show ?thesis using s'(2) by blast
qed

theorem rangemap_maps_range_witness:
  "\<exists>s'. rangemap 0x1000 0x50000 0x8000000 0x1800 PAGE_RW small_heap = Some s' \<and>
     getpte 0x1000 0x8001abc s' = 0x51003"
proof -
  have room: "room small_heap 2" using small_heap_inv(2) by (simp add: room_def)
  have fl: "PAGE_RW < 4096" and n: "2 = (unat (0x1800 :: u32) + 4095) div 4096"
    and pa: "unat (0x50000 :: u32) + 4096 * 2 < 4294967296" by simp_all
  have ppn: "PPN 0x8000000 = 0x8000000" "PPN 0x50000 = 0x50000" "PPN 0x1abc = 0x1000"
    by (simp_all add: PPN_def)
  obtain s' where s': "rangemap 0x1000 0x50000 0x8000000 0x1800 PAGE_RW small_heap = Some s'"
    and pte: "\<And>x. getpte 0x1000 x s' =
      (if unat (x - PPN 0x8000000) < 4096 * 2
       then (PPN 0x50000 + PPN (x - PPN 0x8000000)) OR ucast PAGE_RW OR PAGE_PRESENT
       else getpte 0x1000 x small_heap)"
    using rangemap_maps_range [OF small_heap_inv(1) room fl n pa] by blast
  have "getpte 0x1000 0x8001abc s' = 0x51003" by (subst pte) (simp add: ppn)
  with s' show ?thesis by blast
qed

text \<open>
  \<^verbatim>\<open>sbrk\<close> (without freed pages, in the lower part of the address space) returns the old end of
  the heap, moves the end by the size, so that consecutive blocks do not overlap, takes from the
  page allocator the number of pages the new end needs, and writes no memory.
\<close>

theorem sbrk_extends_heap:
  assumes "pgavail s \<le> 0" "unat (kmsize s) + unat sz < 4294963200"
  shows "sbrk sz s = Some (kmsize s, s\<lparr>kmsize := kmsize s + sz,
      brk := brk s + of_nat (4096 * grow_pages (kmsize s) (kmsize s + sz))\<rparr>)"
  using assms by (rule sbrk_bump)

theorem sbrk_extends_heap_witness:
  "sbrk 0x1001 small_heap = Some (0x2000, small_heap\<lparr>kmsize := 0x3001, brk := 0x4000\<rparr>)"
proof -
  have "PGUPBOUND 0x2000 = 0x2000" by (simp add: PGUPBOUND_def)
  with sbrk_extends_heap [of small_heap "0x1001"] show ?thesis
    by (simp add: small_heap_def grow_pages_def)
qed

text \<open>
  The heap starts on top of the page directory: \<^verbatim>\<open>kmemInit\<close> records the heap end before it
  allocates the directory, so the first block \<^verbatim>\<open>kmalloc\<close> returns begins at the directory's address.
\<close>

theorem kmalloc_returns_page_directory:
  assumes "kernheap < 0x40000000" "sz < 0x40000000"
  shows "\<exists>s1 s2. kmemInit kernheap s = Some s1 \<and> kmalloc sz s1 = Some (kpgdir s1, s2)"
proof -
  have "kernheap < 0x80000000" using assms(1) by (simp add: word_less_nat_alt)
  from kmemInit_dir [OF this, of s] obtain s1 where s1: "kmemInit kernheap s = Some s1"
    "kpgdir s1 = PGUPBOUND kernheap" "kmsize s1 = PGUPBOUND kernheap" "pgavail s1 \<le> 0" by blast
  have "unat (kmsize s1) + unat sz < 4294963200"
    using assms unat_PGUPBOUND(2) [of kernheap] s1(3) by (simp add: word_less_nat_alt)
  from sbrk_bump [OF s1(4) this] s1 show ?thesis by (simp add: kmalloc_def)
qed

theorem kmalloc_returns_page_directory_witness:
  "\<exists>s1 s2. kmemInit 0x300000 small_heap = Some s1 \<and> kmalloc 108 s1 = Some (kpgdir s1, s2)"
  by (rule kmalloc_returns_page_directory) simp_all

text \<open>
  The free list is a stack: when the list node lies outside the page, the page \<^verbatim>\<open>freePage\<close> took
  is the one the next \<^verbatim>\<open>allocPage\<close> returns, cleared, and the list behind it is the old one.
\<close>

theorem free_then_alloc:
  assumes "node_outside p addr" "0 \<le> pgavail s"
  shows "fst (allocPage (freePage p addr s)) = addr \<and>
    pglist_next (snd (allocPage (freePage p addr s))) = pglist_next s \<and>
    pgavail (snd (allocPage (freePage p addr s))) = pgavail s \<and>
    brk (snd (allocPage (freePage p addr s))) = brk s \<and>
    (\<forall>k < 4096. mem (snd (allocPage (freePage p addr s))) (addr + of_nat k) = 0)"
proof -
  have node: "pgavail (freePage p addr s) = pgavail s + 1" "pglist_next (freePage p addr s) = p"
    "brk (freePage p addr s) = brk s"
    by (simp_all add: freePage_def Let_def)
  show ?thesis
    using freePage_outside [OF assms(1), where s = s] assms(2) node by (simp add: allocPage_def)
qed

theorem free_then_alloc_witness:
  "fst (allocPage (freePage 0x9000 0x5000 small_heap)) = 0x5000"
proof -
  have "node_outside 0x9000 0x5000"
    unfolding node_outside_def
  proof (intro allI impI)
    fix k :: nat assume "k < 8"
    then have "unat (0x4000 + of_nat k :: u32) = 0x4000 + k" by (simp add: unat_add_of_nat)
    then show "4096 \<le> unat (0x9000 + of_nat k - 0x5000 :: u32)" by (simp add: add_diff_eq [symmetric])
  qed
  with free_then_alloc [of "0x9000" "0x5000" small_heap] show ?thesis by (simp add: small_heap_def)
qed

text \<open>
  The node pointer of \<^verbatim>\<open>freePage\<close> is never set. When the stale value points at the freed page
  itself, clearing the page erases the node's address, and the next \<^verbatim>\<open>allocPage\<close> returns the null
  address instead of a page.
\<close>

theorem free_node_in_page_is_lost:
  assumes "0 \<le> pgavail s"
  shows "fst (allocPage (freePage addr addr s)) = 0"
proof -
  have "load32 (memset m addr 0 PGSIZE) addr = 0" for m
    by (simp add: load32_def memset_apply word_of_bytes_def)
  with assms show ?thesis
    by (simp add: allocPage_def freePage_def Let_def load32_store32_next)
qed

theorem free_node_in_page_is_lost_witness:
  "fst (allocPage (freePage 0x5000 0x5000 small_heap)) = 0"
  by (rule free_node_in_page_is_lost) (simp add: small_heap_def)

end
