(* ===== verification/Thread.thy ===== *)
theory Thread
  imports Console
begin

text \<open>
  The kernel threads of \<^verbatim>\<open>src/thread.c\<close>: the thread table, creation and the scheduler.

  Control flow. The scheduler is the endless loop \<^verbatim>\<open>thrSched\<close>; a thread runs from the moment the
  loop switches to it until it calls \<^verbatim>\<open>thrYeild\<close>, \<^verbatim>\<open>thrExit\<close> or \<^verbatim>\<open>thrCondWait\<close>, which enter the
  loop again. \<open>thrSched_step\<close> is one turn of the loop up to the switch. A call that enters the loop
  does not return to its caller: its result is \<open>Dispatches\<close> of the state in which the next thread
  starts to run; a normal return is \<open>Returns\<close>. A spinlock that is never released again is \<open>None\<close>.
\<close>

section \<open>Threads\<close>

datatype thr_status =
  THR_UNUSED | THR_READY | THR_RUNNING | THR_SLEEPING | THR_ZOMBIE | THR_STOP

text \<open>
  A thread pointer leads to a slot of the table, or is null. \<^verbatim>\<open>thr_scheduler\<close> is never assigned: it
  is the null pointer, and the structure it is used for is the memory at address 0.
\<close>

datatype thr_ref = ThrNull | Thr nat

abbreviation (input) THRQUESIZE :: nat where "THRQUESIZE \<equiv> 256"
abbreviation (input) KSTACKSIZE :: nat where "KSTACKSIZE \<equiv> 1024"
abbreviation (input) DEFAULT_COUNTER :: u32 where "DEFAULT_COUNTER \<equiv> 100"

text \<open>
  \<open>tf\<close>, \<open>rt\<close>, \<open>st\<close> and \<open>ctx\<close> point into kernel stacks: a thread and a byte offset in its stack.
\<close>

record thread =
  tid :: u32
  status :: thr_status
  counter :: u32
  tf :: "thr_ref \<times> nat"
  rt :: "thr_ref \<times> nat"
  st :: "thr_ref \<times> nat"
  ctx :: "thr_ref \<times> nat"
  kstack :: "u8 list"
  cv :: u32

text \<open>\<open>sched_t\<close> is the local variable \<^verbatim>\<open>t\<close> of the scheduler loop, which lives across its turns.\<close>

record thr = console +
  thrqueue :: "thread list"
  thr_null :: thread
  thr_current :: thr_ref
  thrque_lock :: spinlock
  sched_t :: thr_ref

definition upd_thr :: "thr_ref \<Rightarrow> (thread \<Rightarrow> thread) \<Rightarrow> 'a thr_scheme \<Rightarrow> 'a thr_scheme" where
  "upd_thr r f s =
     (case r of
        ThrNull \<Rightarrow> s\<lparr>thr_null := f (thr_null s)\<rparr>
      | Thr i \<Rightarrow> s\<lparr>thrqueue := (thrqueue s)[i := f (thrqueue s ! i)]\<rparr>)"

definition get_thr :: "thr_ref \<Rightarrow> 'a thr_scheme \<Rightarrow> thread" where
  "get_thr r s = (case r of ThrNull \<Rightarrow> thr_null s | Thr i \<Rightarrow> thrqueue s ! i)"

section \<open>Creation\<close>

text \<open>Addresses of code, which the linker provides.\<close>

record code_syms =
  sym_trapret :: u32
  sym_kernStub :: u32
  sym_thread_entry :: u32
  sym_thrSched :: u32

fun thrAlloc_scan :: "thread list \<Rightarrow> nat \<Rightarrow> nat option" where
  "thrAlloc_scan [] i = None"
| "thrAlloc_scan (t # ts) i =
     (if status t = THR_UNUSED \<or> status t = THR_STOP then Some i else thrAlloc_scan ts (Suc i))"

definition thrAlloc :: "'a thr_scheme \<Rightarrow> nat option" where
  "thrAlloc s = thrAlloc_scan (thrqueue s) 0"

abbreviation (input) sizeof_trapframe :: nat where "sizeof_trapframe \<equiv> 76"
abbreviation (input) sizeof_runtime :: nat where "sizeof_runtime \<equiv> 12"
abbreviation (input) sizeof_stub :: nat where "sizeof_stub \<equiv> 4"
abbreviation (input) sizeof_context :: nat where "sizeof_context \<equiv> 20"

definition thread_setup :: "code_syms \<Rightarrow> u32 \<Rightarrow> u32 \<Rightarrow> nat \<Rightarrow> thread \<Rightarrow> thread" where
  "thread_setup sy thrFunc args i t =
     (let sp = KSTACKSIZE;
          sp = sp - sizeof_trapframe;
          t = t\<lparr>tf := (Thr i, sp)\<rparr>;
          sp = sp - sizeof_runtime;
          t = t\<lparr>rt := (Thr i, sp)\<rparr>;
          t = t\<lparr>kstack := put32 (kstack t) sp (sym_trapret sy)\<rparr>;
          t = t\<lparr>kstack := put32 (kstack t) (sp + 4) thrFunc\<rparr>;
          t = t\<lparr>kstack := put32 (kstack t) (sp + 8) args\<rparr>;
          sp = sp - sizeof_stub;
          t = t\<lparr>st := (Thr i, sp)\<rparr>;
          t = t\<lparr>kstack := put32 (kstack t) sp (sym_kernStub sy)\<rparr>;
          sp = sp - sizeof_context;
          t = t\<lparr>ctx := (Thr i, sp)\<rparr>;
          t = t\<lparr>kstack := blit (kstack t) sp (replicate sizeof_context 0)\<rparr>;
          t = t\<lparr>kstack := put32 (kstack t) (sp + 16) (sym_thread_entry sy)\<rparr>
      in t\<lparr>status := THR_READY, counter := DEFAULT_COUNTER\<rparr>)"

definition thrCreate ::
  "code_syms \<Rightarrow> u32 \<Rightarrow> u32 \<Rightarrow> 'a thr_scheme \<Rightarrow> u32 \<times> 'a thr_scheme" where
  "thrCreate sy thrFunc args s =
     (case thrAlloc s of
        None \<Rightarrow> (- 1, s)
      | Some i \<Rightarrow>
          let s = upd_thr (Thr i) (thread_setup sy thrFunc args i) s
          in (tid (thrqueue s ! i), s))"

definition thrInit :: "code_syms \<Rightarrow> 'a thr_scheme \<Rightarrow> 'a thr_scheme" where
  "thrInit sy s =
     (let s = cli s;
          s = s\<lparr>thrque_lock := spinlockInit (thrque_lock s)\<rparr>;
          s = fold (\<lambda>i. upd_thr (Thr i) (\<lambda>t. t\<lparr>tid := of_nat i, status := THR_UNUSED\<rparr>))
                [0..<THRQUESIZE] s;
          sp = KSTACKSIZE - sizeof_context;
          s = upd_thr ThrNull (\<lambda>t. t\<lparr>ctx := (ThrNull, sp)\<rparr>) s;
          s = upd_thr ThrNull (\<lambda>t. t\<lparr>kstack := blit (kstack t) sp (replicate sizeof_context 0)\<rparr>) s;
          s = upd_thr ThrNull (\<lambda>t. t\<lparr>kstack := put32 (kstack t) (sp + 16) (sym_thrSched sy)\<rparr>) s
      in sti s)"

section \<open>Scheduling\<close>

fun thrSched_scan :: "thread list \<Rightarrow> nat \<Rightarrow> thr_ref \<Rightarrow> int \<Rightarrow> thr_ref" where
  "thrSched_scan [] i t maxp = t"
| "thrSched_scan (x # xs) i t maxp =
     (if status x = THR_READY \<and> sint (counter x) > maxp
      then thrSched_scan xs (Suc i) (Thr i) (sint (counter x))
      else thrSched_scan xs (Suc i) t maxp)"

definition thrSched_step :: "'a thr_scheme \<Rightarrow> 'a thr_scheme" where
  "thrSched_step s =
     (let t = thrSched_scan (thrqueue s) 0 (sched_t s) 0;
          s = s\<lparr>sched_t := t\<rparr>;
          s = s\<lparr>thr_current := t\<rparr>
      in upd_thr (thr_current s) (\<lambda>x. x\<lparr>status := THR_RUNNING\<rparr>) s)"

text \<open>\<^verbatim>\<open>thrYeild\<close> and \<^verbatim>\<open>thrExit\<close> up to the switch back to the scheduler, and with its next turn.\<close>

definition yield_leave :: "'a thr_scheme \<Rightarrow> 'a thr_scheme" where
  "yield_leave s =
     (let s = upd_thr (thr_current s) (\<lambda>t. t\<lparr>status := THR_READY\<rparr>) s
      in upd_thr (thr_current s) (\<lambda>t. t\<lparr>counter := counter t - 1\<rparr>) s)"

definition thrYeild :: "'a thr_scheme \<Rightarrow> 'a thr_scheme" where
  "thrYeild s = thrSched_step (yield_leave s)"

definition thrExit :: "'a thr_scheme \<Rightarrow> 'a thr_scheme" where
  "thrExit s = thrSched_step (upd_thr (thr_current s) (\<lambda>t. t\<lparr>status := THR_ZOMBIE\<rparr>) s)"

definition getCurThread :: "'a thr_scheme \<Rightarrow> thr_ref" where
  "getCurThread s = thr_current s"

definition thrGettid :: "'a thr_scheme \<Rightarrow> u32" where
  "thrGettid s = tid (get_thr (thr_current s) s)"

text \<open>A \<^verbatim>\<open>tid\<close> outside the table is an access outside the array: \<open>None\<close>.\<close>

definition thrKill :: "u32 \<Rightarrow> 'a thr_scheme \<Rightarrow> 'a thr_scheme option" where
  "thrKill t s =
     (if unat t < length (thrqueue s)
      then Some (upd_thr (Thr (unat t)) (\<lambda>t. t\<lparr>status := THR_ZOMBIE\<rparr>) s)
      else None)"

text \<open>The stub every thread starts in: the thread's function, then \<^verbatim>\<open>thrExit\<close>.\<close>

definition kernStub :: "(u32 \<Rightarrow> 'a thr_scheme \<Rightarrow> 'a thr_scheme) \<Rightarrow> u32 \<Rightarrow> 'a thr_scheme \<Rightarrow> 'a thr_scheme" where
  "kernStub func args s = thrExit (func args s)"

section \<open>The contract of a scheduler\<close>

text \<open>
  What a priority scheduler promises: \<open>pick\<close> chooses the least position among those of the greatest
  positive priority, and a turn of the chosen one costs it one unit. From this contract alone it
  follows that the positions of equal priority take turns in the order of the table.
\<close>

locale scheduler =
  fixes prio :: "'q \<Rightarrow> int list"
    and pick :: "'q \<Rightarrow> nat option"
    and turn :: "'q \<Rightarrow> 'q"
  assumes pick_Some: "pick q = Some i \<Longrightarrow> i < length (prio q) \<and> 0 < prio q ! i
            \<and> (\<forall>j < length (prio q). prio q ! j \<le> prio q ! i) \<and> (\<forall>j < i. prio q ! j < prio q ! i)"
    and pick_None: "pick q = None \<Longrightarrow> \<forall>j < length (prio q). prio q ! j \<le> 0"
    and turn_prio: "pick q = Some i \<Longrightarrow> prio (turn q) = (prio q)[i := prio q ! i - 1]"
begin

lemma pick_eqI:
  assumes "i < length (prio q)" "0 < prio q ! i"
    and "\<And>j. j < length (prio q) \<Longrightarrow> prio q ! j \<le> prio q ! i"
    and "\<And>j. j < i \<Longrightarrow> prio q ! j < prio q ! i"
  shows "pick q = Some i"
proof (cases "pick q")
  case None
  with pick_None [OF None] assms(1,2) show ?thesis by force
next
  case (Some k)
  note k = pick_Some [OF Some]
  show ?thesis
  proof (cases k i rule: linorder_cases)
    case less
    with assms(4) k assms(1) show ?thesis by force
  next
    case greater
    with k assms(1,3) show ?thesis by force
  qed (simp add: Some)
qed

text \<open>\<open>in_round\<close>: the positions in \<open>R\<close> before \<open>b\<close> have had their turn of this round.\<close>

definition in_round :: "nat set \<Rightarrow> nat \<Rightarrow> int \<Rightarrow> nat \<Rightarrow> 'q \<Rightarrow> bool" where
  "in_round R N c b q \<longleftrightarrow> length (prio q) = N \<and>
     (\<forall>j < N. prio q ! j = (if j \<in> R then (if j < b then c - 1 else c) else 0))"

lemma filter_upt_ConsD:
  "filter P [b..<n] = i # is \<Longrightarrow>
     b \<le> i \<and> i < n \<and> P i \<and> (\<forall>j. b \<le> j \<and> j < i \<longrightarrow> \<not> P j) \<and> filter P [Suc i..<n] = is"
proof (induction "n - b" arbitrary: b)
  case (Suc k)
  then have "b < n" by arith
  then have b: "[b..<n] = b # [Suc b..<n]" by (rule upt_conv_Cons)
  show ?case
  proof (cases "P b")
    case True
    with Suc.prems b \<open>b < n\<close> show ?thesis by auto
  next
    case False
    with Suc.prems b have "filter P [Suc b..<n] = i # is" by simp
    from Suc.hyps(1) [OF _ this] Suc.hyps(2) have "Suc b \<le> i \<and> i < n \<and> P i
      \<and> (\<forall>j. Suc b \<le> j \<and> j < i \<longrightarrow> \<not> P j) \<and> filter P [Suc i..<n] = is" by simp
    with False show ?thesis by (metis Suc_leD Suc_leI le_neq_implies_less)
  qed
qed simp

lemma round_step:
  assumes "in_round R N c b q" "0 < c" "filter (\<lambda>j. j \<in> R) [b..<N] = i # is"
  shows "pick q = Some i \<and> in_round R N c (Suc i) (turn q)"
proof -
  note i = filter_upt_ConsD [OF assms(3)]
  from assms(1) have l: "length (prio q) = N"
    and p: "\<And>j. j < N \<Longrightarrow> prio q ! j = (if j \<in> R then (if j < b then c - 1 else c) else 0)"
    by (auto simp: in_round_def)
  have pi: "prio q ! i = c" using i p [of i] by auto
  have pk: "pick q = Some i"
  proof (rule pick_eqI)
    fix j assume "j < length (prio q)"
    then show "prio q ! j \<le> prio q ! i" using p [of j] assms(2) l pi by auto
  next
    fix j assume "j < i"
    moreover from this have "j \<in> R \<longrightarrow> j < b" using i by (meson not_le)
    ultimately show "prio q ! j < prio q ! i" using p [of j] assms(2) i pi by auto
  qed (use i l pi assms(2) in auto)
  have "in_round R N c (Suc i) (turn q)"
    unfolding in_round_def
  proof (intro conjI allI impI)
    fix j assume "j < N"
    moreover have "j \<in> R \<Longrightarrow> \<not> j < b \<Longrightarrow> j < Suc i \<Longrightarrow> j = i"
      using i by (metis less_antisym not_le)
    ultimately show "prio (turn q) ! j = (if j \<in> R then (if j < Suc i then c - 1 else c) else 0)"
      using p [of j] i l pi by (auto simp: turn_prio [OF pk] nth_list_update)
  qed (simp add: turn_prio [OF pk] l)
  with pk show ?thesis ..
qed

lemma round_tail:
  assumes "in_round R N c b q" "0 < c" "filter (\<lambda>j. j \<in> R) [b..<N] = is"
  shows "(\<forall>k < length is. pick ((turn ^^ k) q) = Some (is ! k))
         \<and> in_round R N c N ((turn ^^ length is) q)"
  using assms
proof (induction "is" arbitrary: b q)
  case Nil
  then have "\<forall>j. b \<le> j \<and> j < N \<longrightarrow> j \<notin> R" by (auto simp: filter_empty_conv)
  with Nil(1) show ?case unfolding in_round_def by force
next
  case (Cons i "is")
  note st = round_step [OF Cons.prems]
  have "filter (\<lambda>j. j \<in> R) [Suc i..<N] = is" using filter_upt_ConsD [OF Cons.prems(3)] by blast
  from Cons.IH [OF conjunct2 [OF st] Cons.prems(2) this]
  have IH: "\<And>k. k < length is \<Longrightarrow> pick ((turn ^^ k) (turn q)) = Some (is ! k)"
    "in_round R N c N ((turn ^^ length is) (turn q))" by auto
  show ?case
  proof (intro conjI allI impI)
    fix k assume "k < length (i # is)"
    then show "pick ((turn ^^ k) q) = Some ((i # is) ! k)"
      using st IH(1) by (cases k) (auto simp del: funpow.simps simp: funpow_Suc_right)
  qed (use IH(2) in \<open>simp del: funpow.simps add: funpow_Suc_right\<close>)
qed

lemma next_round: "in_round R N c N q \<Longrightarrow> in_round R N (c - 1) 0 q"
  unfolding in_round_def by auto

lemma rounds:
  assumes "in_round R N c 0 q" "int r \<le> c" "is = filter (\<lambda>j. j \<in> R) [0..<N]"
  shows "in_round R N (c - int r) 0 ((turn ^^ (r * length is)) q)"
  using assms(2)
proof (induction r)
  case (Suc r)
  then have "in_round R N (c - int r) 0 ((turn ^^ (r * length is)) q)" "0 < c - int r" by auto
  from round_tail [OF this assms(3) [symmetric]]
  have "in_round R N (c - int r) N ((turn ^^ (length is + r * length is)) q)"
    by (simp add: funpow_add)
  from next_round [OF this] show ?case by (simp add: algebra_simps)
qed (use assms(1) in simp)

lemma round_robin:
  assumes "in_round R N c 0 q" "int r < c" "is = filter (\<lambda>j. j \<in> R) [0..<N]" "k < length is"
  shows "pick ((turn ^^ (r * length is + k)) q) = Some (is ! k)"
proof -
  have st: "in_round R N (c - int r) 0 ((turn ^^ (r * length is)) q)" "0 < c - int r"
    using rounds [OF assms(1) _ assms(3)] assms(2) by auto
  show ?thesis using round_tail [OF st assms(3) [symmetric]] assms(4)
    by (simp add: add.commute funpow_add)
qed

end

section \<open>The scheduler of the kernel\<close>

definition prio_of :: "thread \<Rightarrow> int" where
  "prio_of t = (if status t = THR_READY then max 0 (sint (counter t)) else 0)"

definition table_prio :: "'a thr_scheme \<Rightarrow> int list" where
  "table_prio s = map prio_of (thrqueue s)"

definition sched_pick :: "'a thr_scheme \<Rightarrow> nat option" where
  "sched_pick s = (case thrSched_scan (thrqueue s) 0 ThrNull 0 of ThrNull \<Rightarrow> None | Thr i \<Rightarrow> Some i)"

text \<open>A whole turn: the dispatch of a thread up to the moment its \<^verbatim>\<open>thrYeild\<close> is back in the loop.\<close>

definition sched_turn :: "'a thr_scheme \<Rightarrow> 'a thr_scheme" where
  "sched_turn s = yield_leave (thrSched_step s)"

lemma scan_cases:
  assumes "0 \<le> m"
  shows "(thrSched_scan xs k t m = t \<and> (\<forall>j < length xs. prio_of (xs ! j) \<le> m)) \<or>
    (\<exists>i < length xs. (\<forall>t. thrSched_scan xs k t m = Thr (k + i)) \<and> m < prio_of (xs ! i) \<and>
       status (xs ! i) = THR_READY \<and>
       (\<forall>j < length xs. prio_of (xs ! j) \<le> prio_of (xs ! i)) \<and>
       (\<forall>j < i. prio_of (xs ! j) < prio_of (xs ! i)))"
  using assms
proof (induction xs arbitrary: k t m)
  case (Cons x xs)
  show ?case
  proof (cases "status x = THR_READY \<and> sint (counter x) > m")
    case True
    then have px: "prio_of x = sint (counter x)" using Cons.prems by (simp add: prio_of_def)
    from True Cons.prems have m: "0 \<le> sint (counter x)" by simp
    from Cons.IH [OF m, of "Suc k" "Thr k"] show ?thesis
    proof (elim disjE exE conjE)
      assume "\<forall>j < length xs. prio_of (xs ! j) \<le> sint (counter x)"
        "thrSched_scan xs (Suc k) (Thr k) (sint (counter x)) = Thr k"
      moreover have "thrSched_scan xs (Suc k) (Thr k) (sint (counter x)) =
          thrSched_scan (x # xs) k t' m" for t' using True by simp
      ultimately show ?thesis using px True
        by (intro disjI2 exI [of _ 0]) (auto simp: nth_Cons split: nat.split)
    next
      fix i assume "i < length xs" "\<forall>t. thrSched_scan xs (Suc k) t (sint (counter x)) = Thr (Suc k + i)"
        "sint (counter x) < prio_of (xs ! i)" "status (xs ! i) = THR_READY"
        "\<forall>j < length xs. prio_of (xs ! j) \<le> prio_of (xs ! i)"
        "\<forall>j < i. prio_of (xs ! j) < prio_of (xs ! i)"
      then show ?thesis using px True
        by (intro disjI2 exI [of _ "Suc i"]) (auto simp: nth_Cons split: nat.split)
    qed
  next
    case False
    then have px: "prio_of x \<le> m" using Cons.prems by (auto simp: prio_of_def)
    from Cons.IH [OF Cons.prems, of "Suc k" t] show ?thesis
    proof (elim disjE exE conjE)
      assume "\<forall>j < length xs. prio_of (xs ! j) \<le> m" "thrSched_scan xs (Suc k) t m = t"
      then show ?thesis using px False by (auto simp: nth_Cons split: nat.split)
    next
      fix i assume "i < length xs" "\<forall>t. thrSched_scan xs (Suc k) t m = Thr (Suc k + i)"
        "m < prio_of (xs ! i)" "status (xs ! i) = THR_READY"
        "\<forall>j < length xs. prio_of (xs ! j) \<le> prio_of (xs ! i)"
        "\<forall>j < i. prio_of (xs ! j) < prio_of (xs ! i)"
      then show ?thesis using px False
        by (intro disjI2 exI [of _ "Suc i"]) (auto simp: nth_Cons split: nat.split)
    qed
  qed
qed simp


lemma table_prio_simps [simp]:
  "length (table_prio s) = length (thrqueue s)"
  "j < length (thrqueue s) \<Longrightarrow> table_prio s ! j = prio_of (thrqueue s ! j)"
  by (simp_all add: table_prio_def)

lemma sched_pick_SomeD:
  assumes "sched_pick s = Some i"
  shows "i < length (thrqueue s)" "status (thrqueue s ! i) = THR_READY"
    "0 < sint (counter (thrqueue s ! i))" "prio_of (thrqueue s ! i) = sint (counter (thrqueue s ! i))"
    "\<forall>j < length (thrqueue s). prio_of (thrqueue s ! j) \<le> prio_of (thrqueue s ! i)"
    "\<forall>j < i. prio_of (thrqueue s ! j) < prio_of (thrqueue s ! i)"
    "\<forall>t. thrSched_scan (thrqueue s) 0 t 0 = Thr i"
  using assms scan_cases [of 0 "thrqueue s" 0 ThrNull]
  by (auto simp: sched_pick_def prio_of_def split: thr_ref.splits if_splits)

lemma sched_pick_NoneD:
  assumes "sched_pick s = None"
  shows "\<forall>j < length (thrqueue s). prio_of (thrqueue s ! j) \<le> 0"
    "thrSched_scan (thrqueue s) 0 t 0 = t"
  using assms scan_cases [of 0 "thrqueue s" 0 ThrNull] scan_cases [of 0 "thrqueue s" 0 t]
  by (auto simp: sched_pick_def split: thr_ref.splits) 

lemma dispatch_Some:
  assumes "sched_pick s = Some i"
  shows "thrSched_step s = s\<lparr>thrqueue := (thrqueue s)[i := (thrqueue s ! i)\<lparr>status := THR_RUNNING\<rparr>],
           thr_current := Thr i, sched_t := Thr i\<rparr>"
  using sched_pick_SomeD(7) [OF assms] by (simp add: thrSched_step_def upd_thr_def Let_def)

lemma dispatch_None:
  assumes "sched_pick s = None"
  shows "thrSched_step s = upd_thr (sched_t s) (\<lambda>x. x\<lparr>status := THR_RUNNING\<rparr>)
           (s\<lparr>thr_current := sched_t s\<rparr>)"
  using sched_pick_NoneD(2) [OF assms] by (simp add: thrSched_step_def upd_thr_def split: thr_ref.split)

lemma sint_dec: "0 < sint (x :: u32) \<Longrightarrow> sint (x - 1) = sint x - 1"
  by (auto simp: sint_word_ariths intro!: signed_take_bit_int_eq_self)
     (use sint_ge [of x] sint_lt [of x] in \<open>simp_all add: algebra_simps\<close>)

lemma sched_turn_Some:
  assumes "sched_pick s = Some i"
  shows "sched_turn s = s\<lparr>thrqueue := (thrqueue s)[i := (thrqueue s ! i)
           \<lparr>status := THR_READY, counter := counter (thrqueue s ! i) - 1\<rparr>],
           thr_current := Thr i, sched_t := Thr i\<rparr>"
  using sched_pick_SomeD(1) [OF assms]
  by (simp add: sched_turn_def dispatch_Some [OF assms] yield_leave_def upd_thr_def)

interpretation krn: scheduler "table_prio :: 'a thr_scheme \<Rightarrow> int list" sched_pick sched_turn
proof unfold_locales
  fix q :: "'a thr_scheme" and i
  assume "sched_pick q = Some i"
  note d = sched_pick_SomeD [OF this]
  show "i < length (table_prio q) \<and> 0 < table_prio q ! i
            \<and> (\<forall>j < length (table_prio q). table_prio q ! j \<le> table_prio q ! i)
            \<and> (\<forall>j < i. table_prio q ! j < table_prio q ! i)"
    using d by auto
  show "table_prio (sched_turn q) = (table_prio q)[i := table_prio q ! i - 1]"
    unfolding sched_turn_Some [OF \<open>sched_pick q = Some i\<close>] table_prio_def
    using d by (auto simp: map_update prio_of_def sint_dec)
next
  fix q :: "'a thr_scheme"
  assume "sched_pick q = None"
  from sched_pick_NoneD(1) [OF this] show "\<forall>j < length (table_prio q). table_prio q ! j \<le> 0"
    by simp
qed


section \<open>Properties\<close>

lemma thrAlloc_scan_spec:
  "thrAlloc_scan ts k = (case filter (\<lambda>i. status (ts ! i) \<in> {THR_UNUSED, THR_STOP}) [0..<length ts]
                         of [] \<Rightarrow> None | i # _ \<Rightarrow> Some (k + i))"
proof (induction ts arbitrary: k)
  case (Cons t ts)
  have "[0..<length (t # ts)] = 0 # map Suc [0..<length ts]"
    by (simp add: upt_conv_Cons map_Suc_upt del: upt_Suc)
  with Cons show ?case by (simp add: filter_map o_def split: list.split)
qed simp

lemma thrAlloc_Some:
  "thrAlloc s = Some i \<longleftrightarrow> i < length (thrqueue s) \<and> status (thrqueue s ! i) \<in> {THR_UNUSED, THR_STOP}
     \<and> (\<forall>j < i. status (thrqueue s ! j) \<notin> {THR_UNUSED, THR_STOP})"
  (is "?L \<longleftrightarrow> ?R")
proof -
  let ?f = "filter (\<lambda>i. status (thrqueue s ! i) \<in> {THR_UNUSED, THR_STOP}) [0..<length (thrqueue s)]"
  have hd: "thrAlloc s = Some i \<longleftrightarrow> (\<exists>is. ?f = i # is)"
    by (simp add: thrAlloc_def thrAlloc_scan_spec split: list.split)
  show ?thesis
  proof
    assume ?L
    then obtain "is" where "?f = i # is" using hd by blast
    from krn.filter_upt_ConsD [OF this] show ?R by auto
  next
    assume R: ?R
    then have "[0..<length (thrqueue s)] = [0..<i] @ i # [Suc i..<length (thrqueue s)]"
      using upt_add_eq_append [of 0 i "length (thrqueue s) - i"] by (simp add: upt_conv_Cons)
    moreover have "filter (\<lambda>i. status (thrqueue s ! i) \<in> {THR_UNUSED, THR_STOP}) [0..<i] = []"
      using R by (auto simp: filter_empty_conv)
    ultimately have "\<exists>is. ?f = i # is" using R by auto
    then show ?L using hd by blast
  qed
qed

lemma thrAlloc_None:
  "thrAlloc s = None \<longleftrightarrow> (\<forall>i < length (thrqueue s). status (thrqueue s ! i) \<notin> {THR_UNUSED, THR_STOP})"
proof -
  have "thrAlloc s = None \<longleftrightarrow>
      filter (\<lambda>i. status (thrqueue s ! i) \<in> {THR_UNUSED, THR_STOP}) [0..<length (thrqueue s)] = []"
    by (simp add: thrAlloc_def thrAlloc_scan_spec split: list.split)
  then show ?thesis by (simp only: filter_empty_conv) auto
qed

text \<open>The boot frame \<^verbatim>\<open>thrCreate\<close> builds.\<close>

lemma thread_setup_frame:
  assumes "length (kstack t) = 1024"
  shows "status (thread_setup sy f a i t) = THR_READY" "counter (thread_setup sy f a i t) = 100"
    "tid (thread_setup sy f a i t) = tid t" "ctx (thread_setup sy f a i t) = (Thr i, 912)"
    "length (kstack (thread_setup sy f a i t)) = 1024"
    "get32 (kstack (thread_setup sy f a i t)) 928 = sym_thread_entry sy"
    "get32 (kstack (thread_setup sy f a i t)) 932 = sym_kernStub sy"
    "get32 (kstack (thread_setup sy f a i t)) 936 = sym_trapret sy"
    "get32 (kstack (thread_setup sy f a i t)) 940 = f"
    "get32 (kstack (thread_setup sy f a i t)) 944 = a"
  using assms unfolding thread_setup_def Let_def
  by (simp_all add: get32_put32_other get32_blit_other)


text \<open>
  \<open>thr_ok\<close>: the table has its 256 slots, every slot carries its index as thread id, and the stacks
  have their size.
\<close>

definition thr_ok :: "'a thr_scheme \<Rightarrow> bool" where
  "thr_ok s \<longleftrightarrow> length (thrqueue s) = THRQUESIZE \<and>
     (\<forall>i < THRQUESIZE. tid (thrqueue s ! i) = of_nat i \<and> length (kstack (thrqueue s ! i)) = KSTACKSIZE)"

lemma thr_okD:
  assumes "thr_ok s"
  shows "length (thrqueue s) = 256"
    "i < 256 \<Longrightarrow> tid (thrqueue s ! i) = of_nat i"
    "i < 256 \<Longrightarrow> length (kstack (thrqueue s ! i)) = 1024"
  using assms by (auto simp: thr_ok_def)

lemma fold_upd_thr:
  "n \<le> length (thrqueue s) \<Longrightarrow>
   fold (\<lambda>i. upd_thr (Thr i) (f i)) [0..<n] s =
     s\<lparr>thrqueue := map (\<lambda>i. f i (thrqueue s ! i)) [0..<n] @ drop n (thrqueue s)\<rparr>"
proof (induction n)
  case (Suc n)
  then have "drop n (thrqueue s) = thrqueue s ! n # drop (Suc n) (thrqueue s)"
    by (simp add: Cons_nth_drop_Suc)
  with Suc show ?case by (simp add: upd_thr_def list_update_append nth_append)
qed simp

lemma thrInit_table:
  assumes "length (thrqueue s) = 256"
  shows "thrqueue (thrInit sy s) =
     map (\<lambda>i. (thrqueue s ! i)\<lparr>tid := of_nat i, status := THR_UNUSED\<rparr>) [0..<256]"
proof -
  have "fold (\<lambda>i. upd_thr (Thr i) (\<lambda>t. t\<lparr>tid := of_nat i, status := THR_UNUSED\<rparr>)) [0..<256]
      ((cli s)\<lparr>thrque_lock := spinlockInit (thrque_lock (cli s))\<rparr>) =
      (cli s)\<lparr>thrque_lock := spinlockInit (thrque_lock (cli s)),
        thrqueue := map (\<lambda>i. (thrqueue s ! i)\<lparr>tid := of_nat i, status := THR_UNUSED\<rparr>) [0..<256]\<rparr>"
    using assms by (subst fold_upd_thr) (simp_all add: cli_def)
  then show ?thesis
    unfolding thrInit_def Let_def by (simp add: upd_thr_def sti_def del: upt_Suc)
qed

text \<open>After \<^verbatim>\<open>thrInit\<close> the table is well-formed, every slot is unused, and the next
  \<^verbatim>\<open>thrCreate\<close> returns thread id 0.\<close>

theorem thrInit_establishes:
  assumes "length (thrqueue s) = 256" "\<forall>i < 256. length (kstack (thrqueue s ! i)) = 1024"
  shows "thr_ok (thrInit sy s) \<and> (\<forall>i < 256. status (thrqueue (thrInit sy s) ! i) = THR_UNUSED)
    \<and> fst (thrCreate sy f a (thrInit sy s)) = 0"
proof -
  have ok: "thr_ok (thrInit sy s)" "\<forall>i < 256. status (thrqueue (thrInit sy s) ! i) = THR_UNUSED"
    using assms by (auto simp: thr_ok_def thrInit_table simp del: upt_Suc)
  then have "thrAlloc (thrInit sy s) = Some 0" by (simp add: thrAlloc_Some thr_okD(1))
  then have "fst (thrCreate sy f a (thrInit sy s)) = 0"
    using thr_okD(1,2) [OF ok(1)] thr_okD(3) [OF ok(1), of 0]
    by (simp add: thrCreate_def upd_thr_def Let_def thread_setup_frame)
  with ok show ?thesis by blast
qed

definition idle_thread :: thread where
  "idle_thread = \<lparr>tid = 7, status = THR_ZOMBIE, counter = 0, tf = (ThrNull, 0), rt = (ThrNull, 0),
     st = (ThrNull, 0), ctx = (ThrNull, 0), kstack = replicate 1024 0, cv = 0\<rparr>"

definition idle_threads :: thr where
  "idle_threads = \<lparr>iotrace = [], iflag = True, row = 0, col = 0, videoMemory = (\<lambda>_. 0),
     cslLock = \<lparr>lock = 0\<rparr>, thrqueue = replicate 256 idle_thread, thr_null = idle_thread,
     thr_current = ThrNull, thrque_lock = \<lparr>lock = 0\<rparr>, sched_t = ThrNull\<rparr>"

abbreviation (input) demo_syms :: code_syms where
  "demo_syms \<equiv> \<lparr>sym_trapret = 16, sym_kernStub = 32, sym_thread_entry = 48, sym_thrSched = 64\<rparr>"

lemma idle_threads_table [simp]:
  "thrqueue idle_threads = replicate 256 idle_thread" "length (kstack idle_thread) = 1024"
  by (simp_all add: idle_threads_def idle_thread_def)

theorem thrInit_establishes_witness:
  "thr_ok (thrInit demo_syms idle_threads)
    \<and> (\<forall>i < 256. status (thrqueue (thrInit demo_syms idle_threads) ! i) = THR_UNUSED)
    \<and> fst (thrCreate demo_syms 4096 5 (thrInit demo_syms idle_threads)) = 0"
  by (rule thrInit_establishes) simp_all

text \<open>C33. \<^verbatim>\<open>thrCreate\<close> takes the first slot that is unused or stopped, returns its id, makes it ready
  with a full counter, and lays out its stack so that a switch to its context enters
  \<^verbatim>\<open>thread_entry\<close>, then \<^verbatim>\<open>kernStub\<close> with \<^verbatim>\<open>trapret\<close> as the return address and the function and its
  argument as the parameters. No other slot changes. Without a free slot it returns -1 and changes
  nothing.\<close>

theorem thrCreate_boots_thread:
  assumes "thr_ok s"
  shows "(\<forall>i < 256. status (thrqueue s ! i) \<notin> {THR_UNUSED, THR_STOP}) \<and> thrCreate sy f a s = (- 1, s) \<or>
    (\<exists>i t. i < 256 \<and> status (thrqueue s ! i) \<in> {THR_UNUSED, THR_STOP} \<and>
       (\<forall>j < i. status (thrqueue s ! j) \<notin> {THR_UNUSED, THR_STOP}) \<and>
       thrCreate sy f a s = (of_nat i, s\<lparr>thrqueue := (thrqueue s)[i := t]\<rparr>) \<and>
       tid t = of_nat i \<and> status t = THR_READY \<and> counter t = 100 \<and>
       ctx t = (Thr i, 912) \<and> length (kstack t) = 1024 \<and>
       map (get32 (kstack t)) [928, 932, 936, 940, 944] =
         [sym_thread_entry sy, sym_kernStub sy, sym_trapret sy, f, a])"
proof (cases "thrAlloc s")
  case None
  moreover from None have "\<forall>i < 256. status (thrqueue s ! i) \<notin> {THR_UNUSED, THR_STOP}"
    unfolding thrAlloc_None thr_okD(1) [OF assms] .
  ultimately show ?thesis by (auto simp: thrCreate_def)
next
  case (Some i)
  then have i: "i < 256" "status (thrqueue s ! i) \<in> {THR_UNUSED, THR_STOP}"
      "\<forall>j < i. status (thrqueue s ! j) \<notin> {THR_UNUSED, THR_STOP}"
    unfolding thrAlloc_Some using thr_okD(1) [OF assms] by auto
  note fr = thread_setup_frame [OF thr_okD(3) [OF assms i(1)]]
  have "thrCreate sy f a s = (of_nat i,
      s\<lparr>thrqueue := (thrqueue s)[i := thread_setup sy f a i (thrqueue s ! i)]\<rparr>)"
    using Some i(1) thr_okD(1) [OF assms]
    by (simp add: thrCreate_def upd_thr_def Let_def fr thr_okD(2) [OF assms i(1)])
  with i fr show ?thesis
    by (intro disjI2 exI [of _ i] exI [of _ "thread_setup sy f a i (thrqueue s ! i)"])
      (simp add: thr_okD(2) [OF assms i(1)])
qed

text \<open>The scheduler runs a ready thread with the greatest counter, the first of them in the
  table, whenever a ready thread has a positive counter.\<close>

theorem dispatch_highest_counter:
  assumes "j < length (thrqueue s)" "status (thrqueue s ! j) = THR_READY"
    "0 < sint (counter (thrqueue s ! j))"
  shows "\<exists>i < length (thrqueue s). status (thrqueue s ! i) = THR_READY \<and>
    (\<forall>k < length (thrqueue s). status (thrqueue s ! k) = THR_READY \<longrightarrow>
       sint (counter (thrqueue s ! k)) \<le> sint (counter (thrqueue s ! i)) \<and>
       (k < i \<longrightarrow> sint (counter (thrqueue s ! k)) < sint (counter (thrqueue s ! i)))) \<and>
    thrSched_step s = s\<lparr>thrqueue := (thrqueue s)[i := (thrqueue s ! i)\<lparr>status := THR_RUNNING\<rparr>],
      thr_current := Thr i, sched_t := Thr i\<rparr>"
proof (cases "sched_pick s")
  case None
  from sched_pick_NoneD(1) [OF this] assms have False by (auto simp: prio_of_def)
  then show ?thesis ..
next
  case (Some i)
  note d = sched_pick_SomeD [OF Some]
  show ?thesis
  proof (intro exI [of _ i] conjI allI impI)
    fix k assume k: "k < length (thrqueue s)" "status (thrqueue s ! k) = THR_READY"
    from d(4,5) k show "sint (counter (thrqueue s ! k)) \<le> sint (counter (thrqueue s ! i))"
      by (auto simp: prio_of_def)
    assume "k < i"
    with d(4,6) k show "sint (counter (thrqueue s ! k)) < sint (counter (thrqueue s ! i))"
      by (auto simp: prio_of_def)
  qed (use d dispatch_Some [OF Some] in auto)
qed


theorem thrCreate_boots_thread_witness:
  "(\<forall>i < 256. status (thrqueue (thrInit demo_syms idle_threads) ! i) \<notin> {THR_UNUSED, THR_STOP}) \<and>
     thrCreate demo_syms 4096 5 (thrInit demo_syms idle_threads) = (- 1, thrInit demo_syms idle_threads) \<or>
    (\<exists>i t. i < 256 \<and> status (thrqueue (thrInit demo_syms idle_threads) ! i) \<in> {THR_UNUSED, THR_STOP} \<and>
       (\<forall>j < i. status (thrqueue (thrInit demo_syms idle_threads) ! j) \<notin> {THR_UNUSED, THR_STOP}) \<and>
       thrCreate demo_syms 4096 5 (thrInit demo_syms idle_threads) =
         (of_nat i, (thrInit demo_syms idle_threads)\<lparr>thrqueue :=
            (thrqueue (thrInit demo_syms idle_threads))[i := t]\<rparr>) \<and>
       tid t = of_nat i \<and> status t = THR_READY \<and> counter t = 100 \<and>
       ctx t = (Thr i, 912) \<and> length (kstack t) = 1024 \<and>
       map (get32 (kstack t)) [928, 932, 936, 940, 944] = [48, 32, 16, 4096, 5])"
proof -
  have "thr_ok (thrInit demo_syms idle_threads)" by (auto simp: thr_ok_def thrInit_table simp del: upt_Suc)
  from thrCreate_boots_thread [OF this, of demo_syms 4096 5] show ?thesis by simp
qed

text \<open>Two ready threads of the same counter in slots 1 and 3, as the tables of the witnesses.\<close>

definition two_ready :: thr where
  "two_ready = idle_threads\<lparr>thrqueue := map (\<lambda>i. idle_thread\<lparr>tid := of_nat i,
     status := (if i = 1 \<or> i = 3 then THR_READY else THR_ZOMBIE), counter := 100\<rparr>) [0..<4]\<rparr>"

lemma two_ready_table [simp]:
  "length (thrqueue two_ready) = 4"
  "j < 4 \<Longrightarrow> status (thrqueue two_ready ! j) = (if j = 1 \<or> j = 3 then THR_READY else THR_ZOMBIE)"
  "j < 4 \<Longrightarrow> counter (thrqueue two_ready ! j) = 100"
  by (auto simp: two_ready_def simp del: upt_Suc)

theorem dispatch_highest_counter_witness:
  "\<exists>i < length (thrqueue two_ready). status (thrqueue two_ready ! i) = THR_READY \<and>
    (\<forall>k < length (thrqueue two_ready). status (thrqueue two_ready ! k) = THR_READY \<longrightarrow>
       sint (counter (thrqueue two_ready ! k)) \<le> sint (counter (thrqueue two_ready ! i)) \<and>
       (k < i \<longrightarrow> sint (counter (thrqueue two_ready ! k)) < sint (counter (thrqueue two_ready ! i)))) \<and>
    thrSched_step two_ready = two_ready\<lparr>thrqueue :=
       (thrqueue two_ready)[i := (thrqueue two_ready ! i)\<lparr>status := THR_RUNNING\<rparr>],
      thr_current := Thr i, sched_t := Thr i\<rparr>"
  by (rule dispatch_highest_counter [of 3]) simp_all

lemma two_ready_fields [simp]:
  "thr_current two_ready = ThrNull" "thrque_lock two_ready = \<lparr>lock = 0\<rparr>"
  by (simp_all add: two_ready_def idle_threads_def)

lemma thrYeild_funpow:
  "(thrYeild ^^ n) (thrSched_step s) = thrSched_step ((sched_turn ^^ n) s)"
  by (induction n) (simp_all add: thrYeild_def sched_turn_def)

lemma in_round_ready:
  assumes "\<forall>j < length (thrqueue s). status (thrqueue s ! j) = THR_READY \<longrightarrow>
             sint (counter (thrqueue s ! j)) = c" "0 \<le> c"
  shows "krn.in_round {j. j < length (thrqueue s) \<and> status (thrqueue s ! j) = THR_READY}
           (length (thrqueue s)) c 0 s"
  using assms unfolding krn.in_round_def by (auto simp: prio_of_def)

abbreviation (input) ready_slots :: "'a thr_scheme \<Rightarrow> nat list" where
  "ready_slots s \<equiv> filter (\<lambda>j. status (thrqueue s ! j) = THR_READY) [0..<length (thrqueue s)]"

lemma ready_slots_filter:
  "ready_slots s = filter (\<lambda>j. j \<in> {j. j < length (thrqueue s) \<and> status (thrqueue s ! j) = THR_READY})
     [0..<length (thrqueue s)]"
  by (rule filter_cong) auto

lemma yields_in_rounds:
  assumes "\<forall>j < length (thrqueue s). status (thrqueue s ! j) = THR_READY \<longrightarrow>
             sint (counter (thrqueue s ! j)) = c"
    and "int r < c" "k < length (ready_slots s)"
  shows "thr_current ((thrYeild ^^ (r * length (ready_slots s) + k)) (thrSched_step s)) =
           Thr (ready_slots s ! k)"
proof -
  have "0 \<le> c" using assms(2) by simp
  from krn.round_robin [OF in_round_ready [OF assms(1) this] assms(2) ready_slots_filter assms(3)]
  show ?thesis by (simp add: thrYeild_funpow dispatch_Some)
qed

text \<open>Round robin: when the ready threads have the same counter \<open>c\<close> and nothing but
  \<^verbatim>\<open>thrYeild\<close> happens, they run in the order of the table, round after round, until every one of
  them has had \<open>c\<close> turns.\<close>

theorem yield_round_robin:
  assumes "\<forall>j < length (thrqueue s). status (thrqueue s ! j) = THR_READY \<longrightarrow>
             sint (counter (thrqueue s ! j)) = c"
    and "int r < c" "k < length (ready_slots s)"
  shows "thr_current ((thrYeild ^^ (r * length (ready_slots s) + k)) (thrSched_step s)) =
           Thr (ready_slots s ! k)"
  using assms by (rule yields_in_rounds)

lemma two_ready_slots: "ready_slots two_ready = [1, 3]"
  by (simp add: upt_conv_Cons)

theorem yield_round_robin_witness:
  "thr_current ((thrYeild ^^ (70 * length (ready_slots two_ready) + 1)) (thrSched_step two_ready)) =
     Thr (ready_slots two_ready ! 1) \<and> ready_slots two_ready ! 1 = 3"
proof -
  have "\<forall>j < length (thrqueue two_ready). status (thrqueue two_ready ! j) = THR_READY \<longrightarrow>
      sint (counter (thrqueue two_ready ! j)) = 100" by simp
  from yield_round_robin [OF this, of 70 1] show ?thesis by (simp only: two_ready_slots) simp
qed

text \<open>Without a positive counter among the other threads, a thread that yields runs again.\<close>

definition alone :: "nat \<Rightarrow> 'a thr_scheme \<Rightarrow> bool" where
  "alone i s \<longleftrightarrow> i < length (thrqueue s) \<and> thr_current s = Thr i \<and> sched_t s = Thr i \<and>
     (\<forall>j < length (thrqueue s). j \<noteq> i \<longrightarrow> prio_of (thrqueue s ! j) = 0)"

lemma yield_leave_Thr:
  "thr_current s = Thr i \<Longrightarrow> i < length (thrqueue s) \<Longrightarrow>
   yield_leave s = s\<lparr>thrqueue := (thrqueue s)[i :=
     (thrqueue s ! i)\<lparr>status := THR_READY, counter := counter (thrqueue s ! i) - 1\<rparr>]\<rparr>"
  by (simp add: yield_leave_def upd_thr_def)

lemma alone_dispatch:
  assumes "i < length (thrqueue s)" "sched_t s = Thr i"
    "\<forall>j < length (thrqueue s). j \<noteq> i \<longrightarrow> prio_of (thrqueue s ! j) = 0"
  shows "alone i (thrSched_step s)"
proof (cases "sched_pick s")
  case None
  with assms show ?thesis by (simp add: dispatch_None alone_def upd_thr_def)
next
  case (Some k)
  with assms sched_pick_SomeD [OF Some] have "k = i" by fastforce
  with assms show ?thesis by (simp add: dispatch_Some [OF Some] alone_def)
qed

lemma alone_yield: "alone i s \<Longrightarrow> alone i (thrYeild s)"
  unfolding thrYeild_def by (rule alone_dispatch) (auto simp: alone_def yield_leave_Thr)

text \<open>C31. Counters are never refilled: after the \<open>c\<close> rounds in which every ready thread has used up
  its counter, the last of them in the table runs again at every \<^verbatim>\<open>thrYeild\<close>, and the others never
  do.\<close>

theorem counters_run_dry:
  assumes "\<forall>j < length (thrqueue s). status (thrqueue s ! j) = THR_READY \<longrightarrow>
             sint (counter (thrqueue s ! j)) = int c"
    and "0 < c" "ready_slots s \<noteq> []"
  shows "thr_current ((thrYeild ^^ (c * length (ready_slots s) + m)) (thrSched_step s)) =
           Thr (last (ready_slots s))"
proof -
  let ?is = "ready_slots s" and ?N = "length (thrqueue s)"
  let ?R = "{j. j < ?N \<and> status (thrqueue s ! j) = THR_READY}"
  note ir = in_round_ready [OF assms(1) of_nat_0_le_iff]
  define u where "u = (sched_turn ^^ (c * length ?is)) s"
  have dry: "krn.in_round ?R ?N 0 0 u"
    using krn.rounds [OF ir order_refl ready_slots_filter] by (simp add: u_def)
  define p where "p = (sched_turn ^^ ((c - 1) * length ?is + (length ?is - 1))) s"
  have pk: "sched_pick p = Some (last ?is)"
    unfolding p_def last_conv_nth [OF assms(3)]
    by (rule krn.round_robin [OF ir _ ready_slots_filter]) (use assms in auto)
  have "c * length ?is = Suc ((c - 1) * length ?is + (length ?is - 1))"
    using assms(2,3) by (cases c) auto
  then have "u = sched_turn p" by (simp add: u_def p_def)
  then have "sched_t u = Thr (last ?is)" by (simp add: sched_turn_Some [OF pk])
  moreover have "last ?is \<in> set ?is" using assms(3) by (rule last_in_set)
  moreover have "length (thrqueue u) = ?N" "\<forall>j < ?N. prio_of (thrqueue u ! j) = 0"
    using dry by (auto simp: krn.in_round_def)
  ultimately have "alone (last ?is) (thrSched_step u)" by (intro alone_dispatch) auto
  then have "alone (last ?is) ((thrYeild ^^ m) (thrSched_step u))"
    by (induction m) (auto intro: alone_yield)
  then show ?thesis
    by (simp add: alone_def u_def thrYeild_funpow [symmetric] funpow_add add.commute)
qed

theorem counters_run_dry_witness:
  "\<forall>m. thr_current ((thrYeild ^^ (100 * length (ready_slots two_ready) + m)) (thrSched_step two_ready)) =
     Thr (last (ready_slots two_ready)) \<and> last (ready_slots two_ready) = 3"
proof
  fix m
  have "\<forall>j < length (thrqueue two_ready). status (thrqueue two_ready ! j) = THR_READY \<longrightarrow>
      sint (counter (thrqueue two_ready ! j)) = int 100" by simp
  from counters_run_dry [OF this] show "thr_current ((thrYeild ^^ (100 * length (ready_slots two_ready) + m))
      (thrSched_step two_ready)) = Thr (last (ready_slots two_ready)) \<and> last (ready_slots two_ready) = 3"
    by (simp only: two_ready_slots) simp
qed

text \<open>\<^verbatim>\<open>thrKill\<close> of the thread that calls it does not last: when the thread yields, it is
  ready again.\<close>

theorem kill_running_undone:
  assumes "thr_current s = Thr i" "i < length (thrqueue s)" "length (thrqueue s) = 256"
  shows "\<exists>s'. thrKill (of_nat i) s = Some s' \<and> status (thrqueue s' ! i) = THR_ZOMBIE \<and>
    status (thrqueue (yield_leave s') ! i) = THR_READY"
proof -
  have "unat (of_nat i :: u32) = i" using assms by (simp add: unat_of_nat take_bit_nat_eq_self)
  then show ?thesis using assms by (simp add: thrKill_def upd_thr_def yield_leave_def)
qed

theorem kill_running_undone_witness:
  "\<exists>s'. thrKill (of_nat 3) (idle_threads\<lparr>thr_current := Thr 3\<rparr>) = Some s' \<and>
    status (thrqueue s' ! 3) = THR_ZOMBIE \<and> status (thrqueue (yield_leave s') ! 3) = THR_READY"
  by (rule kill_running_undone) simp_all

text \<open>\<^verbatim>\<open>thrExit\<close> makes the running thread a zombie for good: when another ready thread has a
  positive counter, that one runs, and the slot of the first is not offered to \<^verbatim>\<open>thrCreate\<close>.\<close>

theorem exit_leaves_zombie:
  assumes "thr_current s = Thr i" "i < length (thrqueue s)" "j < length (thrqueue s)" "j \<noteq> i"
    "status (thrqueue s ! j) = THR_READY" "0 < sint (counter (thrqueue s ! j))"
  shows "status (thrqueue (thrExit s) ! i) = THR_ZOMBIE \<and> thr_current (thrExit s) \<noteq> Thr i \<and>
    thrAlloc (thrExit s) \<noteq> Some i"
proof -
  define u where "u = upd_thr (thr_current s) (\<lambda>t. t\<lparr>status := THR_ZOMBIE\<rparr>) s"
  have u: "length (thrqueue u) = length (thrqueue s)" "status (thrqueue u ! i) = THR_ZOMBIE"
    "thrqueue u ! j = thrqueue s ! j"
    using assms by (simp_all add: u_def upd_thr_def)
  have "0 < prio_of (thrqueue u ! j)" using u assms by (simp add: prio_of_def)
  then have "sched_pick u \<noteq> None" using sched_pick_NoneD(1) [of u] u assms(3) by force
  then obtain k where k: "sched_pick u = Some k" by auto
  with sched_pick_SomeD [OF k] u have ki: "k \<noteq> i" by auto
  then show ?thesis
    using u by (auto simp: thrExit_def u_def [symmetric] dispatch_Some [OF k] thrAlloc_Some)
qed

theorem exit_leaves_zombie_witness:
  "status (thrqueue (thrExit (two_ready\<lparr>thr_current := Thr 1\<rparr>)) ! 1) = THR_ZOMBIE \<and>
    thr_current (thrExit (two_ready\<lparr>thr_current := Thr 1\<rparr>)) \<noteq> Thr 1 \<and>
    thrAlloc (thrExit (two_ready\<lparr>thr_current := Thr 1\<rparr>)) \<noteq> Some 1"
  by (rule exit_leaves_zombie [of _ _ 3]) simp_all

end
