(* ===== verification/Sync.thy ===== *)
theory Sync
  imports Thread
begin

text \<open>
  Condition variables, mutexes and semaphores of \<^verbatim>\<open>src/thread.c\<close>, and the steps of the thread
  system as a whole.
\<close>

section \<open>Condition variables\<close>

datatype 'a outcome = Returns 'a | Dispatches 'a

text \<open>
  \<open>spl\<close> is the caller's lock, or \<open>None\<close> when the caller passes \<^verbatim>\<open>thrque_lock\<close> itself; \<open>junk\<close> is the
  unset local \<^verbatim>\<open>t\<close> of the new activation of \<^verbatim>\<open>thrSched\<close>. The statements behind the call of
  \<^verbatim>\<open>thrSched\<close> are never reached.
\<close>

definition thrCondWait ::
  "u32 \<Rightarrow> spinlock option \<Rightarrow> thr_ref \<Rightarrow> 'a thr_scheme \<Rightarrow> (spinlock option \<times> 'a thr_scheme) option" where
  "thrCondWait c spl junk s = do {
     (spl, s) \<leftarrow>
       (case spl of
          None \<Rightarrow> Some (None, s)
        | Some l \<Rightarrow> do {
            (ql, s) \<leftarrow> spinlockLock (thrque_lock s) s;
            let s = s\<lparr>thrque_lock := ql\<rparr>;
            let (l, s) = spinlockUnlock l s;
            Some (Some l, s) });
     let t = getCurThread s;
     let s = upd_thr t (\<lambda>t. t\<lparr>cv := c\<rparr>) s;
     let s = upd_thr t (\<lambda>t. t\<lparr>status := THR_SLEEPING\<rparr>) s;
     Some (spl, thrSched_step (s\<lparr>sched_t := junk\<rparr>)) }"

text \<open>The two wake-up loops start at slot 1.\<close>

definition sleeps_on :: "u32 \<Rightarrow> thread \<Rightarrow> bool" where
  "sleeps_on c t \<longleftrightarrow> status t = THR_SLEEPING \<and> cv t = c"

fun signal_scan :: "u32 \<Rightarrow> thread list \<Rightarrow> thread list" where
  "signal_scan c [] = []"
| "signal_scan c (t # ts) =
     (if sleeps_on c t then t\<lparr>status := THR_READY\<rparr> # ts else t # signal_scan c ts)"

fun broadcast_scan :: "u32 \<Rightarrow> thread list \<Rightarrow> thread list" where
  "broadcast_scan c [] = []"
| "broadcast_scan c (t # ts) =
     (if sleeps_on c t then t\<lparr>status := THR_READY\<rparr> else t) # broadcast_scan c ts"

definition thrCondSignal :: "u32 \<Rightarrow> 'a thr_scheme \<Rightarrow> 'a thr_scheme" where
  "thrCondSignal c s =
     s\<lparr>thrqueue := take 1 (thrqueue s) @ signal_scan c (drop 1 (thrqueue s))\<rparr>"

definition thrCondBroadcast :: "u32 \<Rightarrow> 'a thr_scheme \<Rightarrow> 'a thr_scheme" where
  "thrCondBroadcast c s =
     s\<lparr>thrqueue := take 1 (thrqueue s) @ broadcast_scan c (drop 1 (thrqueue s))\<rparr>"

section \<open>Mutexes\<close>

record mutex =
  mlock :: u32
  lk :: spinlock

definition thrMutexInit :: "mutex \<Rightarrow> mutex" where
  "thrMutexInit m = (let m = m\<lparr>mlock := 0\<rparr> in m\<lparr>lk := spinlockInit (lk m)\<rparr>)"

text \<open>\<open>addr\<close> is the address of the mutex, which serves as its condition variable.\<close>

definition thrMutexLock ::
  "u32 \<Rightarrow> thr_ref \<Rightarrow> mutex \<Rightarrow> 'a thr_scheme \<Rightarrow> (mutex \<times> 'a thr_scheme) outcome option" where
  "thrMutexLock addr junk m s = do {
     (l, s) \<leftarrow> spinlockLock (lk m) s;
     let m = m\<lparr>lk := l\<rparr>;
     (if mlock m = 1
      then do {
        (l, s) \<leftarrow> thrCondWait addr (Some (lk m)) junk s;
        Some (Dispatches (m\<lparr>lk := the l\<rparr>, s)) }
      else do {
        let m = m\<lparr>mlock := 1\<rparr>;
        let (l, s) = spinlockUnlock (lk m) s;
        Some (Returns (m\<lparr>lk := l\<rparr>, s)) }) }"

definition thrMutexUnlock ::
  "u32 \<Rightarrow> mutex \<Rightarrow> 'a thr_scheme \<Rightarrow> (mutex \<times> 'a thr_scheme) option" where
  "thrMutexUnlock addr m s = do {
     (l, s) \<leftarrow> spinlockLock (lk m) s;
     let m = m\<lparr>lk := l\<rparr>;
     let m = m\<lparr>mlock := 0\<rparr>;
     let s = thrCondBroadcast addr s;
     let (l, s) = spinlockUnlock (lk m) s;
     Some (m\<lparr>lk := l\<rparr>, s) }"

section \<open>Semaphores\<close>

record semaphore =
  count :: u32
  slk :: spinlock

definition thrSemInit :: "semaphore \<Rightarrow> u32 \<Rightarrow> semaphore" where
  "thrSemInit sem val = (let sem = sem\<lparr>count := val\<rparr> in sem\<lparr>slk := spinlockInit (slk sem)\<rparr>)"

text \<open>
  \<^verbatim>\<open>thrSemDown\<close> waits in a loop that marks the thread as sleeping but does not call the scheduler:
  between interrupts it does not return unless the count is positive.
\<close>

partial_function (option) thrSemDown ::
  "u32 \<Rightarrow> semaphore \<Rightarrow> 'a thr_scheme \<Rightarrow> (semaphore \<times> 'a thr_scheme) option" where
  "thrSemDown addr sem s =
     (if sint (count sem) \<le> 0
      then let s = upd_thr (getCurThread s) (\<lambda>t. t\<lparr>status := THR_SLEEPING\<rparr>) s;
               s = upd_thr (getCurThread s) (\<lambda>t. t\<lparr>cv := addr\<rparr>) s
           in thrSemDown addr sem s
      else Some (sem\<lparr>count := count sem - 1\<rparr>, s))"

definition thrSemUp :: "u32 \<Rightarrow> semaphore \<Rightarrow> 'a thr_scheme \<Rightarrow> semaphore \<times> 'a thr_scheme" where
  "thrSemUp addr sem s =
     (let sem = sem\<lparr>count := count sem + 1\<rparr>
      in (sem, s\<lparr>thrqueue := map (\<lambda>t. if sleeps_on addr t then t\<lparr>status := THR_READY, cv := 0\<rparr> else t)
                (thrqueue s)\<rparr>))"



section \<open>Waking up\<close>

lemma length_signal_scan [simp]: "length (signal_scan c ts) = length ts"
  by (induction ts) auto

lemma length_broadcast_scan [simp]: "length (broadcast_scan c ts) = length ts"
  by (induction ts) auto

lemma broadcast_scan_map: "broadcast_scan c ts = map (\<lambda>t. if sleeps_on c t then t\<lparr>status := THR_READY\<rparr> else t) ts"
  by (induction ts) auto

lemma signal_scan_first:
  "(\<forall>t \<in> set ts. \<not> sleeps_on c t) \<and> signal_scan c ts = ts \<or>
   (\<exists>i < length ts. sleeps_on c (ts ! i) \<and> (\<forall>j < i. \<not> sleeps_on c (ts ! j)) \<and>
      signal_scan c ts = ts[i := (ts ! i)\<lparr>status := THR_READY\<rparr>])"
proof (induction ts)
  case (Cons t ts)
  show ?case
  proof (cases "sleeps_on c t")
    case True
    then show ?thesis by (intro disjI2 exI [of _ 0]) auto
  next
    case False
    from Cons show ?thesis
    proof (elim disjE exE conjE)
      fix i assume "i < length ts" "sleeps_on c (ts ! i)" "\<forall>j < i. \<not> sleeps_on c (ts ! j)"
        "signal_scan c ts = ts[i := (ts ! i)\<lparr>status := THR_READY\<rparr>]"
      with False show ?thesis
        by (intro disjI2 exI [of _ "Suc i"]) (auto simp: nth_Cons split: nat.split)
    qed (use False in auto)
  qed
qed simp

text \<open>\<^verbatim>\<open>thrCondSignal\<close> makes exactly one sleeper of the condition variable ready, the first of
  them in the slots from 1 on, or changes nothing if there is none there.\<close>

theorem signal_wakes_first:
  "(\<forall>i. 1 \<le> i \<and> i < length (thrqueue s) \<longrightarrow> \<not> sleeps_on c (thrqueue s ! i)) \<and> thrCondSignal c s = s \<or>
   (\<exists>i. 1 \<le> i \<and> i < length (thrqueue s) \<and> sleeps_on c (thrqueue s ! i) \<and>
      (\<forall>j. 1 \<le> j \<and> j < i \<longrightarrow> \<not> sleeps_on c (thrqueue s ! j)) \<and>
      thrCondSignal c s = s\<lparr>thrqueue := (thrqueue s)[i := (thrqueue s ! i)\<lparr>status := THR_READY\<rparr>]\<rparr>)"
proof (cases "thrqueue s")
  case (Cons t ts)
  from signal_scan_first [of ts c] show ?thesis
  proof (elim disjE exE conjE)
    assume "\<forall>t \<in> set ts. \<not> sleeps_on c t" "signal_scan c ts = ts"
    with Cons have "thrCondSignal c s = s" "\<not> sleeps_on c (thrqueue s ! Suc i)"
      if "Suc i < length (thrqueue s)" for i
      using that by (simp_all add: thrCondSignal_def)
    moreover from Cons \<open>signal_scan c ts = ts\<close> have "thrCondSignal c s = s"
      by (simp add: thrCondSignal_def)
    ultimately show ?thesis by (metis One_nat_def Suc_le_D)
  next
    fix i assume i: "i < length ts" "sleeps_on c (ts ! i)" "\<forall>j < i. \<not> sleeps_on c (ts ! j)"
      "signal_scan c ts = ts[i := (ts ! i)\<lparr>status := THR_READY\<rparr>]"
    have "\<not> sleeps_on c (thrqueue s ! j)" if "1 \<le> j \<and> j < Suc i" for j
      using that i(3) Cons by (cases j) auto
    with i Cons show ?thesis
      by (intro disjI2 exI [of _ "Suc i"]) (simp add: thrCondSignal_def)
  qed
qed (simp add: thrCondSignal_def)

text \<open>All four threads of the table asleep on the same condition.\<close>

definition all_asleep :: "u32 \<Rightarrow> thr" where
  "all_asleep c = two_ready\<lparr>thrqueue :=
     map (\<lambda>t. t\<lparr>status := THR_SLEEPING, cv := c\<rparr>) (thrqueue two_ready)\<rparr>"

lemma all_asleep_table [simp]:
  "length (thrqueue (all_asleep c)) = 4"
  "j < 4 \<Longrightarrow> sleeps_on d (thrqueue (all_asleep c) ! j) \<longleftrightarrow> c = d"
  "j < 4 \<Longrightarrow> status (thrqueue (all_asleep c) ! j) = THR_SLEEPING"
  by (simp_all add: all_asleep_def sleeps_on_def)

theorem signal_wakes_first_witness:
  "(\<exists>i. 1 \<le> i \<and> i < length (thrqueue (all_asleep 9)) \<and>
      \<not> (\<exists>j. 1 \<le> j \<and> j < i \<and> j < 4) \<and>
      thrCondSignal 9 (all_asleep 9) = (all_asleep 9)\<lparr>thrqueue := (thrqueue (all_asleep 9))
        [i := (thrqueue (all_asleep 9) ! i)\<lparr>status := THR_READY\<rparr>]\<rparr>)"
proof -
  have "\<not> (\<forall>i. 1 \<le> i \<and> i < length (thrqueue (all_asleep 9)) \<longrightarrow>
      \<not> sleeps_on 9 (thrqueue (all_asleep 9) ! i))"
    by (intro notI) (drule spec [of _ 1], simp)
  with signal_wakes_first [of "all_asleep 9" 9] obtain i where
    i: "1 \<le> i" "i < length (thrqueue (all_asleep 9))"
      "\<forall>j. 1 \<le> j \<and> j < i \<longrightarrow> \<not> sleeps_on 9 (thrqueue (all_asleep 9) ! j)"
      "thrCondSignal 9 (all_asleep 9) = (all_asleep 9)\<lparr>thrqueue := (thrqueue (all_asleep 9))
        [i := (thrqueue (all_asleep 9) ! i)\<lparr>status := THR_READY\<rparr>]\<rparr>"
    by blast
  then show ?thesis by (intro exI [of _ i]) auto
qed

lemma broadcast_wakes:
  assumes "i < length (thrqueue s)"
  shows "thrqueue (thrCondBroadcast c s) ! i =
    (if i \<noteq> 0 \<and> sleeps_on c (thrqueue s ! i) then (thrqueue s ! i)\<lparr>status := THR_READY\<rparr> else thrqueue s ! i)"
  using assms
  by (cases "thrqueue s"; cases i) (simp_all add: thrCondBroadcast_def broadcast_scan_map)

text \<open>\<^verbatim>\<open>thrCondBroadcast\<close> makes every sleeper of the condition variable ready in the slots from
  1 on; the thread of slot 0 stays asleep, and so does every other one.\<close>

theorem broadcast_wakes_all_but_0:
  assumes "i < length (thrqueue s)"
  shows "thrqueue (thrCondBroadcast c s) ! i =
    (if i \<noteq> 0 \<and> sleeps_on c (thrqueue s ! i) then (thrqueue s ! i)\<lparr>status := THR_READY\<rparr> else thrqueue s ! i)"
  using broadcast_wakes [OF assms] .

theorem broadcast_wakes_all_but_0_witness:
  "status (thrqueue (thrCondBroadcast 9 (all_asleep 9)) ! 3) = THR_READY \<and>
   status (thrqueue (thrCondBroadcast 9 (all_asleep 9)) ! 0) = THR_SLEEPING"
  using broadcast_wakes_all_but_0 [of 3 "all_asleep 9" 9] broadcast_wakes_all_but_0 [of 0 "all_asleep 9" 9]
  by simp

section \<open>Waiting\<close>

lemma cond_wait_held:
  "lock (thrque_lock s) \<noteq> 0 \<Longrightarrow> thrCondWait c (Some l) junk s = None"
  by (simp add: thrCondWait_def spinlockLock_held)

lemma thrSched_step_lock [simp]: "thrque_lock (thrSched_step s) = thrque_lock s"
  by (simp add: thrSched_step_def upd_thr_def Let_def split: thr_ref.split)

lemma upd_thr_lock [simp]: "thrque_lock (upd_thr r f s) = thrque_lock s"
  by (simp add: upd_thr_def split: thr_ref.split)

lemma upd_thr_twice: "upd_thr r f (upd_thr r g s) = upd_thr r (\<lambda>t. f (g t)) s"
proof (cases r)
  case (Thr i)
  then show ?thesis by (cases "i < length (thrqueue s)")
      (simp_all add: upd_thr_def list_update_beyond linorder_not_less)
qed (simp add: upd_thr_def)

lemma cond_wait_free:
  assumes "lock (thrque_lock s) = 0"
  shows "thrCondWait c (Some l) junk s = Some (Some (l\<lparr>lock := 0\<rparr>), thrSched_step
     ((upd_thr (thr_current s) (\<lambda>t. t\<lparr>cv := c, status := THR_SLEEPING\<rparr>)
        (sti ((cli s)\<lparr>thrque_lock := \<lparr>lock = 1\<rparr>\<rparr>)))\<lparr>sched_t := junk\<rparr>))"
proof -
  have "thrque_lock s = \<lparr>lock = 0\<rparr>" using assms by (cases "thrque_lock s") simp
  then show ?thesis
    by (simp add: thrCondWait_def spinlockLock_free spinlockUnlock_def getCurThread_def cli_def sti_def
        upd_thr_twice)
qed

text \<open>The wait does not give the table lock back: once a thread has gone to sleep in
  \<^verbatim>\<open>thrCondWait\<close> with its own lock, the next \<^verbatim>\<open>thrCondWait\<close> with a lock of its own spins for
  ever, whatever the condition variable.\<close>

theorem second_wait_spins:
  assumes "thrCondWait c (Some l) junk s = Some (r, s')"
  shows "lock (thrque_lock s') = 1 \<and> thrCondWait c' (Some l') junk' s' = None"
proof (cases "lock (thrque_lock s) = 0")
  case True
  with assms have "lock (thrque_lock s') = 1" by (auto simp: cond_wait_free sti_def)
  then show ?thesis by (simp add: cond_wait_held)
qed (use assms in \<open>simp add: cond_wait_held\<close>)

theorem second_wait_spins_witness:
  "\<exists>r s'. thrCondWait 9 (Some \<lparr>lock = 1\<rparr>) ThrNull (two_ready\<lparr>thr_current := Thr 0\<rparr>) = Some (r, s') \<and>
     thrCondWait 8 (Some \<lparr>lock = 1\<rparr>) ThrNull s' = None"
proof -
  obtain r s' where "thrCondWait 9 (Some \<lparr>lock = 1\<rparr>) ThrNull (two_ready\<lparr>thr_current := Thr 0\<rparr>) = Some (r, s')"
    by (simp add: cond_wait_free)
  with second_wait_spins [OF this] show ?thesis by blast
qed

section \<open>Mutual exclusion\<close>

lemma mutex_lock_free:
  assumes "lock (lk m) = 0" "mlock m \<noteq> 1"
  shows "thrMutexLock addr junk m s = Some (Returns (m\<lparr>mlock := 1\<rparr>, sti (cli s)))"
proof -
  have "lk m = \<lparr>lock = 0\<rparr>" using assms by (cases "lk m") simp
  then show ?thesis using assms
    by (simp add: thrMutexLock_def spinlockLock_free spinlockUnlock_def)
qed

lemma mutex_lock_busy:
  assumes "mlock m = 1"
  shows "thrMutexLock addr junk m s \<noteq> Some (Returns r)"
proof (cases "lock (lk m) = 0")
  case True
  with assms show ?thesis
    by (auto simp: thrMutexLock_def spinlockLock_free bind_eq_Some_conv)
qed (simp add: thrMutexLock_def spinlockLock_held)

lemma mutex_unlock_free:
  assumes "lock (lk m) = 0"
  shows "thrMutexUnlock addr m s = Some (m\<lparr>mlock := 0\<rparr>, sti (thrCondBroadcast addr (cli s)))"
proof -
  have "lk m = \<lparr>lock = 0\<rparr>" using assms by (cases "lk m") simp
  then show ?thesis using assms
    by (simp add: thrMutexUnlock_def spinlockLock_free spinlockUnlock_def)
qed

text \<open>C19. Mutual exclusion: after \<^verbatim>\<open>thrMutexLock\<close> has returned, no other \<^verbatim>\<open>thrMutexLock\<close> of the
  mutex returns, in whatever state of the threads, until it is unlocked; after \<^verbatim>\<open>thrMutexUnlock\<close>
  the next one returns again.\<close>

theorem mutex_exclusion:
  assumes "thrMutexLock addr junk m s = Some (Returns (m1, s1))"
  shows "(\<nexists>r. thrMutexLock addr' junk' m1 s' = Some (Returns r)) \<and>
    (\<exists>m2 s2. thrMutexUnlock addr m1 s1 = Some (m2, s2) \<and>
       (\<exists>r. thrMutexLock addr' junk' m2 s' = Some (Returns r)))"
proof -
  have "lock (lk m) = 0"
    using assms by (cases "lock (lk m) = 0") (simp_all add: thrMutexLock_def spinlockLock_held)
  moreover have "mlock m \<noteq> 1" using assms mutex_lock_busy by blast
  ultimately have "mlock m1 = 1" "lock (lk m1) = 0"
    using assms by (auto simp: mutex_lock_free)
  then show ?thesis by (simp add: mutex_lock_busy mutex_unlock_free mutex_lock_free)
qed

theorem mutex_exclusion_witness:
  "(\<nexists>r. thrMutexLock 4 ThrNull \<lparr>mlock = 1, lk = \<lparr>lock = 0\<rparr>\<rparr> two_ready = Some (Returns r)) \<and>
    (\<exists>m2 s2. thrMutexUnlock 4 \<lparr>mlock = 1, lk = \<lparr>lock = 0\<rparr>\<rparr> (sti (cli two_ready)) = Some (m2, s2) \<and>
       (\<exists>r. thrMutexLock 4 ThrNull m2 two_ready = Some (Returns r)))"
  by (rule mutex_exclusion [of _ ThrNull "\<lparr>mlock = 0, lk = \<lparr>lock = 0\<rparr>\<rparr>" two_ready])
    (simp add: mutex_lock_free)

text \<open>A thread that finds the mutex taken goes to sleep on the mutex, with the spinlock of the
  mutex released, and its unlocking makes the thread ready again if it is not in slot 0.\<close>

theorem mutex_contender_sleeps:
  assumes "mlock m = 1" "lock (lk m) = 0" "lock (thrque_lock s) = 0"
    and "thr_current s = Thr i" "i < length (thrqueue s)"
    and "j < length (thrqueue s)" "j \<noteq> i" "status (thrqueue s ! j) = THR_READY"
      "0 < sint (counter (thrqueue s ! j))"
  shows "\<exists>m' s'. thrMutexLock addr junk m s = Some (Dispatches (m', s')) \<and> m' = m \<and>
    sleeps_on addr (thrqueue s' ! i) \<and> thr_current s' \<noteq> Thr i \<and>
    (\<exists>m2 s2. thrMutexUnlock addr m' s' = Some (m2, s2) \<and> mlock m2 = 0 \<and>
       status (thrqueue s2 ! i) = (if i = 0 then THR_SLEEPING else THR_READY))"
proof -
  define v where "v = (upd_thr (thr_current s) (\<lambda>t. t\<lparr>cv := addr, status := THR_SLEEPING\<rparr>)
        (sti ((cli (cli s))\<lparr>thrque_lock := \<lparr>lock = 1\<rparr>\<rparr>)))\<lparr>sched_t := junk\<rparr>"
  have lk: "lk m = \<lparr>lock = 0\<rparr>" using assms(2) by (cases "lk m") simp
  have v: "length (thrqueue v) = length (thrqueue s)" "sleeps_on addr (thrqueue v ! i)"
    "thrqueue v ! j = thrqueue s ! j"
    using assms by (simp_all add: v_def upd_thr_def sleeps_on_def cli_def sti_def)
  have "0 < prio_of (thrqueue v ! j)" using v assms by (simp add: prio_of_def)
  then have "sched_pick v \<noteq> None" using sched_pick_NoneD(1) [of v] v assms(6) by force
  then obtain k where k: "sched_pick v = Some k" by auto
  with sched_pick_SomeD [OF k] v have ki: "k \<noteq> i" by (auto simp: sleeps_on_def)
  have q: "length (thrqueue (thrSched_step v)) = length (thrqueue s)"
    "sleeps_on addr (thrqueue (thrSched_step v) ! i)" "thr_current (thrSched_step v) \<noteq> Thr i"
    using v ki by (simp_all add: dispatch_Some [OF k])
  have lock: "thrMutexLock addr junk m s = Some (Dispatches (m, thrSched_step v))"
    using assms(1,3) lk
    by (simp add: thrMutexLock_def spinlockLock_free cond_wait_free v_def cli_def)
  have "thrqueue (sti (thrCondBroadcast addr (cli (thrSched_step v)))) ! i =
      (if i \<noteq> 0 then (thrqueue (thrSched_step v) ! i)\<lparr>status := THR_READY\<rparr> else thrqueue (thrSched_step v) ! i)"
    using broadcast_wakes [of i "cli (thrSched_step v)" addr] q assms(5)
    by (simp add: cli_def sti_def)
  with lock q show ?thesis
    by (cases "i = 0") (simp_all add: mutex_unlock_free [OF assms(2)] sleeps_on_def)
qed

theorem mutex_contender_sleeps_witness:
  "\<exists>m' s'. thrMutexLock 4 ThrNull \<lparr>mlock = 1, lk = \<lparr>lock = 0\<rparr>\<rparr> (two_ready\<lparr>thr_current := Thr 1\<rparr>) =
      Some (Dispatches (m', s')) \<and> m' = \<lparr>mlock = 1, lk = \<lparr>lock = 0\<rparr>\<rparr> \<and>
    sleeps_on 4 (thrqueue s' ! 1) \<and> thr_current s' \<noteq> Thr 1 \<and>
    (\<exists>m2 s2. thrMutexUnlock 4 m' s' = Some (m2, s2) \<and> mlock m2 = 0 \<and>
       status (thrqueue s2 ! 1) = (if (1 :: nat) = 0 then THR_SLEEPING else THR_READY))"
  by (rule mutex_contender_sleeps [of _ _ _ 3]) simp_all

section \<open>Semaphores\<close>

lemma thrSemDown_returns:
  assumes "thrSemDown addr sem s = Some r"
  shows "0 < sint (count sem)"
proof (rule thrSemDown.raw_induct [where P = "\<lambda>_ sem _ _. 0 < sint (count sem)", OF _ assms])
  fix f addr sem r and s :: "'a thr_scheme"
  assume IH: "\<And>addr sem (s :: 'a thr_scheme) r. f addr sem s = Some r \<Longrightarrow> 0 < sint (count sem)"
    and eq: "(if sint (count sem) \<le> 0
      then let s = upd_thr (getCurThread s) (\<lambda>t. t\<lparr>status := THR_SLEEPING\<rparr>) s;
               s = upd_thr (getCurThread s) (\<lambda>t. t\<lparr>cv := addr\<rparr>) s
           in f addr sem s
      else Some (sem\<lparr>count := count sem - 1\<rparr>, s)) = Some r"
  show "0 < sint (count sem)"
    using eq by (auto simp: Let_def split: if_splits dest: IH)
qed

text \<open>\<^verbatim>\<open>thrSemDown\<close> returns exactly when the count is positive, and has then taken one unit;
  otherwise it never returns. \<^verbatim>\<open>thrSemUp\<close> adds a unit and wakes every sleeper of the semaphore.\<close>

theorem semaphore_units:
  "thrSemDown addr sem s =
     (if 0 < sint (count sem) then Some (sem\<lparr>count := count sem - 1\<rparr>, s) else None) \<and>
   count (fst (thrSemUp addr sem s)) = count sem + 1 \<and>
   thrqueue (snd (thrSemUp addr sem s)) =
     map (\<lambda>t. if sleeps_on addr t then t\<lparr>status := THR_READY, cv := 0\<rparr> else t) (thrqueue s)"
proof (cases "0 < sint (count sem)")
  case False
  then have "thrSemDown addr sem s = None"
    using thrSemDown_returns by (cases "thrSemDown addr sem s") blast+
  with False show ?thesis by (simp add: thrSemUp_def)
qed (simp add: thrSemDown.simps thrSemUp_def)

section \<open>The thread system\<close>

text \<open>
  \<open>kstep\<close>: what the threads can do to the table, one call at a time. The unset local of a nested
  scheduler is an arbitrary thread pointer.
\<close>

definition ref_ok :: "thr_ref \<Rightarrow> bool" where
  "ref_ok r \<longleftrightarrow> (case r of ThrNull \<Rightarrow> True | Thr i \<Rightarrow> i < THRQUESIZE)"

inductive kstep :: "code_syms \<Rightarrow> 'a thr_scheme \<Rightarrow> 'a thr_scheme \<Rightarrow> bool" for sy where
  create: "kstep sy s (snd (thrCreate sy f a s))"
| yield: "kstep sy s (thrYeild s)"
| exit: "kstep sy s (thrExit s)"
| kill: "thrKill t s = Some s' \<Longrightarrow> kstep sy s s'"
| wait: "ref_ok junk \<Longrightarrow> thrCondWait c spl junk s = Some (l, s') \<Longrightarrow> kstep sy s s'"
| signal: "kstep sy s (thrCondSignal c s)"
| broadcast: "kstep sy s (thrCondBroadcast c s)"
| sem_up: "kstep sy s (snd (thrSemUp addr sem s))"

inductive_cases kstepE: "kstep sy s s'"

lemmas kstep_split [consumes 1, case_names create yield exit kill wait signal broadcast sem_up] = kstepE

text \<open>
  \<open>kinv\<close>: the table is well-formed, the pointers lead into it, and no thread but the current one is
  marked as running.
\<close>

definition kinv :: "'a thr_scheme \<Rightarrow> bool" where
  "kinv s \<longleftrightarrow> thr_ok s \<and> ref_ok (thr_current s) \<and> ref_ok (sched_t s) \<and>
     (\<forall>i < THRQUESIZE. status (thrqueue s ! i) = THR_RUNNING \<longrightarrow> thr_current s = Thr i)"

text \<open>
  Every step changes slots one by one. \<open>keeps\<close> is what every step preserves of each slot; \<open>calm\<close>
  adds that the slot does not start to run, which only a dispatch does to a slot.
\<close>

definition keeps :: "thread \<Rightarrow> thread \<Rightarrow> bool" where
  "keeps t u \<longleftrightarrow> tid u = tid t \<and> length (kstack u) = length (kstack t) \<and>
     (status t \<notin> {THR_UNUSED, THR_STOP} \<longrightarrow> status u \<notin> {THR_UNUSED, THR_STOP})"

definition calm :: "thread \<Rightarrow> thread \<Rightarrow> bool" where
  "calm t u \<longleftrightarrow> keeps t u \<and> (status u = THR_RUNNING \<longrightarrow> status t = THR_RUNNING)"

lemma calm_refl [simp, intro]: "calm t t"
  by (simp add: calm_def keeps_def)

lemma keeps_refl [simp, intro]: "keeps t t"
  by (simp add: keeps_def)

lemma calm_trans: "calm t u \<Longrightarrow> calm u v \<Longrightarrow> calm t v"
  by (auto simp: calm_def keeps_def)

lemma keeps_trans: "keeps t u \<Longrightarrow> keeps u v \<Longrightarrow> keeps t v"
  by (auto simp: keeps_def)

lemma calm_keeps: "list_all2 calm xs ys \<Longrightarrow> list_all2 keeps xs ys"
  by (erule list_all2_mono) (simp add: calm_def)

lemma keeps_table_trans: "list_all2 keeps xs ys \<Longrightarrow> list_all2 keeps ys zs \<Longrightarrow> list_all2 keeps xs zs"
  by (rule list_all2_trans [of keeps keeps keeps]) (blast intro: keeps_trans)+

lemma calm_table_trans: "list_all2 calm xs ys \<Longrightarrow> list_all2 calm ys zs \<Longrightarrow> list_all2 calm xs zs"
  by (rule list_all2_trans [of calm calm calm]) (blast intro: calm_trans)+

lemma list_all2_upd:
  assumes "\<And>t. P t t" "P (xs ! i) x"
  shows "list_all2 P xs (xs[i := x])"
proof (cases "i < length xs")
  case True
  with assms show ?thesis by (auto simp: list_all2_conv_all_nth nth_list_update)
qed (simp add: list_update_beyond list_all2_refl assms(1))

lemma calm_upd_thr:
  "(\<And>t. calm t (f t)) \<Longrightarrow> list_all2 calm (thrqueue s) (thrqueue (upd_thr r f s))"
  by (cases r) (auto simp: upd_thr_def list_all2_refl intro!: list_all2_upd)

lemma calm_map: "(\<And>t. calm t (f t)) \<Longrightarrow> list_all2 calm xs (map f xs)"
  by (simp add: list_all2_conv_all_nth)

lemma calm_signal_scan: "list_all2 calm ts (signal_scan c ts)"
  by (induction ts) (auto simp: list_all2_refl calm_def keeps_def)

lemma calm_take_drop:
  "list_all2 calm (drop 1 xs) ys \<Longrightarrow> list_all2 calm xs (take 1 xs @ ys)"
  by (cases xs) (auto simp: list_all2_refl)

lemma calm_signal: "list_all2 calm (thrqueue s) (thrqueue (thrCondSignal c s))"
  by (simp add: thrCondSignal_def del: One_nat_def) (rule calm_take_drop, rule calm_signal_scan)

lemma calm_broadcast: "list_all2 calm (thrqueue s) (thrqueue (thrCondBroadcast c s))"
  unfolding thrCondBroadcast_def broadcast_scan_map
  by (simp del: One_nat_def, rule calm_take_drop, rule calm_map) (auto simp: calm_def keeps_def)

lemma calm_sem_up: "list_all2 calm (thrqueue s) (thrqueue (snd (thrSemUp a sem s)))"
  by (auto simp: thrSemUp_def calm_def keeps_def intro!: calm_map)

lemma calm_create: "list_all2 calm (thrqueue s) (thrqueue (snd (thrCreate sy f a s)))"
  if "thr_ok s"
proof (cases "thrAlloc s")
  case (Some i)
  then have "i < 256" using thr_okD(1) [OF that] by (simp add: thrAlloc_Some)
  note fr = thread_setup_frame [OF thr_okD(3) [OF that this]]
  show ?thesis
    using Some by (simp add: thrCreate_def Let_def upd_thr_def)
      (rule list_all2_upd, simp, simp add: calm_def keeps_def fr thr_okD(3) [OF that \<open>i < 256\<close>])
qed (simp add: thrCreate_def list_all2_refl)

lemma calm_kill: "thrKill t s = Some s' \<Longrightarrow> list_all2 calm (thrqueue s) (thrqueue s')"
  by (auto simp: thrKill_def calm_def keeps_def split: if_splits intro!: calm_upd_thr)

text \<open>The other steps end in a dispatch, which a thread enters after it has left its slot.\<close>

definition off_cpu :: "'a thr_scheme \<Rightarrow> bool" where
  "off_cpu s \<longleftrightarrow> (\<forall>i < length (thrqueue s). status (thrqueue s ! i) \<noteq> THR_RUNNING)"

lemma keeps_dispatch: "list_all2 keeps (thrqueue s) (thrqueue (thrSched_step s))"
  by (auto simp: thrSched_step_def Let_def upd_thr_def keeps_def list_all2_refl
      split: thr_ref.split intro!: list_all2_upd)

lemma sched_target: "ref_ok (thr_current (thrSched_step s)) \<and> ref_ok (sched_t (thrSched_step s))"
  if "length (thrqueue s) = 256" "ref_ok (sched_t s)"
proof (cases "sched_pick s")
  case None
  then show ?thesis using that
    by (cases "sched_t s") (simp_all add: dispatch_None upd_thr_def)
next
  case (Some i)
  then show ?thesis using sched_pick_SomeD(1) [OF Some] that by (simp add: dispatch_Some ref_ok_def)
qed

lemma dispatch_runs:
  assumes "off_cpu s" "i < length (thrqueue s)" "status (thrqueue (thrSched_step s) ! i) = THR_RUNNING"
  shows "thr_current (thrSched_step s) = Thr i"
proof (cases "thrSched_scan (thrqueue s) 0 (sched_t s) 0")
  case ThrNull
  with assms show ?thesis by (simp add: off_cpu_def thrSched_step_def upd_thr_def)
next
  case (Thr k)
  with assms show ?thesis
    by (cases "i = k") (simp_all add: off_cpu_def thrSched_step_def upd_thr_def Let_def)
qed

lemma thr_ok_keeps: "thr_ok s \<Longrightarrow> list_all2 keeps (thrqueue s) (thrqueue s') \<Longrightarrow> thr_ok s'"
  by (auto simp: thr_ok_def list_all2_conv_all_nth keeps_def)

lemma kinv_calm:
  assumes "kinv s" "list_all2 calm (thrqueue s) (thrqueue s')"
    "thr_current s' = thr_current s" "sched_t s' = sched_t s"
  shows "kinv s'"
  using assms thr_ok_keeps [OF _ calm_keeps [OF assms(2)]] thr_okD(1) [of s]
  unfolding kinv_def by (auto simp: list_all2_conv_all_nth calm_def)

lemma kinv_dispatch: "thr_ok s \<Longrightarrow> off_cpu s \<Longrightarrow> ref_ok (sched_t s) \<Longrightarrow> kinv (thrSched_step s)"
  unfolding kinv_def
  using thr_ok_keeps [OF _ keeps_dispatch, of s] sched_target [of s] dispatch_runs [of s] thr_okD(1) [of s]
  by auto

lemma off_cpu_leave:
  assumes "kinv s" "\<And>t. status (f t) \<noteq> THR_RUNNING" "thrqueue v = thrqueue s"
  shows "off_cpu (upd_thr (thr_current s) f v)"
proof -
  have run: "\<And>i. i < 256 \<Longrightarrow> status (thrqueue s ! i) = THR_RUNNING \<Longrightarrow> thr_current s = Thr i"
    and l: "length (thrqueue s) = 256"
    using assms(1) thr_okD(1) [of s] by (auto simp: kinv_def)
  show ?thesis
  proof (cases "thr_current s")
    case ThrNull
    with run l assms(3) show ?thesis by (auto simp: off_cpu_def upd_thr_def)
  next
    case (Thr k)
    show ?thesis unfolding off_cpu_def
    proof (intro allI impI)
      fix i assume "i < length (thrqueue (upd_thr (thr_current s) f v))"
      with Thr l assms(3) have "i < 256" by (simp add: upd_thr_def)
      with Thr run [of i] l assms(2,3)
      show "status (thrqueue (upd_thr (thr_current s) f v) ! i) \<noteq> THR_RUNNING"
        by (cases "i = k") (auto simp: upd_thr_def)
    qed
  qed
qed

lemma yield_leave_upd: "yield_leave s =
   upd_thr (thr_current s) (\<lambda>t. t\<lparr>status := THR_READY, counter := counter t - 1\<rparr>) s"
proof -
  have "thr_current (upd_thr (thr_current s) (\<lambda>t. t\<lparr>status := THR_READY\<rparr>) s) = thr_current s"
    by (simp add: upd_thr_def split: thr_ref.split)
  then show ?thesis by (simp add: yield_leave_def Let_def upd_thr_twice)
qed

lemma cond_wait_form:
  assumes "thrCondWait c spl junk s = Some (l, s')"
  obtains v where "thrqueue v = thrqueue s" "lock (thrque_lock s) \<noteq> 0 \<Longrightarrow> lock (thrque_lock v) \<noteq> 0"
    "s' = thrSched_step ((upd_thr (thr_current s) (\<lambda>t. t\<lparr>cv := c, status := THR_SLEEPING\<rparr>) v)
            \<lparr>sched_t := junk\<rparr>)"
proof (cases spl)
  case None
  with assms have "s' = thrSched_step ((upd_thr (thr_current s)
      (\<lambda>t. t\<lparr>cv := c, status := THR_SLEEPING\<rparr>) s)\<lparr>sched_t := junk\<rparr>)"
    by (simp add: thrCondWait_def getCurThread_def upd_thr_twice Let_def)
  then show ?thesis by (intro that [of s]) auto
next
  case (Some a)
  show ?thesis
  proof (cases "lock (thrque_lock s) = 0")
    case True
    with assms Some show ?thesis
      by (intro that [of "sti ((cli s)\<lparr>thrque_lock := \<lparr>lock = 1\<rparr>\<rparr>)"])
        (auto simp: cond_wait_free sti_def cli_def)
  qed (use assms Some in \<open>simp add: cond_wait_held\<close>)
qed

lemma upd_thr_current: "thr_current (upd_thr r g s) = thr_current s"
  by (cases r) (simp_all add: upd_thr_def)

lemma upd_thr_sched_t [simp]: "sched_t (upd_thr r f s) = sched_t s"
  by (simp add: upd_thr_def split: thr_ref.split)

lemma thr_ok_upd_thr: "thr_ok v \<Longrightarrow> (\<And>t. keeps t (f t)) \<Longrightarrow> thr_ok (upd_thr r f v)"
  by (erule thr_ok_keeps)
    (auto simp: upd_thr_def list_all2_refl split: thr_ref.split intro!: list_all2_upd)

lemma kinv_leave:
  assumes "kinv s" "thrqueue v = thrqueue s" "ref_ok j"
    "\<And>t. keeps t (f t)" "\<And>t. status (f t) \<noteq> THR_RUNNING"
  shows "kinv (thrSched_step ((upd_thr (thr_current s) f v)\<lparr>sched_t := j\<rparr>))"
proof (rule kinv_dispatch)
  have "thr_ok v" using assms(1,2) by (simp add: kinv_def thr_ok_def)
  then have "thr_ok (upd_thr (thr_current s) f v)" by (rule thr_ok_upd_thr) (rule assms(4))
  then show "thr_ok ((upd_thr (thr_current s) f v)\<lparr>sched_t := j\<rparr>)" by (simp add: thr_ok_def)
  show "off_cpu ((upd_thr (thr_current s) f v)\<lparr>sched_t := j\<rparr>)"
    using off_cpu_leave [OF assms(1,5,2)] by (simp add: off_cpu_def)
qed (use assms(3) in simp)

lemma kinv_leave_same:
  assumes "kinv s" "\<And>t. keeps t (f t)" "\<And>t. status (f t) \<noteq> THR_RUNNING"
  shows "kinv (thrSched_step (upd_thr (thr_current s) f s))"
proof -
  have same: "(upd_thr (thr_current s) f s)\<lparr>sched_t := sched_t s\<rparr> = upd_thr (thr_current s) f s"
    by (cases "thr_current s") (simp_all add: upd_thr_def)
  have "ref_ok (sched_t s)" using assms(1) by (simp add: kinv_def)
  from kinv_leave [OF assms(1) refl this assms(2,3)] show ?thesis unfolding same .
qed

lemma kinv_step:
  assumes "kstep sy s s'" "kinv s"
  shows "kinv s'"
  using assms(1)
proof (cases rule: kstep_split)
  case (create f a)
  have "thr_ok s" using assms(2) by (simp add: kinv_def)
  from create kinv_calm [OF assms(2) calm_create [OF this]] show ?thesis
    by (auto simp: thrCreate_def Let_def upd_thr_def split: option.split)
next
  case yield
  show ?thesis unfolding yield thrYeild_def yield_leave_upd
    by (rule kinv_leave_same [OF assms(2)]) (simp_all add: keeps_def)
next
  case exit
  show ?thesis unfolding exit thrExit_def
    by (rule kinv_leave_same [OF assms(2)]) (simp_all add: keeps_def)
next
  case (kill t)
  with kinv_calm [OF assms(2) calm_kill [OF kill]] show ?thesis
    by (auto simp: thrKill_def upd_thr_def split: if_splits)
next
  case (wait junk c spl l)
  from wait(2) obtain v where "thrqueue v = thrqueue s"
    "s' = thrSched_step ((upd_thr (thr_current s) (\<lambda>t. t\<lparr>cv := c, status := THR_SLEEPING\<rparr>) v)
            \<lparr>sched_t := junk\<rparr>)" by (rule cond_wait_form)
  moreover have "kinv (thrSched_step ((upd_thr (thr_current s) (\<lambda>t. t\<lparr>cv := c, status := THR_SLEEPING\<rparr>) v)
            \<lparr>sched_t := junk\<rparr>))"
    by (rule kinv_leave [OF assms(2) calculation(1) wait(1)]) (simp_all add: keeps_def)
  ultimately show ?thesis by simp
next
  case (signal c)
  with kinv_calm [OF assms(2) calm_signal [of s c]] show ?thesis by (simp add: thrCondSignal_def)
next
  case (broadcast c)
  with kinv_calm [OF assms(2) calm_broadcast [of s c]] show ?thesis by (simp add: thrCondBroadcast_def)
next
  case (sem_up a sem)
  with kinv_calm [OF assms(2) calm_sem_up [of s a sem]] show ?thesis by (simp add: thrSemUp_def)
qed

lemma kinv_reach: "(kstep sy)\<^sup>*\<^sup>* s s' \<Longrightarrow> kinv s \<Longrightarrow> kinv s'"
  by (induction rule: rtranclp_induct) (blast intro: kinv_step)+

lemma kstep_keeps:
  assumes "kstep sy s s'" "kinv s"
  shows "list_all2 keeps (thrqueue s) (thrqueue s')"
  using assms(1)
proof (cases rule: kstep_split)
  case (create f a)
  then show ?thesis using assms(2) by (simp add: calm_keeps [OF calm_create] kinv_def)
next
  case yield
  then show ?thesis unfolding thrYeild_def yield_leave_upd
    by (auto intro!: keeps_table_trans [OF _ keeps_dispatch] calm_keeps [OF calm_upd_thr]
        simp: calm_def keeps_def)
next
  case exit
  then show ?thesis unfolding thrExit_def
    by (auto intro!: keeps_table_trans [OF _ keeps_dispatch] calm_keeps [OF calm_upd_thr]
        simp: calm_def keeps_def)
next
  case (kill t)
  then show ?thesis by (simp add: calm_keeps calm_kill)
next
  case (wait junk c spl l)
  from wait(2) obtain v where v: "thrqueue v = thrqueue s"
    "s' = thrSched_step ((upd_thr (thr_current s) (\<lambda>t. t\<lparr>cv := c, status := THR_SLEEPING\<rparr>) v)
            \<lparr>sched_t := junk\<rparr>)" by (rule cond_wait_form)
  have "list_all2 calm (thrqueue v) (thrqueue (upd_thr (thr_current s)
      (\<lambda>t. t\<lparr>cv := c, status := THR_SLEEPING\<rparr>) v))"
    by (rule calm_upd_thr) (simp add: calm_def keeps_def)
  then have "list_all2 keeps (thrqueue s) (thrqueue ((upd_thr (thr_current s)
      (\<lambda>t. t\<lparr>cv := c, status := THR_SLEEPING\<rparr>) v)\<lparr>sched_t := junk\<rparr>))"
    using v(1) by (simp add: calm_keeps)
  then show ?thesis unfolding v(2) by (rule keeps_table_trans) (rule keeps_dispatch)
qed (simp_all add: calm_keeps calm_signal calm_broadcast calm_sem_up)

lemma reach_keeps:
  assumes "(kstep sy)\<^sup>*\<^sup>* s s'" "kinv s"
  shows "list_all2 keeps (thrqueue s) (thrqueue s')"
  using assms(1)
proof (induction rule: rtranclp_induct)
  case (step y z)
  from kstep_keeps [OF step(2) kinv_reach [OF step(1) assms(2)]] step(3)
  show ?case by (blast intro: keeps_table_trans)
qed (simp add: list_all2_refl)

lemma kinv_init:
  assumes "length (thrqueue s) = 256" "\<forall>i < 256. length (kstack (thrqueue s ! i)) = 1024"
    "ref_ok (thr_current s)" "ref_ok (sched_t s)"
  shows "kinv (thrInit sy s)"
proof -
  have "thr_current (thrInit sy s) = thr_current s" "sched_t (thrInit sy s) = sched_t s"
    unfolding thrInit_def Let_def using assms(1)
    by (subst fold_upd_thr; simp add: cli_def sti_def upd_thr_def)+
  then show ?thesis using assms
    by (auto simp: kinv_def thr_ok_def thrInit_table simp del: upt_Suc)
qed

text \<open>Whatever the threads call after \<^verbatim>\<open>thrInit\<close>, at most one thread is marked as running, it
  is the current one, and slot i always holds the thread of id i.\<close>

theorem one_thread_running:
  assumes "length (thrqueue s) = 256" "\<forall>i < 256. length (kstack (thrqueue s ! i)) = 1024"
    "ref_ok (thr_current s)" "ref_ok (sched_t s)" "(kstep sy)\<^sup>*\<^sup>* (thrInit sy s) s'"
  shows "\<forall>i < 256. tid (thrqueue s' ! i) = of_nat i \<and>
    (status (thrqueue s' ! i) = THR_RUNNING \<longrightarrow> thr_current s' = Thr i)"
  using kinv_reach [OF assms(5) kinv_init [OF assms(1-4)]] by (auto simp: kinv_def thr_ok_def)

definition after_one_yield :: thr where
  "after_one_yield = thrYeild (snd (thrCreate demo_syms 4096 5 (thrInit demo_syms idle_threads)))"

theorem one_thread_running_witness:
  "tid (thrqueue after_one_yield ! 7) = 7 \<and>
   \<not> (status (thrqueue after_one_yield ! 7) = THR_RUNNING \<and> thr_current after_one_yield \<noteq> Thr 7)"
proof -
  have "(kstep demo_syms)\<^sup>*\<^sup>* (thrInit demo_syms idle_threads) after_one_yield"
    unfolding after_one_yield_def
    by (rule rtranclp.rtrancl_into_rtrancl, rule r_into_rtranclp, rule kstep.create, rule kstep.yield)
  from one_thread_running [OF _ _ _ _ this]
  have inv: "\<forall>i < 256. tid (thrqueue after_one_yield ! i) = of_nat i \<and>
      (status (thrqueue after_one_yield ! i) = THR_RUNNING \<longrightarrow> thr_current after_one_yield = Thr i)"
    by (simp add: idle_threads_def idle_thread_def ref_ok_def)
  from inv [rule_format, of 7] show ?thesis by auto
qed

text \<open>A slot is used once: no call gives the slot of an ended thread back, so that once
  \<^verbatim>\<open>thrCreate\<close> has failed for want of a slot, it fails for ever, however many threads have
  ended.\<close>

theorem slots_used_once:
  assumes "kinv s" "(kstep sy)\<^sup>*\<^sup>* s s'"
  shows "(i < 256 \<and> status (thrqueue s ! i) \<notin> {THR_UNUSED, THR_STOP} \<longrightarrow>
      status (thrqueue s' ! i) \<notin> {THR_UNUSED, THR_STOP}) \<and>
    (thrAlloc s = None \<longrightarrow> fst (thrCreate sy f a s') = - 1)"
proof -
  note k = reach_keeps [OF assms(2,1)]
  have l: "length (thrqueue s) = 256" "length (thrqueue s') = 256"
    using assms kinv_reach [OF assms(2,1)] thr_okD(1) by (auto simp: kinv_def)
  have keep: "status (thrqueue s' ! i) \<notin> {THR_UNUSED, THR_STOP}"
    if "i < 256" "status (thrqueue s ! i) \<notin> {THR_UNUSED, THR_STOP}" for i
    using k that l unfolding list_all2_conv_all_nth keeps_def by auto
  moreover have "thrAlloc s' = None" if "thrAlloc s = None"
    using that keep unfolding thrAlloc_None l by blast
  ultimately show ?thesis by (auto simp: thrCreate_def)
qed

lemma kinv_idle: "kinv idle_threads \<longleftrightarrow> (\<forall>i < 256. (7 :: u32) = of_nat i)"
  by (simp add: kinv_def thr_ok_def idle_threads_def idle_thread_def ref_ok_def)

definition full_table :: thr where
  "full_table = idle_threads\<lparr>thrqueue := map (\<lambda>i. idle_thread\<lparr>tid := of_nat i\<rparr>) [0..<256]\<rparr>"

lemma kinv_full_table: "kinv full_table" "thrAlloc full_table = None"
  unfolding thrAlloc_None
  by (simp_all add: kinv_def thr_ok_def full_table_def idle_threads_def idle_thread_def ref_ok_def
      del: upt_Suc)

theorem slots_used_once_witness:
  "fst (thrCreate demo_syms 4096 5 (thrExit full_table)) = - 1"
  using slots_used_once [OF kinv_full_table(1), of demo_syms "thrExit full_table" 0 4096 5]
    kinv_full_table(2) kstep.exit [of demo_syms full_table] by blast

text \<open>C34. No call releases the table lock: once it is taken, which the first \<^verbatim>\<open>thrCondWait\<close> does, it
  stays taken, and no later \<^verbatim>\<open>thrMutexLock\<close> of a mutex that is locked gets past it.\<close>

theorem table_lock_stays_taken:
  assumes "(kstep sy)\<^sup>*\<^sup>* s s'" "lock (thrque_lock s) \<noteq> 0" "mlock m = 1"
  shows "lock (thrque_lock s') \<noteq> 0 \<and> thrMutexLock addr junk m s' = None"
proof -
  have one: "lock (thrque_lock z) \<noteq> 0" if "kstep sy y z" "lock (thrque_lock y) \<noteq> 0" for y z :: "'a thr_scheme"
    using that
  proof (cases rule: kstep_split)
    case (wait junk c spl l)
    from wait(2) show ?thesis by (rule cond_wait_form) (use that(2) in simp)
  qed (use \<open>lock (thrque_lock y) \<noteq> 0\<close> in \<open>auto simp: thrCreate_def thrYeild_def yield_leave_upd thrExit_def thrKill_def
      thrCondSignal_def thrCondBroadcast_def thrSemUp_def Let_def split: option.split if_splits\<close>)
  from assms(1,2) have held: "lock (thrque_lock s') \<noteq> 0"
    by (induction rule: rtranclp_induct) (auto dest: one)
  then have "thrMutexLock addr junk m s' = None"
    using assms(3)
    by (cases "lock (lk m) = 0") (simp_all add: thrMutexLock_def spinlockLock_free spinlockLock_held
        cond_wait_held cli_def)
  with held show ?thesis ..
qed

theorem table_lock_stays_taken_witness:
  "lock (thrque_lock (thrYeild (full_table\<lparr>thrque_lock := \<lparr>lock = 1\<rparr>\<rparr>))) \<noteq> 0 \<and>
   thrMutexLock 4 ThrNull \<lparr>mlock = 1, lk = \<lparr>lock = 0\<rparr>\<rparr>
     (thrYeild (full_table\<lparr>thrque_lock := \<lparr>lock = 1\<rparr>\<rparr>)) = None"
  by (rule table_lock_stays_taken [of demo_syms "full_table\<lparr>thrque_lock := \<lparr>lock = 1\<rparr>\<rparr>"])
    (auto intro: kstep.yield)

end
