(* ===== verification/Descriptors.thy ===== *)
theory Descriptors
  imports Hardware
begin

text \<open>
  Segment and interrupt descriptors: \<^verbatim>\<open>src/gdt.c\<close>, the tables of \<^verbatim>\<open>src/idt.c\<close> with the set-up of
  the interrupt controllers, and the timer of \<^verbatim>\<open>src/timer.c\<close>.

  A segment descriptor is the eight bytes the code writes through its byte pointer; an interrupt
  descriptor is a record with the fields of \<^verbatim>\<open>struct ide_t\<close>. The addresses of the tables and of
  the interrupt stubs come from the linker and are arguments. The readers \<open>seg_base\<close>,
  \<open>seg_limit\<close> and \<open>gate_offset\<close> take a descriptor apart the way the processor does.
\<close>

section \<open>Segment descriptors\<close>

type_synonym gde = "u8 list"

definition gdeInit :: "u32 \<Rightarrow> u32 \<Rightarrow> u8 \<Rightarrow> gde \<Rightarrow> gde" where
  "gdeInit limit base privilege target =
     (let (limit, target) =
        (if 0xffff < limit
         then let limit = drop_bit 12 limit in (limit, target[6 := 0xc0])
         else (limit, target[6 := 0x40]));
          target = target[0 := ucast (limit AND 0xff)];
          target = target[1 := ucast (drop_bit 8 limit AND 0xff)];
          target = target[2 := ucast (base AND 0xff)];
          target = target[3 := ucast (drop_bit 8 base AND 0xff)];
          target = target[4 := ucast (drop_bit 16 base AND 0xff)];
          target = target[5 := privilege];
          target = target[6 := (target ! 6) OR ucast (drop_bit 16 limit AND 0xf)]
      in target[7 := ucast (drop_bit 24 base AND 0xff)])"

abbreviation (input) SEG_KERNEL_CODE :: nat where "SEG_KERNEL_CODE \<equiv> 1"
abbreviation (input) SEG_KERNEL_DATA :: nat where "SEG_KERNEL_DATA \<equiv> 2"
abbreviation (input) SEG_USER_CODE :: nat where "SEG_USER_CODE \<equiv> 3"
abbreviation (input) SEG_USER_DATA :: nat where "SEG_USER_DATA \<equiv> 4"
abbreviation (input) ST_KERNEL_CODE :: u8 where "ST_KERNEL_CODE \<equiv> 0x9a"
abbreviation (input) ST_KERNEL_DATA :: u8 where "ST_KERNEL_DATA \<equiv> 0x92"
abbreviation (input) ST_USER_CODE :: u8 where "ST_USER_CODE \<equiv> 0xfa"
abbreviation (input) ST_USER_DATA :: u8 where "ST_USER_DATA \<equiv> 0xf2"

record ide_t =
  offsetlow16 :: u16
  sel :: u16
  reserved :: u8
  privilege :: u8
  offsethigh16 :: u16

text \<open>\<open>gdtr\<close> and \<open>idtr\<close> are the three half-words the registers were last loaded from.\<close>

record desc = hw +
  gdt :: "gde list"
  gdtr :: "u16 list"
  idt :: "ide_t list"
  idtr :: "u16 list"
  ticks :: u32

definition gdtInit :: "u32 \<Rightarrow> 'a desc_scheme \<Rightarrow> 'a desc_scheme" where
  "gdtInit addr s =
     (let g = gdt s;
          g = g[SEG_KERNEL_CODE := gdeInit 0xffffffff 0 ST_KERNEL_CODE (g ! SEG_KERNEL_CODE)];
          g = g[SEG_KERNEL_DATA := gdeInit 0xffffffff 0 ST_KERNEL_DATA (g ! SEG_KERNEL_DATA)];
          g = g[SEG_USER_CODE := gdeInit 0xffffffff 0 ST_USER_CODE (g ! SEG_USER_CODE)];
          g = g[SEG_USER_DATA := gdeInit 0xffffffff 0 ST_USER_DATA (g ! SEG_USER_DATA)]
      in s\<lparr>gdt := g, gdtr := [8 * 6 - 1, ucast addr, ucast (drop_bit 16 addr)]\<rparr>)"

definition selector :: "u16 \<Rightarrow> u16" where
  "selector index = push_bit 3 index"

section \<open>Interrupt descriptors\<close>

abbreviation (input) IDTSIZE :: nat where "IDTSIZE \<equiv> 256"
abbreviation (input) IDX_SYSCALL :: nat where "IDX_SYSCALL \<equiv> 128"
abbreviation (input) IT_INTERRUPT :: u8 where "IT_INTERRUPT \<equiv> 0x8e"

definition idInit :: "u32 \<Rightarrow> u16 \<Rightarrow> u8 \<Rightarrow> ide_t \<Rightarrow> ide_t" where
  "idInit offset slct prv d =
     d\<lparr>offsetlow16 := ucast (offset AND 0xffff), sel := slct, reserved := 0, privilege := prv,
       offsethigh16 := ucast (drop_bit 16 offset AND 0xffff)\<rparr>"

abbreviation (input) PIC_MASTER_CMD :: u16 where "PIC_MASTER_CMD \<equiv> 0x20"
abbreviation (input) PIC_MASTER_DATA :: u16 where "PIC_MASTER_DATA \<equiv> 0x21"
abbreviation (input) PIC_SLAVE_CMD :: u16 where "PIC_SLAVE_CMD \<equiv> 0xa0"
abbreviation (input) PIC_SLAVE_DATA :: u16 where "PIC_SLAVE_DATA \<equiv> 0xa1"

definition idt_gate :: "(nat \<Rightarrow> u32) \<Rightarrow> nat \<Rightarrow> ide_t \<Rightarrow> ide_t" where
  "idt_gate vectors i d =
     (if i = IDX_SYSCALL
      then idInit (vectors i) (selector (of_nat SEG_KERNEL_CODE)) IT_INTERRUPT d
      else idInit (vectors i) (selector (of_nat SEG_KERNEL_CODE)) IT_INTERRUPT d)"

definition idtInit :: "(nat \<Rightarrow> u32) \<Rightarrow> u32 \<Rightarrow> 'a desc_scheme \<Rightarrow> 'a desc_scheme" where
  "idtInit vectors addr s =
     (let s = fold (\<lambda>i s. s\<lparr>idt := (idt s)[i := idt_gate vectors i (idt s ! i)]\<rparr>) [0..<IDTSIZE] s;
          r = [8 * 256 - 1, ucast addr, ucast (drop_bit 16 addr)];
          s = outb PIC_MASTER_CMD 0x11 s;
          s = outb PIC_MASTER_DATA 0x20 s;
          s = outb PIC_MASTER_DATA 0x04 s;
          s = outb PIC_MASTER_DATA 0x01 s;
          s = outb PIC_SLAVE_CMD 0x11 s;
          s = outb PIC_SLAVE_DATA 0x28 s;
          s = outb PIC_SLAVE_DATA 0x02 s;
          s = outb PIC_SLAVE_DATA 0x01 s;
          s = outb PIC_MASTER_DATA 0x00 s;
          s = outb PIC_SLAVE_DATA 0x00 s
      in s\<lparr>idtr := r\<rparr>)"

section \<open>The timer\<close>

abbreviation (input) FREQUENCY :: u32 where "FREQUENCY \<equiv> 1193180"
abbreviation (input) SET_FREQ :: u32 where "SET_FREQ \<equiv> 100"

definition timerDriverInit :: "'a hw_scheme \<Rightarrow> 'a hw_scheme" where
  "timerDriverInit st =
     (let s = FREQUENCY div SET_FREQ;
          st = outb 0x43 0x36 st;
          lowbit = ucast (s AND 0xff);
          highbit = ucast (drop_bit 8 s AND 0xff);
          st = outb 0x40 lowbit st
      in outb 0x40 highbit st)"

definition timerInterruptHandler :: "'a desc_scheme \<Rightarrow> 'a desc_scheme" where
  "timerInterruptHandler s = s\<lparr>ticks := ticks s + 1\<rparr>"

section \<open>Reading descriptors\<close>

definition seg_base :: "gde \<Rightarrow> u32" where
  "seg_base g = word_of_bytes (g ! 2) (g ! 3) (g ! 4) (g ! 7)"

text \<open>The limit is counted in pages when the granularity bit is set.\<close>

definition seg_limit :: "gde \<Rightarrow> u32" where
  "seg_limit g =
     (let l = word_of_bytes (g ! 0) (g ! 1) (g ! 6 AND 0xf) 0
      in if bit (g ! 6) 7 then push_bit 12 l OR 0xfff else l)"

definition gate_offset :: "ide_t \<Rightarrow> u32" where
  "gate_offset d = ucast (offsetlow16 d) OR push_bit 16 (ucast (offsethigh16 d))"

lemma gdeInit_eq:
  assumes "length g = 8"
  shows "gdeInit limit base prv g =
    (let l = (if 0xffff < limit then drop_bit 12 limit else limit)
     in [byte_of l 0, byte_of l 1, byte_of base 0, byte_of base 1, byte_of base 2, prv,
        (if 0xffff < limit then 0xc0 else 0x40) OR (byte_of l 2 AND 0xf), byte_of base 3])"
proof -
  have u: "ucast (v AND 0xff :: u32) = (ucast v :: u8)" for v
    by (rule bit_word_eqI) (auto simp: bit_simps mask_numerals dest: bit_imp_le_length)
  have f: "ucast (v AND 0xf :: u32) = (ucast v AND 0xf :: u8)" for v
    by (rule bit_word_eqI) (auto simp: bit_simps dest: bit_imp_le_length)
  obtain a b c d e f' g' h where "g = [a, b, c, d, e, f', g', h]"
    using assms by (auto simp: length_Suc_conv eval_nat_numeral)
  then show ?thesis
    by (simp add: gdeInit_def Let_def byte_of_def u f)
qed

lemma low20:
  assumes "c AND 0xf = 0"
  shows "word_of_bytes (byte_of l 0) (byte_of l 1) ((c OR (byte_of l 2 AND 0xf)) AND 0xf) 0 = take_bit 20 l"
proof -
  have c: "(c OR (x AND 0xf)) AND 0xf = x AND mask 4" for x :: u8
    unfolding bit.conj_disj_distrib2 using assms by (simp add: mask_eq_exp_minus_1 and.assoc)
  show ?thesis
  proof (rule bit_word_eqI)
    fix n assume n: "n < LENGTH(32)"
    then consider "n < 8" | "8 \<le> n" "n < 16" | "16 \<le> n" "n < 24" | "24 \<le> n" "n < 32" by fastforce
    then show "bit (word_of_bytes (byte_of l 0) (byte_of l 1) ((c OR (byte_of l 2 AND 0xf)) AND 0xf) 0) n
        = bit (take_bit 20 l) n"
      by cases (auto simp: c word_of_bytes_def byte_of_def bit_simps not_less)
  qed
qed

lemma take_bit_drop_bit_20: "take_bit 20 (drop_bit 12 l) = (drop_bit 12 l :: u32)"
  by (rule bit_word_eqI) (auto simp: bit_simps dest: bit_imp_le_length)

lemma push_drop_12: "push_bit 12 (drop_bit 12 l) OR 0xfff = (l OR 0xfff :: u32)"
  unfolding mask_numerals by (rule bit_word_eqI) (auto simp: bit_simps)

lemma take_bit_small: "l \<le> 0xffff \<Longrightarrow> take_bit 20 l = (l :: u32)"
  by (simp add: word_unat_eq_iff unsigned_take_bit_eq word_le_nat_alt take_bit_nat_eq_self)

lemma bit_granularity [simp]: "bit (0xc0 OR (x AND 0xf) :: u8) 7" "\<not> bit (0x40 OR (x AND 0xf) :: u8) 7"
  by (simp_all add: bit_simps)

lemma gdeInit_decoded:
  assumes "length g = 8"
  shows "seg_base (gdeInit limit base prv g) = base \<and> gdeInit limit base prv g ! 5 = prv \<and>
    seg_limit (gdeInit limit base prv g) = (if limit \<le> 0xffff then limit else limit OR 0xfff)"
proof (cases "limit \<le> 0xffff")
  case True
  then have "\<not> 0xffff < limit" by simp
  then show ?thesis using True
    by (simp add: gdeInit_eq [OF assms] seg_base_def seg_limit_def bit_granularity low20 take_bit_small del: One_nat_def)
next
  case False
  then have "0xffff < limit" by simp
  then show ?thesis unfolding if_not_P [OF False]
    by (simp add: gdeInit_eq [OF assms] seg_base_def seg_limit_def bit_granularity low20 take_bit_drop_bit_20
        push_drop_12 Let_def del: One_nat_def)
qed

text \<open>A descriptor \<^verbatim>\<open>gdeInit\<close> writes has exactly the base and the access byte asked for, and the
  limit asked for: to the byte up to 64 KB, rounded up to the end of its page above.\<close>

theorem gdeInit_describes:
  assumes "length g = 8"
  shows "seg_base (gdeInit limit base prv g) = base \<and> gdeInit limit base prv g ! 5 = prv \<and>
    seg_limit (gdeInit limit base prv g) = (if limit \<le> 0xffff then limit else limit OR 0xfff)"
  using assms by (rule gdeInit_decoded)

theorem gdeInit_describes_witness:
  "seg_base (gdeInit 0x12345678 0xabcdef01 0x9a (replicate 8 0)) = 0xabcdef01 \<and>
   seg_limit (gdeInit 0x12345678 0xabcdef01 0x9a (replicate 8 0)) = 0x12345fff"
  using gdeInit_describes [of "replicate 8 0" "0x12345678" "0xabcdef01" "0x9a"] by simp

text \<open>After \<^verbatim>\<open>gdtInit\<close> the kernel and user segments all span the 4 GB from address 0, and the
  null descriptor and the slot of the task state segment are untouched.\<close>

theorem gdtInit_flat:
  assumes "length (gdt s) = 6" "\<forall>g \<in> set (gdt s). length g = 8"
  shows "(\<forall>k \<in> {1, 2, 3, 4}. seg_base (gdt (gdtInit addr s) ! k) = 0 \<and>
       seg_limit (gdt (gdtInit addr s) ! k) = 0xffffffff) \<and>
     map (\<lambda>g. g ! 5) (take 4 (drop 1 (gdt (gdtInit addr s)))) = [0x9a, 0x92, 0xfa, 0xf2] \<and>
     gdt (gdtInit addr s) ! 0 = gdt s ! 0 \<and> gdt (gdtInit addr s) ! 5 = gdt s ! 5"
proof -
  obtain a b c d e f where g: "gdt s = [a, b, c, d, e, f]"
    using assms(1) by (auto simp: length_Suc_conv eval_nat_numeral)
  with assms(2) have "length b = 8" "length c = 8" "length d = 8" "length e = 8" by auto
  note desc = this [THEN gdeInit_decoded]
  show ?thesis by (simp add: gdtInit_def g desc)
qed

definition blank_desc :: desc where
  "blank_desc = \<lparr>iotrace = [], iflag = False, gdt = replicate 6 (replicate 8 0), gdtr = [],
     idt = replicate 256 \<lparr>offsetlow16 = 1, sel = 2, reserved = 3, privilege = 4, offsethigh16 = 5\<rparr>,
     idtr = [], ticks = 0\<rparr>"

theorem gdtInit_flat_witness:
  "seg_base (gdt (gdtInit 0xc0120000 blank_desc) ! 3) = 0 \<and>
     seg_limit (gdt (gdtInit 0xc0120000 blank_desc) ! 3) = 0xffffffff \<and>
     map (\<lambda>g. g ! 5) (take 4 (drop 1 (gdt (gdtInit 0xc0120000 blank_desc)))) = [0x9a, 0x92, 0xfa, 0xf2] \<and>
     gdt (gdtInit 0xc0120000 blank_desc) ! 0 = gdt blank_desc ! 0 \<and>
     gdt (gdtInit 0xc0120000 blank_desc) ! 5 = gdt blank_desc ! 5"
proof -
  have "length (gdt blank_desc) = 6" "\<forall>g \<in> set (gdt blank_desc). length g = 8"
    by (simp_all add: blank_desc_def)
  from gdtInit_flat [OF this, of "0xc0120000"] show ?thesis by blast
qed

lemma gate_offset_idInit: "gate_offset (idInit v slct prv d) = v"
proof (rule bit_word_eqI)
  fix n assume "n < LENGTH(32)"
  then consider "n < 16" | "16 \<le> n" "n < 32" by fastforce
  then show "bit (gate_offset (idInit v slct prv d)) n = bit v n"
    unfolding gate_offset_def idInit_def mask_numerals
    by cases (auto simp: bit_simps not_less)
qed

lemma fold_idt:
  "n \<le> length (idt s) \<Longrightarrow>
   fold (\<lambda>i s. s\<lparr>idt := (idt s)[i := f i (idt s ! i)]\<rparr>) [0..<n] s =
     s\<lparr>idt := map (\<lambda>i. f i (idt s ! i)) [0..<n] @ drop n (idt s)\<rparr>"
proof (induction n)
  case (Suc n)
  then have "drop n (idt s) = idt s ! n # drop (Suc n) (idt s)"
    by (simp add: Cons_nth_drop_Suc)
  with Suc show ?case by (simp add: list_update_append nth_append)
qed simp

text \<open>The bytes written to a port, in the order of the writes.\<close>

fun writes_to :: "u16 \<Rightarrow> ioev list \<Rightarrow> u8 list" where
  "writes_to p [] = []"
| "writes_to p (Outb q b # t) = writes_to p t @ (if p = q then [b] else [])"
| "writes_to p (_ # t) = writes_to p t"

lemma idtInit_tables:
  assumes "length (idt s) = 256"
  shows "idt (idtInit vectors addr s) = map (\<lambda>i. idt_gate vectors i (idt s ! i)) [0..<256]"
    "idtr (idtInit vectors addr s) = [2047, ucast addr, ucast (drop_bit 16 addr)]"
    "iotrace (idtInit vectors addr s) = rev [Outb 0x20 0x11, Outb 0x21 0x20, Outb 0x21 4, Outb 0x21 1,
      Outb 0xa0 0x11, Outb 0xa1 0x28, Outb 0xa1 2, Outb 0xa1 1, Outb 0x21 0, Outb 0xa1 0] @ iotrace s"
proof -
  have f: "fold (\<lambda>i s. s\<lparr>idt := (idt s)[i := idt_gate vectors i (idt s ! i)]\<rparr>) [0..<256] s =
      s\<lparr>idt := map (\<lambda>i. idt_gate vectors i (idt s ! i)) [0..<256]\<rparr>"
    using assms by (subst fold_idt) simp_all
  show "idt (idtInit vectors addr s) = map (\<lambda>i. idt_gate vectors i (idt s ! i)) [0..<256]"
    "idtr (idtInit vectors addr s) = [2047, ucast addr, ucast (drop_bit 16 addr)]"
    "iotrace (idtInit vectors addr s) = rev [Outb 0x20 0x11, Outb 0x21 0x20, Outb 0x21 4, Outb 0x21 1,
      Outb 0xa0 0x11, Outb 0xa1 0x28, Outb 0xa1 2, Outb 0xa1 1, Outb 0x21 0, Outb 0xa1 0] @ iotrace s"
    unfolding idtInit_def Let_def f by (simp_all add: outb_def)
qed

lemma idt_gate_leads:
  "gate_offset (idt_gate vectors i d) = vectors i" "sel (idt_gate vectors i d) = 8"
  "privilege (idt_gate vectors i d) = 0x8e"
  unfolding idt_gate_def by (simp_all add: gate_offset_idInit) (simp_all add: idInit_def selector_def)

text \<open>After \<^verbatim>\<open>idtInit\<close> every one of the 256 gates leads to its stub through the kernel's code
  segment as an interrupt gate, and the two controllers have got their four initialisation words,
  with the vector bases 0x20 and 0x28, and then an empty mask.\<close>

theorem idtInit_gates:
  assumes "length (idt s) = 256" "iotrace s = []"
  shows "(\<forall>i < 256. gate_offset (idt (idtInit vectors addr s) ! i) = vectors i \<and>
       sel (idt (idtInit vectors addr s) ! i) = 8 \<and> privilege (idt (idtInit vectors addr s) ! i) = 0x8e) \<and>
     idtr (idtInit vectors addr s) = [2047, ucast addr, ucast (drop_bit 16 addr)] \<and>
     writes_to 0x20 (iotrace (idtInit vectors addr s)) = [0x11] \<and>
     writes_to 0x21 (iotrace (idtInit vectors addr s)) = [0x20, 4, 1, 0] \<and>
     writes_to 0xa0 (iotrace (idtInit vectors addr s)) = [0x11] \<and>
     writes_to 0xa1 (iotrace (idtInit vectors addr s)) = [0x28, 2, 1, 0]"
  using assms(2) by (simp add: idtInit_tables [OF assms(1)] idt_gate_leads del: upt_Suc)

theorem idtInit_gates_witness:
  "gate_offset (idt (idtInit (\<lambda>i. 0xc0100000 + 16 * of_nat i) 0xc0123456 blank_desc) ! 33) = 0xc0100210"
proof -
  have "length (idt blank_desc) = 256" "iotrace blank_desc = []" by (simp_all add: blank_desc_def)
  from idtInit_gates [OF this, of "\<lambda>i. 0xc0100000 + 16 * of_nat i" "0xc0123456"]
  have "\<forall>i < 256. gate_offset (idt (idtInit (\<lambda>i. 0xc0100000 + 16 * of_nat i) 0xc0123456 blank_desc) ! i) =
      0xc0100000 + 16 * of_nat i" by blast
  from this [rule_format, of 33] show ?thesis by simp
qed

text \<open>The two bytes \<^verbatim>\<open>timerDriverInit\<close> sends to channel 0 after the command byte are the low and
  the high byte of a divisor which makes the timer tick 100 times a second, rounded down.\<close>

theorem timer_divisor:
  "\<exists>lo hi. iotrace (timerDriverInit s) = Outb 0x40 hi # Outb 0x40 lo # Outb 0x43 0x36 # iotrace s \<and>
     1193180 div (unat lo + 256 * unat hi) = 100"
  by (simp add: timerDriverInit_def outb_def Let_def)

end
