(* ===== verification/Ring.thy ===== *)
theory Ring
  imports Prelude
begin

text \<open>
  Doubly linked rings through a head, as the LRU lists of the block cache and of the inode cache
  of \<^verbatim>\<open>src/fs.c\<close> and the wait queue of \<^verbatim>\<open>src/ide.c\<close>.

  \<open>links\<close> is the interface of a store of linked objects: two link fields that are read and written
  through references, where a write changes the field of one object and nothing else. From it the
  locale proves what the pointer manipulations of the code do to the ring as a list: taking the
  first element, unlinking an element, appending before the head, and building the ring. The two
  caches interpret the locale on their own stores.
\<close>

locale links =
  fixes nxt :: "'s \<Rightarrow> 'r \<Rightarrow> 'r"
    and prv :: "'s \<Rightarrow> 'r \<Rightarrow> 'r"
    and set_nxt :: "'r \<Rightarrow> 'r \<Rightarrow> 's \<Rightarrow> 's"
    and set_prv :: "'r \<Rightarrow> 'r \<Rightarrow> 's \<Rightarrow> 's"
  assumes nxt_set_nxt [simp]: "nxt (set_nxt r v s) q = (if q = r then v else nxt s q)"
    and prv_set_prv [simp]: "prv (set_prv r v s) q = (if q = r then v else prv s q)"
    and nxt_set_prv [simp]: "nxt (set_prv r v s) q = nxt s q"
    and prv_set_nxt [simp]: "prv (set_nxt r v s) q = prv s q"
begin

fun linked :: "'s \<Rightarrow> 'r list \<Rightarrow> bool" where
  "linked s (x # y # ys) = (nxt s x = y \<and> prv s y = x \<and> linked s (y # ys))"
| "linked s _ = True"

text \<open>\<open>ring s h xs\<close>: from the head \<open>h\<close> the links run through \<open>xs\<close> and back, in both directions.\<close>

definition ring :: "'s \<Rightarrow> 'r \<Rightarrow> 'r list \<Rightarrow> bool" where
  "ring s h xs \<longleftrightarrow> distinct (h # xs) \<and> linked s (h # xs @ [h])"

text \<open>The pointer manipulations, in the order of the code.\<close>

definition unlink :: "'r \<Rightarrow> 's \<Rightarrow> 's" where
  "unlink x s =
     (let s = set_nxt (prv s x) (nxt s x) s
      in set_prv (nxt s x) (prv s x) s)"

definition push_back :: "'r \<Rightarrow> 'r \<Rightarrow> 's \<Rightarrow> 's" where
  "push_back h x s =
     (let s = set_nxt (prv s h) x s;
          s = set_prv x (prv s h) s;
          s = set_prv h x s
      in set_nxt x h s)"

lemma linked_append:
  "linked s (xs @ y # ys) \<longleftrightarrow> linked s (xs @ [y]) \<and> linked s (y # ys)"
  by (induction xs rule: induct_list012) auto

lemma linked_cong:
  assumes "linked s ys" "\<And>x. x \<in> set (butlast ys) \<Longrightarrow> nxt s' x = nxt s x"
    "\<And>x. x \<in> set (tl ys) \<Longrightarrow> prv s' x = prv s x"
  shows "linked s' ys"
  using assms by (induction s ys rule: linked.induct) auto

lemma linked_edge: "linked s (xs @ x # y # ys) \<Longrightarrow> nxt s x = y \<and> prv s y = x"
  using linked_append [of s xs x "y # ys"] by simp

lemma ring_empty: "ring s h [] \<longleftrightarrow> nxt s h = h \<and> prv s h = h"
  by (auto simp: ring_def)

lemma ring_nxt_head: "ring s h xs \<Longrightarrow> nxt s h = hd (xs @ [h])"
  by (cases xs) (auto simp: ring_def)

lemma ring_is_empty: "ring s h xs \<Longrightarrow> nxt s h = h \<longleftrightarrow> xs = []"
  by (cases xs) (auto simp: ring_def)

lemma ring_prv_head: "ring s h xs \<Longrightarrow> prv s h = last (h # xs)"
proof (cases xs rule: rev_cases)
  case (snoc ys y)
  assume "ring s h xs"
  then have "linked s ((h # ys) @ y # h # [])" by (simp add: ring_def snoc)
  from linked_edge [OF this] snoc show ?thesis by simp
qed (simp add: ring_def)

lemma ring_member:
  assumes "ring s h (as @ x # bs)"
  shows "nxt s x = hd (bs @ [h])" "prv s x = last (h # as)"
proof -
  from assms have l: "linked s (h # as @ x # bs @ [h])" by (simp add: ring_def)
  obtain n ns where n: "bs @ [h] = n # ns" by (cases bs) auto
  with l have "linked s ((h # as) @ x # n # ns)" by simp
  from linked_edge [OF this] n show "nxt s x = hd (bs @ [h])" by simp
  have "h # as = butlast (h # as) @ [last (h # as)]" by (simp del: butlast.simps last.simps)
  with l have "linked s (butlast (h # as) @ last (h # as) # x # bs @ [h])"
    by (metis append_Cons append_assoc append_Nil)
  from linked_edge [OF this] show "prv s x = last (h # as)" by simp
qed

text \<open>Unlinking an element takes it out of the ring.\<close>

lemma ring_splice:
  assumes r: "ring s h (as @ x # bs)" and p: "p = last (h # as)" and n: "n = hd (bs @ [h])"
  shows "ring (set_prv n p (set_nxt p n s)) h (as @ bs)"
proof -
  let ?s = "set_prv n p (set_nxt p n s)"
  from r have d: "distinct (h # as @ x # bs)" and l: "linked s ((h # as) @ x # bs @ [h])"
    by (simp_all add: ring_def)
  have hp: "h # as = butlast (h # as) @ [p]" unfolding p by (simp del: butlast.simps last.simps)
  obtain ns where nn: "bs @ [h] = n # ns" unfolding n by (cases bs) auto
  from l have l1: "linked s ((h # as) @ [x])" and l2: "linked s (x # bs @ [h])"
    using linked_append by blast+
  from l1 hp have "linked s (butlast (h # as) @ [p])"
    using linked_append [of s "butlast (h # as)" p "[x]"] by (metis append_assoc append_Cons append_Nil)
  then have "linked ?s (butlast (h # as) @ [p])"
  proof (rule linked_cong)
    fix y assume "y \<in> set (butlast (butlast (h # as) @ [p]))"
    then have "y \<in> set (butlast (h # as))" by simp
    moreover have "p \<notin> set (butlast (h # as))"
      using d hp by (metis append_Cons distinct_append disjoint_iff list.set_intros(1))
    ultimately show "nxt ?s y = nxt s y" by auto
  next
    fix y assume "y \<in> set (tl (butlast (h # as) @ [p]))"
    then have "y \<in> set as" using hp by (metis list.sel(3))
    moreover have "n \<in> insert h (set bs)" unfolding n by (cases bs) auto
    ultimately show "prv ?s y = prv s y" using d by auto
  qed
  moreover have "linked ?s (n # ns)"
  proof (rule linked_cong)
    show "linked s (n # ns)" using l2 nn by (cases ns) simp_all
    fix y assume "y \<in> set (butlast (n # ns))"
    then have "y \<in> set bs" using nn by (metis butlast_snoc)
    moreover have "p \<in> insert h (set as)" unfolding p by (cases as rule: rev_cases) auto
    ultimately show "nxt ?s y = nxt s y" using d by auto
  next
    fix y assume "y \<in> set (tl (n # ns))"
    moreover have "distinct (n # ns)" using d nn [symmetric] by auto
    ultimately show "prv ?s y = prv s y" by auto
  qed
  ultimately have "linked ?s ((butlast (h # as) @ [p]) @ n # ns)"
    using linked_append [of ?s "butlast (h # as)" p "n # ns"] by simp
  moreover have "h # (as @ bs) @ [h] = (butlast (h # as) @ [p]) @ n # ns"
    using hp nn by (metis append_Cons append_assoc)
  ultimately show ?thesis using d by (simp add: ring_def)
qed

lemma ring_unlink:
  assumes "ring s h (as @ x # bs)"
  shows "ring (unlink x s) h (as @ bs)"
proof -
  note m = ring_member [OF assms]
  have "x \<noteq> last (h # as)" using assms by (cases as rule: rev_cases) (auto simp: ring_def)
  then show ?thesis using ring_splice [OF assms refl refl] m by (simp add: unlink_def)
qed

text \<open>The first element is taken through the links of the head.\<close>

lemma ring_take_first:
  assumes "ring s h (x # xs)"
  shows "nxt s h = x" "ring (set_prv (nxt s x) h (set_nxt h (nxt s x) s)) h xs"
  using ring_splice [of s h "[]" x xs, OF _ refl refl] ring_member [of s h "[]" x xs] assms
    ring_nxt_head [OF assms] by simp_all

lemma ring_push_back:
  assumes "ring s h xs" "x \<notin> set (h # xs)"
  shows "ring (push_back h x s) h (xs @ [x])"
proof -
  let ?s = "push_back h x s"
  have p: "prv s h = last (h # xs)" using assms(1) by (rule ring_prv_head)
  from assms have d: "distinct (h # xs)" and l: "linked s (h # xs @ [h])" by (auto simp: ring_def)
  have hp: "h # xs = butlast (h # xs) @ [last (h # xs)]" by (simp del: butlast.simps last.simps)
  have nb: "last (h # xs) \<notin> set (butlast (h # xs))"
    using d hp by (metis distinct_append disjoint_iff list.set_intros(1))
  have lx: "last (h # xs) \<noteq> x" using assms(2) last_in_set [of "h # xs"] by (metis list.distinct(1))
  have s1: "nxt ?s q = (if q = x then h else if q = last (h # xs) then x else nxt s q)" for q
    unfolding push_back_def Let_def using p by auto
  have s2: "prv ?s q = (if q = h then x else if q = x then last (h # xs) else prv s q)" for q
    unfolding push_back_def Let_def using p by auto
  have "linked s (butlast (h # xs) @ [last (h # xs)])"
    using l hp linked_append [of s "butlast (h # xs)" "last (h # xs)" "[h]"]
    by (metis append_Cons append_assoc append_Nil)
  then have "linked ?s (butlast (h # xs) @ [last (h # xs)])"
  proof (rule linked_cong)
    fix y assume "y \<in> set (butlast (butlast (h # xs) @ [last (h # xs)]))"
    then have y: "y \<in> set (butlast (h # xs))" by (simp del: butlast.simps)
    then have "y \<in> set (h # xs)" by (rule in_set_butlastD)
    then have "y \<noteq> x" using assms(2) by blast
    then show "nxt ?s y = nxt s y" using y nb s1 [of y] by auto
  next
    fix y assume "y \<in> set (tl (butlast (h # xs) @ [last (h # xs)]))"
    then have "y \<in> set xs" using hp by (metis list.sel(3))
    then show "prv ?s y = prv s y" using d assms(2) s2 [of y] by auto
  qed
  moreover have "linked ?s [last (h # xs), x, h]" using lx s1 s2 assms(2) by auto
  ultimately have "linked ?s ((butlast (h # xs) @ [last (h # xs)]) @ [x, h])"
    using linked_append [of ?s "butlast (h # xs)" "last (h # xs)" "[x, h]"]
    by (metis append_Cons append_assoc append_Nil)
  then have "linked ?s (h # (xs @ [x]) @ [h])" using hp by (metis append_Cons append_assoc append_Nil)
  then show ?thesis using d assms(2) by (auto simp: ring_def)
qed

text \<open>
  Building the ring: while it is built, the list is open. Its last element leads to \<open>z\<close>, the null
  pointer, and the way back from the head is not there yet.
\<close>

definition path :: "'s \<Rightarrow> 'r \<Rightarrow> 'r list \<Rightarrow> 'r \<Rightarrow> bool" where
  "path s h xs z \<longleftrightarrow> distinct (h # xs) \<and> z \<notin> set xs \<and> linked s (h # xs) \<and> nxt s (last (h # xs)) = z"

definition push_front :: "'r \<Rightarrow> 'r \<Rightarrow> 'r \<Rightarrow> 's \<Rightarrow> 's" where
  "push_front z h x s =
     (let s = set_nxt x (nxt s h) s;
          s = (if nxt s h \<noteq> z then set_prv (nxt s h) x s else s);
          s = set_prv x h s
      in set_nxt h x s)"

lemma path_push_front:
  assumes "path s h xs z" "x \<notin> set (h # xs)" "x \<noteq> z"
  shows "path (push_front z h x s) h (x # xs) z"
proof (cases xs)
  case Nil
  with assms show ?thesis by (auto simp: path_def push_front_def Let_def)
next
  case (Cons y ys)
  let ?s = "push_front z h x s"
  from assms Cons have a: "distinct (h # y # ys)" "z \<notin> set (y # ys)" "linked s (y # ys)"
    "nxt s h = y" "nxt s (last (y # ys)) = z" by (auto simp: path_def)
  have s1: "nxt ?s q = (if q = h then x else if q = x then y else nxt s q)" for q
    using a assms(2) by (auto simp: push_front_def Let_def)
  have s2: "prv ?s q = (if q = x then h else if q = y then x else prv s q)" for q
    using a assms(2) by (auto simp: push_front_def Let_def)
  have "linked ?s (y # ys)"
    using a(3) by (rule linked_cong) (use a(1) assms(2) Cons s1 s2 in_set_butlastD in \<open>fastforce+\<close>)
  moreover have "last (y # ys) \<in> set (y # ys)" by (rule last_in_set) simp
  then have "nxt ?s (last (y # ys)) = z"
    using a(1,5) assms(2) Cons s1 [of "last (y # ys)"] by (auto simp del: last.simps)
  ultimately show ?thesis
    using a assms(2,3) Cons s1 s2 by (simp add: path_def) auto
qed

lemma path_close:
  assumes "path s h xs z" "xs \<noteq> []"
  shows "ring (set_nxt (last xs) h (set_prv h (last xs) s)) h xs"
proof -
  let ?s = "set_nxt (last xs) h (set_prv h (last xs) s)"
  from assms have d: "distinct (h # xs)" and l: "linked s (h # xs)" by (auto simp: path_def)
  have hp: "h # xs = (h # butlast xs) @ [last xs]" using assms(2) by simp
  have "linked ?s (h # xs)"
    using l
  proof (rule linked_cong)
    fix y assume "y \<in> set (butlast (h # xs))"
    then have "y \<in> set (h # butlast xs)" using assms(2) by simp
    moreover have "last xs \<notin> set (h # butlast xs)" using d hp by (metis distinct_append disjoint_iff list.set_intros(1))
    ultimately show "nxt ?s y = nxt s y" by auto
  qed (use d in auto)
  then have "linked ?s ((h # butlast xs) @ [last xs])" using hp by simp
  moreover have "linked ?s [last xs, h]" by simp
  ultimately have "linked ?s ((h # butlast xs) @ last xs # [h])"
    using linked_append [of ?s "h # butlast xs" "last xs" "[h]"] by blast
  then have "linked ?s (h # xs @ [h])" using hp by (metis append_Cons append_assoc append_Nil)
  then show ?thesis using d by (simp add: ring_def)
qed

text \<open>
  Unlinking an element that is out of the ring already writes its stale links back: if its old
  successor has left the ring since, it is linked in again, in front of the head's first element.
\<close>

lemma unlink_stale:
  assumes "prv s x = h" "nxt s x = y" "x \<noteq> h"
  shows "nxt (unlink x s) h = y" "prv (unlink x s) y = h"
    "y \<noteq> h \<Longrightarrow> nxt (unlink x s) y = nxt s y"
  using assms by (auto simp: unlink_def Let_def)

end

end
