(* ===== verification/Ide.thy ===== *)
theory Ide
  imports Sync Ring
begin

text \<open>
  The disk driver \<^verbatim>\<open>src/ide.c\<close> and the blocks it transfers (\<^verbatim>\<open>struct block\<close> of \<^verbatim>\<open>src/ide.h\<close>).

  Blocks live in a store that maps references to blocks: the buffers and the hash heads of the
  block cache, blocks in stack frames, and the null pointer. \<^verbatim>\<open>blkWaitQueue\<close> and the list head of
  the block cache are pointers that are never assigned: both are null, and the block they are used
  as is the memory at address 0, the entry \<open>BNull\<close> of the store.

  The status conditions are written as C reads them: \<^verbatim>\<open>==\<close> and \<^verbatim>\<open>!=\<close> bind tighter than \<^verbatim>\<open>&\<close>, so
  that \<^verbatim>\<open>state & IDE_ST_BSY == IDE_ST_BSY\<close> is \<^verbatim>\<open>state & 1\<close>.
\<close>

section \<open>Blocks\<close>

datatype block_ref = BNull | Buf nat | BHash nat | BLoc nat

record block =
  flags :: u32
  bdevice :: u32
  bblock :: u32
  lruCnt :: u32
  buf :: "u8 list"
  lru_prev :: block_ref
  lru_next :: block_ref
  hash_prev :: block_ref
  hash_next :: block_ref
  block_lock :: spinlock

record disk = thr +
  blocks :: "block_ref \<Rightarrow> block"

definition upd_blk :: "block_ref \<Rightarrow> (block \<Rightarrow> block) \<Rightarrow> 'a disk_scheme \<Rightarrow> 'a disk_scheme" where
  "upd_blk r f s = s\<lparr>blocks := (blocks s)(r := f (blocks s r))\<rparr>"

abbreviation (input) IDE_DATA_PORT :: u16 where "IDE_DATA_PORT \<equiv> 0x1f0"
abbreviation (input) IDE_SECNUM_PORT :: u16 where "IDE_SECNUM_PORT \<equiv> 0x1f2"
abbreviation (input) IDE_SECNO0_PORT :: u16 where "IDE_SECNO0_PORT \<equiv> 0x1f3"
abbreviation (input) IDE_SECNO8_PORT :: u16 where "IDE_SECNO8_PORT \<equiv> 0x1f4"
abbreviation (input) IDE_SECNO16_PORT :: u16 where "IDE_SECNO16_PORT \<equiv> 0x1f5"
abbreviation (input) IDE_DEVICE_PORT :: u16 where "IDE_DEVICE_PORT \<equiv> 0x1f6"
abbreviation (input) IDE_CMD_PORT :: u16 where "IDE_CMD_PORT \<equiv> 0x1f7"
abbreviation (input) IDE_CTL_PORT :: u16 where "IDE_CTL_PORT \<equiv> 0x3f6"
abbreviation (input) IDE_ST_ERR :: u32 where "IDE_ST_ERR \<equiv> 0x01"
abbreviation (input) IDE_ST_DF :: u32 where "IDE_ST_DF \<equiv> 0x20"
abbreviation (input) IDE_ST_BSY :: u32 where "IDE_ST_BSY \<equiv> 0x80"
abbreviation (input) IDE_CMD_R_PIO :: u8 where "IDE_CMD_R_PIO \<equiv> 0x20"
abbreviation (input) IDE_CMD_W_PIO :: u8 where "IDE_CMD_W_PIO \<equiv> 0x30"
abbreviation (input) BSIZE :: nat where "BSIZE \<equiv> 512"
abbreviation (input) SEC_PER_BLK :: nat where "SEC_PER_BLK \<equiv> 1"
abbreviation (input) B_UNUSED :: u32 where "B_UNUSED \<equiv> 1"
abbreviation (input) B_VALID :: u32 where "B_VALID \<equiv> 2"
abbreviation (input) B_DIRTY :: u32 where "B_DIRTY \<equiv> 4"

text \<open>The C comparison operators as values, and a line of text through \<^verbatim>\<open>printf\<close>.\<close>

definition c_eq :: "u32 \<Rightarrow> u32 \<Rightarrow> u32" where "c_eq a b = (if a = b then 1 else 0)"
definition c_ne :: "u32 \<Rightarrow> u32 \<Rightarrow> u32" where "c_ne a b = (if a \<noteq> b then 1 else 0)"

definition msg :: "string \<Rightarrow> 'a console_scheme \<Rightarrow> 'a console_scheme option" where
  "msg m s = printf (cstr (m @ [CHR 0x0a])) [] s"

section \<open>Status and set-up\<close>

partial_function (option) testIdeState_loop ::
  "device \<Rightarrow> u32 \<Rightarrow> 'a disk_scheme \<Rightarrow> (u32 \<times> 'a disk_scheme) option" where
  "testIdeState_loop dev state s =
     (if state AND c_eq IDE_ST_BSY IDE_ST_BSY \<noteq> 0 \<and> state AND c_ne IDE_ST_ERR IDE_ST_ERR \<noteq> 0
      then let (st, s) = inb dev IDE_CMD_PORT s in testIdeState_loop dev (ucast st) s
      else Some (state, s))"

definition testIdeState :: "device \<Rightarrow> 'a disk_scheme \<Rightarrow> (u32 \<times> 'a disk_scheme) option" where
  "testIdeState dev s = do {
     let (st, s) = inb dev IDE_CMD_PORT s;
     (state, s) \<leftarrow> testIdeState_loop dev (ucast st) s;
     (if state AND c_eq IDE_ST_DF IDE_ST_DF \<noteq> 0 \<or> state AND c_eq IDE_ST_ERR IDE_ST_ERR \<noteq> 0
      then do { s \<leftarrow> printi state 16 s; Some (- 1, s) }
      else Some (0, s)) }"

partial_function (option) identify_loop ::
  "device \<Rightarrow> u8 \<Rightarrow> 'a disk_scheme \<Rightarrow> (u8 \<times> 'a disk_scheme) option" where
  "identify_loop dev state s =
     (if state AND 0x80 = 0x80 \<and> state AND 0x01 \<noteq> 0x01
      then let (state, s) = inb dev IDE_CMD_PORT s in identify_loop dev state s
      else Some (state, s))"

definition hardDriverInit :: "device \<Rightarrow> 'a disk_scheme \<Rightarrow> (u32 \<times> 'a disk_scheme) option" where
  "hardDriverInit dev s = do {
     (r, s) \<leftarrow> testIdeState dev s;
     (if r = - 1 then do { s \<leftarrow> msg ''[Error] Hard Disk Error'' s; Some (- 1, s) }
      else do {
        let s = outb IDE_DEVICE_PORT 0xa0 s;
        let s = outb IDE_CTL_PORT 0 s;
        let s = outb IDE_DEVICE_PORT 0xa0 s;
        let (state, s) = inb dev IDE_CMD_PORT s;
        (if state = 0xff then do { s \<leftarrow> msg ''[Error] hard disk not exits'' s; Some (- 1, s) }
         else do {
           let s = outb IDE_DEVICE_PORT 0xa0 s;
           let s = outb IDE_SECNUM_PORT 0 s;
           let s = outb IDE_SECNO0_PORT 0 s;
           let s = outb IDE_SECNO8_PORT 0 s;
           let s = outb IDE_SECNO16_PORT 0 s;
           let s = outb IDE_CMD_PORT 0xec s;
           let (state, s) = inb dev IDE_CMD_PORT s;
           (if state = 0 then do { s \<leftarrow> msg ''[Error] hard disk inaccessible'' s; Some (- 1, s) }
            else do {
              (state, s) \<leftarrow> identify_loop dev state s;
              (if state AND 0x01 \<noteq> 0
               then do { s \<leftarrow> msg ''[Error] hard disk error'' s; Some (- 1, s) }
               else do {
                 let s = upd_blk BNull (\<lambda>b. b\<lparr>lru_prev := BNull\<rparr>) s;
                 let s = upd_blk BNull (\<lambda>b. b\<lparr>lru_next := BNull\<rparr>) s;
                 Some (0, s) }) }) }) }) }"

section \<open>Transfers\<close>

text \<open>The device registers of a transfer: one sector, its 28-bit number, the drive.\<close>

definition ide_select :: "block \<Rightarrow> 'a hw_scheme \<Rightarrow> 'a hw_scheme" where
  "ide_select blk s =
     (let s = outb IDE_CTL_PORT 0 s;
          sector = bblock blk * of_nat SEC_PER_BLK;
          s = outb IDE_SECNUM_PORT (of_nat SEC_PER_BLK) s;
          s = outb IDE_SECNO0_PORT (ucast (sector AND 0xff)) s;
          s = outb IDE_SECNO8_PORT (ucast (drop_bit 8 sector AND 0xff)) s;
          s = outb IDE_SECNO16_PORT (ucast (drop_bit 16 sector AND 0xff)) s
      in outb IDE_DEVICE_PORT
           (ucast (0xe0 OR push_bit 4 (bdevice blk AND 1) OR (drop_bit 24 sector AND 0x0f))) s)"

text \<open>The block goes to the tail of the wait queue.\<close>

definition wait_enqueue :: "block_ref \<Rightarrow> 'a disk_scheme \<Rightarrow> 'a disk_scheme" where
  "wait_enqueue blk s =
     (if lru_prev (blocks s BNull) = BNull
      then let s = upd_blk BNull (\<lambda>b. b\<lparr>lru_next := blk\<rparr>) s;
               s = upd_blk BNull (\<lambda>b. b\<lparr>lru_prev := blk\<rparr>) s;
               s = upd_blk blk (\<lambda>b. b\<lparr>lru_next := BNull\<rparr>) s
           in upd_blk blk (\<lambda>b. b\<lparr>lru_prev := BNull\<rparr>) s
      else let s = upd_blk blk (\<lambda>b. b\<lparr>lru_prev := lru_prev (blocks s BNull)\<rparr>) s;
               s = upd_blk (lru_prev (blocks s BNull)) (\<lambda>b. b\<lparr>lru_next := blk\<rparr>) s;
               s = upd_blk BNull (\<lambda>b. b\<lparr>lru_prev := blk\<rparr>) s
           in upd_blk blk (\<lambda>b. b\<lparr>lru_next := BNull\<rparr>) s)"

text \<open>
  \<open>addr\<close> gives the addresses of the blocks; \<open>junk\<close> is the unset local of the scheduler activation
  in \<^verbatim>\<open>thrCondWait\<close>. The thread does not come back: the result is the state of the next one.
\<close>

definition hardRead ::
  "(block_ref \<Rightarrow> u32) \<Rightarrow> thr_ref \<Rightarrow> block_ref \<Rightarrow> 'a disk_scheme \<Rightarrow> 'a disk_scheme option" where
  "hardRead addr junk blk s = do {
     let s = ide_select (blocks s blk) s;
     let s = wait_enqueue blk s;
     let s = outb IDE_CMD_PORT IDE_CMD_R_PIO s;
     (_, s) \<leftarrow> thrCondWait (addr blk) None junk s;
     Some s }"

partial_function (option) hardReadWait_loop ::
  "device \<Rightarrow> u8 \<Rightarrow> 'a disk_scheme \<Rightarrow> (u8 \<times> 'a disk_scheme) option" where
  "hardReadWait_loop dev state s =
     (if ucast state AND c_eq IDE_ST_BSY IDE_ST_BSY \<noteq> 0 \<and> ucast state AND IDE_ST_ERR \<noteq> IDE_ST_ERR
      then let (state, s) = inb dev IDE_CMD_PORT s in hardReadWait_loop dev state s
      else Some (state, s))"

definition hardReadWait :: "device \<Rightarrow> block_ref \<Rightarrow> 'a disk_scheme \<Rightarrow> (u32 \<times> 'a disk_scheme) option" where
  "hardReadWait dev blk s = do {
     let s = ide_select (blocks s blk) s;
     let s = outb IDE_CMD_PORT IDE_CMD_R_PIO s;
     let (state, s) = inb dev IDE_CMD_PORT s;
     (state, s) \<leftarrow> hardReadWait_loop dev state s;
     (if ucast state AND c_eq IDE_ST_ERR IDE_ST_ERR \<noteq> 0
      then do { s \<leftarrow> msg ''[Error] hard disk error'' s; Some (- 1, s) }
      else do {
        let (bs, s) = insl dev IDE_DATA_PORT (BSIZE div 4) s;
        let s = upd_blk blk (\<lambda>b. b\<lparr>buf := bs\<rparr>) s;
        let s = upd_blk blk (\<lambda>b. b\<lparr>flags := B_VALID\<rparr>) s;
        Some (0, s) }) }"

definition hardWrite :: "block_ref \<Rightarrow> 'a disk_scheme \<Rightarrow> u32 \<times> 'a disk_scheme" where
  "hardWrite blk s =
     (let s = ide_select (blocks s blk) s;
          s = outb IDE_CMD_PORT IDE_CMD_W_PIO s;
          s = outsl IDE_DATA_PORT (buf (blocks s blk)) (BSIZE div 4) s;
          s = upd_blk blk (\<lambda>b. b\<lparr>flags := B_VALID\<rparr>) s
      in (0, s))"

section \<open>The rings of blocks\<close>

interpretation lru: links
  "\<lambda>s r. lru_next (blocks (s :: 'a disk_scheme) r)" "\<lambda>s r. lru_prev (blocks s r)"
  "\<lambda>r v. upd_blk r (\<lambda>b. b\<lparr>lru_next := v\<rparr>)" "\<lambda>r v. upd_blk r (\<lambda>b. b\<lparr>lru_prev := v\<rparr>)"
  by unfold_locales (simp_all add: upd_blk_def)

section \<open>Addressing\<close>

text \<open>The last byte written to a port, and what the drive reads from its registers.\<close>

fun last_out :: "u16 \<Rightarrow> ioev list \<Rightarrow> u8" where
  "last_out p [] = 0"
| "last_out p (Outb q b # t) = (if p = q then b else last_out p t)"
| "last_out p (_ # t) = last_out p t"

definition selected_lba :: "ioev list \<Rightarrow> u32" where
  "selected_lba t = word_of_bytes (last_out IDE_SECNO0_PORT t) (last_out IDE_SECNO8_PORT t)
     (last_out IDE_SECNO16_PORT t) (last_out IDE_DEVICE_PORT t AND 0x0f)"

definition selected_drive :: "ioev list \<Rightarrow> bool" where
  "selected_drive t = bit (last_out IDE_DEVICE_PORT t) 4"

lemma ide_select_trace:
  "iotrace (ide_select b s) =
     [Outb IDE_DEVICE_PORT (ucast (0xe0 OR push_bit 4 (bdevice b AND 1) OR (drop_bit 24 (bblock b) AND 0x0f))),
      Outb IDE_SECNO16_PORT (byte_of (bblock b) 2), Outb IDE_SECNO8_PORT (byte_of (bblock b) 1),
      Outb IDE_SECNO0_PORT (byte_of (bblock b) 0), Outb IDE_SECNUM_PORT 1, Outb IDE_CTL_PORT 0] @ iotrace s"
proof -
  have u: "ucast (v AND 0xff :: u32) = (ucast v :: u8)" for v
    by (rule bit_word_eqI) (auto simp: bit_simps mask_numerals dest: bit_imp_le_length)
  show ?thesis by (simp add: ide_select_def outb_def Let_def byte_of_def u)
qed

lemma ide_select_frame: "ide_select b s = s\<lparr>iotrace := iotrace (ide_select b s)\<rparr>"
  by (simp add: ide_select_def outb_def Let_def)

lemma device_byte:
  fixes d v :: u32
  defines "x \<equiv> ucast (0xe0 OR push_bit 4 (d AND 1) OR (drop_bit 24 v AND 0x0f)) :: u8"
  shows "x AND 0x0f = byte_of v 3 AND 0x0f" "bit x 4 = bit d 0"
proof -
  have n: "(0xe0 :: u32) = push_bit 5 (mask 3)" "(0x0f :: u32) = mask 4" "(0x0f :: u8) = mask 4" "(1 :: u32) = mask 1"
    by (simp_all add: mask_eq_exp_minus_1 push_bit_eq_mult)
  have b: "bit x n \<longleftrightarrow> n < 8 \<and> (5 \<le> n \<and> n < 8 \<or> n = 4 \<and> bit d 0 \<or> n < 4 \<and> bit v (24 + n))" for n
    unfolding x_def n by (auto simp: bit_simps)
  show "bit x 4 = bit d 0" by (simp add: b)
  show "x AND 0x0f = byte_of v 3 AND 0x0f"
    unfolding n by (rule bit_word_eqI) (auto simp: bit_simps b byte_of_def)
qed

lemma word_of_bytes_28:
  "word_of_bytes (byte_of v 0) (byte_of v 1) (byte_of v 2) (byte_of v 3 AND 0x0f) = take_bit 28 v"
proof (rule bit_word_eqI)
  have m: "(0x0f :: u8) = mask 4" by (simp add: mask_eq_exp_minus_1)
  fix n assume n: "n < LENGTH(32)"
  then consider "n < 8" | "8 \<le> n" "n < 16" | "16 \<le> n" "n < 24" | "24 \<le> n" "n < 32" by fastforce
  then show "bit (word_of_bytes (byte_of v 0) (byte_of v 1) (byte_of v 2) (byte_of v 3 AND 0x0f)) n
      = bit (take_bit 28 v) n"
    unfolding m by cases (auto simp: word_of_bytes_def byte_of_def bit_simps not_less)
qed

text \<open>The register writes of a transfer select the sector of the block's number, in its low 28
  bits, on the drive of the lowest bit of the device number.\<close>

theorem ide_select_addresses:
  "selected_lba (iotrace (ide_select b s)) = take_bit 28 (bblock b) \<and>
   selected_drive (iotrace (ide_select b s)) = bit (bdevice b) 0 \<and>
   last_out IDE_SECNUM_PORT (iotrace (ide_select b s)) = 1"
proof -
  obtain x where "x AND 0x0f = byte_of (bblock b) 3 AND 0x0f" "bit x 4 = bit (bdevice b) 0"
    "iotrace (ide_select b s) = [Outb IDE_DEVICE_PORT x, Outb IDE_SECNO16_PORT (byte_of (bblock b) 2),
       Outb IDE_SECNO8_PORT (byte_of (bblock b) 1), Outb IDE_SECNO0_PORT (byte_of (bblock b) 0),
       Outb IDE_SECNUM_PORT 1, Outb IDE_CTL_PORT 0] @ iotrace s"
    using device_byte [of "bdevice b" "bblock b"] ide_select_trace [of b s] by blast
  then show ?thesis
    by (simp add: selected_lba_def selected_drive_def word_of_bytes_28 [simplified])
qed

section \<open>Polling\<close>

lemma and_1_cases: "x AND 1 = (if bit x 0 then 1 else (0 :: 'a :: len word))"
  by (simp add: and_one_eq odd_iff_mod_2_eq_one even_iff_mod_2_eq_zero bit_0)

lemma ucast_bit_0 [simp]: "bit (ucast (x :: u8) :: u32) 0 = bit x 0"
  by (simp add: bit_simps)

lemma testIdeState_loop_id [simp]: "testIdeState_loop dev state s = Some (state, s)"
  by (subst testIdeState_loop.simps) (simp add: c_ne_def)

lemma hardReadWait_loop_id [simp]: "hardReadWait_loop dev state s = Some (state, s)"
  by (subst hardReadWait_loop.simps) (simp add: c_eq_def and_1_cases)

text \<open>\<^verbatim>\<open>testIdeState\<close> reads the status once, whatever the busy bit says, and fails exactly on the
  error bit: the write fault bit is not looked at.\<close>

theorem testIdeState_error_bit:
  "testIdeState dev s =
     (let st = rd8 dev (iotrace s) IDE_CMD_PORT; s' = s\<lparr>iotrace := Inb IDE_CMD_PORT # iotrace s\<rparr>
      in if bit st 0 then map_option (\<lambda>s. (- 1, s)) (printi (ucast st) 16 s') else Some (0, s'))"
  by (simp add: testIdeState_def inb_def c_eq_def and_1_cases Let_def map_option_case
      split: option.split)

text \<open>The transfer of a sector to a block, after one read of the status.\<close>

lemma hardReadWait_eq:
  fixes s :: "'a disk_scheme" and r :: block_ref
  defines "t \<equiv> Outb IDE_CMD_PORT IDE_CMD_R_PIO # iotrace (ide_select (blocks s r) s)"
  shows "hardReadWait dev r s =
     (if bit (rd8 dev t IDE_CMD_PORT) 0
      then map_option (\<lambda>s. (- 1, s)) (msg ''[Error] hard disk error'' (s\<lparr>iotrace := Inb IDE_CMD_PORT # t\<rparr>))
      else Some (0, s\<lparr>iotrace := replicate 128 (Inl IDE_DATA_PORT) @ Inb IDE_CMD_PORT # t,
             blocks := (blocks s)(r := (blocks s r)\<lparr>
               buf := concat (map bytes_of (read_words dev IDE_DATA_PORT (Inb IDE_CMD_PORT # t) 128)),
               flags := B_VALID\<rparr>)\<rparr>))"
proof -
  have sel: "ide_select (blocks s r) s = s\<lparr>iotrace := iotrace (ide_select (blocks s r) s)\<rparr>"
    by (rule ide_select_frame)
  show ?thesis
    unfolding hardReadWait_def Let_def t_def
    by (subst sel, subst sel)
      (simp add: outb_def inb_def insl_eq upd_blk_def c_eq_def and_1_cases map_option_case
        split: option.split)
qed

text \<open>\<^verbatim>\<open>hardReadWait\<close> does not wait: it reads the status once and, unless the error bit is set,
  takes 128 words from the data port at once, even when the drive says that it is busy. The block
  then holds what the port gave and is marked valid.\<close>

theorem hardReadWait_does_not_wait:
  fixes s :: "'a disk_scheme"
  assumes "\<not> bit (rd8 dev (Outb IDE_CMD_PORT IDE_CMD_R_PIO # iotrace (ide_select (blocks s r) s)) IDE_CMD_PORT) 0"
  shows "\<exists>s'. hardReadWait dev r s = Some (0, s') \<and>
    iotrace s' = replicate 128 (Inl IDE_DATA_PORT) @ Inb IDE_CMD_PORT #
      Outb IDE_CMD_PORT IDE_CMD_R_PIO # iotrace (ide_select (blocks s r) s) \<and>
    flags (blocks s' r) = B_VALID \<and> length (buf (blocks s' r)) = BSIZE \<and>
    (\<forall>q. q \<noteq> r \<longrightarrow> blocks s' q = blocks s q)"
  using assms by (simp add: hardReadWait_eq)

definition demo_block :: block where
  "demo_block = \<lparr>flags = B_DIRTY, bdevice = 0, bblock = 1, lruCnt = 0, buf = replicate 512 7,
     lru_prev = BNull, lru_next = BNull, hash_prev = BNull, hash_next = BNull, block_lock = \<lparr>lock = 0\<rparr>\<rparr>"

definition demo_disk :: disk where
  "demo_disk = thr.extend full_table (disk.fields (\<lambda>_. demo_block))"

lemma demo_disk_blocks [simp]: "blocks demo_disk r = demo_block"
  by (simp add: demo_disk_def thr.defs disk.defs)

text \<open>A drive that always answers that it is busy.\<close>

definition busy_drive :: device where
  "busy_drive = \<lparr>rd8 = (\<lambda>_ _. 0x80), rd32 = (\<lambda>_ _. 0)\<rparr>"

theorem hardReadWait_does_not_wait_witness:
  "\<exists>s'. hardReadWait busy_drive (Buf 3) demo_disk = Some (0, s') \<and>
    iotrace s' = replicate 128 (Inl IDE_DATA_PORT) @ Inb IDE_CMD_PORT #
      Outb IDE_CMD_PORT IDE_CMD_R_PIO # iotrace (ide_select (blocks demo_disk (Buf 3)) demo_disk) \<and>
    flags (blocks s' (Buf 3)) = B_VALID \<and> length (buf (blocks s' (Buf 3))) = BSIZE \<and>
    (\<forall>q. q \<noteq> Buf 3 \<longrightarrow> blocks s' q = blocks demo_disk q)"
  by (rule hardReadWait_does_not_wait) (simp add: busy_drive_def bit_0)

lemma hardWrite_eq:
  assumes "length (buf (blocks s r)) = 512"
  shows "hardWrite r s = (0, s\<lparr>
     iotrace := map (Outl IDE_DATA_PORT) (rev (words_of (buf (blocks s r)))) @
       Outb IDE_CMD_PORT IDE_CMD_W_PIO # iotrace (ide_select (blocks s r) s),
     blocks := (blocks s)(r := (blocks s r)\<lparr>flags := B_VALID\<rparr>)\<rparr>)"
proof -
  have sel: "ide_select (blocks s r) s = s\<lparr>iotrace := iotrace (ide_select (blocks s r) s)\<rparr>"
    by (rule ide_select_frame)
  show ?thesis
    unfolding hardWrite_def Let_def
    by (subst sel, subst sel) (simp add: outb_def outsl_trace assms upd_blk_def)
qed

section \<open>The drive\<close>

text \<open>
  What an ATA drive does with the port traffic, for the commands the driver uses: the registers
  select a sector of a drive; the command starts a transfer; the data port then moves the words of
  the sector one after the other. \<open>ata_run\<close> computes the state of the drives after a trace, from
  the content \<open>m0\<close> they had; \<open>ata_disk\<close> is a device that reports no error and answers reads of the
  data port from that state.
\<close>

record ata =
  media :: "bool \<times> u32 \<Rightarrow> u32 list"
  command :: u8
  sector :: "bool \<times> u32"
  pos :: nat

fun ata_run :: "(bool \<times> u32 \<Rightarrow> u32 list) \<Rightarrow> ioev list \<Rightarrow> ata" where
  "ata_run m0 [] = \<lparr>media = m0, command = 0, sector = (False, 0), pos = 0\<rparr>"
| "ata_run m0 (e # t) =
     (let a = ata_run m0 t in
      case e of
        Outb p v \<Rightarrow>
          (if p = IDE_CMD_PORT
           then a\<lparr>command := v, sector := (selected_drive t, selected_lba t), pos := 0\<rparr> else a)
      | Outl p w \<Rightarrow>
          (if p = IDE_DATA_PORT \<and> command a = IDE_CMD_W_PIO
           then a\<lparr>media := (media a)(sector a := (media a (sector a))[pos a := w]), pos := Suc (pos a)\<rparr>
           else a)
      | Inl p \<Rightarrow> (if p = IDE_DATA_PORT then a\<lparr>pos := Suc (pos a)\<rparr> else a)
      | Inb p \<Rightarrow> a)"

definition ata_disk :: "(bool \<times> u32 \<Rightarrow> u32 list) \<Rightarrow> device \<Rightarrow> bool" where
  "ata_disk m0 dev \<longleftrightarrow> (\<forall>d. length (m0 d) = 128) \<and>
     (\<forall>t. \<not> bit (rd8 dev t IDE_CMD_PORT) 0) \<and>
     (\<forall>t. rd32 dev t IDE_DATA_PORT = media (ata_run m0 t) (sector (ata_run m0 t)) ! pos (ata_run m0 t))"

text \<open>The sector of a block.\<close>

definition sector_of :: "block \<Rightarrow> bool \<times> u32" where
  "sector_of b = (bit (bdevice b) 0, take_bit 28 (bblock b))"

lemma media_length: "(\<forall>d. length (m0 d) = 128) \<Longrightarrow> length (media (ata_run m0 t) d) = 128"
  by (induction t) (auto simp: Let_def split: ioev.split simp del: split_paired_All)

lemma ata_select:
  "media (ata_run m0 (iotrace (ide_select b s))) = media (ata_run m0 (iotrace s))"
  by (simp add: ide_select_trace)

lemma ata_command:
  "ata_run m0 (Outb IDE_CMD_PORT c # iotrace (ide_select b s)) =
     \<lparr>media = media (ata_run m0 (iotrace s)), command = c, sector = sector_of b, pos = 0\<rparr>"
  using ide_select_addresses [of b s] ata_select [of m0 b s]
  by (simp add: Let_def sector_of_def)

lemma ata_read:
  assumes "ata_run m0 t = \<lparr>media = m, command = c, sector = d, pos = p\<rparr>" "ata_disk m0 dev" "p + n \<le> 128"
  shows "read_words dev IDE_DATA_PORT t n = take n (drop p (m d)) \<and>
    media (ata_run m0 (replicate n (Inl IDE_DATA_PORT) @ t)) = m"
  using assms
proof (induction n arbitrary: t p)
  case (Suc n)
  let ?t = "Inl IDE_DATA_PORT # t"
  have t': "ata_run m0 ?t = \<lparr>media = m, command = c, sector = d, pos = Suc p\<rparr>"
    using Suc.prems(1) by simp
  have l: "length (m d) = 128"
    using media_length [of m0 t d] Suc.prems(1,2) by (simp add: ata_disk_def)
  have w: "rd32 dev t IDE_DATA_PORT = m d ! p" using Suc.prems(1,2) by (simp add: ata_disk_def)
  from Suc.IH [OF t' Suc.prems(2)] Suc.prems(3) w l show ?case
    by (simp add: Cons_nth_drop_Suc [symmetric] replicate_app_Cons_same)
qed simp

lemma ata_write:
  assumes "ata_run m0 t = \<lparr>media = m, command = IDE_CMD_W_PIO, sector = d, pos = 0\<rparr>"
    "length ws \<le> length (m d)"
  shows "ata_run m0 (map (Outl IDE_DATA_PORT) (rev ws) @ t) =
    \<lparr>media = m(d := ws @ drop (length ws) (m d)), command = IDE_CMD_W_PIO, sector = d, pos = length ws\<rparr>"
  using assms(2)
proof (induction ws rule: rev_induct)
  case (snoc w ws)
  then have "drop (length ws) (m d) = m d ! length ws # drop (Suc (length ws)) (m d)"
    by (simp add: Cons_nth_drop_Suc)
  with snoc show ?case by (simp add: Let_def list_update_append fun_eq_iff)
qed (simp add: assms(1))

text \<open>What a transfer does to the drive and to the block.\<close>

lemma ata_hardWrite:
  assumes "ata_disk m0 dev" "length (buf (blocks s r)) = 512"
  shows "media (ata_run m0 (iotrace (snd (hardWrite r s)))) =
    (media (ata_run m0 (iotrace s)))(sector_of (blocks s r) := words_of (buf (blocks s r)))"
proof -
  have "length (media (ata_run m0 t) d) = 128" for t d
    using assms(1) media_length by (simp add: ata_disk_def)
  moreover have "length (words_of (buf (blocks s r))) = 128" using assms(2) by simp
  ultimately show ?thesis
    using ata_write [OF ata_command, of "words_of (buf (blocks s r))" m0 s "blocks s r"]
    by (simp add: hardWrite_eq [OF assms(2)])
qed

lemma ata_hardReadWait:
  assumes "ata_disk m0 dev"
  obtains t where "hardReadWait dev q s = Some (0, s\<lparr>iotrace := t, blocks := (blocks s)(q := (blocks s q)\<lparr>
      buf := concat (map bytes_of (media (ata_run m0 (iotrace s)) (sector_of (blocks s q)))), flags := B_VALID\<rparr>)\<rparr>)"
    "media (ata_run m0 t) = media (ata_run m0 (iotrace s))"
proof -
  let ?t = "Outb IDE_CMD_PORT IDE_CMD_R_PIO # iotrace (ide_select (blocks s q) s)"
  have c: "ata_run m0 (Inb IDE_CMD_PORT # ?t) = \<lparr>media = media (ata_run m0 (iotrace s)),
      command = IDE_CMD_R_PIO, sector = sector_of (blocks s q), pos = 0\<rparr>"
    using ata_command [of m0 IDE_CMD_R_PIO "blocks s q" s] by simp
  have "length (media (ata_run m0 (iotrace s)) (sector_of (blocks s q))) = 128"
    using assms media_length by (simp add: ata_disk_def)
  with ata_read [OF c assms, of 128]
  have "read_words dev IDE_DATA_PORT (Inb IDE_CMD_PORT # ?t) 128 = media (ata_run m0 (iotrace s)) (sector_of (blocks s q))"
    "media (ata_run m0 (replicate 128 (Inl IDE_DATA_PORT) @ Inb IDE_CMD_PORT # ?t)) = media (ata_run m0 (iotrace s))"
    by simp_all
  moreover have "\<not> bit (rd8 dev ?t IDE_CMD_PORT) 0" using assms by (simp add: ata_disk_def)
  ultimately show ?thesis using that by (simp add: hardReadWait_eq)
qed


text \<open>A drive made of the protocol itself.\<close>

definition ram_disk :: "(bool \<times> u32 \<Rightarrow> u32 list) \<Rightarrow> device" where
  "ram_disk m0 = \<lparr>rd8 = (\<lambda>_ _. 0x50),
     rd32 = (\<lambda>t _. media (ata_run m0 t) (sector (ata_run m0 t)) ! pos (ata_run m0 t))\<rparr>"

lemma ata_ram_disk: "ata_disk (\<lambda>_. replicate 128 0) (ram_disk (\<lambda>_. replicate 128 0))"
  by (simp add: ata_disk_def ram_disk_def bit_0)


section \<open>Interrupt-driven reads\<close>

lemma wait_enqueue_push_back:
  assumes "blk \<noteq> BNull" "lru_prev (blocks s BNull) \<noteq> blk"
  shows "wait_enqueue blk s = lru.push_back BNull blk s"
  using assms
  by (auto simp: wait_enqueue_def lru.push_back_def upd_blk_def Let_def fun_eq_iff
      intro!: disk.equality)

lemma cond_wait_disk:
  "thrCondWait c None junk s = Some (None, thrSched_step ((upd_thr (thr_current s)
     (\<lambda>t. t\<lparr>cv := c, status := THR_SLEEPING\<rparr>) s)\<lparr>sched_t := junk\<rparr>))"
  by (simp add: thrCondWait_def getCurThread_def upd_thr_twice Let_def)

lemma thread_ops_blocks [simp]:
  "blocks (thrSched_step s) = blocks (s :: 'a disk_scheme)" "blocks (upd_thr r f s) = blocks s"
  by (simp_all add: thrSched_step_def upd_thr_def Let_def split: thr_ref.split)

lemma thread_ops_trace [simp]:
  "iotrace (thrSched_step s) = iotrace s" "iotrace (upd_thr r f s) = iotrace s"
  by (simp_all add: thrSched_step_def upd_thr_def Let_def split: thr_ref.split)

lemma upd_blk_frame [simp]:
  "thrqueue (upd_blk r f s) = thrqueue s" "thr_current (upd_blk r f s) = thr_current s"
  "iotrace (upd_blk r f s) = iotrace s"
  by (simp_all add: upd_blk_def)

lemma ide_select_disk [simp]:
  "blocks (ide_select b s) = blocks (s :: 'a disk_scheme)" "thrqueue (ide_select b s) = thrqueue s"
  "thr_current (ide_select b s) = thr_current s"
  by (simp_all add: ide_select_def outb_def Let_def)

lemma outb_disk [simp]:
  "blocks (outb p v s) = blocks (s :: 'a disk_scheme)" "thrqueue (outb p v s) = thrqueue s"
  "thr_current (outb p v s) = thr_current s"
  by (simp_all add: outb_def)

lemma wait_enqueue_frame:
  "thrqueue (wait_enqueue b s) = thrqueue s" "thr_current (wait_enqueue b s) = thr_current s"
  "iotrace (wait_enqueue b s) = iotrace s"
  by (simp_all add: wait_enqueue_def Let_def)

lemma lru_linked_cong: "blocks s' = blocks s \<Longrightarrow> lru.linked s' xs = lru.linked s xs"
  by (induction xs rule: induct_list012) simp_all

lemma ring_blocks_cong: "lru.ring s h xs \<Longrightarrow> blocks s' = blocks s \<Longrightarrow> lru.ring s' h xs"
  using lru_linked_cong [of s' s] by (simp add: lru.ring_def)

lemma ring_ide_select: "lru.ring s h xs \<Longrightarrow> lru.ring (ide_select b s) h xs"
  by (erule ring_blocks_cong) simp

lemma ring_outb: "lru.ring (outb p v s) h xs = lru.ring s h xs"
  by (auto elim: ring_blocks_cong)

text \<open>\<^verbatim>\<open>hardRead\<close> appends the block to the ring at address 0, which is the wait queue and, both
  pointers being null, also the LRU list of the block cache; it starts the read and puts the
  calling thread to sleep on the block.\<close>

theorem hardRead_enqueues:
  assumes "lru.ring s BNull xs" "blk \<notin> set (BNull # xs)" "thr_current s = Thr i" "i < length (thrqueue s)"
    "sched_pick s \<noteq> None" "status (thrqueue s ! i) = THR_RUNNING"
  shows "\<exists>s'. hardRead addr junk blk s = Some s' \<and> lru.ring s' BNull (xs @ [blk]) \<and>
    sleeps_on (addr blk) (thrqueue s' ! i) \<and> hd (iotrace s') = Outb IDE_CMD_PORT IDE_CMD_R_PIO"
proof -
  define u where "u = outb IDE_CMD_PORT IDE_CMD_R_PIO (wait_enqueue blk (ide_select (blocks s blk) s))"
  define v where "v = (upd_thr (thr_current u) (\<lambda>t. t\<lparr>cv := addr blk, status := THR_SLEEPING\<rparr>) u)
    \<lparr>sched_t := junk\<rparr>"
  have run: "hardRead addr junk blk s = Some (thrSched_step v)"
    by (simp add: hardRead_def u_def v_def cond_wait_disk Let_def)
  have "lru_prev (blocks s BNull) \<noteq> blk"
    using lru.ring_prv_head [OF assms(1)] assms(2) last_in_set [of "BNull # xs"] by (metis list.distinct(1))
  then have q: "wait_enqueue blk (ide_select (blocks s blk) s) =
      lru.push_back BNull blk (ide_select (blocks s blk) s)"
    using assms(2) by (intro wait_enqueue_push_back) simp_all
  have u: "thrqueue u = thrqueue s" "thr_current u = Thr i"
    using assms(3) by (simp_all add: u_def wait_enqueue_frame)
  have ring: "lru.ring u BNull (xs @ [blk])"
    using lru.ring_push_back [OF ring_ide_select [OF assms(1)] assms(2), of "blocks s blk"]
    unfolding u_def q by (simp add: ring_outb)
  have v: "length (thrqueue v) = length (thrqueue s)" "sleeps_on (addr blk) (thrqueue v ! i)"
    "j \<noteq> i \<Longrightarrow> thrqueue v ! j = thrqueue s ! j" for j
    using u assms(4) by (simp_all add: v_def upd_thr_def sleeps_on_def)
  obtain j where j: "sched_pick s = Some j" using assms(5) by auto
  note pj = sched_pick_SomeD [OF j]
  then have "j \<noteq> i" using assms(6) by auto
  then have "0 < prio_of (thrqueue v ! j)" using v(3) pj(3,4) by simp
  then have "sched_pick v \<noteq> None" using sched_pick_NoneD(1) [of v] v(1) pj(1) by force
  then obtain k where k: "sched_pick v = Some k" by auto
  with sched_pick_SomeD(2) [OF k] v(2) have "k \<noteq> i" by (auto simp: sleeps_on_def)
  then have "sleeps_on (addr blk) (thrqueue (thrSched_step v) ! i)"
    using v(2) by (simp add: dispatch_Some [OF k])
  moreover have "hd (iotrace (thrSched_step v)) = Outb IDE_CMD_PORT IDE_CMD_R_PIO"
    by (simp add: v_def u_def outb_def)
  moreover have "lru.ring (thrSched_step v) BNull (xs @ [blk])"
    by (rule ring_blocks_cong [OF ring]) (simp add: v_def)
  ultimately show ?thesis using run by blast
qed

definition reading_disk :: disk where
  "reading_disk = thr.extend (two_ready\<lparr>thr_current := Thr 0,
     thrqueue := (thrqueue two_ready)[0 := (thrqueue two_ready ! 0)\<lparr>status := THR_RUNNING\<rparr>]\<rparr>)
     (disk.fields (\<lambda>_. demo_block))"

lemma reading_disk_fields [simp]:
  "blocks reading_disk r = demo_block" "thr_current reading_disk = Thr 0"
  "thrqueue reading_disk = (thrqueue two_ready)[0 := (thrqueue two_ready ! 0)\<lparr>status := THR_RUNNING\<rparr>]"
  by (simp_all add: reading_disk_def thr.defs disk.defs)

theorem hardRead_enqueues_witness:
  "\<exists>s'. hardRead (\<lambda>_. 0xc0) ThrNull (Buf 3) reading_disk = Some s' \<and> lru.ring s' BNull ([] @ [Buf 3]) \<and>
    sleeps_on 0xc0 (thrqueue s' ! 0) \<and> hd (iotrace s') = Outb IDE_CMD_PORT IDE_CMD_R_PIO"
proof (rule hardRead_enqueues)
  show "lru.ring reading_disk BNull []" by (simp add: lru.ring_empty demo_block_def)
  have "0 < prio_of (thrqueue reading_disk ! 1)" "1 < length (thrqueue reading_disk)"
    by (simp_all add: prio_of_def)
  then show "sched_pick reading_disk \<noteq> None"
    using sched_pick_NoneD(1) [of reading_disk] by (metis not_less)
qed simp_all

section \<open>Start-up\<close>

lemma and_0x80: "(b :: u8) AND 0x80 = (if bit b 7 then 0x80 else 0)"
proof -
  have "bit (2 ^ 7 :: u8) n \<longleftrightarrow> n = 7" for n unfolding bit_exp_iff by auto
  then have n7: "bit (0x80 :: u8) n \<longleftrightarrow> n = 7" for n by simp
  show ?thesis
  proof (rule bit_word_eqI)
    fix n show "bit (b AND 0x80) n = bit (if bit b 7 then 0x80 else 0 :: u8) n"
      by (cases "bit b 7"; cases "n = 7") (simp_all only: bit_and_iff n7 if_True if_False bit_0_eq bot_apply bot_bool_def simp_thms)
  qed
qed

lemma identify_loop_busy:
  fixes s :: "'a disk_scheme"
  assumes run: "identify_loop dev state s = Some r"
    and "\<forall>t. rd8 dev t IDE_CMD_PORT = b" "state = b" "bit b 7"
  shows "bit b 0"
proof -
  have "dev = dev \<longrightarrow> state = b \<longrightarrow> bit b 0"
  proof (rule identify_loop.raw_induct [where P = "\<lambda>dev' state _ _. dev' = dev \<longrightarrow> state = b \<longrightarrow> bit b 0", OF _ run])
    fix f and dev' :: device and st :: u8 and q and u :: "'a disk_scheme"
    assume IH: "\<And>(dev' :: device) (st :: u8) (u :: 'a disk_scheme) q. f dev' st u = Some q \<Longrightarrow> dev' = dev \<longrightarrow> st = b \<longrightarrow> bit b 0"
      and eq: "(if st AND 0x80 = 0x80 \<and> st AND 0x01 \<noteq> 0x01
        then let (st, u) = inb dev' IDE_CMD_PORT u in f dev' st u else Some (st, u)) = Some q"
    have "b AND 0x80 = 0x80" using assms(4) by (simp add: and_0x80)
    then show "dev' = dev \<longrightarrow> st = b \<longrightarrow> bit b 0"
      using eq IH assms(2) by (auto simp: inb_def and_1_cases split: if_splits)
  qed
  with assms(3) show ?thesis by simp
qed

text \<open>Against a drive whose status does not change, \<^verbatim>\<open>hardDriverInit\<close> succeeds when the status
  shows neither error nor busy, and has then emptied the ring at address 0; when the drive stays
  busy without error, it never returns.\<close>

theorem hardDriverInit_steady:
  assumes "\<forall>t. rd8 dev t IDE_CMD_PORT = b" "b \<noteq> 0" "b \<noteq> 0xff" "\<not> bit b 0"
  shows "if bit b 7 then hardDriverInit dev s = None
    else \<exists>s'. hardDriverInit dev s = Some (0, s') \<and> lru.ring s' BNull []"
proof -
  have test: "testIdeState dev s = Some (0, s\<lparr>iotrace := Inb IDE_CMD_PORT # iotrace s\<rparr>)" for s :: "'a disk_scheme"
    using assms by (simp add: testIdeState_def inb_def c_eq_def and_1_cases)
  show ?thesis
  proof (cases "bit b 7")
    case True
    then have "identify_loop dev b s = None" for s :: "'a disk_scheme"
      using identify_loop_busy [OF _ assms(1) refl True] assms(4) by (cases "identify_loop dev b s") auto
    with True show ?thesis using assms test
      by (simp add: hardDriverInit_def inb_def outb_def Let_def)
  next
    case False
    then have "identify_loop dev b s = Some (b, s)" for s :: "'a disk_scheme"
      by (subst identify_loop.simps) (simp add: and_0x80)
    with False show ?thesis using assms test
      by (simp add: hardDriverInit_def inb_def outb_def Let_def and_1_cases lru.ring_empty upd_blk_def)
  qed
qed

theorem hardDriverInit_steady_witness:
  "hardDriverInit busy_drive demo_disk = None \<and>
   (\<exists>s'. hardDriverInit (ram_disk (\<lambda>_. replicate 128 0)) demo_disk = Some (0, s') \<and> lru.ring s' BNull [])"
  using hardDriverInit_steady [of busy_drive "0x80" demo_disk]
    hardDriverInit_steady [of "ram_disk (\<lambda>_. replicate 128 0)" "0x50" demo_disk]
  by (simp add: busy_drive_def ram_disk_def bit_0)

end
