(* ===== verification/Block_Cache.thy ===== *)
theory Block_Cache
  imports Ide
begin

text \<open>
  The block cache of \<^verbatim>\<open>src/fs.c\<close>: 128 buffers on an LRU ring, a hash table of chains, reading and
  writing of blocks through the cache.

  The list head is the null pointer (\<open>BNull\<close>, see theory \<open>Ide\<close>): comparing a link with the head
  and with \<^verbatim>\<open>NULL\<close> is the same comparison, and following a null chain reads the block at address 0.
  A hash key outside the table, which a negative block number has, is \<open>None\<close>, and so is a chain
  that runs in a circle. The contents of two different blocks do not overlap, so that \<^verbatim>\<open>memmove\<close>
  of a whole buffer is its copy.
\<close>

section \<open>Initialisation\<close>

abbreviation (input) BCACHE_SIZE :: nat where "BCACHE_SIZE \<equiv> 128"
abbreviation (input) BLK_HASH_SIZE :: nat where "BLK_HASH_SIZE \<equiv> 128"

definition bcache_link :: "nat \<Rightarrow> 'a disk_scheme \<Rightarrow> 'a disk_scheme" where
  "bcache_link i s =
     (let s = upd_blk (Buf i) (\<lambda>b. b\<lparr>bdevice := - 1\<rparr>) s;
          s = upd_blk (Buf i) (\<lambda>b. b\<lparr>bblock := - 1\<rparr>) s;
          s = upd_blk (Buf i) (\<lambda>b. b\<lparr>flags := B_UNUSED\<rparr>) s;
          s = upd_blk (Buf i) (\<lambda>b. b\<lparr>lruCnt := 0\<rparr>) s;
          s = upd_blk (Buf i) (\<lambda>b. b\<lparr>lru_next := lru_next (blocks s BNull)\<rparr>) s;
          s = (if lru_next (blocks s BNull) \<noteq> BNull
               then upd_blk (lru_next (blocks s BNull)) (\<lambda>b. b\<lparr>lru_prev := Buf i\<rparr>) s else s);
          s = upd_blk (Buf i) (\<lambda>b. b\<lparr>lru_prev := BNull\<rparr>) s
      in upd_blk BNull (\<lambda>b. b\<lparr>lru_next := Buf i\<rparr>) s)"

definition bcache_unhash :: "nat \<Rightarrow> 'a disk_scheme \<Rightarrow> 'a disk_scheme" where
  "bcache_unhash i s =
     (let s = upd_blk (BHash i) (\<lambda>b. b\<lparr>bdevice := - 1\<rparr>) s;
          s = upd_blk (BHash i) (\<lambda>b. b\<lparr>bblock := - 1\<rparr>) s
      in upd_blk (BHash i) (\<lambda>b. b\<lparr>hash_next := BNull\<rparr>) s)"

definition blockCacheInit :: "'a disk_scheme \<Rightarrow> 'a disk_scheme" where
  "blockCacheInit s =
     (let s = upd_blk BNull (\<lambda>b. b\<lparr>lru_prev := BNull\<rparr>) s;
          s = upd_blk BNull (\<lambda>b. b\<lparr>lru_next := BNull\<rparr>) s;
          s = fold bcache_link [0..<BCACHE_SIZE] s;
          s = upd_blk BNull (\<lambda>b. b\<lparr>lru_prev := Buf 0\<rparr>) s;
          s = upd_blk (Buf 0) (\<lambda>b. b\<lparr>lru_next := BNull\<rparr>) s
      in fold bcache_unhash [0..<BLK_HASH_SIZE] s)"

section \<open>Lookup\<close>

definition BLKHASH :: "u32 \<Rightarrow> nat option" where
  "BLKHASH blk =
     (let k = sint blk * int SEC_PER_BLK smod int BLK_HASH_SIZE
      in if k < 0 then None else Some (nat k))"

partial_function (option) chain_find ::
  "u32 \<Rightarrow> u32 \<Rightarrow> block_ref \<Rightarrow> 'a disk_scheme \<Rightarrow> block_ref option" where
  "chain_find device block blk s =
     (if blk \<noteq> BNull \<and> bdevice (blocks s blk) \<noteq> device \<and> bblock (blocks s blk) \<noteq> block
      then chain_find device block (hash_next (blocks s blk)) s
      else Some blk)"

text \<open>The buffer of the block, if the chain search ends there.\<close>

definition cache_find :: "nat \<Rightarrow> u32 \<Rightarrow> u32 \<Rightarrow> 'a disk_scheme \<Rightarrow> block_ref option option" where
  "cache_find key device block s =
     (if hash_next (blocks s (BHash key)) \<noteq> BNull
      then do {
        blk \<leftarrow> chain_find device block (hash_next (blocks s (BHash key))) s;
        Some (if bdevice (blocks s blk) = device \<and> bblock (blocks s blk) = block then Some blk else None) }
      else Some None)"

definition cache_hit :: "block_ref \<Rightarrow> 'a disk_scheme \<Rightarrow> 'a disk_scheme" where
  "cache_hit blk s =
     (let s = upd_blk blk (\<lambda>b. b\<lparr>flags := B_VALID\<rparr>) s;
          s = upd_blk (lru_prev (blocks s blk)) (\<lambda>b. b\<lparr>lru_next := lru_next (blocks s blk)\<rparr>) s
      in upd_blk (lru_next (blocks s blk)) (\<lambda>b. b\<lparr>lru_prev := lru_prev (blocks s blk)\<rparr>) s)"

definition cache_take :: "nat \<Rightarrow> u32 \<Rightarrow> u32 \<Rightarrow> 'a disk_scheme \<Rightarrow> block_ref \<times> 'a disk_scheme" where
  "cache_take key device block s =
     (let blk = lru_next (blocks s BNull);
          s = upd_blk BNull (\<lambda>b. b\<lparr>lru_next := lru_next (blocks s blk)\<rparr>) s;
          s = upd_blk (lru_next (blocks s blk)) (\<lambda>b. b\<lparr>lru_prev := BNull\<rparr>) s;
          s = upd_blk blk (\<lambda>b. b\<lparr>bdevice := device\<rparr>) s;
          s = upd_blk blk (\<lambda>b. b\<lparr>bblock := block\<rparr>) s;
          s = upd_blk blk (\<lambda>b. b\<lparr>lruCnt := 0\<rparr>) s;
          s = upd_blk blk (\<lambda>b. b\<lparr>hash_next := hash_next (blocks s (BHash key))\<rparr>) s;
          s = upd_blk blk (\<lambda>b. b\<lparr>hash_prev := BHash key\<rparr>) s
      in (blk, upd_blk (BHash key) (\<lambda>b. b\<lparr>hash_next := blk\<rparr>) s))"

definition getCachedBlock :: "u32 \<Rightarrow> u32 \<Rightarrow> 'a disk_scheme \<Rightarrow> (block_ref \<times> 'a disk_scheme) option" where
  "getCachedBlock device block s = do {
     key \<leftarrow> BLKHASH block;
     hit \<leftarrow> cache_find key device block s;
     (case hit of
        Some blk \<Rightarrow> Some (blk, cache_hit blk s)
      | None \<Rightarrow>
          if lru_next (blocks s BNull) = BNull \<or> lru_next (blocks s BNull) = BNull
          then do { s \<leftarrow> msg ''[Error] buffer cache: no available buffer'' s; Some (BNull, s) }
          else Some (cache_take key device block s)) }"

section \<open>Release\<close>

partial_function (option) chain_pred ::
  "block_ref \<Rightarrow> block_ref \<Rightarrow> 'a disk_scheme \<Rightarrow> block_ref option" where
  "chain_pred blk p s =
     (let n = hash_next (blocks s p)
      in if n \<noteq> BNull \<and> bdevice (blocks s n) \<noteq> bdevice (blocks s blk) \<and>
           bblock (blocks s n) \<noteq> bblock (blocks s blk)
         then chain_pred blk n s
         else Some p)"

definition chain_remove :: "nat \<Rightarrow> block_ref \<Rightarrow> 'a disk_scheme \<Rightarrow> 'a disk_scheme option" where
  "chain_remove key blk s =
     (if hash_next (blocks s (BHash key)) \<noteq> BNull
      then do {
        p \<leftarrow> chain_pred blk (hash_next (blocks s (BHash key))) s;
        let n = hash_next (blocks s p);
        Some (if bdevice (blocks s n) = bdevice (blocks s blk) \<and> bblock (blocks s n) = bblock (blocks s blk)
              then let s = upd_blk p (\<lambda>b. b\<lparr>hash_next := hash_next (blocks s blk)\<rparr>) s
                   in if hash_next (blocks s blk) \<noteq> BNull
                      then upd_blk (hash_next (blocks s blk)) (\<lambda>b. b\<lparr>hash_prev := p\<rparr>) s else s
              else s) }
      else Some s)"

definition relCachedBlock :: "block_ref \<Rightarrow> 'a disk_scheme \<Rightarrow> 'a disk_scheme option" where
  "relCachedBlock blk s = do {
     key \<leftarrow> BLKHASH (bblock (blocks s blk));
     s \<leftarrow> chain_remove key blk s;
     let s = upd_blk blk (\<lambda>b. b\<lparr>hash_prev := BNull\<rparr>) s;
     let s = upd_blk blk (\<lambda>b. b\<lparr>hash_next := BNull\<rparr>) s;
     let s = upd_blk blk (\<lambda>b. b\<lparr>flags := B_UNUSED\<rparr>) s;
     let s = upd_blk (lru_prev (blocks s BNull)) (\<lambda>b. b\<lparr>lru_next := blk\<rparr>) s;
     let s = upd_blk blk (\<lambda>b. b\<lparr>lru_prev := lru_prev (blocks s BNull)\<rparr>) s;
     let s = upd_blk BNull (\<lambda>b. b\<lparr>lru_prev := blk\<rparr>) s;
     Some (upd_blk blk (\<lambda>b. b\<lparr>lru_next := BNull\<rparr>) s) }"

section \<open>Reading and writing\<close>

definition blockRead ::
  "device \<Rightarrow> u32 \<Rightarrow> u32 \<Rightarrow> 'a disk_scheme \<Rightarrow> (block_ref \<times> 'a disk_scheme) option" where
  "blockRead dev device block s = do {
     (blk, s) \<leftarrow> getCachedBlock device block s;
     (if flags (blocks s blk) = B_VALID then Some (blk, s)
      else do {
        (r, s) \<leftarrow> hardReadWait dev blk s;
        (if r \<noteq> 0
         then do { s \<leftarrow> msg ''[Error] blockRead: hardReadWait'' s; Some (BNull, s) }
         else Some (blk, upd_blk blk (\<lambda>b. b\<lparr>flags := B_VALID\<rparr>) s)) }) }"

definition blockWrite :: "block_ref \<Rightarrow> 'a disk_scheme \<Rightarrow> (u32 \<times> 'a disk_scheme) option" where
  "blockWrite blk s = do {
     (cblk, s) \<leftarrow> getCachedBlock (bdevice (blocks s blk)) (bblock (blocks s blk)) s;
     let s = upd_blk cblk (\<lambda>b. b\<lparr>buf := buf (blocks s blk)\<rparr>) s;
     Some (hardWrite cblk s) }"

section \<open>The ring after initialisation\<close>

text \<open>The buffer after its fields are reset, before it is linked.\<close>

definition bcache_reset :: "nat \<Rightarrow> 'a disk_scheme \<Rightarrow> 'a disk_scheme" where
  "bcache_reset i s = upd_blk (Buf i) (\<lambda>b. b\<lparr>lruCnt := 0\<rparr>) (upd_blk (Buf i) (\<lambda>b. b\<lparr>flags := B_UNUSED\<rparr>)
      (upd_blk (Buf i) (\<lambda>b. b\<lparr>bblock := - 1\<rparr>) (upd_blk (Buf i) (\<lambda>b. b\<lparr>bdevice := - 1\<rparr>) s)))"

lemma bcache_reset_links:
  "lru_next (blocks (bcache_reset i s) r) = lru_next (blocks s r)"
  "lru_prev (blocks (bcache_reset i s) r) = lru_prev (blocks s r)"
  by (simp_all add: bcache_reset_def upd_blk_def)

lemma bcache_link_push_front: "bcache_link i s = lru.push_front BNull BNull (Buf i) (bcache_reset i s)"
  unfolding bcache_link_def lru.push_front_def Let_def bcache_reset_def by (rule refl)

lemma lru_links_cong:
  assumes "\<And>r. lru_next (blocks u r) = lru_next (blocks s r)" "\<And>r. lru_prev (blocks u r) = lru_prev (blocks s r)"
  shows "lru.linked u xs = lru.linked s xs" "lru.ring u h xs = lru.ring s h xs"
    "lru.path u h xs z = lru.path s h xs z"
proof -
  show l: "lru.linked u xs = lru.linked s xs" for xs
    using assms by (induction xs rule: induct_list012) simp_all
  then show "lru.ring u h xs = lru.ring s h xs" "lru.path u h xs z = lru.path s h xs z"
    using assms by (simp_all add: lru.ring_def lru.path_def)
qed

lemma path_bcache_link:
  assumes "lru.path s BNull xs BNull" "Buf i \<notin> set xs"
  shows "lru.path (bcache_link i s) BNull (Buf i # xs) BNull"
proof -
  let ?u = "bcache_reset i s"
  have "lru.path ?u BNull xs BNull"
    using assms(1) lru_links_cong(3) [of ?u s, OF bcache_reset_links] by simp
  from lru.path_push_front [OF this] assms(2) show ?thesis by (simp add: bcache_link_push_front)
qed

lemma fold_bcache_link:
  assumes "lru_next (blocks s BNull) = BNull"
  shows "lru.path (fold bcache_link [0..<n] s) BNull (map Buf (rev [0..<n])) BNull"
proof (induction n)
  case (Suc n)
  have "Buf n \<notin> set (map Buf (rev [0..<n]))" by auto
  from path_bcache_link [OF Suc this] show ?case by simp
qed (simp add: lru.path_def assms)

lemma bcache_link_other:
  "hash_next (blocks (bcache_link i s) r) = hash_next (blocks s r)"
  "flags (blocks (bcache_link i s) (Buf j)) = (if i = j then B_UNUSED else flags (blocks s (Buf j)))"
  by (simp_all add: bcache_link_def Let_def upd_blk_def)

lemma fold_bcache_link_flags:
  "i < n \<Longrightarrow> flags (blocks (fold bcache_link [0..<n] s) (Buf i)) = B_UNUSED"
  by (induction n) (auto simp: bcache_link_other less_Suc_eq)

lemma fold_bcache_unhash:
  "lru_next (blocks (fold bcache_unhash [0..<n] s) r) = lru_next (blocks s r)"
  "lru_prev (blocks (fold bcache_unhash [0..<n] s) r) = lru_prev (blocks s r)"
  "flags (blocks (fold bcache_unhash [0..<n] s) r) = flags (blocks s r)"
  "k < n \<Longrightarrow> hash_next (blocks (fold bcache_unhash [0..<n] s) (BHash k)) = BNull"
  by (induction n) (auto simp: bcache_unhash_def upd_blk_def Let_def less_Suc_eq)

lemma upd_blk_blocks: "blocks (upd_blk r f s) q = (if q = r then f (blocks s r) else blocks s q)"
  by (simp add: upd_blk_def)

lemma blockCacheInit_facts:
  "lru.ring (blockCacheInit s) BNull (map Buf (rev [0..<128]))"
  "\<forall>k \<in> {0..<128}. hash_next (blocks (blockCacheInit s) (BHash k)) = BNull"
  "\<forall>k \<in> {0..<128}. flags (blocks (blockCacheInit s) (Buf k)) = B_UNUSED"
proof -
  define s0 where "s0 = upd_blk BNull (\<lambda>b. b\<lparr>lru_next := BNull\<rparr>) (upd_blk BNull (\<lambda>b. b\<lparr>lru_prev := BNull\<rparr>) s)"
  define s1 where "s1 = fold bcache_link [0..<128] s0"
  define s2 where "s2 = upd_blk (Buf 0) (\<lambda>b. b\<lparr>lru_next := BNull\<rparr>) (upd_blk BNull (\<lambda>b. b\<lparr>lru_prev := Buf 0\<rparr>) s1)"
  have init: "blockCacheInit s = fold bcache_unhash [0..<128] s2"
    unfolding blockCacheInit_def s0_def s1_def s2_def Let_def ..
  have path: "lru.path s1 BNull (map Buf (rev [0..<128])) BNull"
    unfolding s1_def by (rule fold_bcache_link) (simp add: s0_def upd_blk_blocks)
  have "last (map Buf (rev [0..<128])) = Buf 0" "map Buf (rev [0..<128]) \<noteq> []"
    by (simp_all add: last_map last_rev del: upt_Suc)
  with lru.path_close [OF path] have "lru.ring s2 BNull (map Buf (rev [0..<128]))"
    unfolding s2_def by simp
  then show "lru.ring (blockCacheInit s) BNull (map Buf (rev [0..<128]))"
    unfolding init using lru_links_cong(2) [of "fold bcache_unhash [0..<128] s2" s2] fold_bcache_unhash(1,2)
    by blast
  show "\<forall>k \<in> {0..<128}. hash_next (blocks (blockCacheInit s) (BHash k)) = BNull"
    unfolding init using fold_bcache_unhash(4) by auto
  show "\<forall>k \<in> {0..<128}. flags (blocks (blockCacheInit s) (Buf k)) = B_UNUSED"
    unfolding init fold_bcache_unhash(3) s2_def
    using fold_bcache_link_flags [of _ 128 s0] by (auto simp: upd_blk_blocks s1_def)
qed

text \<open>After \<^verbatim>\<open>blockCacheInit\<close>, whatever the memory held before, the 128 buffers form the LRU ring
  from the last to the first, all unused, and every chain of the hash table is empty.\<close>

theorem blockCacheInit_ring:
  "lru.ring (blockCacheInit s) BNull (map Buf (rev [0..<128])) \<and>
   (\<forall>k \<in> {0..<128}. hash_next (blocks (blockCacheInit s) (BHash k)) = BNull \<and>
      flags (blocks (blockCacheInit s) (Buf k)) = B_UNUSED)"
  using blockCacheInit_facts [of s] by blast

theorem blockCacheInit_ring_witness:
  "lru.ring (blockCacheInit demo_disk) BNull (map Buf (rev [0..<128])) \<and>
   hash_next (blocks (blockCacheInit demo_disk) (BHash 20)) = BNull \<and>
   flags (blocks (blockCacheInit demo_disk) (Buf 127)) = B_UNUSED"
  using blockCacheInit_ring [of demo_disk] by simp

section \<open>Lookups\<close>

text \<open>
  \<open>cache_ok xs s\<close>: the LRU ring is \<open>xs\<close>, a list of buffers of the cache.
\<close>

definition cache_ok :: "block_ref list \<Rightarrow> 'a disk_scheme \<Rightarrow> bool" where
  "cache_ok xs s \<longleftrightarrow> lru.ring s BNull xs \<and> (\<forall>x \<in> set xs. \<exists>i. x = Buf i)"

lemma cache_okD:
  assumes "cache_ok xs s"
  shows "lru.ring s BNull xs" "distinct xs" "x \<in> set xs \<Longrightarrow> x \<noteq> BNull" "x \<in> set xs \<Longrightarrow> x \<noteq> BHash k"
  using assms by (auto simp: cache_ok_def lru.ring_def)

lemma chain_find_now:
  "blk = BNull \<or> bdevice (blocks s blk) = d \<or> bblock (blocks s blk) = b \<Longrightarrow> chain_find d b blk s = Some blk"
  by (subst chain_find.simps) auto

lemma cache_find_empty: "hash_next (blocks s (BHash key)) = BNull \<Longrightarrow> cache_find key d b s = Some None"
  by (simp add: cache_find_def)

text \<open>With the device of the front entry, the search ends at the front entry.\<close>

lemma cache_find_front:
  assumes "hash_next (blocks s (BHash key)) = x" "x \<noteq> BNull" "bdevice (blocks s x) = d"
  shows "cache_find key d b s = Some (if bblock (blocks s x) = b then Some x else None)"
  using assms by (simp add: cache_find_def chain_find_now)

lemma take_blocks:
  assumes "cache_ok (x # xs) s" "cache_take key d b s = (y, s')"
  shows "y = x" "cache_ok xs s'" "lru_next (blocks s' x) = hd (xs @ [BNull])" "lru_prev (blocks s' x) = BNull"
    "bdevice (blocks s' x) = d" "bblock (blocks s' x) = b" "flags (blocks s' x) = flags (blocks s x)"
    "hash_next (blocks s' x) = hash_next (blocks s (BHash key))"
    "hash_next (blocks s' (BHash k)) = (if k = key then x else hash_next (blocks s (BHash k)))"
    "iotrace s' = iotrace s" "buf (blocks s' r) = buf (blocks s r)"
    "r \<noteq> x \<Longrightarrow> bdevice (blocks s' r) = bdevice (blocks s r) \<and> bblock (blocks s' r) = bblock (blocks s r) \<and>
       flags (blocks s' r) = flags (blocks s r)"
    "r \<noteq> x \<Longrightarrow> r \<notin> range BHash \<Longrightarrow> hash_next (blocks s' r) = hash_next (blocks s r)"
    "r \<noteq> BNull \<Longrightarrow> lru_next (blocks s' r) = lru_next (blocks s r)"
    "r \<noteq> BNull \<Longrightarrow> r \<noteq> hd (xs @ [BNull]) \<Longrightarrow> lru_prev (blocks s' r) = lru_prev (blocks s r)"
    "s' = s\<lparr>blocks := blocks s'\<rparr>"
proof -
  note ok = cache_okD [OF assms(1)]
  note tf = lru.ring_take_first [OF ok(1)]
  define n where "n = hd (xs @ [BNull])"
  have m: "lru_next (blocks s x) = n" "lru_prev (blocks s x) = BNull"
    using lru.ring_member [of s BNull "[]" x xs] ok(1) by (simp_all add: n_def)
  have dist: "distinct (BNull # x # xs)" using ok(1) by (simp add: lru.ring_def)
  have bufs: "\<forall>z \<in> set (x # xs). \<exists>i. z = Buf i" using assms(1) by (simp add: cache_ok_def)
  have nc: "n = BNull \<or> n \<in> set xs" by (cases xs) (simp_all add: n_def)
  have x: "x \<noteq> BNull" "BNull \<noteq> x" "x \<noteq> BHash j" "BHash j \<noteq> x" "n \<noteq> x" "x \<noteq> n" for j
    using dist bufs nc by auto
  have nh: "n \<noteq> BHash j" "BHash j \<noteq> n" for j
    using bufs nc by auto
  define u where "u = upd_blk n (\<lambda>b. b\<lparr>lru_prev := BNull\<rparr>) (upd_blk BNull (\<lambda>b. b\<lparr>lru_next := n\<rparr>) s)"
  have ux: "hash_next (blocks u (BHash key)) = hash_next (blocks s (BHash key))" "lru_next (blocks u x) = n"
    using x nh m by (simp_all add: u_def upd_blk_blocks)
  have ct: "cache_take key d b s = (x, upd_blk (BHash key) (\<lambda>c. c\<lparr>hash_next := x\<rparr>) (upd_blk x (\<lambda>c. c\<lparr>hash_prev := BHash key\<rparr>)
      (upd_blk x (\<lambda>c. c\<lparr>hash_next := hash_next (blocks s (BHash key))\<rparr>) (upd_blk x (\<lambda>c. c\<lparr>lruCnt := 0\<rparr>)
      (upd_blk x (\<lambda>c. c\<lparr>bblock := b\<rparr>) (upd_blk x (\<lambda>c. c\<lparr>bdevice := d\<rparr>) u))))))"
    using tf(1) m x nh ux by (simp add: cache_take_def Let_def u_def upd_blk_blocks)
  with assms(2) have y: "y = x" and s': "s' = upd_blk (BHash key) (\<lambda>c. c\<lparr>hash_next := x\<rparr>)
      (upd_blk x (\<lambda>c. c\<lparr>hash_prev := BHash key\<rparr>)
      (upd_blk x (\<lambda>c. c\<lparr>hash_next := hash_next (blocks s (BHash key))\<rparr>) (upd_blk x (\<lambda>c. c\<lparr>lruCnt := 0\<rparr>)
      (upd_blk x (\<lambda>c. c\<lparr>bblock := b\<rparr>) (upd_blk x (\<lambda>c. c\<lparr>bdevice := d\<rparr>) u)))))"
    by (metis prod.inject)+
  show "y = x" by (rule y)
  have ring: "lru.ring u BNull xs" using tf(2) m(1) by (simp add: u_def)
  have "lru.ring s' BNull xs"
    using lru_links_cong(2) [of s' u BNull xs] ring by (simp add: s' upd_blk_blocks)
  then show "cache_ok xs s'" using assms(1) by (simp add: cache_ok_def)
  note e = s' u_def upd_blk_blocks
  show "lru_next (blocks s' x) = hd (xs @ [BNull])" "lru_prev (blocks s' x) = BNull"
    "bdevice (blocks s' x) = d" "bblock (blocks s' x) = b" "flags (blocks s' x) = flags (blocks s x)"
    "hash_next (blocks s' x) = hash_next (blocks s (BHash key))"
    "hash_next (blocks s' (BHash k)) = (if k = key then x else hash_next (blocks s (BHash k)))"
    "buf (blocks s' r) = buf (blocks s r)"
    using x m nh unfolding n_def [symmetric] by (simp_all add: e)
  show "iotrace s' = iotrace s" "s' = s\<lparr>blocks := blocks s'\<rparr>" by (simp_all add: s' u_def upd_blk_def)
  show "r \<noteq> x \<Longrightarrow> bdevice (blocks s' r) = bdevice (blocks s r) \<and> bblock (blocks s' r) = bblock (blocks s r) \<and>
       flags (blocks s' r) = flags (blocks s r)"
    "r \<noteq> x \<Longrightarrow> r \<notin> range BHash \<Longrightarrow> hash_next (blocks s' r) = hash_next (blocks s r)"
    "r \<noteq> BNull \<Longrightarrow> lru_next (blocks s' r) = lru_next (blocks s r)"
    "r \<noteq> BNull \<Longrightarrow> r \<noteq> hd (xs @ [BNull]) \<Longrightarrow> lru_prev (blocks s' r) = lru_prev (blocks s r)"
    unfolding n_def [symmetric] using x nh by (simp_all add: e image_iff)
qed

lemma get_miss:
  assumes "cache_ok (x # xs) s" "BLKHASH b = Some key" "cache_find key d b s = Some None"
  shows "getCachedBlock d b s = Some (cache_take key d b s)"
proof -
  have "lru_next (blocks s BNull) = x" "x \<noteq> BNull"
    using cache_okD [OF assms(1)] lru.ring_nxt_head [of s BNull "x # xs"] by simp_all
  with assms(2,3) show ?thesis by (simp add: getCachedBlock_def)
qed

lemma get_hit:
  assumes "BLKHASH b = Some key" "cache_find key d b s = Some (Some x)"
  shows "getCachedBlock d b s = Some (x, cache_hit x s)"
  using assms by (simp add: getCachedBlock_def)

lemma cache_hit_unlink: "cache_hit x s = lru.unlink x (upd_blk x (\<lambda>b. b\<lparr>flags := B_VALID\<rparr>) s)"
  by (simp add: cache_hit_def lru.unlink_def Let_def)

lemma cache_hit_blocks:
  "hash_next (blocks (cache_hit x s) r) = hash_next (blocks s r)"
  "bdevice (blocks (cache_hit x s) r) = bdevice (blocks s r)"
  "bblock (blocks (cache_hit x s) r) = bblock (blocks s r)"
  "buf (blocks (cache_hit x s) r) = buf (blocks s r)"
  "flags (blocks (cache_hit x s) x) = B_VALID"
  "iotrace (cache_hit x s) = iotrace s"
  by (simp_all add: cache_hit_def Let_def upd_blk_blocks)

text \<open>A block that is not found gets the buffer at the front of the LRU ring, the one released
  longest ago; the ring loses it, and the next lookup of the block finds the same buffer, now
  marked valid.\<close>

theorem miss_then_hit:
  assumes "cache_ok (x # xs) s" "BLKHASH b = Some key" "cache_find key d b s = Some None"
  shows "\<exists>s1 s2. getCachedBlock d b s = Some (x, s1) \<and> cache_ok xs s1 \<and>
    bdevice (blocks s1 x) = d \<and> bblock (blocks s1 x) = b \<and> buf (blocks s1 x) = buf (blocks s x) \<and>
    getCachedBlock d b s1 = Some (x, s2) \<and> flags (blocks s2 x) = B_VALID"
proof -
  obtain y s1 where t: "cache_take key d b s = (y, s1)" by fastforce
  note tb = take_blocks [OF assms(1) t]
  have "x \<noteq> BNull" using cache_okD(3) [OF assms(1)] by simp
  then have "cache_find key d b s1 = Some (Some x)"
    using cache_find_front [of s1 key x d b] tb(5,6,9) by simp
  from get_hit [OF assms(2) this] have "getCachedBlock d b s1 = Some (x, cache_hit x s1)" .
  with get_miss [OF assms] t tb(1,2,5,6,11) cache_hit_blocks(5) show ?thesis by auto
qed

definition init_cache :: disk where
  "init_cache = blockCacheInit demo_disk"

lemma cache_ok_init: "cache_ok (map Buf (rev [0..<128])) (blockCacheInit s)"
  using blockCacheInit_facts(1) [of s] by (auto simp: cache_ok_def)

lemma init_cache_facts:
  "cache_ok (Buf 127 # Buf 126 # Buf 125 # map Buf (rev [0..<125])) init_cache"
  "k < 128 \<Longrightarrow> hash_next (blocks init_cache (BHash k)) = BNull"
  "k < 128 \<Longrightarrow> cache_find k d b init_cache = Some None"
proof -
  have "[0..<125 + 3] = [0..<125] @ [125..<125 + 3]" by (rule upt_add_eq_append) simp
  then have "rev [0..<128] = 127 # 126 # 125 # rev [0..<125]" by (simp add: upt_rec_numeral)
  then show "cache_ok (Buf 127 # Buf 126 # Buf 125 # map Buf (rev [0..<125])) init_cache"
    using cache_ok_init [of demo_disk] by (simp only: init_cache_def list.map)
  show "k < 128 \<Longrightarrow> hash_next (blocks init_cache (BHash k)) = BNull"
    using blockCacheInit_facts(2) [of demo_disk] by (simp add: init_cache_def Ball_def)
  then show "k < 128 \<Longrightarrow> cache_find k d b init_cache = Some None" by (simp add: cache_find_empty)
qed

lemma BLKHASH_nonneg:
  assumes "0 \<le> sint b"
  shows "BLKHASH b = Some (nat (sint b mod 128))"
  using assms by (auto simp: BLKHASH_def signed_modulo_int_def sgn_if Let_def)

lemma BLKHASH_20: "BLKHASH 20 = Some 20" "BLKHASH 21 = Some 21" "BLKHASH 22 = Some 22" "BLKHASH 148 = Some 20"
  by (simp_all add: BLKHASH_nonneg)

theorem miss_then_hit_witness:
  "\<exists>s1 s2. getCachedBlock 0 20 init_cache = Some (Buf 127, s1) \<and>
    getCachedBlock 0 20 s1 = Some (Buf 127, s2) \<and> flags (blocks s2 (Buf 127)) = B_VALID"
proof -
  have "cache_find 20 0 20 init_cache = Some None" by (rule init_cache_facts(3)) simp
  from miss_then_hit [OF init_cache_facts(1) BLKHASH_20(1) this] show ?thesis by auto
qed

text \<open>C14. A hit unlinks a buffer even if it is not on the ring. When three blocks are looked up in
  turn and the first of them once more in between, the buffer of the second, which nobody has
  released, is given to the third.\<close>

theorem lookup_steals_buffer:
  assumes "cache_ok (x # y # z # xs) s" "distinct [ka, kb, kc]"
    and "BLKHASH a = Some ka" "BLKHASH b = Some kb" "BLKHASH c = Some kc"
    and "hash_next (blocks s (BHash ka)) = BNull" "hash_next (blocks s (BHash kb)) = BNull"
      "hash_next (blocks s (BHash kc)) = BNull"
  shows "\<exists>s1 s2 s3 s4. getCachedBlock d a s = Some (x, s1) \<and> getCachedBlock d b s1 = Some (y, s2) \<and>
    getCachedBlock d a s2 = Some (x, s3) \<and> getCachedBlock d c s3 = Some (y, s4) \<and>
    bblock (blocks s3 y) = b \<and> bblock (blocks s4 y) = c"
proof -
  have xy: "x \<noteq> y" "x \<noteq> BNull" "y \<noteq> BNull" "y \<noteq> x" "y \<noteq> BHash k" "x \<noteq> BHash k" for k
    using cache_okD [OF assms(1)] by auto
  obtain x' s1 where t1: "cache_take ka d a s = (x', s1)" by fastforce
  note b1 = take_blocks [OF assms(1) t1]
  have f1: "getCachedBlock d a s = Some (x, s1)"
    using get_miss [OF assms(1,3) cache_find_empty] assms(6) t1 b1(1) by simp
  obtain y' s2 where t2: "cache_take kb d b s1 = (y', s2)" by fastforce
  note b2 = take_blocks [OF b1(2) t2]
  have e1: "hash_next (blocks s1 (BHash kb)) = BNull" "hash_next (blocks s1 (BHash kc)) = BNull"
    "hash_next (blocks s1 (BHash ka)) = x"
    using b1(9) assms(2,7,8) by auto
  have f2: "getCachedBlock d b s1 = Some (y, s2)"
    using get_miss [OF b1(2) assms(4) cache_find_empty [OF e1(1)]] t2 b2(1) by simp
  have e2: "hash_next (blocks s2 (BHash kc)) = BNull" "hash_next (blocks s2 (BHash ka)) = x"
    using b2(9) assms(2) e1 by auto
  have k2: "bdevice (blocks s2 x) = d" "bblock (blocks s2 x) = a"
    using b2(12) [of x] b1(5,6) xy by auto
  define s3 where "s3 = cache_hit x s2"
  have f3: "getCachedBlock d a s2 = Some (x, s3)"
    unfolding s3_def using cache_find_front [OF e2(2) xy(2) k2(1)] k2(2)
    by (intro get_hit [OF assms(3)]) simp
  have "z \<noteq> x" using cache_okD(2) [OF assms(1)] by auto
  then have l2: "lru_prev (blocks s2 x) = BNull" "lru_next (blocks s2 x) = y"
    using b2(14) [of x] b2(15) [of x] b1(3,4) xy by auto
  then have l3: "lru_next (blocks s3 BNull) = y"
    unfolding s3_def cache_hit_unlink using xy
    by (intro lru.unlink_stale(1)) (simp_all add: upd_blk_blocks)
  have "hash_next (blocks s3 (BHash kc)) = BNull" using e2(1) by (simp add: s3_def cache_hit_blocks)
  then have "getCachedBlock d c s3 = Some (cache_take kc d c s3)"
    using assms(5) l3 xy by (simp add: getCachedBlock_def cache_find_empty)
  moreover have "fst (cache_take kc d c s3) = y"
    by (simp add: cache_take_def Let_def l3)
  moreover have "bblock (blocks (snd (cache_take kc d c s3)) y) = c"
    by (simp add: cache_take_def Let_def l3 upd_blk_blocks)
  moreover have "bblock (blocks s3 y) = b" using b2(6) by (simp add: s3_def cache_hit_blocks)
  ultimately show ?thesis using f1 f2 f3 by (metis prod.collapse)
qed

theorem lookup_steals_buffer_witness:
  "\<exists>s1 s2 s3 s4. getCachedBlock 0 20 init_cache = Some (Buf 127, s1) \<and>
    getCachedBlock 0 21 s1 = Some (Buf 126, s2) \<and> getCachedBlock 0 20 s2 = Some (Buf 127, s3) \<and>
    getCachedBlock 0 22 s3 = Some (Buf 126, s4) \<and>
    bblock (blocks s3 (Buf 126)) = 21 \<and> bblock (blocks s4 (Buf 126)) = 22"
  by (rule lookup_steals_buffer [OF init_cache_facts(1) _ BLKHASH_20(1-3)]) (simp_all add: init_cache_facts(2))

text \<open>Two blocks of one device in the same chain: the search ends at the first, so that the second
  is not found although it is in the cache, and a third lookup gives it another buffer.\<close>

theorem same_chain_cached_twice:
  assumes "cache_ok (x # y # z # xs) s" "a \<noteq> b" "BLKHASH a = Some k" "BLKHASH b = Some k"
    and "hash_next (blocks s (BHash k)) = BNull"
  shows "\<exists>s1 s2 s3. getCachedBlock d a s = Some (x, s1) \<and> getCachedBlock d b s1 = Some (y, s2) \<and>
    getCachedBlock d a s2 = Some (z, s3) \<and> x \<noteq> z \<and>
    bblock (blocks s3 x) = a \<and> bblock (blocks s3 z) = a \<and> bdevice (blocks s3 x) = d \<and> bdevice (blocks s3 z) = d"
proof -
  have xyz: "x \<noteq> z" "x \<noteq> y" "x \<noteq> BNull" "y \<noteq> BNull" using cache_okD [OF assms(1)] by auto
  obtain x' s1 where t1: "cache_take k d a s = (x', s1)" by fastforce
  note b1 = take_blocks [OF assms(1) t1]
  have f1: "getCachedBlock d a s = Some (x, s1)"
    using get_miss [OF assms(1,3) cache_find_empty [OF assms(5)]] t1 b1(1) by simp
  have h1: "hash_next (blocks s1 (BHash k)) = x" using b1(9) by simp
  have c1: "cache_find k d b s1 = Some None"
    using cache_find_front [OF h1 xyz(3) b1(5)] b1(6) assms(2) by simp
  obtain y' s2 where t2: "cache_take k d b s1 = (y', s2)" by fastforce
  note b2 = take_blocks [OF b1(2) t2]
  have f2: "getCachedBlock d b s1 = Some (y, s2)"
    using get_miss [OF b1(2) assms(4) c1] t2 b2(1) by simp
  have h2: "hash_next (blocks s2 (BHash k)) = y" using b2(9) by simp
  have c2: "cache_find k d a s2 = Some None"
    using cache_find_front [OF h2 xyz(4) b2(5)] b2(6) assms(2) by simp
  obtain z' s3 where t3: "cache_take k d a s2 = (z', s3)" by fastforce
  note b3 = take_blocks [OF b2(2) t3]
  have f3: "getCachedBlock d a s2 = Some (z, s3)"
    using get_miss [OF b2(2) assms(3) c2] t3 b3(1) by simp
  show ?thesis
    using f1 f2 f3 xyz b1(5,6) b2(12) [of x] b3(12) [of x] b3(5,6) by auto
qed

theorem same_chain_cached_twice_witness:
  "\<exists>s1 s2 s3. getCachedBlock 0 20 init_cache = Some (Buf 127, s1) \<and>
    getCachedBlock 0 148 s1 = Some (Buf 126, s2) \<and> getCachedBlock 0 20 s2 = Some (Buf 125, s3) \<and>
    Buf 127 \<noteq> Buf 125 \<and> bblock (blocks s3 (Buf 127)) = 20 \<and> bblock (blocks s3 (Buf 125)) = 20 \<and>
    bdevice (blocks s3 (Buf 127)) = 0 \<and> bdevice (blocks s3 (Buf 125)) = 0"
  by (rule same_chain_cached_twice [OF init_cache_facts(1) _ BLKHASH_20(1,4)]) (simp_all add: init_cache_facts(2))

section \<open>Release\<close>

text \<open>\<^verbatim>\<open>relCachedBlock\<close> of the only block of its chain puts the buffer at the end of the LRU ring
  but leaves it in the chain, so that the next lookup of the block takes the same buffer off the
  ring again.\<close>

theorem release_then_lookup:
  assumes "cache_ok xs s" "x = Buf i" "x \<notin> set xs" "BLKHASH b = Some k"
    and "bdevice (blocks s x) = d" "bblock (blocks s x) = b"
    and "hash_next (blocks s (BHash k)) = x" "hash_next (blocks s x) = BNull"
  shows "\<exists>s1 s2. relCachedBlock x s = Some s1 \<and> cache_ok (xs @ [x]) s1 \<and> flags (blocks s1 x) = B_UNUSED \<and>
    getCachedBlock d b s1 = Some (x, s2) \<and> cache_ok xs s2 \<and> flags (blocks s2 x) = B_VALID \<and>
    buf (blocks s2 x) = buf (blocks s x)"
proof -
  have xn: "x \<noteq> BNull" "x \<noteq> BHash k" using assms(2) by simp_all
  have pred: "chain_pred x x s = Some x" by (subst chain_pred.simps) (simp add: assms(8))
  define s0 where "s0 = (if bdevice (blocks s BNull) = d \<and> bblock (blocks s BNull) = b
    then upd_blk x (\<lambda>b. b\<lparr>hash_next := BNull\<rparr>) s else s)"
  have rem: "chain_remove k x s = Some s0"
    unfolding chain_remove_def s0_def assms(5-8) pred using xn assms(8)
    by (simp add: Let_def upd_blk_blocks assms(5,6))
  define u where "u = upd_blk x (\<lambda>b. b\<lparr>flags := B_UNUSED\<rparr>) (upd_blk x (\<lambda>b. b\<lparr>hash_next := BNull\<rparr>)
     (upd_blk x (\<lambda>b. b\<lparr>hash_prev := BNull\<rparr>) s0))"
  have rel: "relCachedBlock x s = Some (lru.push_back BNull x u)"
    using assms(4,6) rem by (simp add: relCachedBlock_def lru.push_back_def u_def Let_def)
  have ux: "bdevice (blocks u x) = d" "bblock (blocks u x) = b" "flags (blocks u x) = B_UNUSED"
    "hash_next (blocks u (BHash k)) = x" "buf (blocks u x) = buf (blocks s x)"
    using assms(2,5-8) by (simp_all add: u_def s0_def upd_blk_blocks)
  have "lru.ring u BNull xs"
    using lru_links_cong(2) [of u s BNull xs] cache_okD(1) [OF assms(1)] by (simp add: u_def s0_def upd_blk_blocks)
  from lru.ring_push_back [OF this] have r1: "lru.ring (lru.push_back BNull x u) BNull (xs @ [x])"
    using assms(2,3) by simp
  let ?s1 = "lru.push_back BNull x u"
  have fr: "bdevice (blocks ?s1 r) = bdevice (blocks u r)" "bblock (blocks ?s1 r) = bblock (blocks u r)"
    "flags (blocks ?s1 r) = flags (blocks u r)" "hash_next (blocks ?s1 r) = hash_next (blocks u r)"
    "buf (blocks ?s1 r) = buf (blocks u r)" for r
    by (simp_all add: lru.push_back_def Let_def upd_blk_blocks)
  have "cache_find k d b ?s1 = Some (Some x)"
    using cache_find_front [of ?s1 k x d b] xn ux by (simp add: fr)
  then have hit: "getCachedBlock d b ?s1 = Some (x, cache_hit x ?s1)" by (rule get_hit [OF assms(4)])
  have "lru.ring (upd_blk x (\<lambda>b. b\<lparr>flags := B_VALID\<rparr>) ?s1) BNull (xs @ x # [])"
    using r1 lru_links_cong(2) [of "upd_blk x (\<lambda>b. b\<lparr>flags := B_VALID\<rparr>) ?s1" ?s1 BNull "xs @ [x]"]
    by (simp add: upd_blk_blocks)
  from lru.ring_unlink [OF this] have "lru.ring (cache_hit x ?s1) BNull xs" by (simp add: cache_hit_unlink)
  then have "cache_ok xs (cache_hit x ?s1)" using assms(1) by (simp add: cache_ok_def)
  moreover have "cache_ok (xs @ [x]) ?s1" using r1 assms(1,2) by (simp add: cache_ok_def)
  moreover have "flags (blocks ?s1 x) = B_UNUSED" "buf (blocks (cache_hit x ?s1) x) = buf (blocks s x)"
    by (simp_all add: fr ux cache_hit_blocks)
  ultimately show ?thesis using rel hit cache_hit_blocks(5) by blast
qed

definition one_taken :: disk where
  "one_taken = snd (cache_take 20 0 20 init_cache)"

lemma one_taken_facts:
  "cache_ok (Buf 126 # Buf 125 # map Buf (rev [0..<125])) one_taken"
  "bdevice (blocks one_taken (Buf 127)) = 0" "bblock (blocks one_taken (Buf 127)) = 20"
  "hash_next (blocks one_taken (BHash 20)) = Buf 127" "hash_next (blocks one_taken (Buf 127)) = BNull"
proof -
  obtain y where t: "cache_take 20 0 20 init_cache = (y, one_taken)"
    by (metis one_taken_def prod.collapse)
  note b = take_blocks [OF init_cache_facts(1) t]
  show "cache_ok (Buf 126 # Buf 125 # map Buf (rev [0..<125])) one_taken"
    "bdevice (blocks one_taken (Buf 127)) = 0" "bblock (blocks one_taken (Buf 127)) = 20"
    "hash_next (blocks one_taken (BHash 20)) = Buf 127" "hash_next (blocks one_taken (Buf 127)) = BNull"
    using b(2,5,6,8,9) init_cache_facts(2) [of 20] by simp_all
qed

theorem release_then_lookup_witness:
  "\<exists>s1 s2. relCachedBlock (Buf 127) one_taken = Some s1 \<and>
    cache_ok ((Buf 126 # Buf 125 # map Buf (rev [0..<125])) @ [Buf 127]) s1 \<and>
    flags (blocks s1 (Buf 127)) = B_UNUSED \<and> getCachedBlock 0 20 s1 = Some (Buf 127, s2) \<and>
    cache_ok (Buf 126 # Buf 125 # map Buf (rev [0..<125])) s2 \<and> flags (blocks s2 (Buf 127)) = B_VALID \<and>
    buf (blocks s2 (Buf 127)) = buf (blocks one_taken (Buf 127))"
  by (rule release_then_lookup [OF one_taken_facts(1) refl _ BLKHASH_20(1) one_taken_facts(2-5)]) auto

section \<open>Reading and writing\<close>

lemma hardWrite_blocks:
  assumes "length (buf (blocks s r)) = 512"
  shows "fst (hardWrite r s) = 0"
    "blocks (snd (hardWrite r s)) = (blocks s)(r := (blocks s r)\<lparr>flags := B_VALID\<rparr>)"
  using hardWrite_eq [OF assms] by simp_all

text \<open>\<open>at_front\<close>: the block is in the cache, at the front of its chain, where every lookup finds it.\<close>

definition at_front :: "block_ref \<Rightarrow> u32 \<Rightarrow> u32 \<Rightarrow> 'a disk_scheme \<Rightarrow> bool" where
  "at_front x d b s \<longleftrightarrow> (\<exists>k. BLKHASH b = Some k \<and> hash_next (blocks s (BHash k)) = x) \<and> x \<noteq> BNull \<and>
     bdevice (blocks s x) = d \<and> bblock (blocks s x) = b"

lemma get_front: "at_front x d b s \<Longrightarrow> getCachedBlock d b s = Some (x, cache_hit x s)"
  using cache_find_front [of s _ x d b] by (auto simp: at_front_def intro!: get_hit)

lemma read_front: "at_front x d b s \<Longrightarrow> blockRead dev d b s = Some (x, cache_hit x s)"
  by (simp add: blockRead_def get_front cache_hit_blocks(5))

lemma at_front_hit: "at_front x d b s \<Longrightarrow> at_front x d b (cache_hit y s)"
  by (simp add: at_front_def cache_hit_blocks)

text \<open>Writing a block that is not found: what becomes of the buffer taken, and what stays.\<close>

lemma write_miss:
  assumes "cache_ok (x # xs) s" "BLKHASH (bblock (blocks s r)) = Some k" "r \<noteq> x"
    and "cache_find k (bdevice (blocks s r)) (bblock (blocks s r)) s = Some None"
    and "length (buf (blocks s r)) = 512"
  obtains s1 where "blockWrite r s = Some (0, s1)" "cache_ok xs s1"
    "at_front x (bdevice (blocks s r)) (bblock (blocks s r)) s1" "buf (blocks s1 x) = buf (blocks s r)"
    "flags (blocks s1 x) = B_VALID" "hash_next (blocks s1 x) = hash_next (blocks s (BHash k))"
    "\<And>j. hash_next (blocks s1 (BHash j)) = (if j = k then x else hash_next (blocks s (BHash j)))"
    "\<And>q. q \<noteq> x \<Longrightarrow> bdevice (blocks s1 q) = bdevice (blocks s q) \<and> bblock (blocks s1 q) = bblock (blocks s q) \<and>
       flags (blocks s1 q) = flags (blocks s q) \<and> buf (blocks s1 q) = buf (blocks s q)"
    "lru_next (blocks s1 x) = hd (xs @ [BNull])" "lru_prev (blocks s1 x) = BNull"
    "\<And>q. q \<noteq> BNull \<Longrightarrow> lru_next (blocks s1 q) = lru_next (blocks s q)"
    "\<And>q. q \<noteq> BNull \<Longrightarrow> q \<noteq> hd (xs @ [BNull]) \<Longrightarrow> lru_prev (blocks s1 q) = lru_prev (blocks s q)"
proof -
  let ?d = "bdevice (blocks s r)" and ?b = "bblock (blocks s r)"
  obtain y s0 where t: "cache_take k ?d ?b s = (y, s0)" by fastforce
  note tb = take_blocks [OF assms(1) t]
  have xn: "x \<noteq> BNull" "x \<noteq> BHash j" "BHash j \<noteq> x" for j using cache_okD [OF assms(1)] by auto
  define u where "u = upd_blk x (\<lambda>b. b\<lparr>buf := buf (blocks s r)\<rparr>) s0"
  obtain e s1 where w: "hardWrite x u = (e, s1)" by fastforce
  have wr: "blockWrite r s = Some (e, s1)"
    using get_miss [OF assms(1,2,4)] t tb(1,11) w by (simp add: blockWrite_def u_def Let_def)
  have "length (buf (blocks u x)) = 512" by (simp add: u_def upd_blk_blocks assms(5))
  from hardWrite_blocks [OF this] w have e: "e = 0" and
    s1: "blocks s1 = (blocks u)(x := (blocks u x)\<lparr>flags := B_VALID\<rparr>)" by simp_all
  note b = s1 u_def upd_blk_blocks
  show ?thesis
  proof (rule that [of s1])
    show "blockWrite r s = Some (0, s1)" using wr e by simp
    show "cache_ok xs s1"
      using tb(2) lru_links_cong(2) [of s1 s0 BNull xs] by (simp add: cache_ok_def b)
    show "at_front x ?d ?b s1"
      using tb(5,6,9) xn assms(2) by (simp add: at_front_def b)
    show "buf (blocks s1 x) = buf (blocks s r)" "flags (blocks s1 x) = B_VALID"
      "hash_next (blocks s1 x) = hash_next (blocks s (BHash k))"
      "lru_next (blocks s1 x) = hd (xs @ [BNull])" "lru_prev (blocks s1 x) = BNull"
      using tb(3,4,8) by (simp_all add: b)
    show "hash_next (blocks s1 (BHash j)) = (if j = k then x else hash_next (blocks s (BHash j)))" for j
      using tb(9) [of j] xn by (simp add: b)
    show "bdevice (blocks s1 q) = bdevice (blocks s q) \<and> bblock (blocks s1 q) = bblock (blocks s q) \<and>
       flags (blocks s1 q) = flags (blocks s q) \<and> buf (blocks s1 q) = buf (blocks s q)" if "q \<noteq> x" for q
      using that tb(11) [of q] tb(12) [of q] by (simp add: b)
    show "lru_next (blocks s1 q) = lru_next (blocks s q)" if "q \<noteq> BNull" for q
      using tb(14) [OF that] by (cases "q = x") (simp_all add: b)
    show "lru_prev (blocks s1 q) = lru_prev (blocks s q)" if "q \<noteq> BNull" "q \<noteq> hd (xs @ [BNull])" for q
      using tb(15) [OF that] by (cases "q = x") (simp_all add: b)
  qed
qed

text \<open>\<open>disk_io\<close>: nothing but blocks and port traffic has changed.\<close>

definition disk_io :: "'a disk_scheme \<Rightarrow> 'a disk_scheme \<Rightarrow> bool" where
  "disk_io s s' \<longleftrightarrow> s' = s\<lparr>iotrace := iotrace s', blocks := blocks s'\<rparr>"

lemma disk_io_trans: "disk_io s t \<Longrightarrow> disk_io t u \<Longrightarrow> disk_io s u"
  by (cases s; cases t; cases u) (auto simp: disk_io_def)

lemma disk_io_upd [simp]: "disk_io s (upd_blk r f s)"
  by (simp add: disk_io_def upd_blk_def)

lemma disk_io_hit: "disk_io s (cache_hit x s)"
  by (simp add: disk_io_def cache_hit_def Let_def upd_blk_def)

lemma write_miss_io:
  assumes "cache_ok (x # xs) s" "BLKHASH (bblock (blocks s r)) = Some k"
    and "cache_find k (bdevice (blocks s r)) (bblock (blocks s r)) s = Some None"
    and "length (buf (blocks s r)) = 512" "blockWrite r s = Some (e, s1)"
  shows "disk_io s s1"
proof -
  obtain y s0 where t: "cache_take k (bdevice (blocks s r)) (bblock (blocks s r)) s = (y, s0)" by fastforce
  note tb = take_blocks [OF assms(1) t]
  define u where "u = upd_blk x (\<lambda>b. b\<lparr>buf := buf (blocks s r)\<rparr>) s0"
  have "length (buf (blocks u x)) = 512" by (simp add: u_def upd_blk_blocks assms(4))
  note hw = hardWrite_eq [OF this]
  have "hardWrite x u = (e, s1)"
    using get_miss [OF assms(1-3)] t tb(1,11) assms(5) by (simp add: blockWrite_def u_def Let_def)
  then have "disk_io u s1" using hw by (auto simp: disk_io_def)
  moreover have "disk_io s s0" using tb(10,16) by (cases s; cases s0) (simp add: disk_io_def)
  ultimately show ?thesis unfolding u_def using disk_io_trans disk_io_upd by blast
qed

text \<open>Writing a block that is not cached and then reading it gives the bytes written, in the
  buffer of the cache, without another access to the disk.\<close>

theorem write_then_read_cached:
  assumes "cache_ok (x # xs) s" "BLKHASH (bblock (blocks s r)) = Some k" "r \<noteq> x"
    and "cache_find k (bdevice (blocks s r)) (bblock (blocks s r)) s = Some None"
    and "length (buf (blocks s r)) = 512"
  shows "\<exists>s1 s2. blockWrite r s = Some (0, s1) \<and>
    blockRead dev (bdevice (blocks s r)) (bblock (blocks s r)) s1 = Some (x, s2) \<and>
    buf (blocks s2 x) = buf (blocks s r) \<and> iotrace s2 = iotrace s1 \<and> cache_ok xs s1"
proof -
  obtain s1 where "blockWrite r s = Some (0, s1)" "cache_ok xs s1"
    "at_front x (bdevice (blocks s r)) (bblock (blocks s r)) s1" "buf (blocks s1 x) = buf (blocks s r)"
    using assms by (rule write_miss)
  with read_front [OF this(3)] cache_hit_blocks(4,6) show ?thesis by metis
qed

lemma bcache_link_loc:
  "lru_next (blocks s BNull) \<noteq> BLoc i \<Longrightarrow> blocks (bcache_link j s) (BLoc i) = blocks s (BLoc i)"
  by (simp add: bcache_link_def Let_def upd_blk_blocks)

lemma init_cache_loc: "blocks init_cache (BLoc i) = demo_block"
proof -
  have l: "blocks (fold bcache_link [0..<n] s) (BLoc i) = blocks s (BLoc i)"
    if "lru_next (blocks s BNull) = BNull" for n and s :: disk
  proof (induction n)
    case (Suc n)
    have "lru.path (fold bcache_link [0..<n] s) BNull (map Buf (rev [0..<n])) BNull"
      using that by (rule fold_bcache_link)
    then have "lru_next (blocks (fold bcache_link [0..<n] s) BNull) \<noteq> BLoc i"
      by (cases n) (auto simp: lru.path_def)
    from bcache_link_loc [OF this, of n] Suc show ?case by simp
  qed simp
  have h: "blocks (fold bcache_unhash [0..<n] s) (BLoc i) = blocks s (BLoc i)" for n and s :: disk
    by (induction n) (simp_all add: bcache_unhash_def Let_def upd_blk_blocks)
  show ?thesis
    unfolding init_cache_def blockCacheInit_def Let_def h
    by (simp only: upd_blk_blocks block_ref.distinct if_False)
      (subst l; simp add: upd_blk_blocks)
qed

theorem write_then_read_cached_witness:
  "\<exists>s1 s2. blockWrite (BLoc 0) init_cache = Some (0, s1) \<and>
    blockRead busy_drive 0 1 s1 = Some (Buf 127, s2) \<and>
    buf (blocks s2 (Buf 127)) = replicate 512 7 \<and> iotrace s2 = iotrace s1"
proof -
  have b: "blocks init_cache (BLoc 0) = demo_block" by (rule init_cache_loc)
  have k: "BLKHASH (bblock (blocks init_cache (BLoc 0))) = Some 1"
    by (simp add: b demo_block_def BLKHASH_nonneg)
  have f: "cache_find 1 (bdevice (blocks init_cache (BLoc 0))) (bblock (blocks init_cache (BLoc 0))) init_cache = Some None"
    by (rule init_cache_facts(3)) simp
  have l: "length (buf (blocks init_cache (BLoc 0))) = 512" by (simp add: b demo_block_def)
  from write_then_read_cached [OF init_cache_facts(1) k _ f l, of busy_drive] show ?thesis
    by (auto simp: b demo_block_def)
qed

text \<open>A lookup with every buffer in use fails with a message and gives the null pointer, which
  \<^verbatim>\<open>blockRead\<close> does not check: it looks at the flags at address 0 and returns null or reads the disk
  to address 0.\<close>

theorem no_buffer_left:
  assumes "lru.ring s BNull []" "BLKHASH b = Some k" "cache_find k d b s = Some None"
    and "msg ''[Error] buffer cache: no available buffer'' s = Some s'"
  shows "getCachedBlock d b s = Some (BNull, s') \<and>
    blockRead dev d b s = (if flags (blocks s' BNull) = B_VALID then Some (BNull, s') else do {
      (r, u) \<leftarrow> hardReadWait dev BNull s';
      (if r \<noteq> 0 then do { u \<leftarrow> msg ''[Error] blockRead: hardReadWait'' u; Some (BNull, u) }
       else Some (BNull, upd_blk BNull (\<lambda>b. b\<lparr>flags := B_VALID\<rparr>) u)) })"
proof -
  have "lru_next (blocks s BNull) = BNull" using assms(1) by (simp add: lru.ring_empty)
  then have "getCachedBlock d b s = Some (BNull, s')"
    using assms(2-4) by (simp add: getCachedBlock_def)
  then show ?thesis by (simp add: blockRead_def)
qed

lemma msg_no_buffer:
  assumes "lock (cslLock s) = 0"
  shows "\<exists>s'. msg ''[Error] buffer cache: no available buffer'' s = Some s'"
  using assms by (simp add: msg_def printf_def lock_console_free printf_loop_text cstr_def)

theorem no_buffer_left_witness:
  "\<exists>s'. getCachedBlock 0 20 demo_disk = Some (BNull, s')"
proof -
  have "lru.ring demo_disk BNull []" by (simp add: lru.ring_empty demo_block_def)
  moreover have "cache_find 20 0 20 demo_disk = Some None" by (simp add: cache_find_def demo_block_def)
  moreover have "lock (cslLock demo_disk) = 0"
    by (simp add: demo_disk_def thr.defs disk.defs full_table_def idle_threads_def)
  ultimately show ?thesis
    using no_buffer_left [OF _ BLKHASH_20(1)] msg_no_buffer [of demo_disk] by blast
qed

end
