(* ===== verification/Superblock.thy ===== *)
theory Superblock
  imports Block_Cache
begin

text \<open>
  The superblock and the disk layout of \<^verbatim>\<open>src/fs.c\<close>.

  \<open>sb_bytes\<close> and \<open>sb_of_bytes\<close> are the memory layout of \<^verbatim>\<open>struct superblock\<close>: nine 32-bit fields
  in the order of the declaration. A superblock of a stack frame is a value; a block of a stack
  frame is an entry \<open>BLoc\<close> of the block store.
\<close>

section \<open>The superblock\<close>

record superblock =
  sb_size :: u32
  sb_device :: u32
  nLogBlock :: u32
  nInodeBlock :: u32
  nDataBlock :: u32
  logStart :: u32
  inodeStart :: u32
  bitmapStart :: u32
  dataStart :: u32

definition sb_bytes :: "superblock \<Rightarrow> u8 list" where
  "sb_bytes sb = concat (map bytes_of [sb_size sb, sb_device sb, nLogBlock sb, nInodeBlock sb,
     nDataBlock sb, logStart sb, inodeStart sb, bitmapStart sb, dataStart sb])"

definition sb_of_bytes :: "u8 list \<Rightarrow> superblock" where
  "sb_of_bytes bs = \<lparr>sb_size = get32 bs 0, sb_device = get32 bs 4, nLogBlock = get32 bs 8,
     nInodeBlock = get32 bs 12, nDataBlock = get32 bs 16, logStart = get32 bs 20,
     inodeStart = get32 bs 24, bitmapStart = get32 bs 28, dataStart = get32 bs 32\<rparr>"

definition readSuperblock ::
  "device \<Rightarrow> superblock \<Rightarrow> u32 \<Rightarrow> 'a disk_scheme \<Rightarrow> (u32 \<times> superblock \<times> 'a disk_scheme) option" where
  "readSuperblock dev sb device s = do {
     (blk, s) \<leftarrow> blockRead dev device 1 s;
     (if blk = BNull
      then do { s \<leftarrow> msg ''[Error] readSuperblock: blockRead'' s; Some (- 1, sb, s) }
      else Some (0, sb_of_bytes (buf (blocks s blk)), s)) }"

definition writeSuperblock :: "superblock \<Rightarrow> u32 \<Rightarrow> 'a disk_scheme \<Rightarrow> (u32 \<times> 'a disk_scheme) option" where
  "writeSuperblock sb device s = do {
     let s = upd_blk (BLoc 0) (\<lambda>b. b\<lparr>bdevice := device\<rparr>) s;
     let s = upd_blk (BLoc 0) (\<lambda>b. b\<lparr>bblock := 1\<rparr>) s;
     let s = upd_blk (BLoc 0) (\<lambda>b. b\<lparr>buf := replicate BSIZE 0\<rparr>) s;
     let s = upd_blk (BLoc 0) (\<lambda>b. b\<lparr>buf := blit (buf b) 0 (sb_bytes sb)\<rparr>) s;
     (r, s) \<leftarrow> blockWrite (BLoc 0) s;
     (if r \<noteq> 0
      then do { s \<leftarrow> msg ''[Error] writeSuperblock: blockWrite'' s; Some (- 1, s) }
      else Some (0, s)) }"

text \<open>\<open>sb\<close> is the unset local: its size field is never assigned.\<close>

definition diskLayoutInit :: "superblock \<Rightarrow> 'a disk_scheme \<Rightarrow> 'a disk_scheme option" where
  "diskLayoutInit sb s = do {
     let sb = sb\<lparr>nLogBlock := 10\<rparr>;
     let sb = sb\<lparr>nInodeBlock := 10\<rparr>;
     let sb = sb\<lparr>nDataBlock := 10\<rparr>;
     let sb = sb\<lparr>logStart := 3\<rparr>;
     let sb = sb\<lparr>inodeStart := 10\<rparr>;
     let sb = sb\<lparr>bitmapStart := 20\<rparr>;
     let sb = sb\<lparr>dataStart := 23\<rparr>;
     let sb = sb\<lparr>sb_device := 0\<rparr>;
     (_, s) \<leftarrow> writeSuperblock sb (sb_device sb) s;
     let s = upd_blk (BLoc 1) (\<lambda>b. b\<lparr>bdevice := sb_device sb\<rparr>) s;
     let s = upd_blk (BLoc 1) (\<lambda>b. b\<lparr>buf := replicate BSIZE 0\<rparr>) s;
     let s = upd_blk (BLoc 1) (\<lambda>b. b\<lparr>bblock := bitmapStart sb\<rparr>) s;
     (_, s) \<leftarrow> blockWrite (BLoc 1) s;
     let s = upd_blk (BLoc 1) (\<lambda>b. b\<lparr>bblock := bitmapStart sb + 1\<rparr>) s;
     (_, s) \<leftarrow> blockWrite (BLoc 1) s;
     Some s }"

section \<open>Round trips\<close>

lemma length_sb_bytes [simp]: "length (sb_bytes sb) = 36"
  by (simp add: sb_bytes_def)

lemma sb_of_bytes_sb_bytes: "sb_of_bytes (sb_bytes sb @ rest) = sb"
  by (simp add: sb_of_bytes_def sb_bytes_def get32_def bytes_of_def nth_Cons')

text \<open>
  Writing a block of a stack frame that is not cached: \<open>wrote x xs i k B s s'\<close> relates the states
  before and after, where the block is \<open>B\<close> in the frame's entry \<open>i\<close>, \<open>k\<close> its key and \<open>x\<close> the buffer
  it gets.
\<close>

definition wrote ::
  "block_ref \<Rightarrow> block_ref list \<Rightarrow> nat \<Rightarrow> nat \<Rightarrow> block \<Rightarrow> 'a disk_scheme \<Rightarrow> 'a disk_scheme \<Rightarrow> bool" where
  "wrote x xs i k B s s1 \<longleftrightarrow> cache_ok xs s1 \<and> at_front x (bdevice B) (bblock B) s1 \<and>
     buf (blocks s1 x) = buf B \<and>
     (\<forall>j. hash_next (blocks s1 (BHash j)) = (if j = k then x else hash_next (blocks s (BHash j)))) \<and>
     (\<forall>q. q \<noteq> x \<longrightarrow> q \<noteq> BLoc i \<longrightarrow> bdevice (blocks s1 q) = bdevice (blocks s q) \<and>
        bblock (blocks s1 q) = bblock (blocks s q) \<and> buf (blocks s1 q) = buf (blocks s q)) \<and>
     bdevice (blocks s1 (BLoc i)) = bdevice B \<and> bblock (blocks s1 (BLoc i)) = bblock B \<and>
     buf (blocks s1 (BLoc i)) = buf B \<and>
     lru_next (blocks s1 x) = hd (xs @ [BNull]) \<and> lru_prev (blocks s1 x) = BNull \<and>
     (\<forall>j. lru_next (blocks s1 (Buf j)) = lru_next (blocks s (Buf j))) \<and>
     (\<forall>j. Buf j \<noteq> hd (xs @ [BNull]) \<longrightarrow> lru_prev (blocks s1 (Buf j)) = lru_prev (blocks s (Buf j))) \<and>
     hash_next (blocks s1 x) = hash_next (blocks s (BHash k))"

lemma wroteD:
  assumes "wrote x xs i k B s s1"
  shows "cache_ok xs s1" "at_front x (bdevice B) (bblock B) s1" "buf (blocks s1 x) = buf B"
    "hash_next (blocks s1 (BHash j)) = (if j = k then x else hash_next (blocks s (BHash j)))"
    "q \<noteq> x \<Longrightarrow> q \<noteq> BLoc i \<Longrightarrow> bdevice (blocks s1 q) = bdevice (blocks s q) \<and>
       bblock (blocks s1 q) = bblock (blocks s q) \<and> buf (blocks s1 q) = buf (blocks s q)"
    "bdevice (blocks s1 (BLoc i)) = bdevice B" "bblock (blocks s1 (BLoc i)) = bblock B"
    "buf (blocks s1 (BLoc i)) = buf B"
    "lru_next (blocks s1 x) = hd (xs @ [BNull])" "lru_prev (blocks s1 x) = BNull"
    "lru_next (blocks s1 (Buf m)) = lru_next (blocks s (Buf m))"
    "Buf m \<noteq> hd (xs @ [BNull]) \<Longrightarrow> lru_prev (blocks s1 (Buf m)) = lru_prev (blocks s (Buf m))"
    "hash_next (blocks s1 x) = hash_next (blocks s (BHash k))"
  using assms unfolding wrote_def by blast+

lemma write_local:
  assumes "cache_ok (x # xs) s" "BLKHASH (bblock B) = Some k" "hash_next (blocks s (BHash k)) = BNull"
    "length (buf B) = 512" "u = s\<lparr>blocks := (blocks s)(BLoc i := B)\<rparr>"
  obtains s1 where "blockWrite (BLoc i) u = Some (0, s1)" "wrote x xs i k B s s1" "disk_io s s1"
proof -
  have x: "\<exists>j. x = Buf j" using assms(1) by (simp add: cache_ok_def)
  have u: "blocks u q = (if q = BLoc i then B else blocks s q)" for q by (simp add: assms(5))
  have xs: "\<forall>z \<in> set (BNull # x # xs). z \<noteq> BLoc i" using assms(1) by (auto simp: cache_ok_def)
  have "lru.linked u zs = lru.linked s zs" if "\<forall>z \<in> set zs. z \<noteq> BLoc i" for zs
    using that by (induction zs rule: induct_list012) (auto simp: u)
  from this [of "BNull # x # xs @ [BNull]"] have ok: "cache_ok (x # xs) u"
    using assms(1) xs by (simp add: cache_ok_def lru.ring_def)
  have c: "cache_find k d b u = Some None" for d b
    using assms(3) by (intro cache_find_empty) (simp add: u)
  have r: "BLKHASH (bblock (blocks u (BLoc i))) = Some k" "BLoc i \<noteq> x" "length (buf (blocks u (BLoc i))) = 512"
    using assms(2,4) x by (auto simp: u)
  obtain j where j: "x = Buf j" using x ..
  show ?thesis
  proof (rule write_miss [OF ok r(1,2) c r(3)])
    fix s1
    assume w: "blockWrite (BLoc i) u = Some (0, s1)" "cache_ok xs s1"
        "at_front x (bdevice (blocks u (BLoc i))) (bblock (blocks u (BLoc i))) s1"
        "buf (blocks s1 x) = buf (blocks u (BLoc i))"
      and hx: "hash_next (blocks s1 x) = hash_next (blocks u (BHash k))"
      and h: "\<And>j. hash_next (blocks s1 (BHash j)) = (if j = k then x else hash_next (blocks u (BHash j)))"
      and q: "\<And>q. q \<noteq> x \<Longrightarrow> bdevice (blocks s1 q) = bdevice (blocks u q) \<and> bblock (blocks s1 q) = bblock (blocks u q) \<and>
         flags (blocks s1 q) = flags (blocks u q) \<and> buf (blocks s1 q) = buf (blocks u q)"
      and n: "lru_next (blocks s1 x) = hd (xs @ [BNull])" "lru_prev (blocks s1 x) = BNull"
        "\<And>q. q \<noteq> BNull \<Longrightarrow> lru_next (blocks s1 q) = lru_next (blocks u q)"
        "\<And>q. q \<noteq> BNull \<Longrightarrow> q \<noteq> hd (xs @ [BNull]) \<Longrightarrow> lru_prev (blocks s1 q) = lru_prev (blocks u q)"
    show thesis
    proof (rule that [of s1])
      have "hash_next (blocks s1 (BHash j)) = (if j = k then x else hash_next (blocks s (BHash j)))" for j
        using h [of j] by (simp add: u)
      moreover have "bdevice (blocks s1 q) = bdevice (blocks s q) \<and> bblock (blocks s1 q) = bblock (blocks s q) \<and>
         buf (blocks s1 q) = buf (blocks s q)" if "q \<noteq> x" "q \<noteq> BLoc i" for q
        using q [OF that(1)] that(2) by (simp add: u)
      moreover have "bdevice (blocks s1 (BLoc i)) = bdevice B" "bblock (blocks s1 (BLoc i)) = bblock B"
        "buf (blocks s1 (BLoc i)) = buf B" using q [of "BLoc i"] j by (simp_all add: u)
      moreover have "lru_next (blocks s1 (Buf m)) = lru_next (blocks s (Buf m))" for m
        using n(3) [of "Buf m"] by (simp add: u)
      moreover have "lru_prev (blocks s1 (Buf m)) = lru_prev (blocks s (Buf m))" if "Buf m \<noteq> hd (xs @ [BNull])" for m
        using n(4) [of "Buf m"] that by (simp add: u)
      moreover have "at_front x (bdevice B) (bblock B) s1" "buf (blocks s1 x) = buf B" using w(3,4) by (simp_all add: u)
      moreover have "hash_next (blocks s1 x) = hash_next (blocks s (BHash k))" using hx by (simp add: u)
      ultimately show "wrote x xs i k B s s1" unfolding wrote_def using w(2) n(1,2) by blast
      show "disk_io s s1"
        using write_miss_io [OF ok r(1) c r(3) w(1)] by (simp add: assms(5) disk_io_def)
    qed (rule w(1))
  qed
qed

lemma superblock_stored:
  assumes "cache_ok (x # xs) s" "hash_next (blocks s (BHash 1)) = BNull"
  obtains s1 where "writeSuperblock sb device s = Some (0, s1)" "disk_io s s1"
    "readSuperblock dev sb' device s1 = Some (0, sb, cache_hit x s1)"
proof -
  let ?B = "(blocks s (BLoc 0))\<lparr>bdevice := device, bblock := 1, buf := blit (replicate 512 0) 0 (sb_bytes sb)\<rparr>"
  let ?u = "s\<lparr>blocks := (blocks s)(BLoc 0 := ?B)\<rparr>"
  have k: "BLKHASH (bblock ?B) = Some 1" by (simp add: BLKHASH_nonneg)
  have l: "length (buf ?B) = 512" by simp
  obtain s1 where bw: "blockWrite (BLoc 0) ?u = Some (0, s1)" and wr: "wrote x xs 0 1 ?B s s1" and io: "disk_io s s1"
    by (rule write_local [OF assms(1) k assms(2) l refl])
  have "x \<noteq> BNull" using assms(1) by (auto simp: cache_ok_def)
  with read_front [OF wroteD(2) [OF wr]] wroteD(3) [OF wr]
  have "readSuperblock dev sb' device s1 = Some (0, sb, cache_hit x s1)"
    by (simp add: readSuperblock_def cache_hit_blocks(4) blit_def sb_of_bytes_sb_bytes)
  moreover have "writeSuperblock sb device s = Some (0, s1)"
    using bw by (simp add: writeSuperblock_def upd_blk_def Let_def)
  ultimately show ?thesis using that io by blast
qed

text \<open>A superblock that is written and read again through the cache comes back field for field,
  without a second access to the disk.\<close>

theorem superblock_roundtrip:
  assumes "cache_ok (x # xs) s" "hash_next (blocks s (BHash 1)) = BNull"
  shows "\<exists>s1 s2. writeSuperblock sb device s = Some (0, s1) \<and>
    readSuperblock dev sb' device s1 = Some (0, sb, s2) \<and> iotrace s2 = iotrace s1"
  using superblock_stored [OF assms, of sb device dev sb'] cache_hit_blocks(6) by metis

definition demo_sb :: superblock where
  "demo_sb = \<lparr>sb_size = 1, sb_device = 2, nLogBlock = 3, nInodeBlock = 4, nDataBlock = 5, logStart = 6,
     inodeStart = 7, bitmapStart = 0x12345678, dataStart = 9\<rparr>"

theorem superblock_roundtrip_witness:
  "\<exists>s1 s2. writeSuperblock demo_sb 0 init_cache = Some (0, s1) \<and>
    readSuperblock busy_drive (demo_sb\<lparr>logStart := 0\<rparr>) 0 s1 = Some (0, demo_sb, s2) \<and> iotrace s2 = iotrace s1"
  by (rule superblock_roundtrip [OF init_cache_facts(1)]) (simp add: init_cache_facts(2))

text \<open>The state \<^verbatim>\<open>diskLayoutInit\<close> leaves: three blocks in the first three buffers of the ring.\<close>

definition layout :: "u32 \<Rightarrow> superblock" where
  "layout n = \<lparr>sb_size = n, sb_device = 0, nLogBlock = 10, nInodeBlock = 10, nDataBlock = 10, logStart = 3,
     inodeStart = 10, bitmapStart = 20, dataStart = 23\<rparr>"

lemma layout_fields:
  "sb_device (layout n) = 0" "bitmapStart (layout n) = 20" "nInodeBlock (layout n) = 10"
  "nDataBlock (layout n) = 10" "inodeStart (layout n) = 10" "dataStart (layout n) = 23"
  by (simp_all add: layout_def)

definition laid_out :: "u32 \<Rightarrow> block_ref \<Rightarrow> block_ref \<Rightarrow> block_ref \<Rightarrow> block_ref list \<Rightarrow> 'a disk_scheme \<Rightarrow> bool" where
  "laid_out n x y z xs s \<longleftrightarrow> cache_ok xs s \<and> {x, y, z} \<subseteq> range Buf \<and>
     at_front x 0 1 s \<and> sb_of_bytes (buf (blocks s x)) = layout n \<and>
     at_front y 0 20 s \<and> buf (blocks s y) = replicate 512 0 \<and>
     at_front z 0 21 s \<and> buf (blocks s z) = replicate 512 0 \<and>
     lru_prev (blocks s x) = BNull \<and> lru_next (blocks s x) = y \<and>
     lru_prev (blocks s y) = BNull \<and> lru_next (blocks s y) = z \<and>
     lru_prev (blocks s z) = BNull \<and> lru_next (blocks s z) = hd (xs @ [BNull])"

lemma diskLayoutInit_lays_out:
  assumes "cache_ok (x # y # z # xs) s"
    and "hash_next (blocks s (BHash 1)) = BNull" "hash_next (blocks s (BHash 20)) = BNull"
      "hash_next (blocks s (BHash 21)) = BNull"
  obtains s' where "diskLayoutInit sb s = Some s'" "laid_out (sb_size sb) x y z xs s'"
    "\<And>k. k \<notin> {1, 20, 21} \<Longrightarrow> hash_next (blocks s' (BHash k)) = hash_next (blocks s (BHash k))"
proof -
  obtain i j m where xyz: "x = Buf i" "y = Buf j" "z = Buf m" using assms(1) by (auto simp: cache_ok_def)
  have dist: "distinct [BNull, x, y, z]" using assms(1) by (auto simp: cache_ok_def lru.ring_def)
  have nx: "hd (xs @ [BNull]) \<noteq> x" "hd (xs @ [BNull]) \<noteq> y" "hd (xs @ [BNull]) \<noteq> z"
    using assms(1) xyz by (cases xs; auto simp: cache_ok_def lru.ring_def)+
  let ?sb = "layout (sb_size sb)"
  let ?B = "(blocks s (BLoc 0))\<lparr>bdevice := 0, bblock := 1, buf := blit (replicate 512 0) 0 (sb_bytes ?sb)\<rparr>"
  have k1: "BLKHASH (bblock ?B) = Some 1" by (simp add: BLKHASH_nonneg)
  have l1: "length (buf ?B) = 512" by simp
  obtain s1 where w1: "blockWrite (BLoc 0) (s\<lparr>blocks := (blocks s)(BLoc 0 := ?B)\<rparr>) = Some (0, s1)"
    and wr1: "wrote x (y # z # xs) 0 1 ?B s s1"
    by (rule write_local [OF assms(1) k1 assms(2) l1 refl])
  note ok1 = wroteD(1) [OF wr1] and f1 = wroteD(2) [OF wr1] and b1 = wroteD(3) [OF wr1]
    and h1 = wroteD(4) [OF wr1] and n1 = wroteD(9,10) [OF wr1]
  let ?C = "(blocks s1 (BLoc 1))\<lparr>bdevice := 0, buf := replicate 512 0, bblock := 20\<rparr>"
  have k2: "BLKHASH (bblock ?C) = Some 20" by (simp add: BLKHASH_nonneg)
  have l2: "length (buf ?C) = 512" by simp
  have e2: "hash_next (blocks s1 (BHash 20)) = BNull" using h1 assms(3) by simp
  obtain s2 where w2: "blockWrite (BLoc 1) (s1\<lparr>blocks := (blocks s1)(BLoc 1 := ?C)\<rparr>) = Some (0, s2)"
    and wr2: "wrote y (z # xs) 1 20 ?C s1 s2"
    by (rule write_local [OF ok1 k2 e2 l2 refl])
  note ok2 = wroteD(1) [OF wr2] and f2 = wroteD(2) [OF wr2] and b2 = wroteD(3) [OF wr2]
    and h2 = wroteD(4) [OF wr2] and q2 = wroteD(5) [OF wr2] and c2 = wroteD(6,8) [OF wr2]
    and n2 = wroteD(9-12) [OF wr2]
  let ?D = "(blocks s2 (BLoc 1))\<lparr>bblock := 21\<rparr>"
  have k3: "BLKHASH (bblock ?D) = Some 21" by (simp add: BLKHASH_nonneg)
  have l3: "length (buf ?D) = 512" using c2 by simp
  have e3: "hash_next (blocks s2 (BHash 21)) = BNull" using h1 h2 assms(4) by simp
  obtain s3 where w3: "blockWrite (BLoc 1) (s2\<lparr>blocks := (blocks s2)(BLoc 1 := ?D)\<rparr>) = Some (0, s3)"
    and wr3: "wrote z xs 1 21 ?D s2 s3"
    by (rule write_local [OF ok2 k3 e3 l3 refl])
  note ok3 = wroteD(1) [OF wr3] and f3 = wroteD(2) [OF wr3] and b3 = wroteD(3) [OF wr3]
    and h3 = wroteD(4) [OF wr3] and q3 = wroteD(5) [OF wr3] and n3 = wroteD(9-12) [OF wr3]
  have sb: "sb\<lparr>nLogBlock := 10, nInodeBlock := 10, nDataBlock := 10, logStart := 3, inodeStart := 10,
      bitmapStart := 20, dataStart := 23, sb_device := 0\<rparr> = ?sb"
    by (cases sb) (simp add: layout_def)
  have run: "diskLayoutInit sb s = Some s3"
    unfolding diskLayoutInit_def Let_def sb
    using w1 w2 w3 c2 by (simp add: writeSuperblock_def upd_blk_def layout_fields Let_def)
  have bufs: "buf (blocks s3 x) = buf ?B" "buf (blocks s3 y) = buf ?C" "buf (blocks s3 z) = buf ?C"
    using b1 b2 b3 c2 q2 [of x] q3 [of x] q3 [of y] xyz dist by auto
  have fr: "at_front x 0 1 s3" "at_front y 0 20 s3" "at_front z 0 21 s3"
    using f1 f2 f3 c2 h1 h2 h3 q2 [of x] q3 [of x] q3 [of y] xyz dist k1 k2 k3
    by (simp_all add: at_front_def)
  have "lru_prev (blocks s3 x) = BNull" "lru_next (blocks s3 x) = y"
    "lru_prev (blocks s3 y) = BNull" "lru_next (blocks s3 y) = z"
    "lru_prev (blocks s3 z) = BNull" "lru_next (blocks s3 z) = hd (xs @ [BNull])"
    using n1 n2 n3 xyz dist nx by auto
  then have "laid_out (sb_size sb) x y z xs s3"
    using ok3 fr bufs xyz by (simp add: laid_out_def blit_def sb_of_bytes_sb_bytes)
  with run show ?thesis by (rule that) (simp add: h1 h2 h3)
qed

lemma laid_outD:
  assumes "laid_out n x y z xs s"
  shows "cache_ok xs s" "at_front x 0 1 s" "sb_of_bytes (buf (blocks s x)) = layout n"
    "at_front y 0 20 s" "buf (blocks s y) = replicate 512 0" "at_front z 0 21 s" "buf (blocks s z) = replicate 512 0"
    "lru_prev (blocks s x) = BNull" "lru_next (blocks s x) = y"
    "lru_prev (blocks s y) = BNull" "lru_next (blocks s y) = z"
    "lru_prev (blocks s z) = BNull" "lru_next (blocks s z) = hd (xs @ [BNull])" "{x, y, z} \<subseteq> range Buf"
  using assms by (simp_all add: laid_out_def)

text \<open>C35. On a fresh cache \<^verbatim>\<open>diskLayoutInit\<close> succeeds; the superblock then reads as the layout with
  the bitmaps in blocks 20 and 21, and both bitmaps read as empty, without access to the disk. In
  this layout the log, ten blocks from block 3, runs into the inodes, which start at block 10.\<close>

theorem diskLayoutInit_layout:
  assumes "cache_ok (x # y # z # xs) s"
    and "hash_next (blocks s (BHash 1)) = BNull" "hash_next (blocks s (BHash 20)) = BNull"
      "hash_next (blocks s (BHash 21)) = BNull"
  shows "\<exists>s'. diskLayoutInit sb s = Some s' \<and>
    (\<exists>u. readSuperblock dev sb' 0 s' = Some (0, layout (sb_size sb), u)) \<and>
    (\<exists>u. blockRead dev 0 20 s' = Some (y, u) \<and> buf (blocks u y) = replicate 512 0 \<and> iotrace u = iotrace s') \<and>
    (\<exists>u. blockRead dev 0 21 s' = Some (z, u) \<and> buf (blocks u z) = replicate 512 0 \<and> iotrace u = iotrace s') \<and>
    inodeStart (layout (sb_size sb)) < logStart (layout (sb_size sb)) + nLogBlock (layout (sb_size sb))"
proof -
  obtain s' where run: "diskLayoutInit sb s = Some s'" and l: "laid_out (sb_size sb) x y z xs s'"
    using assms by (rule diskLayoutInit_lays_out)
  note d = laid_outD [OF l]
  have "x \<noteq> BNull" using d(2) by (simp add: at_front_def)
  then have "readSuperblock dev sb' 0 s' = Some (0, layout (sb_size sb), cache_hit x s')"
    using read_front [OF d(2)] d(3) by (simp add: readSuperblock_def cache_hit_blocks)
  moreover have "inodeStart (layout (sb_size sb)) < logStart (layout (sb_size sb)) + nLogBlock (layout (sb_size sb))"
    by (simp add: layout_def)
  moreover have "buf (blocks (cache_hit y s') y) = replicate 512 0" "iotrace (cache_hit y s') = iotrace s'"
    "buf (blocks (cache_hit z s') z) = replicate 512 0" "iotrace (cache_hit z s') = iotrace s'"
    using d(5,7) by (simp_all only: cache_hit_blocks)
  ultimately show ?thesis
    using run read_front [OF d(4), of dev] read_front [OF d(6), of dev] by blast
qed

theorem diskLayoutInit_layout_witness:
  "\<exists>s'. diskLayoutInit demo_sb init_cache = Some s' \<and>
    (\<exists>u. readSuperblock busy_drive demo_sb 0 s' = Some (0, layout 1, u)) \<and>
    (\<exists>u. blockRead busy_drive 0 20 s' = Some (Buf 126, u) \<and> buf (blocks u (Buf 126)) = replicate 512 0)"
proof -
  have sz: "sb_size demo_sb = 1" by (simp add: demo_sb_def)
  have "hash_next (blocks init_cache (BHash 1)) = BNull" "hash_next (blocks init_cache (BHash 20)) = BNull"
    "hash_next (blocks init_cache (BHash 21)) = BNull" by (simp_all add: init_cache_facts(2))
  from diskLayoutInit_layout [OF init_cache_facts(1) this, of demo_sb busy_drive demo_sb]
  show ?thesis unfolding sz by blast
qed

end
