(* ===== verification/Inode.thy ===== *)
theory Inode
  imports Superblock
begin

text \<open>
  Inodes of \<^verbatim>\<open>src/fs.c\<close>: the inode cache, and the allocation of inodes and data blocks in the two
  bitmaps.

  Inodes live in a store as blocks do: the buffers of the inode cache, its hash heads, and the
  null pointer, which is again the head of the LRU list and stands for the memory at address 0.
  The objects at address 0 of different types are kept apart.

  \<open>junk\<close> collects what the code reads without having set it: the local superblock, and the memory
  at the address of a local pointer, which \<^verbatim>\<open>blockWrite(&bb)\<close>, \<^verbatim>\<open>blockWrite(&db)\<close> and
  \<^verbatim>\<open>relCachedBlock(&db)\<close> take for a block. That memory is the entry \<open>BLoc 2\<close> of the block store.
\<close>

section \<open>Inodes\<close>

datatype inode_ref = INull | IBuf nat | IHash nat

text \<open>The two padding fields are part of the memory that is copied.\<close>

record diskInode =
  uid :: u16
  gid :: u16
  mode :: u16
  pad1 :: u16
  itype :: u32
  iflag_word :: u32
  atime :: u32
  ctime :: u32
  mtime :: u32
  nlink :: u16
  pad2 :: u16
  nblock :: u32
  dblock :: "u32 list"

record inode =
  isize :: u32
  ino :: u32
  idevice :: u32
  access :: u32
  dinode :: diskInode
  ilru_prev :: inode_ref
  ilru_next :: inode_ref
  ihash_prev :: inode_ref
  ihash_next :: inode_ref

record fsys = disk +
  inodes :: "inode_ref \<Rightarrow> inode"

record junk =
  j_sb :: superblock
  j_stack :: block

definition upd_ino :: "inode_ref \<Rightarrow> (inode \<Rightarrow> inode) \<Rightarrow> 'a fsys_scheme \<Rightarrow> 'a fsys_scheme" where
  "upd_ino r f s = s\<lparr>inodes := (inodes s)(r := f (inodes s r))\<rparr>"

abbreviation (input) NDATA :: nat where "NDATA \<equiv> 64"
abbreviation (input) IBUFSIZE :: nat where "IBUFSIZE \<equiv> 128"
abbreviation (input) IHASHSIZE :: nat where "IHASHSIZE \<equiv> 128"
abbreviation (input) I_NOTCACHE :: u32 where "I_NOTCACHE \<equiv> 0"
abbreviation (input) I_VALID :: u32 where "I_VALID \<equiv> 2"
abbreviation (input) sizeof_diskInode :: nat where "sizeof_diskInode \<equiv> 292"
abbreviation (input) IPB :: nat where "IPB \<equiv> BSIZE div sizeof_diskInode"

definition bytes16 :: "u16 \<Rightarrow> u8 list" where
  "bytes16 w = [ucast w, ucast (drop_bit 8 w)]"

definition get16 :: "u8 list \<Rightarrow> nat \<Rightarrow> u16" where
  "get16 bs i = ucast (bs ! i) OR push_bit 8 (ucast (bs ! (i + 1)))"

definition di_bytes :: "diskInode \<Rightarrow> u8 list" where
  "di_bytes d = bytes16 (uid d) @ bytes16 (gid d) @ bytes16 (mode d) @ bytes16 (pad1 d) @
     bytes_of (itype d) @ bytes_of (iflag_word d) @ bytes_of (atime d) @ bytes_of (ctime d) @
     bytes_of (mtime d) @ bytes16 (nlink d) @ bytes16 (pad2 d) @ bytes_of (nblock d) @
     concat (map bytes_of (dblock d))"

definition di_of_bytes :: "u8 list \<Rightarrow> diskInode" where
  "di_of_bytes bs = \<lparr>uid = get16 bs 0, gid = get16 bs 2, mode = get16 bs 4, pad1 = get16 bs 6,
     itype = get32 bs 8, iflag_word = get32 bs 12, atime = get32 bs 16, ctime = get32 bs 20,
     mtime = get32 bs 24, nlink = get16 bs 28, pad2 = get16 bs 30, nblock = get32 bs 32,
     dblock = words_of (take (4 * NDATA) (drop 36 bs))\<rparr>"

section \<open>The inode cache\<close>

definition icache_link :: "nat \<Rightarrow> 'a fsys_scheme \<Rightarrow> 'a fsys_scheme" where
  "icache_link i s =
     (let s = upd_ino (IBuf i) (\<lambda>n. n\<lparr>dinode := (dinode n)\<lparr>itype := I_NOTCACHE\<rparr>\<rparr>) s;
          s = upd_ino (IBuf i) (\<lambda>n. n\<lparr>dinode := (dinode n)\<lparr>nlink := 0\<rparr>\<rparr>) s;
          s = upd_ino (IBuf i) (\<lambda>n. n\<lparr>isize := 0\<rparr>) s;
          s = upd_ino (IBuf i) (\<lambda>n. n\<lparr>ilru_next := ilru_next (inodes s INull)\<rparr>) s;
          s = (if ilru_next (inodes s INull) \<noteq> INull
               then upd_ino (ilru_next (inodes s INull)) (\<lambda>n. n\<lparr>ilru_prev := IBuf i\<rparr>) s else s);
          s = upd_ino (IBuf i) (\<lambda>n. n\<lparr>ilru_prev := INull\<rparr>) s
      in upd_ino INull (\<lambda>n. n\<lparr>ilru_next := IBuf i\<rparr>) s)"

definition icache_unhash :: "nat \<Rightarrow> 'a fsys_scheme \<Rightarrow> 'a fsys_scheme" where
  "icache_unhash i s =
     (let s = upd_ino (IHash i) (\<lambda>n. n\<lparr>ino := - 1\<rparr>) s
      in upd_ino (IHash i) (\<lambda>n. n\<lparr>ihash_next := INull\<rparr>) s)"

definition inodeCacheInit :: "'a fsys_scheme \<Rightarrow> 'a fsys_scheme" where
  "inodeCacheInit s =
     (let s = upd_ino INull (\<lambda>n. n\<lparr>ilru_prev := INull\<rparr>) s;
          s = upd_ino INull (\<lambda>n. n\<lparr>ilru_next := INull\<rparr>) s;
          s = fold icache_link [0..<IBUFSIZE] s;
          s = upd_ino INull (\<lambda>n. n\<lparr>ilru_prev := IBuf 0\<rparr>) s;
          s = upd_ino (IBuf 0) (\<lambda>n. n\<lparr>ilru_next := INull\<rparr>) s
      in fold icache_unhash [0..<IHASHSIZE] s)"

definition IHASH :: "u32 \<Rightarrow> nat option" where
  "IHASH n = (let k = sint n smod int IHASHSIZE in if k < 0 then None else Some (nat k))"

partial_function (option) ichain_find :: "u32 \<Rightarrow> inode_ref \<Rightarrow> 'a fsys_scheme \<Rightarrow> inode_ref option" where
  "ichain_find n ind s =
     (if ind \<noteq> INull \<and> ino (inodes s ind) \<noteq> n
      then ichain_find n (ihash_next (inodes s ind)) s
      else Some ind)"

definition icache_find :: "nat \<Rightarrow> u32 \<Rightarrow> 'a fsys_scheme \<Rightarrow> inode_ref option option" where
  "icache_find key n s =
     (if ihash_next (inodes s (IHash key)) \<noteq> INull
      then do {
        ind \<leftarrow> ichain_find n (ihash_next (inodes s (IHash key))) s;
        Some (if ino (inodes s ind) = n then Some ind else None) }
      else Some None)"

definition icache_take :: "nat \<Rightarrow> 'a fsys_scheme \<Rightarrow> inode_ref \<times> 'a fsys_scheme" where
  "icache_take key s =
     (let ind = ilru_next (inodes s INull);
          s = upd_ino INull (\<lambda>n. n\<lparr>ilru_next := ilru_next (inodes s ind)\<rparr>) s;
          s = upd_ino (ilru_next (inodes s ind)) (\<lambda>n. n\<lparr>ilru_prev := INull\<rparr>) s;
          s = upd_ino ind (\<lambda>n. n\<lparr>dinode := (dinode n)\<lparr>itype := I_NOTCACHE\<rparr>\<rparr>) s;
          s = upd_ino ind (\<lambda>n. n\<lparr>ihash_next := ihash_next (inodes s (IHash key))\<rparr>) s;
          s = upd_ino ind (\<lambda>n. n\<lparr>ihash_prev := IHash key\<rparr>) s
      in (ind, upd_ino (IHash key) (\<lambda>n. n\<lparr>ihash_next := ind\<rparr>) s))"

definition getCachedInode :: "u32 \<Rightarrow> u32 \<Rightarrow> 'a fsys_scheme \<Rightarrow> (inode_ref \<times> 'a fsys_scheme) option" where
  "getCachedInode n device s = do {
     key \<leftarrow> IHASH n;
     hit \<leftarrow> icache_find key n s;
     (case hit of
        Some ind \<Rightarrow>
          let s = upd_ino ind (\<lambda>n. n\<lparr>dinode := (dinode n)\<lparr>iflag_word := I_VALID\<rparr>\<rparr>) s
          in Some (ind, upd_ino ind (\<lambda>n. n\<lparr>access := access n + 1\<rparr>) s)
      | None \<Rightarrow>
          if ilru_next (inodes s INull) = INull \<or> ilru_next (inodes s INull) = INull
          then do { s \<leftarrow> msg ''[Error] getCachedInode: no available buffer'' s; Some (INull, s) }
          else Some (icache_take key s)) }"

text \<open>\<^verbatim>\<open>getInode\<close> has no return statement, and nothing calls it.\<close>

definition getInode :: "device \<Rightarrow> superblock \<Rightarrow> u32 \<Rightarrow> u32 \<Rightarrow> 'a fsys_scheme \<Rightarrow> 'a fsys_scheme option" where
  "getInode dev sb n device s = do {
     (ind, s) \<leftarrow> getCachedInode n device s;
     (if itype (dinode (inodes s ind)) = I_NOTCACHE
      then do { (_, _, s) \<leftarrow> readSuperblock dev sb (idevice (inodes s ind)) s; Some s }
      else Some s) }"

section \<open>The bitmaps\<close>

text \<open>A bitmap has a byte for each inode or data block; the scan gives -1 when no byte is 0.\<close>

fun bitmap_scan :: "u8 list \<Rightarrow> nat \<Rightarrow> nat \<Rightarrow> u32 option" where
  "bitmap_scan bs i 0 = Some (- 1)"
| "bitmap_scan bs i (Suc n) =
     (if i < length bs
      then if bs ! i = 0 then Some (of_nat i) else bitmap_scan bs (Suc i) n
      else None)"

text \<open>
  Writing a byte of a buffer by index. Index -1 is the highest byte of \<^verbatim>\<open>lruCnt\<close>, the field in front
  of the buffer; other indices outside the buffer are \<open>None\<close>.
\<close>

definition poke_buf :: "block_ref \<Rightarrow> int \<Rightarrow> u8 \<Rightarrow> 'a disk_scheme \<Rightarrow> 'a disk_scheme option" where
  "poke_buf r i v s =
     (if 0 \<le> i \<and> i < int (length (buf (blocks s r)))
      then Some (upd_blk r (\<lambda>b. b\<lparr>buf := (buf b)[nat i := v]\<rparr>) s)
      else if i = - 1
      then Some (upd_blk r (\<lambda>b. b\<lparr>lruCnt := (lruCnt b AND 0x00ffffff) OR push_bit 24 (ucast v)\<rparr>) s)
      else None)"

text \<open>\<^verbatim>\<open>allocInode\<close> up to the marking of the bitmap, and \<^verbatim>\<open>blockWrite(&bb)\<close>.\<close>

definition allocInode_mark ::
  "device \<Rightarrow> junk \<Rightarrow> u32 \<Rightarrow> 'a disk_scheme \<Rightarrow> (u32 \<times> superblock \<times> 'a disk_scheme) option" where
  "allocInode_mark dev jk device s = do {
     (_, sb, s) \<leftarrow> readSuperblock dev (j_sb jk) device s;
     (bb, s) \<leftarrow> blockRead dev device (bitmapStart sb) s;
     n \<leftarrow> bitmap_scan (buf (blocks s bb)) 0 (nat (sint (nInodeBlock sb)));
     s \<leftarrow> poke_buf bb (sint n) 1 s;
     (_, s) \<leftarrow> blockWrite (BLoc 2) (upd_blk (BLoc 2) (\<lambda>_. j_stack jk) s);
     Some (n, sb, s) }"

definition zero_dinode :: diskInode where
  "zero_dinode = \<lparr>uid = 0, gid = 0, mode = 0, pad1 = 0, itype = 0, iflag_word = 0, atime = 0, ctime = 0,
     mtime = 0, nlink = 0, pad2 = 0, nblock = 0, dblock = replicate NDATA 0\<rparr>"

definition allocInode ::
  "device \<Rightarrow> junk \<Rightarrow> u32 \<Rightarrow> 'a fsys_scheme \<Rightarrow> (inode_ref \<times> 'a fsys_scheme) option" where
  "allocInode dev jk device s = do {
     (n, sb, s) \<leftarrow> allocInode_mark dev jk device s;
     (if n = - 1
      then do { s \<leftarrow> msg ''[Error] allocInode: no available inode block'' s; Some (INull, s) }
      else do {
        (ind, s) \<leftarrow> getCachedInode n device s;
        let s = upd_ino ind (\<lambda>i. i\<lparr>ino := n\<rparr>) s;
        let s = upd_ino ind (\<lambda>i. i\<lparr>idevice := device\<rparr>) s;
        let s = upd_ino ind (\<lambda>i. i\<lparr>access := 0\<rparr>) s;
        let s = upd_ino ind (\<lambda>i. i\<lparr>isize := 0\<rparr>) s;
        let s = upd_ino ind (\<lambda>i. i\<lparr>dinode := zero_dinode\<rparr>) s;
        (ib, s) \<leftarrow> blockRead dev device (n div of_nat IPB + inodeStart sb) s;
        let off = unat (n mod of_nat IPB) * sizeof_diskInode;
        let s = upd_blk ib (\<lambda>b. b\<lparr>buf := blit (buf b) off (di_bytes (dinode (inodes s ind)))\<rparr>) s;
        (_, s) \<leftarrow> blockWrite ib s;
        Some (ind, s) }) }"

definition freeInode ::
  "device \<Rightarrow> junk \<Rightarrow> u32 \<Rightarrow> u32 \<Rightarrow> 'a disk_scheme \<Rightarrow> (u32 \<times> 'a disk_scheme) option" where
  "freeInode dev jk device n s = do {
     (_, sb, s) \<leftarrow> readSuperblock dev (j_sb jk) device s;
     (bb, s) \<leftarrow> blockRead dev device (bitmapStart sb) s;
     (if sint (nInodeBlock sb) < sint n
      then do { s \<leftarrow> msg ''[Error] freeInode: invalid inode number'' s; Some (- 1, s) }
      else do {
        s \<leftarrow> poke_buf bb (sint n) 0 s;
        (_, s) \<leftarrow> blockWrite bb s;
        Some (0, s) }) }"

definition allocData ::
  "device \<Rightarrow> junk \<Rightarrow> u32 \<Rightarrow> 'a disk_scheme \<Rightarrow> (u32 \<times> 'a disk_scheme) option" where
  "allocData dev jk device s = do {
     (_, sb, s) \<leftarrow> readSuperblock dev (j_sb jk) device s;
     (db, s) \<leftarrow> blockRead dev device (bitmapStart sb + 1) s;
     addr \<leftarrow> bitmap_scan (buf (blocks s db)) 0 (nat (sint (nDataBlock sb)));
     s \<leftarrow> poke_buf db (sint addr) 1 s;
     (_, s) \<leftarrow> blockWrite db s;
     s \<leftarrow> relCachedBlock (BLoc 2) (upd_blk (BLoc 2) (\<lambda>_. j_stack jk) s);
     Some (dataStart sb + addr, s) }"

definition freeData ::
  "device \<Rightarrow> junk \<Rightarrow> u32 \<Rightarrow> u32 \<Rightarrow> 'a disk_scheme \<Rightarrow> (u32 \<times> 'a disk_scheme) option" where
  "freeData dev jk device addr s = do {
     (_, sb, s) \<leftarrow> readSuperblock dev (j_sb jk) device s;
     (db, s) \<leftarrow> blockRead dev device (bitmapStart sb + 1) s;
     (if nDataBlock sb < addr
      then do { s \<leftarrow> msg ''[Error] freeData: invalid data block number'' s; Some (- 1, s) }
      else do {
        s \<leftarrow> poke_buf db (sint addr) 0 s;
        (_, s) \<leftarrow> blockWrite (BLoc 2) (upd_blk (BLoc 2) (\<lambda>_. j_stack jk) s);
        s \<leftarrow> relCachedBlock db s;
        Some (0, s) }) }"

section \<open>The ring of inodes\<close>

interpretation ilru: links
  "\<lambda>s r. ilru_next (inodes (s :: 'a fsys_scheme) r)" "\<lambda>s r. ilru_prev (inodes s r)"
  "\<lambda>r v. upd_ino r (\<lambda>n. n\<lparr>ilru_next := v\<rparr>)" "\<lambda>r v. upd_ino r (\<lambda>n. n\<lparr>ilru_prev := v\<rparr>)"
  by unfold_locales (simp_all add: upd_ino_def)

lemma upd_ino_inodes: "inodes (upd_ino r f s) q = (if q = r then f (inodes s r) else inodes s q)"
  by (simp add: upd_ino_def)

lemma ilru_links_cong:
  assumes "\<And>r. ilru_next (inodes u r) = ilru_next (inodes s r)" "\<And>r. ilru_prev (inodes u r) = ilru_prev (inodes s r)"
  shows "ilru.linked u xs = ilru.linked s xs" "ilru.ring u h xs = ilru.ring s h xs"
    "ilru.path u h xs z = ilru.path s h xs z"
proof -
  show l: "ilru.linked u xs = ilru.linked s xs" for xs
    using assms by (induction xs rule: induct_list012) simp_all
  then show "ilru.ring u h xs = ilru.ring s h xs" "ilru.path u h xs z = ilru.path s h xs z"
    using assms by (simp_all add: ilru.ring_def ilru.path_def)
qed

definition icache_reset :: "nat \<Rightarrow> 'a fsys_scheme \<Rightarrow> 'a fsys_scheme" where
  "icache_reset i s = upd_ino (IBuf i) (\<lambda>n. n\<lparr>isize := 0\<rparr>)
     (upd_ino (IBuf i) (\<lambda>n. n\<lparr>dinode := (dinode n)\<lparr>nlink := 0\<rparr>\<rparr>)
     (upd_ino (IBuf i) (\<lambda>n. n\<lparr>dinode := (dinode n)\<lparr>itype := I_NOTCACHE\<rparr>\<rparr>) s))"

lemma icache_reset_links:
  "ilru_next (inodes (icache_reset i s) r) = ilru_next (inodes s r)"
  "ilru_prev (inodes (icache_reset i s) r) = ilru_prev (inodes s r)"
  by (simp_all add: icache_reset_def upd_ino_def)

lemma icache_link_push_front: "icache_link i s = ilru.push_front INull INull (IBuf i) (icache_reset i s)"
  unfolding icache_link_def ilru.push_front_def Let_def icache_reset_def by (rule refl)

lemma fold_icache_link:
  assumes "ilru_next (inodes s INull) = INull"
  shows "ilru.path (fold icache_link [0..<n] s) INull (map IBuf (rev [0..<n])) INull"
proof (induction n)
  case (Suc n)
  have "IBuf n \<notin> set (INull # map IBuf (rev [0..<n]))" by auto
  moreover have "ilru.path (icache_reset n (fold icache_link [0..<n] s)) INull (map IBuf (rev [0..<n])) INull"
    using Suc ilru_links_cong(3) [of "icache_reset n (fold icache_link [0..<n] s)", OF icache_reset_links] by simp
  ultimately have "ilru.path (icache_link n (fold icache_link [0..<n] s)) INull
      (IBuf n # map IBuf (rev [0..<n])) INull"
    unfolding icache_link_push_front by (intro ilru.path_push_front) auto
  then show ?case by simp
qed (simp add: ilru.path_def assms)

lemma icache_link_other:
  "itype (dinode (inodes (icache_link i s) (IBuf j))) = (if i = j then I_NOTCACHE else itype (dinode (inodes s (IBuf j))))"
  by (simp add: icache_link_def Let_def upd_ino_inodes)

lemma fold_icache_link_type:
  "i < n \<Longrightarrow> itype (dinode (inodes (fold icache_link [0..<n] s) (IBuf i))) = I_NOTCACHE"
  by (induction n) (auto simp: icache_link_other less_Suc_eq)

lemma fold_icache_unhash:
  "ilru_next (inodes (fold icache_unhash [0..<n] s) r) = ilru_next (inodes s r)"
  "ilru_prev (inodes (fold icache_unhash [0..<n] s) r) = ilru_prev (inodes s r)"
  "dinode (inodes (fold icache_unhash [0..<n] s) r) = dinode (inodes s r)"
  "k < n \<Longrightarrow> ihash_next (inodes (fold icache_unhash [0..<n] s) (IHash k)) = INull"
  by (induction n) (auto simp: icache_unhash_def upd_ino_def Let_def less_Suc_eq)

lemma inodeCacheInit_facts:
  "ilru.ring (inodeCacheInit s) INull (map IBuf (rev [0..<128]))"
  "\<forall>k \<in> {0..<128}. ihash_next (inodes (inodeCacheInit s) (IHash k)) = INull"
  "\<forall>k \<in> {0..<128}. itype (dinode (inodes (inodeCacheInit s) (IBuf k))) = I_NOTCACHE"
proof -
  define s0 where "s0 = upd_ino INull (\<lambda>n. n\<lparr>ilru_next := INull\<rparr>) (upd_ino INull (\<lambda>n. n\<lparr>ilru_prev := INull\<rparr>) s)"
  define s1 where "s1 = fold icache_link [0..<128] s0"
  define s2 where "s2 = upd_ino (IBuf 0) (\<lambda>n. n\<lparr>ilru_next := INull\<rparr>) (upd_ino INull (\<lambda>n. n\<lparr>ilru_prev := IBuf 0\<rparr>) s1)"
  have init: "inodeCacheInit s = fold icache_unhash [0..<128] s2"
    unfolding inodeCacheInit_def s0_def s1_def s2_def Let_def ..
  have path: "ilru.path s1 INull (map IBuf (rev [0..<128])) INull"
    unfolding s1_def by (rule fold_icache_link) (simp add: s0_def upd_ino_inodes)
  have "last (map IBuf (rev [0..<128])) = IBuf 0" "map IBuf (rev [0..<128]) \<noteq> []"
    by (simp_all add: last_map last_rev del: upt_Suc)
  with ilru.path_close [OF path] have "ilru.ring s2 INull (map IBuf (rev [0..<128]))"
    unfolding s2_def by simp
  then show "ilru.ring (inodeCacheInit s) INull (map IBuf (rev [0..<128]))"
    unfolding init using ilru_links_cong(2) [of "fold icache_unhash [0..<128] s2" s2] fold_icache_unhash(1,2)
    by blast
  show "\<forall>k \<in> {0..<128}. ihash_next (inodes (inodeCacheInit s) (IHash k)) = INull"
    unfolding init using fold_icache_unhash(4) by auto
  show "\<forall>k \<in> {0..<128}. itype (dinode (inodes (inodeCacheInit s) (IBuf k))) = I_NOTCACHE"
    unfolding init fold_icache_unhash(3) s2_def
    using fold_icache_link_type [of _ 128 s0] by (auto simp: upd_ino_inodes s1_def)
qed

text \<open>After \<^verbatim>\<open>inodeCacheInit\<close> the 128 inode buffers form the LRU ring from the last to the first,
  none of them holding an inode, and every chain of the hash table is empty.\<close>

theorem inodeCacheInit_ring:
  "ilru.ring (inodeCacheInit s) INull (map IBuf (rev [0..<128])) \<and>
   (\<forall>k \<in> {0..<128}. ihash_next (inodes (inodeCacheInit s) (IHash k)) = INull \<and>
      itype (dinode (inodes (inodeCacheInit s) (IBuf k))) = I_NOTCACHE)"
  using inodeCacheInit_facts [of s] by blast

section \<open>Inode lookups\<close>

definition icache_ok :: "inode_ref list \<Rightarrow> 'a fsys_scheme \<Rightarrow> bool" where
  "icache_ok xs s \<longleftrightarrow> ilru.ring s INull xs \<and> (\<forall>x \<in> set xs. \<exists>i. x = IBuf i)"

lemma itake:
  assumes "icache_ok (x # xs) s" "icache_take key s = (y, s')"
  shows "y = x" "icache_ok xs s'" "ino (inodes s' r) = ino (inodes s r)"
    "ihash_next (inodes s' x) = ihash_next (inodes s (IHash key))"
    "ihash_next (inodes s' (IHash k)) = (if k = key then x else ihash_next (inodes s (IHash k)))"
    "r \<noteq> x \<Longrightarrow> r \<notin> range IHash \<Longrightarrow> ihash_next (inodes s' r) = ihash_next (inodes s r)"
    "itype (dinode (inodes s' x)) = I_NOTCACHE" "blocks s' = blocks s" "iotrace s' = iotrace s"
proof -
  from assms(1) have r: "ilru.ring s INull (x # xs)" and bufs: "\<forall>z \<in> set (x # xs). \<exists>i. z = IBuf i"
    by (simp_all add: icache_ok_def)
  note tf = ilru.ring_take_first [OF r]
  define n where "n = hd (xs @ [INull])"
  have m: "ilru_next (inodes s x) = n"
    using ilru.ring_member [of s INull "[]" x xs] r by (simp add: n_def)
  have dist: "distinct (INull # x # xs)" using r by (simp add: ilru.ring_def)
  have nc: "n = INull \<or> n \<in> set xs" by (cases xs) (simp_all add: n_def)
  have x: "x \<noteq> INull" "INull \<noteq> x" "x \<noteq> IHash j" "IHash j \<noteq> x" "n \<noteq> x" "x \<noteq> n" for j
    using dist bufs nc by auto
  have nh: "n \<noteq> IHash j" "IHash j \<noteq> n" for j
    using bufs nc by auto
  define u where "u = upd_ino n (\<lambda>b. b\<lparr>ilru_prev := INull\<rparr>) (upd_ino INull (\<lambda>b. b\<lparr>ilru_next := n\<rparr>) s)"
  have ct: "icache_take key s = (x, upd_ino (IHash key) (\<lambda>c. c\<lparr>ihash_next := x\<rparr>)
      (upd_ino x (\<lambda>c. c\<lparr>ihash_prev := IHash key\<rparr>)
      (upd_ino x (\<lambda>c. c\<lparr>ihash_next := ihash_next (inodes s (IHash key))\<rparr>)
      (upd_ino x (\<lambda>c. c\<lparr>dinode := (dinode c)\<lparr>itype := I_NOTCACHE\<rparr>\<rparr>) u))))"
    using tf(1) m x nh by (simp add: icache_take_def Let_def u_def upd_ino_inodes)
  note ys = prod.inject [THEN iffD1, OF ct [unfolded assms(2)]]
  note y = conjunct1 [OF ys] and s' = conjunct2 [OF ys]
  show "y = x" by (rule y)
  have "ilru.ring u INull xs" using tf(2) m by (simp add: u_def)
  then have "ilru.ring s' INull xs"
    using ilru_links_cong(2) [of s' u INull xs] by (simp add: s' upd_ino_inodes)
  then show "icache_ok xs s'" using assms(1) by (simp add: icache_ok_def)
  show "ino (inodes s' r) = ino (inodes s r)" "ihash_next (inodes s' x) = ihash_next (inodes s (IHash key))"
    "ihash_next (inodes s' (IHash k)) = (if k = key then x else ihash_next (inodes s (IHash k)))"
    "r \<noteq> x \<Longrightarrow> r \<notin> range IHash \<Longrightarrow> ihash_next (inodes s' r) = ihash_next (inodes s r)"
    "itype (dinode (inodes s' x)) = I_NOTCACHE"
    using x nh by (simp_all add: s' u_def upd_ino_inodes image_iff)
  show "blocks s' = blocks s" "iotrace s' = iotrace s" by (simp_all add: s' u_def upd_ino_def)
qed

lemma iget_miss:
  assumes "icache_ok (x # xs) s" "IHASH n = Some key" "icache_find key n s = Some None"
  shows "getCachedInode n d s = Some (icache_take key s)"
proof -
  have "ilru_next (inodes s INull) = x" "x \<noteq> INull"
    using assms(1) ilru.ring_nxt_head [of s INull "x # xs"] by (auto simp: icache_ok_def)
  with assms(2,3) show ?thesis by (simp add: getCachedInode_def)
qed

lemma ichain_find_now: "ind = INull \<or> ino (inodes s ind) = n \<Longrightarrow> ichain_find n ind s = Some ind"
  by (subst ichain_find.simps) auto


text \<open>Looking an inode up for the first time takes the front of the ring but does not write the
  inode number: a second lookup of the same number, before the caller has set it, does not find the
  buffer and takes another one. After the number is set, the lookup finds it and counts the access.\<close>

theorem inode_lookup_needs_number:
  assumes "icache_ok (x # y # xs) s" "IHASH n = Some k" "ihash_next (inodes s (IHash k)) = INull"
    "ino (inodes s x) \<noteq> n" "ino (inodes s INull) \<noteq> n"
  shows "\<exists>s1. getCachedInode n d s = Some (x, s1) \<and> icache_ok (y # xs) s1 \<and>
    (\<exists>s2. getCachedInode n d s1 = Some (y, s2)) \<and>
    (\<exists>s3. getCachedInode n d (upd_ino x (\<lambda>i. i\<lparr>ino := n\<rparr>) s1) = Some (x, s3) \<and>
       access (inodes s3 x) = access (inodes s1 x) + 1)"
proof -
  obtain x' s1 where t1: "icache_take k s = (x', s1)" by fastforce
  note b1 = itake [OF assms(1) t1]
  have x: "x \<noteq> INull" "x \<noteq> IHash k" using assms(1) by (auto simp: icache_ok_def)
  have "icache_find k n s = Some None" using assms(3) by (simp add: icache_find_def)
  from iget_miss [OF assms(1,2) this] t1 b1(1) have f1: "getCachedInode n d s = Some (x, s1)" by simp
  have h1: "ihash_next (inodes s1 (IHash k)) = x" "ihash_next (inodes s1 x) = INull"
    using b1(4,5) assms(3) by simp_all
  have "ichain_find n x s1 = Some INull"
    using x h1(2) assms(4) b1(3) by (subst ichain_find.simps) (simp add: ichain_find_now)
  then have "icache_find k n s1 = Some None"
    using h1(1) x assms(5) b1(3) by (simp add: icache_find_def)
  from iget_miss [OF b1(2) assms(2) this]
  have f2: "\<exists>s2. getCachedInode n d s1 = Some (y, s2)"
    using itake(1) [OF b1(2)] by (metis prod.collapse)
  let ?u = "upd_ino x (\<lambda>i. i\<lparr>ino := n\<rparr>) s1"
  have "ihash_next (inodes ?u (IHash k)) = x" "ino (inodes ?u x) = n"
    using h1(1) x by (simp_all add: upd_ino_inodes)
  then have "icache_find k n ?u = Some (Some x)"
    using x by (simp add: icache_find_def ichain_find_now)
  then have "\<exists>s3. getCachedInode n d ?u = Some (x, s3) \<and> access (inodes s3 x) = access (inodes s1 x) + 1"
    using assms(2) by (simp add: getCachedInode_def Let_def upd_ino_inodes)
  with f1 b1(2) f2 show ?thesis by blast
qed

definition demo_inode :: inode where
  "demo_inode = \<lparr>isize = 3, ino = 77, idevice = 0, access = 5, dinode = zero_dinode, ilru_prev = INull,
     ilru_next = INull, ihash_prev = INull, ihash_next = INull\<rparr>"

definition demo_fs :: fsys where
  "demo_fs = inodeCacheInit (disk.extend init_cache (fsys.fields (\<lambda>_. demo_inode)))"

lemma demo_fs_inodes:
  "icache_ok (IBuf 127 # IBuf 126 # map IBuf (rev [0..<126])) demo_fs"
  "k < 128 \<Longrightarrow> ihash_next (inodes demo_fs (IHash k)) = INull"
proof -
  have "[0..<126 + 2] = [0..<126] @ [126..<126 + 2]" by (rule upt_add_eq_append) simp
  then have e: "rev [0..<128] = 127 # 126 # rev [0..<126]" by (simp add: upt_rec_numeral)
  have "icache_ok (map IBuf (rev [0..<128])) demo_fs"
    using inodeCacheInit_facts(1) by (auto simp: icache_ok_def demo_fs_def)
  then show "icache_ok (IBuf 127 # IBuf 126 # map IBuf (rev [0..<126])) demo_fs"
    unfolding e by (simp only: list.map)
  show "k < 128 \<Longrightarrow> ihash_next (inodes demo_fs (IHash k)) = INull"
    using inodeCacheInit_facts(2) [of "disk.extend init_cache (fsys.fields (\<lambda>_. demo_inode))"]
    by (simp add: demo_fs_def Ball_def)
qed

lemma icache_link_ino: "ino (inodes (icache_link i s) r) = ino (inodes s r)"
  by (simp add: icache_link_def Let_def upd_ino_inodes)

lemma icache_keeps_ino: "ino (inodes (fold icache_link [0..<n] s) r) = ino (inodes s r)"
  by (induction n) (simp_all add: icache_link_ino)

lemma demo_fs_ino: "r \<notin> range IHash \<Longrightarrow> ino (inodes demo_fs r) = 77"
proof -
  assume r: "r \<notin> range IHash"
  have u: "ino (inodes (fold icache_unhash [0..<n] s) r) = ino (inodes s r)" for n and s :: fsys
    using r by (induction n) (auto simp: icache_unhash_def Let_def upd_ino_inodes)
  show ?thesis
    unfolding demo_fs_def inodeCacheInit_def Let_def u
    by (simp add: upd_ino_inodes icache_keeps_ino disk.defs fsys.defs demo_inode_def)
qed

lemma IHASH_4: "IHASH 4 = Some 4"
  by (simp add: IHASH_def signed_modulo_int_def)

theorem inode_lookup_needs_number_witness:
  "\<exists>s1. getCachedInode 4 0 demo_fs = Some (IBuf 127, s1) \<and>
    (\<exists>s2. getCachedInode 4 0 s1 = Some (IBuf 126, s2)) \<and>
    (\<exists>s3. getCachedInode 4 0 (upd_ino (IBuf 127) (\<lambda>i. i\<lparr>ino := 4\<rparr>) s1) = Some (IBuf 127, s3))"
proof -
  have "ihash_next (inodes demo_fs (IHash 4)) = INull" "ino (inodes demo_fs (IBuf 127)) \<noteq> 4"
    "ino (inodes demo_fs INull) \<noteq> 4"
    by (simp_all add: demo_fs_inodes(2) demo_fs_ino image_iff)
  from inode_lookup_needs_number [OF demo_fs_inodes(1) IHASH_4 this, of 0] show ?thesis by blast
qed

section \<open>Allocation\<close>

lemma bitmap_scan_first:
  assumes "bitmap_scan bs i n = Some a" "i + n \<le> 2147483647"
  shows "(\<exists>j. i \<le> j \<and> j < i + n \<and> j < length bs \<and> bs ! j = 0 \<and> (\<forall>m. i \<le> m \<and> m < j \<longrightarrow> bs ! m \<noteq> 0) \<and> a = of_nat j) \<or>
    (a = - 1 \<and> (\<forall>m. i \<le> m \<and> m < i + n \<longrightarrow> m < length bs \<and> bs ! m \<noteq> 0))"
  using assms
proof (induction bs i n rule: bitmap_scan.induct)
  case (2 bs i n)
  show ?case
  proof (cases "bs ! i = 0")
    case True
    with 2 show ?thesis by (intro disjI1 exI [of _ i]) (auto split: if_splits)
  next
    case False
    with 2 have "i < length bs" "bitmap_scan bs (Suc i) n = Some a" by (auto split: if_splits)
    with 2 False have "(\<exists>j. Suc i \<le> j \<and> j < Suc i + n \<and> j < length bs \<and> bs ! j = 0 \<and>
        (\<forall>m. Suc i \<le> m \<and> m < j \<longrightarrow> bs ! m \<noteq> 0) \<and> a = of_nat j) \<or>
      (a = - 1 \<and> (\<forall>m. Suc i \<le> m \<and> m < Suc i + n \<longrightarrow> m < length bs \<and> bs ! m \<noteq> 0))" by auto
    then show ?thesis
    proof (elim disjE exE conjE)
      fix j assume j: "Suc i \<le> j" "j < Suc i + n" "j < length bs" "bs ! j = 0"
        "\<forall>m. Suc i \<le> m \<and> m < j \<longrightarrow> bs ! m \<noteq> 0" "a = of_nat j"
      have "bs ! m \<noteq> 0" if "i \<le> m" "m < j" for m
        using that j(5) False by (cases "m = i") auto
      with j show ?thesis by (intro disjI1 exI [of _ j]) auto
    next
      assume *: "a = - 1" "\<forall>m. Suc i \<le> m \<and> m < Suc i + n \<longrightarrow> m < length bs \<and> bs ! m \<noteq> 0"
      have "m < length bs \<and> bs ! m \<noteq> 0" if "i \<le> m" "m < i + Suc n" for m
        using that *(2) False \<open>i < length bs\<close> by (cases "m = i") auto
      with * show ?thesis by auto
    qed
  qed
qed auto

text \<open>The bitmap scan returns the first free entry, or -1 when all of them are taken.\<close>

theorem bitmap_scan_finds_first_free:
  assumes "bitmap_scan bs 0 n = Some a" "n \<le> 512"
  shows "(\<exists>j < n. a = of_nat j \<and> bs ! j = 0 \<and> (\<forall>m < j. bs ! m \<noteq> 0)) \<or>
    (a = - 1 \<and> (\<forall>m < n. bs ! m \<noteq> 0))"
  using bitmap_scan_first [OF assms(1)] assms(2) by auto

theorem bitmap_scan_finds_first_free_witness:
  "bitmap_scan ([1, 1, 0, 1, 0]) 0 5 = Some 2 \<and> (\<exists>j < 5. (2 :: u32) = of_nat j \<and> [1, 1, 0, 1, 0 :: u8] ! j = 0)"
proof -
  have *: "bitmap_scan [1, 1, 0, 1, 0] 0 5 = Some 2" by (simp add: eval_nat_numeral)
  from bitmap_scan_finds_first_free [OF this] have "(\<exists>j < 5. (2 :: u32) = of_nat j \<and> [1, 1, 0, 1, 0 :: u8] ! j = 0)"
    by auto
  with * show ?thesis by simp
qed

text \<open>Messages change the console only.\<close>

lemma putc_disk [simp]:
  "blocks (putc c s) = blocks (s :: 'a disk_scheme)"
  by (simp add: putc_def scroll_def clear_def Let_def)

lemma fold_putc_blocks: "blocks (fold putc t s) = blocks (s :: 'a disk_scheme)"
  by (induction t arbitrary: s) simp_all

lemma msg_blocks: "msg m s = Some s' \<Longrightarrow> blocks s' = blocks (s :: 'a disk_scheme)"
  by (cases "lock (cslLock s) = 0")
    (auto simp: msg_def printf_def lock_console_free lock_console_held printf_loop_text bind_eq_Some_conv
      unlock_console_def spinlockUnlock_def Let_def cli_def sti_def fold_putc_blocks)

lemma cache_hit_lock: "cslLock (cache_hit x s) = cslLock s"
  by (simp add: cache_hit_def Let_def upd_blk_def)

text \<open>Reading the superblock when it is cached.\<close>

lemma readSuperblock_front:
  assumes "at_front x d 1 s"
  shows "readSuperblock dev sb d s = Some (0, sb_of_bytes (buf (blocks s x)), cache_hit x s)"
proof -
  have "x \<noteq> BNull" using assms by (simp add: at_front_def)
  then show ?thesis using read_front [OF assms] by (simp add: readSuperblock_def cache_hit_blocks(4))
qed

lemma msg_free_data:
  "lock (cslLock s) = 0 \<Longrightarrow> \<exists>s'. msg ''[Error] freeData: invalid data block number'' s = Some s'"
  by (simp add: msg_def printf_def lock_console_free printf_loop_text cstr_def)


definition laid_out_disk :: disk where
  "laid_out_disk = the (diskLayoutInit demo_sb init_cache)"

lemma init_cache_chains:
  "hash_next (blocks init_cache (BHash 1)) = BNull" "hash_next (blocks init_cache (BHash 20)) = BNull"
  "hash_next (blocks init_cache (BHash 21)) = BNull"
  by (simp_all add: init_cache_facts(2))

lemma laid_out_disk_facts:
  "laid_out (sb_size demo_sb) (Buf 127) (Buf 126) (Buf 125) (map Buf (rev [0..<125])) laid_out_disk"
  "hash_next (blocks laid_out_disk (BHash 77)) = BNull"
proof -
  obtain s' where "diskLayoutInit demo_sb init_cache = Some s'"
    "laid_out (sb_size demo_sb) (Buf 127) (Buf 126) (Buf 125) (map Buf (rev [0..<125])) s'"
    "\<And>k. k \<notin> {1, 20, 21} \<Longrightarrow> hash_next (blocks s' (BHash k)) = hash_next (blocks init_cache (BHash k))"
    using diskLayoutInit_lays_out [OF init_cache_facts(1) init_cache_chains, of demo_sb] by blast
  then show "laid_out (sb_size demo_sb) (Buf 127) (Buf 126) (Buf 125) (map Buf (rev [0..<125])) laid_out_disk"
    "hash_next (blocks laid_out_disk (BHash 77)) = BNull"
    using init_cache_facts(2) [of 77] by (simp_all add: laid_out_disk_def)
qed

definition demo_junk :: junk where
  "demo_junk = \<lparr>j_sb = demo_sb, j_stack = demo_block\<lparr>bdevice := 0, bblock := 77\<rparr>\<rparr>"


lemma cache_take_fields:
  "fst (cache_take k d b s) = lru_next (blocks s BNull)"
  "bdevice (blocks (snd (cache_take k d b s)) r) = (if r = lru_next (blocks s BNull) then d else bdevice (blocks s r))"
  "bblock (blocks (snd (cache_take k d b s)) r) = (if r = lru_next (blocks s BNull) then b else bblock (blocks s r))"
  "buf (blocks (snd (cache_take k d b s)) r) = buf (blocks s r)"
  by (simp_all add: cache_take_def Let_def upd_blk_blocks)

text \<open>Writing a block that is not cached, from the stack and with the ring as it may be: the first free buffer takes it.\<close>

lemma write_stack:
  assumes "BLKHASH (bblock B) = Some k" "hash_next (blocks v (BHash k)) = BNull" "length (buf B) = 512"
    and "lru_next (blocks v BNull) = z" "z \<noteq> BNull"
  obtains s' where "blockWrite (BLoc 2) (upd_blk (BLoc 2) (\<lambda>_. B) v) = Some (0, s')"
    "bdevice (blocks s' z) = bdevice B" "bblock (blocks s' z) = bblock B" "buf (blocks s' z) = buf B"
    "\<forall>q. q \<noteq> z \<longrightarrow> q \<noteq> BLoc 2 \<longrightarrow> buf (blocks s' q) = buf (blocks v q)"
proof -
  define w where "w = upd_blk (BLoc 2) (\<lambda>_. B) v"
  have lw: "lru_next (blocks w BNull) = z" "hash_next (blocks w (BHash k)) = BNull"
    using assms(2,4) by (simp_all add: w_def upd_blk_blocks)
  then have get: "getCachedBlock (bdevice B) (bblock B) w = Some (cache_take k (bdevice B) (bblock B) w)"
    using assms(1,5) by (simp add: getCachedBlock_def cache_find_empty)
  obtain t where t: "cache_take k (bdevice B) (bblock B) w = (z, t)"
    using cache_take_fields(1) lw(1) by (metis prod.collapse)
  note tf = cache_take_fields(2-4) [of k "bdevice B" "bblock B" w, unfolded t lw(1) snd_conv]
  define t' where "t' = upd_blk z (\<lambda>b. b\<lparr>buf := buf (blocks t (BLoc 2))\<rparr>) t"
  have bt: "buf (blocks t (BLoc 2)) = buf B" using tf(3) by (simp add: w_def upd_blk_blocks)
  have "length (buf (blocks t' z)) = 512" by (simp add: t'_def upd_blk_blocks bt assms(3))
  note hw = hardWrite_blocks [OF this]
  obtain s' where s': "hardWrite z t' = (0, s')" using hw(1) by (metis prod.collapse)
  have bl: "blocks s' = (blocks t')(z := (blocks t' z)\<lparr>flags := B_VALID\<rparr>)" using hw(2) s' by simp
  show ?thesis
  proof (rule that [of s'])
    show "blockWrite (BLoc 2) (upd_blk (BLoc 2) (\<lambda>_. B) v) = Some (0, s')"
      using get t s' by (simp add: blockWrite_def w_def upd_blk_blocks t'_def Let_def)
    show "bdevice (blocks s' z) = bdevice B" "bblock (blocks s' z) = bblock B" "buf (blocks s' z) = buf B"
      using tf(1,2) [of z] bt by (simp_all add: bl t'_def upd_blk_blocks)
    show "\<forall>q. q \<noteq> z \<longrightarrow> q \<noteq> BLoc 2 \<longrightarrow> buf (blocks s' q) = buf (blocks v q)"
      using tf(3) by (simp add: bl t'_def w_def upd_blk_blocks)
  qed
qed

text \<open>The first \<^verbatim>\<open>allocInode\<close> after \<^verbatim>\<open>diskLayoutInit\<close> marks inode 0 in the cached bitmap, but
  \<^verbatim>\<open>blockWrite(&bb)\<close> writes another block, whatever the stack holds; and the lookups of the
  superblock and of the inode bitmap have brought the buffer of the data bitmap back to the front of
  the ring, so that this other block is written over it.\<close>

theorem allocInode_overwrites_data_bitmap:
  assumes "laid_out n x y z xs s" "BLKHASH (bblock (j_stack jk)) = Some k"
    and "hash_next (blocks s (BHash k)) = BNull" "length (buf (j_stack jk)) = 512"
  shows "\<exists>sb s'. allocInode_mark dev jk 0 s = Some (0, sb, s') \<and>
    buf (blocks s' y) = (replicate 512 0)[0 := 1] \<and>
    bdevice (blocks s' z) = bdevice (j_stack jk) \<and> bblock (blocks s' z) = bblock (j_stack jk) \<and>
    buf (blocks s' z) = buf (j_stack jk)"
proof -
  note d = laid_outD [OF assms(1)]
  have ne: "x \<noteq> y" "x \<noteq> z" "y \<noteq> z" "x \<noteq> BNull" "y \<noteq> BNull" "z \<noteq> BNull"
    using d(2,4,6) by (auto simp: at_front_def)
  define u where "u = cache_hit y (cache_hit x s)"
  have r1: "readSuperblock dev (j_sb jk) 0 s = Some (0, layout n, cache_hit x s)"
    using readSuperblock_front [OF d(2)] d(3) by simp
  have r2: "blockRead dev 0 (bitmapStart (layout n)) (cache_hit x s) = Some (y, u)"
    using read_front [OF at_front_hit [OF d(4)]] by (simp add: layout_fields u_def)
  have bufy: "buf (blocks u y) = replicate 512 0" using d(5) by (simp add: u_def cache_hit_blocks)
  have sc: "bitmap_scan (buf (blocks u y)) 0 (nat (sint (nInodeBlock (layout n)))) = Some 0"
    unfolding bufy by (simp add: layout_fields eval_nat_numeral)
  define v where "v = upd_blk y (\<lambda>b. b\<lparr>buf := (buf b)[0 := 1]\<rparr>) u"
  have pk: "poke_buf y (sint (0 :: u32)) 1 u = Some v"
    unfolding poke_buf_def v_def bufy by simp
  have l1: "lru_next (blocks (cache_hit x s) BNull) = y" "lru_prev (blocks (cache_hit x s) y) = BNull"
    "lru_next (blocks (cache_hit x s) y) = z"
    unfolding cache_hit_unlink using ne d(8-11)
    by (simp_all add: lru.unlink_stale [of _ x BNull y] upd_blk_blocks)
  have "lru_next (blocks u BNull) = z"
    unfolding u_def using ne l1
    by (subst cache_hit_unlink, intro lru.unlink_stale(1)) (simp_all add: upd_blk_blocks)
  then have lw: "lru_next (blocks v BNull) = z" using ne by (simp add: v_def upd_blk_blocks)
  have hv: "hash_next (blocks v (BHash k)) = BNull"
    using assms(3) d(14) by (auto simp: v_def u_def upd_blk_blocks cache_hit_blocks)
  obtain s' where s': "blockWrite (BLoc 2) (upd_blk (BLoc 2) (\<lambda>_. j_stack jk) v) = Some (0, s')"
    "bdevice (blocks s' z) = bdevice (j_stack jk)" "bblock (blocks s' z) = bblock (j_stack jk)"
    "buf (blocks s' z) = buf (j_stack jk)" "\<forall>q. q \<noteq> z \<longrightarrow> q \<noteq> BLoc 2 \<longrightarrow> buf (blocks s' q) = buf (blocks v q)"
    by (rule write_stack [OF assms(2) hv assms(4) lw ne(6)])
  then have "allocInode_mark dev jk 0 s = Some (0, layout n, s')"
    using r1 r2 sc pk by (simp add: allocInode_mark_def)
  moreover have "buf (blocks s' y) = (replicate 512 0)[0 := 1]"
    using ne spec [OF s'(5), of y] d(14) by (auto simp: v_def upd_blk_blocks bufy)
  ultimately show ?thesis using s'(2-4) by blast
qed

theorem allocInode_overwrites_data_bitmap_witness:
  "\<exists>sb s'. allocInode_mark busy_drive demo_junk 0 laid_out_disk = Some (0, sb, s') \<and>
    buf (blocks s' (Buf 126)) = (replicate 512 0)[0 := 1] \<and>
    bblock (blocks s' (Buf 125)) = 77 \<and> buf (blocks s' (Buf 125)) = replicate 512 7"
proof -
  have k: "BLKHASH (bblock (j_stack demo_junk)) = Some 77" by (simp add: demo_junk_def BLKHASH_nonneg)
  have "length (buf (j_stack demo_junk)) = 512" by (simp add: demo_junk_def demo_block_def)
  from allocInode_overwrites_data_bitmap [OF laid_out_disk_facts(1) k laid_out_disk_facts(2) this, of busy_drive]
  show ?thesis by (auto simp: demo_junk_def demo_block_def)
qed

end
