(* ===== verification/Directory.thy ===== *)
theory Directory
  imports Inode Util
begin

text \<open>
  Directories of \<^verbatim>\<open>src/fs.c\<close>: paths, the walk through directory entries, and the operations
  \<^verbatim>\<open>creat\<close>, \<^verbatim>\<open>ls\<close>, \<^verbatim>\<open>mk\<close>, \<^verbatim>\<open>cd\<close> and \<^verbatim>\<open>rm\<close>.

  A directory entry is the 104 bytes of \<^verbatim>\<open>struct dentry\<close>: the inode number and a name of 100 bytes.
  The loops step through a block of 512 bytes in steps of 104, so that the fifth entry ends 8 bytes
  behind the buffer, in the pointers that follow it in \<^verbatim>\<open>struct block\<close>. These bytes are part of the
  model: \<open>e_addr\<close> gives the addresses of the blocks. A pointer that is overwritten by anything
  but the null pointer or its own address leads nowhere, which is \<open>None\<close>, as is every access outside
  an object and every wait without end.
\<close>

section \<open>The state of the file system\<close>

record file_t =
  ftype :: u32
  foff :: u32
  fflag :: u16
  find :: inode_ref

record files = fsys +
  cwd_name :: "u8 list"
  cwd :: inode_ref
  root :: inode_ref
  of_cnt :: u32
  max_fd :: u32
  of_bitmap :: "u32 list"
  fds :: "file_t list"

text \<open>
  What the code depends on and does not set: the device, the addresses of blocks, and what a
  stack frame holds at a point of the run.
\<close>

record frame =
  f_junk :: junk
  f_terms :: "u8 list"
  f_dentry :: "u8 list"
  f_pname :: "u8 list"
  f_buffer :: "u8 list"

record env =
  e_dev :: device
  e_addr :: "block_ref \<Rightarrow> u32"
  e_frame :: "ioev list \<Rightarrow> frame"

abbreviation (input) junk_at :: "env \<Rightarrow> 'a hw_scheme \<Rightarrow> junk" where
  "junk_at e s \<equiv> f_junk (e_frame e (iotrace s))"

abbreviation (input) NAMELEN :: nat where "NAMELEN \<equiv> 100"
abbreviation (input) sizeof_dentry :: nat where "sizeof_dentry \<equiv> 104"
abbreviation (input) NOPENFILE :: nat where "NOPENFILE \<equiv> 128"
abbreviation (input) SLASH :: u8 where "SLASH \<equiv> 0x2f"
abbreviation (input) I_FILE :: u32 where "I_FILE \<equiv> 1"
abbreviation (input) I_DIR :: u32 where "I_DIR \<equiv> 5"

section \<open>The bytes of a block\<close>

text \<open>The buffer of a block and the four pointers behind it, in memory order.\<close>

definition links_of :: "block \<Rightarrow> block_ref list" where
  "links_of b = [lru_prev b, lru_next b, hash_prev b, hash_next b]"

definition blk_mem :: "(block_ref \<Rightarrow> u32) \<Rightarrow> block \<Rightarrow> u8 list" where
  "blk_mem addr b = buf b @ concat (map (bytes_of \<circ> addr) (links_of b))"

definition peek_blk :: "(block_ref \<Rightarrow> u32) \<Rightarrow> block \<Rightarrow> nat \<Rightarrow> nat \<Rightarrow> u8 list option" where
  "peek_blk addr b off n =
     (if off + n \<le> length (blk_mem addr b) then Some (take n (drop off (blk_mem addr b))) else None)"

definition to_ref :: "(block_ref \<Rightarrow> u32) \<Rightarrow> block_ref \<Rightarrow> u32 \<Rightarrow> block_ref option" where
  "to_ref addr old w = (if w = addr old then Some old else if w = 0 then Some BNull else None)"

definition set_links :: "(block_ref \<Rightarrow> u32) \<Rightarrow> u8 list \<Rightarrow> block \<Rightarrow> block option" where
  "set_links addr bs b = do {
     p1 \<leftarrow> to_ref addr (lru_prev b) (get32 bs 0);
     p2 \<leftarrow> to_ref addr (lru_next b) (get32 bs 4);
     p3 \<leftarrow> to_ref addr (hash_prev b) (get32 bs 8);
     p4 \<leftarrow> to_ref addr (hash_next b) (get32 bs 12);
     Some (b\<lparr>lru_prev := p1, lru_next := p2, hash_prev := p3, hash_next := p4\<rparr>) }"

definition poke_blk :: "(block_ref \<Rightarrow> u32) \<Rightarrow> block \<Rightarrow> nat \<Rightarrow> u8 list \<Rightarrow> block option" where
  "poke_blk addr b off bs =
     (let m = blk_mem addr b; n = length (buf b); m' = blit m off bs
      in if off + length bs \<le> n then Some (b\<lparr>buf := blit (buf b) off bs\<rparr>)
         else if off + length bs \<le> length m then set_links addr (drop n m') (b\<lparr>buf := take n m'\<rparr>)
         else None)"

definition peek :: "env \<Rightarrow> block_ref \<Rightarrow> nat \<Rightarrow> nat \<Rightarrow> 'a disk_scheme \<Rightarrow> u8 list option" where
  "peek e db off n s = peek_blk (e_addr e) (blocks s db) off n"

definition poke :: "env \<Rightarrow> block_ref \<Rightarrow> nat \<Rightarrow> u8 list \<Rightarrow> 'a disk_scheme \<Rightarrow> 'a disk_scheme option" where
  "poke e db off bs s = map_option (\<lambda>b. upd_blk db (\<lambda>_. b) s) (poke_blk (e_addr e) (blocks s db) off bs)"

text \<open>An entry of \<^verbatim>\<open>dinode.block\<close>; an index outside the array is \<open>None\<close>.\<close>

definition dblock_at :: "inode_ref \<Rightarrow> nat \<Rightarrow> 'a fsys_scheme \<Rightarrow> u32 option" where
  "dblock_at ind i s =
     (let ds = dblock (dinode (inodes s ind)) in if i < length ds then Some (ds ! i) else None)"

definition set_dblock :: "inode_ref \<Rightarrow> nat \<Rightarrow> u32 \<Rightarrow> 'a fsys_scheme \<Rightarrow> 'a fsys_scheme option" where
  "set_dblock ind i v s =
     (if i < length (dblock (dinode (inodes s ind)))
      then Some (upd_ino ind (\<lambda>n. n\<lparr>dinode := (dinode n)\<lparr>dblock := (dblock (dinode n))[i := v]\<rparr>\<rparr>) s)
      else None)"

abbreviation (input) set_itype :: "inode_ref \<Rightarrow> u32 \<Rightarrow> 'a fsys_scheme \<Rightarrow> 'a fsys_scheme" where
  "set_itype ind t \<equiv> upd_ino ind (\<lambda>n. n\<lparr>dinode := (dinode n)\<lparr>itype := t\<rparr>\<rparr>)"

section \<open>Paths\<close>

text \<open>The result is the offset of the name in the path, and the path with its terminator set.\<close>

fun next_slash :: "u8 list \<Rightarrow> nat \<Rightarrow> nat option" where
  "next_slash [] i = None"
| "next_slash (x # p) i = (if x \<noteq> 0 \<and> x \<noteq> SLASH then next_slash p (Suc i) else Some i)"

definition getNextDir :: "u8 list \<Rightarrow> (nat \<times> u8 list) option" where
  "getNextDir path = do {
     let q = (if path ! 0 = SLASH then 1 else 0);
     p \<leftarrow> next_slash (drop q path) q;
     Some (q, path[p := 0]) }"

text \<open>The result is the offset \<^verbatim>\<open>p2\<close> in the path, and \<^verbatim>\<open>pname\<close>, whose first byte is written.\<close>

fun getFileName_loop :: "u8 list \<Rightarrow> nat \<Rightarrow> nat \<Rightarrow> u8 list \<Rightarrow> (nat \<times> u8 list) option" where
  "getFileName_loop [] p1 p2 pname = None"
| "getFileName_loop (x # p) p1 p2 pname =
     (if x = 0 then Some (p2, pname[0 := x])
      else getFileName_loop p (Suc p1) (if x = SLASH then p1 else p2) (pname[0 := x]))"

definition getFileName :: "u8 list \<Rightarrow> u8 list \<Rightarrow> (nat \<times> u8 list) option" where
  "getFileName path pname = getFileName_loop path 0 0 pname"

section \<open>The walk along a path\<close>

text \<open>Entering the inode of a directory entry: the inode is read from the disk when its type is 0.\<close>

definition load_dinode :: "env \<Rightarrow> u32 \<Rightarrow> inode_ref \<Rightarrow> 'a fsys_scheme \<Rightarrow> 'a fsys_scheme option" where
  "load_dinode e n ind s =
     (if itype (dinode (inodes s ind)) = I_NOTCACHE
      then do {
        (_, sb, s) \<leftarrow> readSuperblock (e_dev e) (j_sb (junk_at e s)) (idevice (inodes s ind)) s;
        (ib, s) \<leftarrow> blockRead (e_dev e) (idevice (inodes s ind)) (n div of_nat IPB + inodeStart sb) s;
        let off = unat (n mod of_nat IPB) * sizeof_diskInode;
        bs \<leftarrow> peek e ib off sizeof_diskInode s;
        Some (upd_ino ind (\<lambda>i. i\<lparr>dinode := di_of_bytes bs\<rparr>) s) }
      else Some s)"

definition enter :: "env \<Rightarrow> u8 list \<Rightarrow> inode_ref \<Rightarrow> 'a fsys_scheme \<Rightarrow> (inode_ref \<times> 'a fsys_scheme) option" where
  "enter e de ind s = do {
     (ind, s) \<leftarrow> getCachedInode (get32 de 0) (idevice (inodes s ind)) s;
     s \<leftarrow> load_dinode e (get32 de 0) ind s;
     Some (ind, s) }"

text \<open>
  One block of entries. The bound is \<^verbatim>\<open>BSIZE\<close> for a full block and \<^verbatim>\<open>ind->size % BSIZE\<close> for the last
  one, where \<^verbatim>\<open>ind\<close> is the inode entered last.
\<close>

definition entry_bound :: "bool \<Rightarrow> inode_ref \<Rightarrow> 'a fsys_scheme \<Rightarrow> nat" where
  "entry_bound full ind s = (if full then BSIZE else unat (isize (inodes s ind)) mod BSIZE)"

lemma entry_bound_le: "entry_bound full ind s \<le> 512"
  by (simp add: entry_bound_def)

lemma entry_bound_step: "off < entry_bound full ind s \<Longrightarrow> 512 - (off + sizeof_dentry) < 512 - off"
  using entry_bound_le [of full ind s] by linarith

function namei_entries ::
  "env \<Rightarrow> u8 list \<Rightarrow> bool \<Rightarrow> block_ref \<Rightarrow> nat \<Rightarrow> inode_ref \<Rightarrow> 'a fsys_scheme \<Rightarrow>
   (inode_ref \<times> 'a fsys_scheme) option" where
  "namei_entries e trm full db off ind s =
     (if off < entry_bound full ind s
      then do {
        de \<leftarrow> peek e db off sizeof_dentry s;
        c \<leftarrow> strcmp (drop 4 de) trm;
        (ind, s) \<leftarrow> (if c = 0 then enter e de ind s else Some (ind, s));
        namei_entries e trm full db (off + sizeof_dentry) ind s }
      else Some (ind, s))"
  by pat_completeness auto
termination
  by (relation "measure (\<lambda>(e, trm, full, db, off, ind, s). 512 - off)")
    (use entry_bound_step in auto)

declare namei_entries.simps [simp del]

text \<open>The full blocks; the index that selects the term is the block index.\<close>

function namei_blocks ::
  "env \<Rightarrow> u8 list \<Rightarrow> nat \<Rightarrow> inode_ref \<Rightarrow> 'a fsys_scheme \<Rightarrow> (inode_ref \<times> 'a fsys_scheme) option" where
  "namei_blocks e terms i ind s =
     (if i < unat (isize (inodes s ind)) div BSIZE
      then if i < NDATA
        then do {
          b \<leftarrow> dblock_at ind i s;
          (db, s) \<leftarrow> blockRead (e_dev e) (idevice (inodes s ind)) b s;
          (ind, s) \<leftarrow> namei_entries e (drop (LTERM * i) terms) True db 0 ind s;
          namei_blocks e terms (Suc i) ind s }
        else None
      else Some (ind, s))"
  by pat_completeness auto
termination
  by (relation "measure (\<lambda>(e, terms, i, ind, s). NDATA - i)") auto

declare namei_blocks.simps [simp del]

fun namei_terms ::
  "env \<Rightarrow> u8 list \<Rightarrow> nat list \<Rightarrow> inode_ref \<Rightarrow> 'a fsys_scheme \<Rightarrow> (inode_ref \<times> 'a fsys_scheme) option" where
  "namei_terms e terms [] ind s = Some (ind, s)"
| "namei_terms e terms (i # is) ind s = do {
     (ind, s) \<leftarrow> namei_blocks e terms 0 ind s;
     b \<leftarrow> dblock_at ind (unat (isize (inodes s ind)) div BSIZE) s;
     (db, s) \<leftarrow> blockRead (e_dev e) (idevice (inodes s ind)) b s;
     (ind, s) \<leftarrow> namei_entries e (drop (LTERM * i) terms) False db 0 ind s;
     namei_terms e terms is ind s }"

definition namei :: "env \<Rightarrow> u8 list \<Rightarrow> 'a files_scheme \<Rightarrow> (inode_ref \<times> 'a files_scheme) option" where
  "namei e path s = do {
     let ind = (if path ! 0 = SLASH then root s else cwd s);
     (nterm, terms) \<leftarrow> split path SLASH (f_terms (e_frame e (iotrace s)));
     namei_terms e terms [0..<nterm] ind s }"

section \<open>Making entries\<close>

text \<open>\<^verbatim>\<open>strncpy(de.name, name, strlen(name))\<close> into the entry \<open>de\<close>; a name beyond 100 bytes does not fit.\<close>

definition set_name :: "u8 list \<Rightarrow> u8 list \<Rightarrow> u8 list option" where
  "set_name de name = do {
     n \<leftarrow> strlen name;
     (nm, _) \<leftarrow> strncpy (drop 4 de) name n;
     Some (take 4 de @ nm) }"

text \<open>Appending the entry to the directory: the last block is read, changed and written.\<close>

definition add_entry ::
  "env \<Rightarrow> string \<Rightarrow> u8 list \<Rightarrow> inode_ref \<Rightarrow> 'a fsys_scheme \<Rightarrow> (u32 \<times> 'a fsys_scheme) option" where
  "add_entry e who de pind s = do {
     iblk \<leftarrow> dblock_at pind (unat (isize (inodes s pind)) div BSIZE) s;
     let off = unat (isize (inodes s pind)) mod BSIZE;
     let s = upd_ino pind (\<lambda>n. n\<lparr>isize := isize n + of_nat sizeof_dentry\<rparr>) s;
     (db, s) \<leftarrow> blockRead (e_dev e) (idevice (inodes s pind)) iblk s;
     (if db = BNull
      then do { s \<leftarrow> msg (''[Error] '' @ who @ '': blockRead'') s; Some (- 1, s) }
      else do {
        s \<leftarrow> poke e db off de s;
        (r, s) \<leftarrow> blockWrite db s;
        (if r \<noteq> 0
         then do { s \<leftarrow> msg (''[Error] '' @ who @ '': blockWrite'') s; Some (- 1, s) }
         else Some (0, s)) }) }"

text \<open>An entry of the open file table; a descriptor outside the table is \<open>None\<close>.\<close>

definition get_fd :: "u32 \<Rightarrow> 'a files_scheme \<Rightarrow> file_t option" where
  "get_fd fd s = (if unat fd < length (fds s) then Some (fds s ! unat fd) else None)"

definition set_fd :: "u32 \<Rightarrow> (file_t \<Rightarrow> file_t) \<Rightarrow> 'a files_scheme \<Rightarrow> 'a files_scheme option" where
  "set_fd fd f s =
     (if unat fd < length (fds s) then Some (s\<lparr>fds := (fds s)[unat fd := f (fds s ! unat fd)]\<rparr>) else None)"

definition creat :: "env \<Rightarrow> u8 list \<Rightarrow> u32 \<Rightarrow> 'a files_scheme \<Rightarrow> (u32 \<times> 'a files_scheme) option" where
  "creat e path md s = do {
     let fr = e_frame e (iotrace s);
     (ind, s) \<leftarrow> allocInode (e_dev e) (junk_at e s) (idevice (inodes s (cwd s))) s;
     (if ind = INull then do { s \<leftarrow> msg ''[Error] creat: allocInode'' s; Some (- 1, s) }
      else do {
        let s = set_itype ind I_FILE s;
        let de = put32 (f_dentry fr) 0 (ino (inodes s ind));
        let de = blit de 4 (replicate NAMELEN 0);
        (de, pind, s) \<leftarrow>
          (if path ! 0 = SLASH
           then do {
             (p2, pname) \<leftarrow> getFileName path (f_pname fr);
             de \<leftarrow> set_name de (drop p2 path);
             (pind, s) \<leftarrow> namei e pname s;
             Some (de, pind, s) }
           else do {
             de \<leftarrow> set_name de path;
             Some (de, cwd s, s) });
        (r, s) \<leftarrow> add_entry e ''creat'' de pind s;
        (if r \<noteq> 0 then Some (- 1, s)
         else do {
           (a, s) \<leftarrow> allocData (e_dev e) (junk_at e s) (idevice (inodes s ind)) s;
           s \<leftarrow> set_dblock ind 0 a s;
           let fd = max_fd s;
           let s = s\<lparr>max_fd := max_fd s + 1\<rparr>;
           s \<leftarrow> set_fd fd (\<lambda>f. f\<lparr>find := ind\<rparr>) s;
           s \<leftarrow> set_fd fd (\<lambda>f. f\<lparr>fflag := ucast md\<rparr>) s;
           s \<leftarrow> set_fd fd (\<lambda>f. f\<lparr>foff := 0\<rparr>) s;
           Some (fd, s) }) }) }"

definition mk :: "env \<Rightarrow> u8 list \<Rightarrow> 'a files_scheme \<Rightarrow> (u32 \<times> 'a files_scheme) option" where
  "mk e name s = do {
     let fr = e_frame e (iotrace s);
     (ind, s) \<leftarrow> allocInode (e_dev e) (junk_at e s) (idevice (inodes s (cwd s))) s;
     (if ind = INull then do { s \<leftarrow> msg ''[Error] mk: allocInode'' s; Some (- 1, s) }
      else do {
        let s = set_itype ind I_DIR s;
        let de = put32 (f_dentry fr) 0 (ino (inodes s ind));
        let de = blit de 4 (replicate NAMELEN 0);
        de \<leftarrow> set_name de name;
        let pind = cwd s;
        (r, s) \<leftarrow> add_entry e ''mk'' de pind s;
        (if r \<noteq> 0 then Some (- 1, s)
         else do {
           (a, s) \<leftarrow> allocData (e_dev e) (junk_at e s) (idevice (inodes s ind)) s;
           s \<leftarrow> set_dblock ind 0 a s;
           Some (0, s) }) }) }"

section \<open>Listing\<close>

text \<open>The entries of one block, up to the bound.\<close>

function ls_entries ::
  "env \<Rightarrow> string \<Rightarrow> bool \<Rightarrow> block_ref \<Rightarrow> nat \<Rightarrow> inode_ref \<Rightarrow> 'a fsys_scheme \<Rightarrow> 'a fsys_scheme option" where
  "ls_entries e fmt full db off ind s =
     (if off < entry_bound full ind s
      then do {
        de \<leftarrow> peek e db off sizeof_dentry s;
        s \<leftarrow> printf (cstr fmt) [Str (drop 4 de)] s;
        ls_entries e fmt full db (off + sizeof_dentry) ind s }
      else Some s)"
  by pat_completeness auto
termination
  by (relation "measure (\<lambda>(e, fmt, full, db, off, ind, s). 512 - off)")
    (use entry_bound_step in auto)

declare ls_entries.simps [simp del]

function ls_blocks :: "env \<Rightarrow> nat \<Rightarrow> inode_ref \<Rightarrow> 'a fsys_scheme \<Rightarrow> (u32 \<times> 'a fsys_scheme) option" where
  "ls_blocks e i ind s =
     (if i < unat (isize (inodes s ind)) div BSIZE
      then if i < NDATA
        then do {
          b \<leftarrow> dblock_at ind i s;
          (db, s) \<leftarrow> blockRead (e_dev e) (idevice (inodes s ind)) b s;
          (if db = BNull then do { s \<leftarrow> msg ''[Error] ls: blockRead'' s; Some (- 1, s) }
           else do {
             s \<leftarrow> ls_entries e (''%s'' @ [CHR 0x0a]) True db 0 ind s;
             ls_blocks e (Suc i) ind s }) }
        else None
      else Some (0, s))"
  by pat_completeness auto
termination
  by (relation "measure (\<lambda>(e, i, ind, s). NDATA - i)") auto

declare ls_blocks.simps [simp del]

definition ls :: "env \<Rightarrow> 'a files_scheme \<Rightarrow> (u32 \<times> 'a files_scheme) option" where
  "ls e s = do {
     let ind = cwd s;
     (r, s) \<leftarrow> ls_blocks e 0 ind s;
     (if r \<noteq> 0 then Some (- 1, s)
      else do {
        b \<leftarrow> dblock_at ind (unat (isize (inodes s ind)) div BSIZE) s;
        (db, s) \<leftarrow> blockRead (e_dev e) (idevice (inodes s ind)) b s;
        (if db = BNull then do { s \<leftarrow> msg ''[Error] ls: blockRead'' s; Some (- 1, s) }
         else do {
           s \<leftarrow> printf (cstr [CHR 0x0a]) [] s;
           s \<leftarrow> ls_entries e ''%s '' False db 0 ind s;
           Some (0, s) }) }) }"

section \<open>Changing the directory\<close>

definition pathcat :: "u8 list \<Rightarrow> u8 list \<Rightarrow> u8 list option" where
  "pathcat parent child = do {
     p \<leftarrow> strcat parent (cstr ''/'');
     strcat p child }"

definition cd :: "env \<Rightarrow> u8 list \<Rightarrow> 'a files_scheme \<Rightarrow> (u32 \<times> 'a files_scheme) option" where
  "cd e path s = do {
     (ind, s) \<leftarrow> namei e path s;
     (if itype (dinode (inodes s ind)) \<noteq> I_DIR
      then do {
        s \<leftarrow> printf (cstr (''[Error] %s is not a directory'' @ [CHR 0x0a])) [Str path] s;
        Some (- 1, s) }
      else do {
        let s = s\<lparr>cwd := ind\<rparr>;
        n \<leftarrow> pathcat (cwd_name s) path;
        Some (0, s\<lparr>cwd_name := n\<rparr>) }) }"

section \<open>Removal\<close>

text \<open>
  The search for the entry: \<open>Unreadable\<close> when a block could not be read, otherwise whether the entry
  was found (and cleared), and the last entry read.
\<close>

datatype 's search = Unreadable 's | Searched bool "u8 list" 's

function rm_entries ::
  "env \<Rightarrow> u8 list \<Rightarrow> bool \<Rightarrow> block_ref \<Rightarrow> nat \<Rightarrow> u8 list \<Rightarrow> inode_ref \<Rightarrow> 'a fsys_scheme \<Rightarrow>
   (bool \<times> u8 list \<times> 'a fsys_scheme) option" where
  "rm_entries e name full db off de pind s =
     (if off < entry_bound full pind s
      then do {
        de \<leftarrow> peek e db off sizeof_dentry s;
        c \<leftarrow> strcmp (drop 4 de) name;
        (if c = 0
         then do { s \<leftarrow> poke e db off (replicate sizeof_dentry 0) s; Some (True, de, s) }
         else rm_entries e name full db (off + sizeof_dentry) de pind s) }
      else Some (False, de, s))"
  by pat_completeness auto
termination
  by (relation "measure (\<lambda>(e, name, full, db, off, de, pind, s). 512 - off)")
    (use entry_bound_step in auto)

declare rm_entries.simps [simp del]

definition rm_read ::
  "env \<Rightarrow> inode_ref \<Rightarrow> nat \<Rightarrow> 'a fsys_scheme \<Rightarrow> (block_ref \<times> 'a fsys_scheme) option" where
  "rm_read e pind i s = do {
     b \<leftarrow> dblock_at pind i s;
     (db, s) \<leftarrow> blockRead (e_dev e) (idevice (inodes s pind)) b s;
     (if db = BNull then do { s \<leftarrow> msg ''[Error] rm: blockRead'' s; Some (BNull, s) }
      else Some (db, s)) }"

function rm_blocks ::
  "env \<Rightarrow> u8 list \<Rightarrow> nat \<Rightarrow> u8 list \<Rightarrow> inode_ref \<Rightarrow> 'a fsys_scheme \<Rightarrow>
   'a fsys_scheme search option" where
  "rm_blocks e name i de pind s =
     (if i < unat (isize (inodes s pind)) div BSIZE
      then if i < NDATA
        then do {
          (db, s) \<leftarrow> rm_read e pind i s;
          (if db = BNull then Some (Unreadable s)
           else do {
             (found, de, s) \<leftarrow> rm_entries e name True db 0 de pind s;
             (if found then Some (Searched True de s) else rm_blocks e name (Suc i) de pind s) }) }
        else None
      else Some (Searched False de s))"
  by pat_completeness auto
termination
  by (relation "measure (\<lambda>(e, name, i, de, pind, s). NDATA - i)") auto

declare rm_blocks.simps [simp del]

definition rm_find ::
  "env \<Rightarrow> u8 list \<Rightarrow> u8 list \<Rightarrow> inode_ref \<Rightarrow> 'a fsys_scheme \<Rightarrow>
   'a fsys_scheme search option" where
  "rm_find e name de pind s = do {
     r \<leftarrow> rm_blocks e name 0 de pind s;
     (case r of
        Unreadable s \<Rightarrow> Some (Unreadable s)
      | Searched found de s \<Rightarrow>
          if found then Some (Searched True de s)
          else do {
            (db, s) \<leftarrow> rm_read e pind (unat (isize (inodes s pind)) div BSIZE) s;
            (if db = BNull then Some (Unreadable s)
             else do {
               (found, de, s) \<leftarrow> rm_entries e name False db 0 de pind s;
               Some (Searched found de s) }) }) }"

text \<open>Freeing the data blocks 0 up to the last one, which depends on the inode's size.\<close>

function rm_data :: "env \<Rightarrow> nat \<Rightarrow> inode_ref \<Rightarrow> 'a fsys_scheme \<Rightarrow> 'a fsys_scheme option" where
  "rm_data e i ind s =
     (if i \<le> unat (isize (inodes s ind)) div BSIZE
      then if i < NDATA
        then do {
          b \<leftarrow> dblock_at ind i s;
          (_, s) \<leftarrow> freeData (e_dev e) (junk_at e s) (idevice (inodes s ind)) b s;
          rm_data e (Suc i) ind s }
        else None
      else Some s)"
  by pat_completeness auto
termination
  by (relation "measure (\<lambda>(e, i, ind, s). NDATA - i)") auto

declare rm_data.simps [simp del]

definition rm :: "env \<Rightarrow> u8 list \<Rightarrow> 'a files_scheme \<Rightarrow> (u32 \<times> 'a files_scheme) option" where
  "rm e path s = do {
     let fr = e_frame e (iotrace s);
     (name, pind, s) \<leftarrow>
       (if path ! 0 = SLASH
        then do {
          (p2, pname) \<leftarrow> getFileName path (f_pname fr);
          (pind, s) \<leftarrow> namei e pname s;
          Some (drop p2 path, pind, s) }
        else Some (path, cwd s, s));
     r \<leftarrow> rm_find e name (f_dentry fr) pind s;
     (case r of
        Unreadable s \<Rightarrow> Some (- 1, s)
      | Searched _ de s \<Rightarrow> do {
          (ind, s) \<leftarrow> getCachedInode (get32 de 0) (idevice (inodes s pind)) s;
          s \<leftarrow> load_dinode e (get32 de 0) ind s;
          s \<leftarrow> rm_data e 0 ind s;
          (_, s) \<leftarrow> freeInode (e_dev e) (junk_at e s) (idevice (inodes s ind)) (ino (inodes s ind)) s;
          Some (0, s) }) }"

section \<open>Paths without a closing slash\<close>

lemma split_plain:
  assumes "clean SLASH name" "length name \<le> 200" "length terms = 200"
  shows "\<exists>terms'. split (replicate k SLASH @ name @ 0 # r) SLASH terms = Some (0, terms')"
proof -
  obtain x p where xp: "name @ 0 # r = x # p" "x \<noteq> SLASH"
    using assms(1) by (cases name) (auto simp: clean_def)
  have "split_skip (replicate k SLASH @ name @ 0 # r) SLASH = Some (name @ 0 # r)"
    unfolding xp(1) using xp(2) by (rule split_skip_replicate)
  with split_loop_tokens [of SLASH terms name 0 "[]" r] assms show ?thesis by (auto simp: split_def)
qed

lemma namei_plain:
  assumes "clean SLASH name" "length name \<le> 200" "length (f_terms (e_frame e (iotrace s))) = 200"
  shows "namei e (replicate k SLASH @ name @ 0 # r) s = Some (if k = 0 then cwd s else root s, s)"
proof -
  have "(replicate k SLASH @ name @ 0 # r) ! 0 = SLASH \<longleftrightarrow> k \<noteq> 0"
    using assms(1) by (cases k; cases name) (auto simp: clean_def)
  with split_plain [OF assms, of k r] show ?thesis by (auto simp: namei_def)
qed

text \<open>\<^verbatim>\<open>cd\<close> with the plain name of a directory does not look the name up: it fails, or it stays
  in the directory and only appends the name to the path shown in the prompt.\<close>

theorem cd_plain_name_stays:
  assumes "clean SLASH name" "length name \<le> 200" "length (f_terms (e_frame e (iotrace s))) = 200"
  shows "cd e (name @ 0 # r) s =
    (if itype (dinode (inodes s (cwd s))) = I_DIR
     then map_option (\<lambda>n. (0, s\<lparr>cwd_name := n\<rparr>)) (pathcat (cwd_name s) (name @ 0 # r))
     else map_option (\<lambda>s. (- 1, s))
       (printf (cstr (''[Error] %s is not a directory'' @ [CHR 0x0a])) [Str (name @ 0 # r)] s))"
proof -
  have "s\<lparr>cwd := cwd s\<rparr> = s" by simp
  then show ?thesis
    using namei_plain [OF assms, of 0 r] by (simp add: cd_def map_option_case split: option.split)
qed

section \<open>Absolute paths\<close>

lemma getFileName_loop_last:
  "clean SLASH name \<Longrightarrow> pname \<noteq> [] \<Longrightarrow> getFileName_loop (name @ 0 # r) p1 p2 pname = Some (p2, pname[0 := 0])"
proof (induction name arbitrary: p1 pname)
  case (Cons x name)
  then show ?case by (auto simp: clean_def)
qed simp

lemma getFileName_loop_parent:
  "0 \<notin> set p \<Longrightarrow> clean SLASH name \<Longrightarrow> pname \<noteq> [] \<Longrightarrow>
   getFileName_loop (p @ SLASH # name @ 0 # r) p1 p2 pname = Some (p1 + length p, pname[0 := 0])"
proof (induction p arbitrary: p1 p2 pname)
  case (Cons x p)
  then show ?case by simp
qed (simp add: getFileName_loop_last)

text \<open>For an absolute path \<^verbatim>\<open>getFileName\<close> gives the part from the last slash on as the name, slash
  included, and a parent path that is empty: the parent that \<^verbatim>\<open>creat\<close> and \<^verbatim>\<open>rm\<close> then look up is
  the current directory, whatever the path says.\<close>

theorem absolute_path_parent_is_cwd:
  assumes "path = p @ SLASH # name @ 0 # r" "0 \<notin> set p" "clean SLASH name" "pname \<noteq> []"
    and "length (f_terms (e_frame e (iotrace s))) = 200"
  shows "\<exists>pn. getFileName path pname = Some (length p, pn) \<and>
    drop (length p) path = SLASH # name @ 0 # r \<and> namei e pn s = Some (cwd s, s)"
proof -
  have "getFileName path pname = Some (length p, pname[0 := 0])"
    using assms(2-4) by (simp add: getFileName_def assms(1) getFileName_loop_parent)
  moreover obtain q where "pname[0 := 0] = replicate 0 SLASH @ [] @ 0 # q"
    using assms(4) by (cases pname) auto
  ultimately show ?thesis
    using namei_plain [of "[]" e s 0 q] assms(1,5) by (simp add: clean_def)
qed

section \<open>The fifth entry of a block\<close>

lemma poke_blk_fifth:
  assumes "length (buf b) = 512" "length de = 104" "drop 96 de = replicate 8 0"
    and "\<And>r. addr r = 0 \<longleftrightarrow> r = BNull"
  shows "poke_blk addr b 416 de = Some (b\<lparr>buf := take 416 (buf b) @ take 96 de, lru_prev := BNull, lru_next := BNull\<rparr>)"
proof -
  have m: "blk_mem addr b = buf b @ (bytes_of (addr (lru_prev b)) @ bytes_of (addr (lru_next b))) @
      bytes_of (addr (hash_prev b)) @ bytes_of (addr (hash_next b))"
    by (simp add: blk_mem_def links_of_def)
  have bl: "blit (blk_mem addr b) 416 de = (take 416 (buf b) @ take 96 de) @ replicate 8 0 @
      bytes_of (addr (hash_prev b)) @ bytes_of (addr (hash_next b))"
    using assms(1,2) append_take_drop_id [of 96 de] unfolding assms(3)
    by (simp add: blit_def m)
  have l: "length (blk_mem addr b) = 528" using assms(1) by (simp add: m)
  have t: "to_ref addr r 0 = Some BNull" "to_ref addr r (addr r) = Some r" for r
    using assms(4) [of r] by (auto simp: to_ref_def)
  have z8: "replicate 8 (0 :: u8) = [0, 0, 0, 0, 0, 0, 0, 0]" by (simp add: numeral_eq_Suc)
  have z: "word_of_bytes 0 0 0 0 = 0" by (simp add: word_of_bytes_def)
  have "set_links addr (replicate 8 0 @ bytes_of (addr (hash_prev b)) @ bytes_of (addr (hash_next b)))
      (b\<lparr>buf := take 416 (buf b) @ take 96 de\<rparr>) =
      Some (b\<lparr>buf := take 416 (buf b) @ take 96 de, lru_prev := BNull, lru_next := BNull\<rparr>)"
    by (simp add: z8 set_links_def get32_def bytes_of_def z t)
  moreover have "drop 512 (blit (blk_mem addr b) 416 de) =
      replicate 8 0 @ bytes_of (addr (hash_prev b)) @ bytes_of (addr (hash_next b))"
    "take 512 (blit (blk_mem addr b) 416 de) = take 416 (buf b) @ take 96 de"
    unfolding bl using assms(1,2) by simp_all
  ultimately show ?thesis
    using assms(1,2) l by (simp add: poke_blk_def Let_def)
qed

text \<open>
  C36. A directory block holds five entries of the loop's stride. Adding the fifth writes 8 bytes behind
  the buffer: for every name shorter than 92 bytes they are zero and erase the two ring pointers
  of the cached block. Writing the block back then unlinks it a second time, which empties
  the ring of free buffers: every block that is not cached from then on fails to get a buffer.
\<close>

theorem fifth_entry_empties_cache:
  fixes s :: "'a fsys_scheme"
  assumes "at_front x (idevice (inodes s pind)) b s" "length (buf (blocks s x)) = 512"
    and "dblock_at pind (unat (isize (inodes s pind)) div 512) s = Some b"
    and "unat (isize (inodes s pind)) mod 512 = 416"
    and "length de = 104" "drop 96 de = replicate 8 0" "\<And>r. e_addr e r = 0 \<longleftrightarrow> r = BNull"
    and "lock (cslLock s) = 0"
  shows "\<exists>s1. add_entry e who de pind s = Some (0, s1) \<and> lru.ring s1 BNull [] \<and>
    (\<forall>d b k. BLKHASH b = Some k \<and> cache_find k d b s1 = Some None \<longrightarrow>
       (\<exists>s2. getCachedBlock d b s1 = Some (BNull, s2)))"
proof -
  let ?d = "idevice (inodes s pind)"
  have x: "x \<noteq> BNull" using assms(1) by (simp add: at_front_def)
  define s0 where "s0 = upd_ino pind (\<lambda>n. n\<lparr>isize := isize n + of_nat sizeof_dentry\<rparr>) s"
  have s0: "blocks s0 = blocks s" "idevice (inodes s0 pind) = ?d" "cslLock s0 = cslLock s"
    by (simp_all add: s0_def upd_ino_def)
  have f0: "at_front x ?d b s0" using assms(1) by (simp add: at_front_def s0)
  define B where "B = blocks (cache_hit x s0) x"
  define B' where "B' = B\<lparr>buf := take 416 (buf B) @ take 96 de, lru_prev := BNull, lru_next := BNull\<rparr>"
  define s3 where "s3 = upd_blk x (\<lambda>_. B') (cache_hit x s0)"
  have B: "length (buf B) = 512" "bdevice B = ?d" "bblock B = b"
    using assms(2) f0 by (simp_all add: B_def cache_hit_blocks s0 at_front_def)
  have Bh: "hash_next B = hash_next (blocks s0 x)" by (simp add: B_def cache_hit_blocks)
  have pk: "poke e x 416 de (cache_hit x s0) = Some s3"
    using poke_blk_fifth [OF B(1) assms(5-7)] by (simp add: poke_def B_def [symmetric] s3_def B'_def)
  have f3: "at_front x ?d b s3"
    using f0 B x unfolding at_front_def s3_def
    by (auto simp: upd_blk_blocks cache_hit_blocks B'_def Bh)
  have l3: "length (buf (blocks s3 x)) = 512" using B(1) assms(5) by (simp add: s3_def upd_blk_blocks B'_def)
  define u where "u = upd_blk x (\<lambda>b. b\<lparr>buf := buf (blocks (cache_hit x s3) x)\<rparr>) (cache_hit x s3)"
  have ul: "length (buf (blocks u x)) = 512" using l3 by (simp add: u_def upd_blk_blocks cache_hit_blocks)
  have "lru_prev (blocks s3 x) = BNull" "lru_next (blocks s3 x) = BNull"
    by (simp_all add: s3_def upd_blk_blocks B'_def)
  then have un: "lru_next (blocks u BNull) = BNull" "lru_prev (blocks u BNull) = BNull"
    using x by (simp_all add: u_def cache_hit_def Let_def upd_blk_blocks)
  have fx: "bdevice (blocks s3 x) = ?d" "bblock (blocks s3 x) = b" using f3 by (simp_all add: at_front_def)
  define s1 where "s1 = snd (hardWrite x u)"
  have w: "blockWrite x s3 = Some (0, s1)"
    using hardWrite_blocks(1) [OF ul] by (simp add: blockWrite_def fx get_front [OF f3] u_def Let_def s1_def prod_eq_iff)
  have add: "add_entry e who de pind s = Some (0, s1)"
    unfolding add_entry_def assms(3,4) Option.bind.bind_lunit Let_def s0_def [symmetric] s0(2) read_front [OF f0]
      case_prod_conv pk w if_not_P [OF x] by simp
  have "cslLock u = cslLock s"
    by (simp add: u_def s3_def upd_blk_def cache_hit_def Let_def s0(3))
  then have l: "lock (cslLock s1) = 0" using hardWrite_eq [OF ul] assms(8) by (simp add: s1_def)
  have "lru_next (blocks s1 BNull) = BNull" "lru_prev (blocks s1 BNull) = BNull"
    using un x hardWrite_blocks(2) [OF ul] by (simp_all add: s1_def)
  moreover from this have "\<exists>s2. getCachedBlock d b s1 = Some (BNull, s2)"
    if "BLKHASH b = Some k" "cache_find k d b s1 = Some None" for d b k
    using that msg_no_buffer [OF l] by (auto simp: getCachedBlock_def)
  ultimately show ?thesis using add by (auto simp: lru.ring_empty)
qed

section \<open>Finding an entry\<close>

text \<open>The entry of an inode number and a name, and what a directory of up to four entries holds.\<close>

definition dentry :: "u32 \<times> u8 list \<Rightarrow> u8 list" where
  "dentry = (\<lambda>(n, nm). bytes_of n @ nm @ replicate (NAMELEN - length nm) 0)"

definition entry_ok :: "u32 \<times> u8 list \<Rightarrow> bool" where
  "entry_ok d \<longleftrightarrow> 0 \<notin> set (snd d) \<and> length (snd d) < NAMELEN"

lemma entry_facts:
  assumes "entry_ok d"
  shows "length (dentry d) = 104" "get32 (dentry d) 0 = fst d" "c_text (drop 4 (dentry d)) = Some (snd d)"
proof -
  obtain n nm where d: "d = (n, nm)" by (cases d)
  have nm: "0 \<notin> set nm" "length nm < 100" using assms by (simp_all add: entry_ok_def d)
  then show "length (dentry d) = 104" by (simp add: dentry_def d)
  show "get32 (dentry d) 0 = fst d" by (simp add: dentry_def d get32_def bytes_of_def)
  from nm(2) obtain k where "100 - length nm = Suc k" by (cases "100 - length nm") auto
  then show "c_text (drop 4 (dentry d)) = Some (snd d)" using nm(1) by (simp add: dentry_def d)
qed

lemma concat_pick:
  assumes "\<forall>b \<in> set bs. length b = k" "i < length bs"
  shows "take k (drop (k * i) (concat bs @ rest)) = bs ! i"
  using assms
proof (induction bs arbitrary: i)
  case (Cons b bs)
  then show ?case by (cases i) (simp_all add: add.commute)
qed simp

definition dir_block :: "(u32 \<times> u8 list) list \<Rightarrow> block_ref \<Rightarrow> 'a disk_scheme \<Rightarrow> bool" where
  "dir_block es db s \<longleftrightarrow> length es \<le> 4 \<and> (\<forall>d \<in> set es. entry_ok d) \<and> length (buf (blocks s db)) = 512 \<and>
     (\<exists>rest. buf (blocks s db) = concat (map dentry es) @ rest)"

lemma peek_entry:
  assumes "dir_block es db s" "i < length es"
  shows "peek e db (104 * i) 104 s = Some (dentry (es ! i))"
proof -
  obtain rest where b: "buf (blocks s db) = concat (map dentry es) @ rest" "length (buf (blocks s db)) = 512"
    using assms(1) by (auto simp: dir_block_def)
  have "\<forall>b \<in> set (map dentry es). length b = 104" using assms(1) entry_facts(1) by (auto simp: dir_block_def)
  from concat_pick [OF this, of i rest] assms(2) b(1)
  have "take 104 (drop (104 * i) (buf (blocks s db))) = dentry (es ! i)" by simp
  moreover have "104 * i + 104 \<le> 512" using assms by (simp add: dir_block_def)
  ultimately show ?thesis using b(2) by (simp add: peek_def peek_blk_def blk_mem_def)
qed

text \<open>The scan passes the entries of other names.\<close>

lemma namei_entries_skip:
  assumes "dir_block es db s" "c_text trm = Some nm" "unat (isize (inodes s ind)) = 104 * length es"
    and "i \<le> j" "j < length es" "\<forall>k < j. snd (es ! k) \<noteq> nm"
  shows "namei_entries e trm False db (104 * i) ind s = namei_entries e trm False db (104 * j) ind s"
  using assms(4)
proof (induction "j - i" arbitrary: i)
  case (Suc n)
  then have i: "i < j" "n = j - Suc i" "i < length es" using assms(5) by auto
  have "entry_ok (es ! i)" using assms(1) i(3) by (simp add: dir_block_def)
  note ent = entry_facts [OF this]
  have bound: "entry_bound False ind s = 104 * length es"
    using assms(1,3) by (simp add: entry_bound_def dir_block_def)
  have "snd (es ! i) \<noteq> nm" using assms(6) i(1) by simp
  then obtain c where "strcmp (drop 4 (dentry (es ! i))) trm = Some c" "c \<noteq> 0"
    using strcmp_text [OF ent(3) assms(2)] by simp
  then have "namei_entries e trm False db (104 * i) ind s = namei_entries e trm False db (104 * Suc i) ind s"
    using i(3) by (subst namei_entries.simps) (simp add: bound peek_entry [OF assms(1) i(3)] add.commute)
  then show ?case using Suc.hyps(1) [OF i(2)] i(1) by simp
qed simp

lemma get_inode_hit:
  assumes "IHASH n = Some k" "ihash_next (inodes s (IHash k)) = y" "y \<noteq> INull" "ino (inodes s y) = n"
  shows "\<exists>s1. getCachedInode n d s = Some (y, s1) \<and> isize (inodes s1 y) = isize (inodes s y) \<and>
    itype (dinode (inodes s1 y)) = itype (dinode (inodes s y)) \<and>
    access (inodes s1 y) = access (inodes s y) + 1"
  using assms by (simp add: getCachedInode_def icache_find_def ichain_find_now Let_def upd_ino_inodes)

lemma namei_entry_found:
  assumes "dir_block es db s" "c_text trm = Some nm" "unat (isize (inodes s ind)) = 104 * length es"
    and "j < length es" "es ! j = (n, nm)" "\<forall>k < j. snd (es ! k) \<noteq> nm"
    and "enter e (dentry (n, nm)) ind s = Some (y, s1)" "unat (isize (inodes s1 y)) mod 512 \<le> 104 * (j + 1)"
  shows "namei_entries e trm False db 0 ind s = Some (y, s1)"
proof -
  have "entry_ok (es ! j)" using assms(1,4) by (simp add: dir_block_def)
  note ent = entry_facts [OF this, unfolded assms(5)]
  have "strcmp (drop 4 (dentry (n, nm))) trm = Some 0"
    using strcmp_text [of _ nm trm nm] ent(3) assms(2) by simp
  moreover have "entry_bound False ind s = 104 * length es"
    using assms(1,3) by (simp add: entry_bound_def dir_block_def)
  moreover have "namei_entries e trm False db (104 * j + 104) y s1 = Some (y, s1)"
    using assms(8) by (subst namei_entries.simps) (simp add: entry_bound_def)
  ultimately have "namei_entries e trm False db (104 * j) ind s = Some (y, s1)"
    using assms(4,5,7) by (subst namei_entries.simps) (simp add: peek_entry [OF assms(1,4)])
  then show ?thesis using namei_entries_skip [OF assms(1-3), of 0 j] assms(4,6) by simp
qed


section \<open>A small file system\<close>

text \<open>A directory of four entries in block 40, a file of 600 bytes in blocks 30 and 31.\<close>

definition demo_entries :: "(u32 \<times> u8 list) list" where
  "demo_entries = [(3, [0x61]), (9, [0x62, 0x69, 0x6e]), (11, [0x63]), (12, [0x64])]"

definition demo_files :: files where
  "demo_files = fsys.extend
     (disk.extend (thr.extend full_table (disk.fields ((\<lambda>_. demo_block)
         (Buf 5 := demo_block\<lparr>bblock := 30\<rparr>, Buf 6 := demo_block\<lparr>bblock := 31, buf := replicate 512 9\<rparr>,
          Buf 7 := demo_block\<lparr>bblock := 40, buf := concat (map dentry demo_entries) @ replicate 96 0\<rparr>,
          BHash 30 := demo_block\<lparr>hash_next := Buf 5\<rparr>, BHash 31 := demo_block\<lparr>hash_next := Buf 6\<rparr>,
          BHash 40 := demo_block\<lparr>hash_next := Buf 7\<rparr>))))
       (fsys.fields ((\<lambda>_. demo_inode)
         (IBuf 3 := demo_inode\<lparr>isize := 600,
            dinode := (dinode demo_inode)\<lparr>itype := I_FILE, dblock := 30 # 31 # replicate 62 0\<rparr>\<rparr>,
          IBuf 4 := demo_inode\<lparr>isize := 416,
            dinode := (dinode demo_inode)\<lparr>itype := I_DIR, dblock := 40 # replicate 63 0\<rparr>\<rparr>,
          IBuf 9 := demo_inode\<lparr>isize := 0, ino := 9, dinode := (dinode demo_inode)\<lparr>itype := I_DIR\<rparr>\<rparr>,
          IHash 9 := demo_inode\<lparr>ihash_next := IBuf 9\<rparr>))))
     (files.fields (cstr ''root'' @ replicate 95 0) (IBuf 4) (IBuf 4) 0 0 (replicate 4 0)
       (\<lparr>ftype = 0, foff = 500, fflag = 1, find = IBuf 3\<rparr> # \<lparr>ftype = 0, foff = 600, fflag = 1, find = IBuf 3\<rparr> #
        replicate 126 \<lparr>ftype = 0, foff = 0, fflag = 0, find = INull\<rparr>))"

lemma full_table_lock: "cslLock full_table = \<lparr>lock = 0\<rparr>"
  by (simp add: full_table_def idle_threads_def del: upt_Suc)

lemmas demo_files_fields = demo_files_def full_table_lock thr.defs disk.defs fsys.defs files.defs

abbreviation (input) demo_env :: env where
  "demo_env \<equiv> \<lparr>e_dev = busy_drive, e_addr = (\<lambda>r. if r = BNull then 0 else 4096),
     e_frame = (\<lambda>_. \<lparr>f_junk = demo_junk, f_terms = replicate 200 0, f_dentry = replicate 104 0,
       f_pname = replicate 100 0, f_buffer = replicate 512 0\<rparr>)\<rparr>"

lemma demo_dir:
  "at_front (Buf 7) 0 40 demo_files" "dir_block demo_entries (Buf 7) demo_files"
  "cwd demo_files = IBuf 4" "idevice (inodes demo_files (IBuf 4)) = 0" "isize (inodes demo_files (IBuf 4)) = 416"
  "itype (dinode (inodes demo_files (IBuf 4))) = I_DIR" "dblock_at (IBuf 4) 0 demo_files = Some 40"
  "lock (cslLock demo_files) = 0" "length (buf (blocks demo_files (Buf 7))) = 512"
proof -
  have e: "\<forall>d \<in> set demo_entries. entry_ok d" by (simp add: demo_entries_def entry_ok_def)
  have b: "buf (blocks demo_files (Buf 7)) = concat (map dentry demo_entries) @ replicate 96 0"
    by (simp add: demo_files_fields)
  moreover have "length (concat (map dentry demo_entries)) = 416"
    using e entry_facts(1) by (simp add: demo_entries_def)
  ultimately show "length (buf (blocks demo_files (Buf 7))) = 512" by simp
  with e b show "dir_block demo_entries (Buf 7) demo_files"
    by (auto simp: dir_block_def) (simp add: demo_entries_def)
qed (simp_all add: demo_files_fields demo_block_def demo_inode_def at_front_def BLKHASH_nonneg dblock_at_def)


theorem fifth_entry_empties_cache_witness:
  "\<exists>s1. add_entry demo_env ''mk'' (dentry (5, [0x65])) (IBuf 4) demo_files = Some (0, s1) \<and> lru.ring s1 BNull []"
proof -
  have "entry_ok (5, [0x65])" by (simp add: entry_ok_def)
  note ent = entry_facts [OF this]
  have "drop 96 (dentry (5, [0x65])) = replicate 8 0" by (simp add: dentry_def bytes_of_def)
  moreover have "e_addr demo_env r = 0 \<longleftrightarrow> r = BNull" for r by simp
  moreover have "dblock_at (IBuf 4) (unat (isize (inodes demo_files (IBuf 4))) div 512) demo_files = Some 40"
    "unat (isize (inodes demo_files (IBuf 4))) mod 512 = 416"
    "at_front (Buf 7) (idevice (inodes demo_files (IBuf 4))) 40 demo_files"
    using demo_dir by simp_all
  ultimately show ?thesis
    using fifth_entry_empties_cache [OF _ demo_dir(9) _ _ ent(1) _ _ demo_dir(8)] by blast
qed

theorem cd_plain_name_stays_witness:
  "\<exists>n. cd demo_env (cstr ''bin'') demo_files = Some (0, demo_files\<lparr>cwd_name := n\<rparr>)"
proof -
  have c: "cstr ''bin'' = [0x62, 0x69, 0x6e] @ 0 # []" by (simp add: cstr_def)
  have "\<exists>n. pathcat (cwd_name demo_files) (cstr ''bin'') = Some n"
    by (simp add: pathcat_def demo_files_fields cstr_def numeral_eq_Suc)
  then show ?thesis
    using cd_plain_name_stays [of "[0x62, 0x69, 0x6e]" demo_env demo_files "[]"] demo_dir
    unfolding c by (auto simp: clean_def)
qed

theorem absolute_path_parent_is_cwd_witness:
  "\<exists>pn. getFileName (cstr ''/a/b'') (replicate 100 1) = Some (2, pn) \<and> namei demo_env pn demo_files = Some (IBuf 4, demo_files)"
  using absolute_path_parent_is_cwd [of "cstr ''/a/b''" "[SLASH, 0x61]" "[0x62]" "[]" "replicate 100 1" demo_env demo_files]
    demo_dir(3) by (auto simp: cstr_def clean_def)

end
