(* ===== verification/Files.thy ===== *)
theory Files
  imports Directory
begin

text \<open>
  The open files of \<^verbatim>\<open>src/fs.c\<close>: \<^verbatim>\<open>read\<close>, \<^verbatim>\<open>write\<close>, \<^verbatim>\<open>open\<close>, \<^verbatim>\<open>close\<close>, \<^verbatim>\<open>eof\<close>, \<^verbatim>\<open>cat\<close>, and the
  initialisation of the file system with its test.

  The buffer of a caller is a list of bytes: \<open>read_fd\<close> returns the bytes it writes from its start
  on, \<open>write_fd\<close> takes the object the pointer leads to and is \<open>None\<close> when it reads behind its end. A
  descriptor outside the table is \<open>None\<close>, and so is a block index outside \<^verbatim>\<open>dinode.block\<close>.
\<close>

section \<open>Reading\<close>

abbreviation (input) M_READ :: u32 where "M_READ \<equiv> 1"
abbreviation (input) F_NONE :: u32 where "F_NONE \<equiv> 0"
abbreviation (input) M_NONE :: u16 where "M_NONE \<equiv> 0"

text \<open>The bytes of one block of the inode, from an offset on. Device 0 is read whatever the inode says.\<close>

definition read_piece ::
  "env \<Rightarrow> inode_ref \<Rightarrow> int \<Rightarrow> nat \<Rightarrow> nat \<Rightarrow> 'a fsys_scheme \<Rightarrow> (u8 list \<times> 'a fsys_scheme) option" where
  "read_piece e ind i off n s =
     (if i < 0 then None
      else do {
        b \<leftarrow> dblock_at ind (nat i) s;
        (db, s) \<leftarrow> blockRead (e_dev e) 0 b s;
        bs \<leftarrow> peek e db off n s;
        Some (bs, s) })"

text \<open>The loop over the blocks that are read whole.\<close>

fun read_whole ::
  "env \<Rightarrow> inode_ref \<Rightarrow> int \<Rightarrow> nat \<Rightarrow> u8 list \<Rightarrow> 'a fsys_scheme \<Rightarrow> (u8 list \<times> 'a fsys_scheme) option" where
  "read_whole e ind i 0 out s = Some (out, s)"
| "read_whole e ind i (Suc n) out s = do {
     (bs, s) \<leftarrow> read_piece e ind i 0 BSIZE s;
     read_whole e ind (i + 1) n (out @ bs) s }"

text \<open>The offset is an \<^verbatim>\<open>int\<close>, its quotient and remainder are signed.\<close>

definition read_fd ::
  "env \<Rightarrow> u32 \<Rightarrow> u32 \<Rightarrow> 'a files_scheme \<Rightarrow> (u32 \<times> u8 list \<times> 'a files_scheme) option" where
  "read_fd e fd sz s = do {
     f \<leftarrow> get_fd fd s;
     let ind = find f;
     (if ind = INull then Some (- 1, [], s)
      else do {
        let start = sint (foff f);
        let cur = start sdiv int BSIZE;
        let off = start smod int BSIZE;
        let rest = int BSIZE - off;
        let nr = (if uint sz > rest then (uint sz - rest) div int BSIZE + 1 else 0);
        (if isize (inodes s ind) < of_int start + sz
         then do { s \<leftarrow> msg ''[Error] read: no enough data'' s; Some (- 1, [], s) }
         else if off < 0 then None
         else do {
           (out, s) \<leftarrow> read_piece e ind cur (nat off) (if uint sz > rest then nat rest else unat sz) s;
           (out, s) \<leftarrow> read_whole e ind (cur + 1) (nat nr - 1) out s;
           (out, s) \<leftarrow>
             (if nr \<ge> 1
              then do {
                (bs, s) \<leftarrow> read_piece e ind (cur + nr) 0 (nat ((uint sz - rest) mod int BSIZE)) s;
                Some (out @ bs, s) }
              else Some (out, s));
           s \<leftarrow> set_fd fd (\<lambda>f. f\<lparr>foff := foff f + sz\<rparr>) s;
           Some (sz, out, s) }) }) }"

section \<open>Writing\<close>

text \<open>One block: read, changed from an offset on, written back.\<close>

definition write_piece ::
  "env \<Rightarrow> inode_ref \<Rightarrow> nat \<Rightarrow> nat \<Rightarrow> u8 list \<Rightarrow> 'a fsys_scheme \<Rightarrow> 'a fsys_scheme option" where
  "write_piece e ind i off bs s = do {
     b \<leftarrow> dblock_at ind i s;
     (db, s) \<leftarrow> blockRead (e_dev e) 0 b s;
     s \<leftarrow> poke e db off bs s;
     (_, s) \<leftarrow> blockWrite db s;
     Some s }"

text \<open>\<^verbatim>\<open>n\<close> bytes of the caller's object at the position of \<^verbatim>\<open>pb\<close>.\<close>

definition src_bytes :: "u8 list \<Rightarrow> nat \<Rightarrow> nat \<Rightarrow> u8 list option" where
  "src_bytes src p n = (if p + n \<le> length src then Some (take n (drop p src)) else None)"

text \<open>The blocks that are added, from block \<^verbatim>\<open>i\<close> on.\<close>

fun write_alloc :: "env \<Rightarrow> inode_ref \<Rightarrow> nat \<Rightarrow> nat \<Rightarrow> 'a fsys_scheme \<Rightarrow> 'a fsys_scheme option" where
  "write_alloc e ind i 0 s = Some s"
| "write_alloc e ind i (Suc n) s = do {
     (a, s) \<leftarrow> allocData (e_dev e) (junk_at e s) 0 s;
     s \<leftarrow> set_dblock ind i a s;
     write_alloc e ind (Suc i) n s }"

fun write_whole ::
  "env \<Rightarrow> inode_ref \<Rightarrow> nat \<Rightarrow> nat \<Rightarrow> u8 list \<Rightarrow> nat \<Rightarrow> 'a fsys_scheme \<Rightarrow> (nat \<times> 'a fsys_scheme) option" where
  "write_whole e ind i 0 src p s = Some (p, s)"
| "write_whole e ind i (Suc n) src p s = do {
     bs \<leftarrow> src_bytes src p BSIZE;
     s \<leftarrow> write_piece e ind i 0 bs s;
     write_whole e ind (Suc i) n src (p + BSIZE) s }"

definition write_fd ::
  "env \<Rightarrow> u32 \<Rightarrow> u8 list \<Rightarrow> u32 \<Rightarrow> 'a files_scheme \<Rightarrow> (u32 \<times> 'a files_scheme) option" where
  "write_fd e fd src sz s = do {
     f \<leftarrow> get_fd fd s;
     let ind = find f;
     (if ind = INull then Some (- 1, s)
      else do {
        let cur = unat (isize (inodes s ind)) div BSIZE;
        let off = unat (isize (inodes s ind)) mod BSIZE;
        let rest = BSIZE - off;
        let na = (if unat sz > rest then (unat sz - rest) div BSIZE + 1 else 0);
        (if cur + na \<ge> NDATA
         then do { s \<leftarrow> msg ''[Error] write: no enough data block'' s; Some (- 1, s) }
         else do {
           s \<leftarrow> write_alloc e ind (cur + 1) na s;
           bs \<leftarrow> src_bytes src 0 (if unat sz > rest then rest else unat sz);
           s \<leftarrow> write_piece e ind cur off bs s;
           (p, s) \<leftarrow> write_whole e ind (cur + 1) (na - 1) src (length bs) s;
           s \<leftarrow>
             (if na \<ge> 1
              then do {
                bs \<leftarrow> src_bytes src p ((unat sz - rest) mod BSIZE);
                write_piece e ind (cur + na) 0 bs s }
              else Some s);
           Some (sz, upd_ino ind (\<lambda>n. n\<lparr>isize := isize n + sz\<rparr>) s) }) }) }"

section \<open>Descriptors\<close>

text \<open>The search for a free descriptor: \<^verbatim>\<open>break\<close> leaves the inner loop only.\<close>

fun bitmap_free :: "u32 \<Rightarrow> nat list \<Rightarrow> nat option" where
  "bitmap_free w [] = None"
| "bitmap_free w (j # js) = (if drop_bit j w AND 1 = 0 then Some j else bitmap_free w js)"

fun open_scan :: "u32 list \<Rightarrow> nat \<Rightarrow> u32 \<Rightarrow> u32" where
  "open_scan [] i fd = fd"
| "open_scan (w # ws) i fd =
     (case bitmap_free w [0..<32] of
        None \<Rightarrow> open_scan ws (Suc i) fd
      | Some j \<Rightarrow> open_scan ws (Suc i) (of_nat (i * 4 + j)))"

definition open_file :: "env \<Rightarrow> u8 list \<Rightarrow> u32 \<Rightarrow> 'a files_scheme \<Rightarrow> (u32 \<times> 'a files_scheme) option" where
  "open_file e path md s = do {
     (ind, s) \<leftarrow> namei e path s;
     (if ind = INull then creat e path md s
      else do {
        let fd = open_scan (of_bitmap s) 0 (- 1);
        let s = (if sint (max_fd s) < sint fd then s\<lparr>max_fd := fd\<rparr> else s);
        s \<leftarrow> set_fd fd (\<lambda>f. f\<lparr>find := ind\<rparr>) s;
        s \<leftarrow> set_fd fd (\<lambda>f. f\<lparr>foff := 0\<rparr>) s;
        s \<leftarrow> set_fd fd (\<lambda>f. f\<lparr>ftype := itype (dinode (inodes s ind))\<rparr>) s;
        s \<leftarrow> set_fd fd (\<lambda>f. f\<lparr>fflag := ucast md\<rparr>) s;
        Some (fd, s) }) }"

text \<open>
  \<^verbatim>\<open>BCLR(bitmap[fd / 4], fd % 4)\<close>. Behind the four words of the bitmap lie the entries of the table,
  four words each: the type, the offset, the flag and the inode pointer, which stays null when it is.
\<close>

definition clear_bit :: "u32 \<Rightarrow> nat \<Rightarrow> u32" where
  "clear_bit w b = w AND NOT (push_bit b 1)"

definition bclr :: "nat \<Rightarrow> nat \<Rightarrow> 'a files_scheme \<Rightarrow> 'a files_scheme option" where
  "bclr i b s =
     (if i < 4 then Some (s\<lparr>of_bitmap := (of_bitmap s)[i := clear_bit (of_bitmap s ! i) b]\<rparr>)
      else let fd = of_nat ((i - 4) div 4)
           in if (i - 4) mod 4 = 0 then set_fd fd (\<lambda>f. f\<lparr>ftype := clear_bit (ftype f) b\<rparr>) s
           else if (i - 4) mod 4 = 1 then set_fd fd (\<lambda>f. f\<lparr>foff := clear_bit (foff f) b\<rparr>) s
           else if (i - 4) mod 4 = 2
           then set_fd fd (\<lambda>f. f\<lparr>fflag := fflag f AND NOT (push_bit b 1)\<rparr>) s
           else do {
             f \<leftarrow> get_fd fd s;
             if find f = INull then Some s else None })"

definition close :: "u32 \<Rightarrow> 'a files_scheme \<Rightarrow> 'a files_scheme option" where
  "close fd s = do {
     s \<leftarrow> set_fd fd (\<lambda>f. f\<lparr>find := INull\<rparr>) s;
     s \<leftarrow> set_fd fd (\<lambda>f. f\<lparr>foff := 0\<rparr>) s;
     s \<leftarrow> set_fd fd (\<lambda>f. f\<lparr>ftype := F_NONE\<rparr>) s;
     s \<leftarrow> set_fd fd (\<lambda>f. f\<lparr>fflag := M_NONE\<rparr>) s;
     bclr (unat fd div 4) (unat fd mod 4) s }"

definition eof :: "u32 \<Rightarrow> 'a files_scheme \<Rightarrow> u32 option" where
  "eof fd s = do {
     f \<leftarrow> get_fd fd s;
     Some (if foff f < isize (inodes s (find f)) then 0 else 1) }"

section \<open>Printing a file\<close>

text \<open>The local buffer keeps what the last \<^verbatim>\<open>read\<close> left in it; it has no terminator of its own.\<close>

fun cat_blocks :: "env \<Rightarrow> u32 \<Rightarrow> nat \<Rightarrow> u8 list \<Rightarrow> 'a files_scheme \<Rightarrow> (u8 list \<times> 'a files_scheme) option" where
  "cat_blocks e fd 0 buffer s = Some (buffer, s)"
| "cat_blocks e fd (Suc n) buffer s = do {
     (_, out, s) \<leftarrow> read_fd e fd (of_nat BSIZE) s;
     let buffer = blit buffer 0 out;
     s \<leftarrow> printf (cstr ''%s'') [Str buffer] s;
     cat_blocks e fd n buffer s }"

definition cat :: "env \<Rightarrow> u8 list \<Rightarrow> 'a files_scheme \<Rightarrow> (u32 \<times> 'a files_scheme) option" where
  "cat e path s = do {
     let buffer = f_buffer (e_frame e (iotrace s));
     (fd, s) \<leftarrow> open_file e path M_READ s;
     f \<leftarrow> get_fd fd s;
     let sz = isize (inodes s (find f));
     (buffer, s) \<leftarrow> cat_blocks e fd (unat sz div BSIZE) buffer s;
     (_, out, s) \<leftarrow> read_fd e fd (sz mod of_nat BSIZE) s;
     let buffer = blit buffer 0 out;
     s \<leftarrow> printf (cstr ''%s'') [Str buffer] s;
     s \<leftarrow> close fd s;
     Some (0, s) }"

section \<open>Initialisation\<close>

definition fileTest :: "env \<Rightarrow> 'a files_scheme \<Rightarrow> 'a files_scheme option" where
  "fileTest e s = do {
     (fd0, s) \<leftarrow> creat e (cstr ''orcas0'') M_READ s;
     (fd1, s) \<leftarrow> creat e (cstr ''orcas1'') M_READ s;
     (fd2, s) \<leftarrow> creat e (cstr ''orcas2'') M_READ s;
     (_, s) \<leftarrow> mk e (cstr ''orcas3'') s;
     s \<leftarrow> msg ''[Test] ls'' s;
     (_, s) \<leftarrow> ls e s;
     s \<leftarrow> msg [] s;
     s \<leftarrow> msg ''[Test] write'' s;
     let text = cstr ''Harry Potter and the Goblet of Fire'';
     n \<leftarrow> strlen text;
     (_, s) \<leftarrow> write_fd e fd0 text (of_nat n) s;
     s \<leftarrow> printf (cstr (''%s'' @ [CHR 0x0a])) [Str text] s;
     s \<leftarrow> msg ''[Test] read'' s;
     let buffer = replicate 40 0;
     (_, out, s) \<leftarrow> read_fd e fd0 (of_nat n) s;
     printf (cstr (''%s'' @ [CHR 0x0a])) [Str (blit buffer 0 out)] s }"

definition fsInit :: "env \<Rightarrow> 'a files_scheme \<Rightarrow> 'a files_scheme option" where
  "fsInit e s = do {
     (_, s) \<leftarrow> hardDriverInit (e_dev e) s;
     let s = blockCacheInit s;
     let s = inodeCacheInit s;
     s \<leftarrow> diskLayoutInit (j_sb (junk_at e s)) s;
     (r, s) \<leftarrow> allocInode (e_dev e) (junk_at e s) 0 s;
     let s = s\<lparr>root := r\<rparr>;
     (a, s) \<leftarrow> allocData (e_dev e) (junk_at e s) 0 s;
     s \<leftarrow> set_dblock (root s) 0 a s;
     let s = s\<lparr>cwd := root s\<rparr>;
     (n, _) \<leftarrow> strncpy (cwd_name s) (cstr ''root/'') 5;
     let s = s\<lparr>cwd_name := n\<rparr>;
     let s = s\<lparr>of_cnt := 0\<rparr>;
     let s = s\<lparr>max_fd := 0\<rparr>;
     fileTest e s }"

definition fsLoad :: "env \<Rightarrow> 'a files_scheme \<Rightarrow> 'a files_scheme option" where
  "fsLoad e s = do {
     (_, s) \<leftarrow> hardDriverInit (e_dev e) s;
     let s = blockCacheInit s;
     Some (inodeCacheInit s) }"

section \<open>Files whose blocks are cached\<close>

text \<open>
  \<open>file_blocks ind xs s\<close>: the first blocks of the inode are in the buffers \<open>xs\<close> of the cache, each
  at the front of its chain. \<open>file_data\<close> is what they hold.
\<close>

definition file_blocks :: "inode_ref \<Rightarrow> block_ref list \<Rightarrow> 'a fsys_scheme \<Rightarrow> bool" where
  "file_blocks ind xs s \<longleftrightarrow> length xs \<le> length (dblock (dinode (inodes s ind))) \<and>
     (\<forall>i < length xs. at_front (xs ! i) 0 (dblock (dinode (inodes s ind)) ! i) s \<and>
        length (buf (blocks s (xs ! i))) = 512)"

definition file_data :: "block_ref list \<Rightarrow> 'a disk_scheme \<Rightarrow> u8 list" where
  "file_data xs s = concat (map (\<lambda>x. buf (blocks s x)) xs)"

lemma cache_hit_frame:
  "inodes (cache_hit x s) = inodes s" "fds (cache_hit x s') = fds s'"
  by (simp_all add: cache_hit_def Let_def upd_blk_def)

lemma hits_frame:
  "inodes (fold cache_hit ys s) = inodes s" "fds (fold cache_hit ys s') = fds s'"
  "iotrace (fold cache_hit ys u) = iotrace u" "file_data xs (fold cache_hit ys u) = file_data xs u"
  "file_blocks ind xs (fold cache_hit ys s) = file_blocks ind xs s"
proof -
  show "inodes (fold cache_hit ys s) = inodes s" for s :: "'a fsys_scheme"
    by (induction ys arbitrary: s) (simp_all add: cache_hit_frame)
  show "fds (fold cache_hit ys s') = fds s'"
    by (induction ys arbitrary: s') (simp_all add: cache_hit_frame)
  show "iotrace (fold cache_hit ys u) = iotrace u"
    by (induction ys arbitrary: u) (simp_all add: cache_hit_blocks)
  show "file_data xs (fold cache_hit ys u) = file_data xs u"
    by (induction ys arbitrary: u) (simp_all add: cache_hit_blocks file_data_def)
  show "file_blocks ind xs (fold cache_hit ys s) = file_blocks ind xs s"
    by (induction ys arbitrary: s)
      (simp_all add: cache_hit_blocks cache_hit_frame file_blocks_def at_front_def)
qed

lemma hit_frame:
  "file_data xs (cache_hit y u) = file_data xs u" "file_blocks ind xs (cache_hit y s) = file_blocks ind xs s"
  using hits_frame(4) [of xs "[y]" u] hits_frame(5) [of ind xs "[y]" s] by simp_all

lemma peek_inside:
  assumes "length (buf (blocks s x)) = 512" "off + n \<le> 512"
  shows "peek e x off n s = Some (take n (drop off (buf (blocks s x))))"
  using assms by (simp add: peek_def peek_blk_def blk_mem_def)

lemma read_piece_front:
  assumes "file_blocks ind xs s" "i < length xs" "off + n \<le> 512"
  shows "read_piece e ind (int i) off n s =
    Some (take n (drop off (buf (blocks s (xs ! i)))), cache_hit (xs ! i) s)"
proof -
  from assms have f: "at_front (xs ! i) 0 (dblock (dinode (inodes s ind)) ! i) s"
    and l: "length (buf (blocks s (xs ! i))) = 512" "i < length (dblock (dinode (inodes s ind)))"
    by (auto simp: file_blocks_def)
  then show ?thesis using assms(3)
    by (simp add: read_piece_def dblock_at_def read_front [OF f] peek_inside cache_hit_blocks)
qed

lemma concat_slice:
  assumes "\<forall>b \<in> set bs. length b = 512" "i < length bs" "off + n \<le> 512"
  shows "take n (drop (512 * i + off) (concat bs)) = take n (drop off (bs ! i))"
  using assms
proof (induction bs arbitrary: i)
  case (Cons b bs)
  then show ?case
  proof (cases i)
    case 0
    then show ?thesis using Cons.prems by simp
  next
    case (Suc k)
    then show ?thesis using Cons by simp
  qed
qed simp

lemma file_slice:
  assumes "file_blocks ind xs s" "i < length xs" "off + n \<le> 512"
  shows "take n (drop off (buf (blocks s (xs ! i)))) = take n (drop (512 * i + off) (file_data xs s))"
proof -
  have "\<forall>b \<in> set (map (\<lambda>x. buf (blocks s x)) xs). length b = 512"
    using assms(1) by (auto simp: file_blocks_def in_set_conv_nth)
  from concat_slice [OF this _ assms(3), of i] assms(2) show ?thesis by (simp add: file_data_def)
qed

lemma take_drop_append: "take m (drop p d) @ take n (drop (p + m) d) = take (m + n) (drop p d)"
  by (simp add: take_add add.commute)

lemma read_whole_front:
  assumes "file_blocks ind xs s" "i + n \<le> length xs"
  shows "read_whole e ind (int i) n out s =
    Some (out @ take (512 * n) (drop (512 * i) (file_data xs s)), fold cache_hit (take n (drop i xs)) s)"
  using assms
proof (induction n arbitrary: i out s)
  case (Suc n)
  then have i: "i < length xs" by simp
  have p: "read_piece e ind (int i) 0 512 s =
      Some (take 512 (drop (512 * i) (file_data xs s)), cache_hit (xs ! i) s)"
    using read_piece_front [OF Suc.prems(1) i] file_slice [OF Suc.prems(1) i, of 0 512] by simp
  have fb: "file_blocks ind xs (cache_hit (xs ! i) s)"
    "file_data xs (cache_hit (xs ! i) s) = file_data xs s"
    using Suc.prems(1) by (simp_all add: hit_frame)
  have "read_whole e ind (int (Suc i)) n (out @ take 512 (drop (512 * i) (file_data xs s))) (cache_hit (xs ! i) s) =
      Some (out @ take (512 + 512 * n) (drop (512 * i) (file_data xs s)),
        fold cache_hit (take n (drop (Suc i) xs)) (cache_hit (xs ! i) s))"
    using Suc.IH [OF fb(1), of "Suc i"] Suc.prems(2)
      take_drop_append [of 512 "512 * i" "file_data xs s" "512 * n"]
    by (simp add: fb(2) algebra_simps)
  moreover have "take (Suc n) (drop i xs) = xs ! i # take n (drop (Suc i) xs)"
    using i by (simp add: Cons_nth_drop_Suc [symmetric])
  ultimately show ?case using p by (simp add: algebra_simps)
qed simp

lemma signed_div_nonneg: "int a sdiv int 512 = int (a div 512)" "int a smod int 512 = int (a mod 512)"
  by (cases "a = 0", simp_all add: signed_divide_int_def signed_modulo_int_def zdiv_int zmod_int)+

text \<open>The three parts of a read, as one slice of the data.\<close>

definition touched :: "nat \<Rightarrow> nat \<Rightarrow> block_ref list \<Rightarrow> block_ref list" where
  "touched p n xs =
     (if n \<le> 512 - p mod 512 then [xs ! (p div 512)]
      else xs ! (p div 512) # take ((n - (512 - p mod 512)) div 512) (drop (p div 512 + 1) xs) @
        [xs ! (p div 512 + 1 + (n - (512 - p mod 512)) div 512)])"

lemma read_parts:
  assumes fb: "file_blocks ind xs s" and long: "512 - p mod 512 < n"
    and len: "p div 512 + 1 + (n - (512 - p mod 512)) div 512 < length xs"
  shows "do {
      (out, s) \<leftarrow> read_piece e ind (int (p div 512)) (p mod 512) (512 - p mod 512) s;
      (out, s) \<leftarrow> read_whole e ind (int (p div 512 + 1)) ((n - (512 - p mod 512)) div 512) out s;
      (bs, s) \<leftarrow> read_piece e ind (int (p div 512 + 1 + (n - (512 - p mod 512)) div 512)) 0
        ((n - (512 - p mod 512)) mod 512) s;
      K (out @ bs) s } =
    K (take n (drop p (file_data xs s))) (fold cache_hit (touched p n xs) s)"
proof -
  define c r m where "c = p div 512" and "r = 512 - p mod 512" and "m = n - r"
  note defs = c_def [symmetric] r_def [symmetric] m_def [symmetric]
  let ?D = "file_data xs s"
  have "512 * c + p mod 512 = p" "p mod 512 < 512" by (simp_all add: c_def)
  moreover have "512 * (c + 1) = p + (512 - q)" if "512 * c + q = p" "q < 512" for q using that by arith
  ultimately have p: "512 * c + p mod 512 = p" "512 * (c + 1) = p + r" unfolding r_def by blast+
  have c: "c < length xs" "c + 1 + m div 512 < length xs" using len by (simp_all add: defs)
  have "read_piece e ind (int c) (p mod 512) r s = Some (take r (drop p ?D), cache_hit (xs ! c) s)"
    using read_piece_front [OF fb c(1), of "p mod 512" r] file_slice [OF fb c(1), of "p mod 512" r]
    by (simp add: p(1)) (simp add: r_def)
  moreover have "read_whole e ind (int (c + 1)) (m div 512) (take r (drop p ?D)) (cache_hit (xs ! c) s) =
      Some (take (r + 512 * (m div 512)) (drop p ?D),
        fold cache_hit (take (m div 512) (drop (c + 1) xs)) (cache_hit (xs ! c) s))"
    using read_whole_front [of ind xs "cache_hit (xs ! c) s" "c + 1" "m div 512"] fb c(2)
      take_drop_append [of r p ?D "512 * (m div 512)"] p(2)
    by (simp add: hit_frame)
  moreover have "read_piece e ind (int (c + 1 + m div 512)) 0 (m mod 512) u =
      Some (take (m mod 512) (drop (p + (r + 512 * (m div 512))) ?D), cache_hit (xs ! (c + 1 + m div 512)) u)"
    if "file_blocks ind xs u" "file_data xs u = ?D" for u :: "'a fsys_scheme"
  proof -
    have e: "512 * (c + 1 + m div 512) + 0 = p + (r + 512 * (m div 512))" using p(2) by (simp add: algebra_simps)
    have z: "0 + m mod 512 \<le> 512" by (simp add: less_imp_le)
    show ?thesis
      using read_piece_front [OF that(1) c(2) z, of e]
      unfolding file_slice [OF that(1) c(2) z] that(2) e .
  qed
  moreover have "n = r + 512 * (m div 512) + m mod 512" using long by (simp add: m_def r_def)
  moreover have "\<not> n \<le> r" using long by (simp add: r_def)
  ultimately show ?thesis
    using take_drop_append [of "r + 512 * (m div 512)" p ?D "m mod 512"] fb
    unfolding defs touched_def by (simp add: hits_frame hit_frame)
qed

lemma read_short:
  assumes "file_blocks ind xs s" "n \<le> 512 - p mod 512" "p div 512 < length xs"
  shows "read_piece e ind (int (p div 512)) (p mod 512) n s =
    Some (take n (drop p (file_data xs s)), fold cache_hit (touched p n xs) s)"
proof -
  have "p mod 512 + n \<le> 512" using assms(2) mod_less_divisor [of 512 p] by linarith
  then show ?thesis
    using read_piece_front [OF assms(1,3), of "p mod 512" n e] file_slice [OF assms(1,3), of "p mod 512" n] assms(2)
    by (simp add: touched_def)
qed

lemma bind_case_assoc:
  "Option.bind (Option.bind x (\<lambda>(a, b). h a b)) g = Option.bind x (\<lambda>(a, b). Option.bind (h a b) g)"
  by (cases x) auto

lemma set_fd_get:
  "get_fd fd s = Some f \<Longrightarrow> set_fd fd g s = Some (s\<lparr>fds := (fds s)[unat fd := g f]\<rparr>)"
  by (auto simp: get_fd_def set_fd_def split: if_splits)

text \<open>Read at an offset: what \<^verbatim>\<open>read\<close> computes before it reads, for offsets in the range of \<^verbatim>\<open>int\<close>.\<close>

lemma read_fd_eq:
  assumes "get_fd fd s = Some f" "find f = ind" "ind \<noteq> INull" "file_blocks ind xs s"
    and "unat (foff f) + unat n \<le> unat (isize (inodes s ind))" "unat (foff f) < 2147483648"
    and "(unat (foff f) + unat n) div 512 < length xs"
  defines "s' \<equiv> fold cache_hit (touched (unat (foff f)) (unat n) xs) s"
  shows "read_fd e fd n s = Some (n, take (unat n) (drop (unat (foff f)) (file_data xs s)),
    s'\<lparr>fds := (fds s)[unat fd := f\<lparr>foff := foff f + n\<rparr>]\<rparr>)"
proof -
  define p m where "p = unat (foff f)" and "m = unat n"
  have st: "sint (foff f) = int p" using sint_small [OF assms(6)] by (simp add: p_def)
  have un: "uint n = int m" unfolding m_def by (rule uint_nat)
  have bound: "\<not> isize (inodes s ind) < of_int (int p) + n"
  proof -
    have "unat (foff f) + unat n < 4294967296" by (rule le_less_trans [OF assms(5) unat_u32_less])
    then have "unat (foff f + n) = p + m" by (simp add: p_def m_def unat_word_ariths)
    then show ?thesis using assms(5) by (simp add: word_less_nat_alt p_def m_def)
  qed
  have fdr: "get_fd fd (fold cache_hit ys s) = Some f" for ys
    using assms(1) unfolding get_fd_def hits_frame .
  have setfd: "set_fd fd (\<lambda>f. f\<lparr>foff := foff f + n\<rparr>) (fold cache_hit ys s) =
      Some ((fold cache_hit ys s)\<lparr>fds := (fds s)[unat fd := f\<lparr>foff := foff f + n\<rparr>]\<rparr>)" for ys
    by (simp add: set_fd_get [OF fdr] hits_frame)
  have q: "p mod 512 < 512" by simp
  define r where "r = 512 - p mod 512"
  have r: "int 512 - int (p mod 512) = int r" using q unfolding r_def by linarith
  note un_st = read_fd_def Let_def assms(1) Option.bind.bind_lunit assms(2) st un signed_div_nonneg
    if_not_P [OF bound] if_not_P [OF assms(3)] r
  show ?thesis
  proof (cases "m \<le> r")
    case True
    then have l: "\<not> int r < int m" by simp
    have "p div 512 < length xs" using assms(7) unfolding p_def by (meson div_le_mono le_add1 le_less_trans)
    from read_short [OF assms(4) True [unfolded r_def] this, of e] show ?thesis
      using setfd [of "touched p m xs"]
      unfolding un_st if_not_P [OF l] s'_def p_def [symmetric] m_def [symmetric] by simp
  next
    case False
    define d where "d = m - r"
    have d: "m = r + d" "int r < int m" "int m - int r = int d"
      using False unfolding d_def by linarith+
    have z: "1 \<le> int d div int 512 + 1" "nat (int d div int 512 + 1) - 1 = d div 512"
      "int c + (int d div int 512 + 1) = int (c + 1 + d div 512)" "nat (int d mod int 512) = d mod 512" for c
      by (simp_all add: zdiv_int nat_mod_distrib)
    have k: "(p + m) div 512 = p div 512 + 1 + d div 512"
    proof -
      have "p mod 512 + r = 512" using q by (simp add: r_def)
      moreover have "p + m = 512 * (c + 1) + d" if "512 * c + j = p" "j + r = 512" for c j
        using that d(1) by simp
      ultimately have "p + m = 512 * (p div 512 + 1) + d" using mult_div_mod_eq [of 512 p] by blast
      moreover have "(512 * (p div 512 + 1) + d) div 512 = p div 512 + 1 + d div 512"
        by (rule div_mult_self4) simp
      ultimately show ?thesis by (simp only:)
    qed
    then have len: "p div 512 + 1 + d div 512 < length xs" using assms(7) by (simp add: p_def m_def)
    have "read_fd e fd n s = do {
      (out, s) \<leftarrow> read_piece e ind (int (p div 512)) (p mod 512) r s;
      (out, s) \<leftarrow> read_whole e ind (int (p div 512 + 1)) (d div 512) out s;
      (bs, s) \<leftarrow> read_piece e ind (int (p div 512 + 1 + d div 512)) 0 (d mod 512) s;
      s \<leftarrow> set_fd fd (\<lambda>f. f\<lparr>foff := foff f + n\<rparr>) s;
      Some (n, out @ bs, s) }"
      unfolding un_st d(3) if_P [OF z(1)] z(2-) if_P [OF d(2)] by (simp add: bind_case_assoc ac_simps del: Option.bind_assoc)
    also have "\<dots> = (case (take m (drop p (file_data xs s)), fold cache_hit (touched p m xs) s) of (out, s) \<Rightarrow>
        do { s \<leftarrow> set_fd fd (\<lambda>f. f\<lparr>foff := foff f + n\<rparr>) s; Some (n, out, s) })"
      using read_parts [OF assms(4), of p m e "\<lambda>out s. do { s \<leftarrow> set_fd fd (\<lambda>f. f\<lparr>foff := foff f + n\<rparr>) s; Some (n, out, s) }"]
        d(2) len by (simp only: r_def [symmetric] d_def [symmetric] of_nat_less_iff case_prod_conv)
    finally show ?thesis
      unfolding case_prod_conv setfd by (simp add: s'_def p_def m_def)
  qed
qed

lemma demo_files_file:
  "file_blocks (IBuf 3) [Buf 5, Buf 6] demo_files" "file_data [Buf 5, Buf 6] demo_files = replicate 512 7 @ replicate 512 9"
  "get_fd 0 demo_files = Some \<lparr>ftype = 0, foff = 500, fflag = 1, find = IBuf 3\<rparr>"
  "get_fd 1 demo_files = Some \<lparr>ftype = 0, foff = 600, fflag = 1, find = IBuf 3\<rparr>"
  "isize (inodes demo_files (IBuf 3)) = 600" "length (dblock (dinode (inodes demo_files (IBuf 3)))) = 64"
  by (auto simp: demo_files_fields demo_block_def file_blocks_def file_data_def at_front_def get_fd_def less_Suc_eq
      BLKHASH_nonneg)

text \<open>
  C11. A read inside the file of a descriptor whose blocks are cached gives exactly that slice of the
  file, whichever blocks it crosses, advances the descriptor and does not touch the disk. The block
  that holds the position behind the last byte must exist: it is read even for no byte of it.
\<close>

theorem read_fd_slice:
  assumes "get_fd fd s = Some f" "find f = ind" "ind \<noteq> INull" "file_blocks ind xs s"
    and "unat (foff f) + unat n \<le> unat (isize (inodes s ind))" "unat (foff f) < 2147483648"
    and "(unat (foff f) + unat n) div 512 < length xs"
  shows "\<exists>s'. read_fd e fd n s = Some (n, take (unat n) (drop (unat (foff f)) (file_data xs s)), s') \<and>
    get_fd fd s' = Some (f\<lparr>foff := foff f + n\<rparr>) \<and> iotrace s' = iotrace s \<and> file_data xs s' = file_data xs s"
proof -
  have "unat fd < length (fds s)" using assms(1) by (auto simp: get_fd_def split: if_splits)
  with read_fd_eq [OF assms, of e] show ?thesis
    by (simp add: get_fd_def hits_frame file_data_def [of _ "_ :: 'a files_scheme"])
       (simp add: file_data_def [symmetric] hits_frame)
qed

text \<open>Reading 100 bytes at 500 crosses from the first block into the second.\<close>

theorem read_fd_slice_witness:
  "\<exists>s'. read_fd demo_env 0 100 demo_files = Some (100, replicate 12 7 @ replicate 88 9, s') \<and>
    get_fd 0 s' = Some \<lparr>ftype = 0, foff = 600, fflag = 1, find = IBuf 3\<rparr>"
proof -
  have "take (unat (100 :: u32)) (drop (unat (500 :: u32)) (file_data [Buf 5, Buf 6] demo_files)) =
      replicate 12 7 @ replicate 88 9"
    by (simp add: demo_files_file)
  with read_fd_slice [OF demo_files_file(3) _ _ demo_files_file(1), of 100 demo_env] show ?thesis
    by (auto simp: demo_files_file)
qed

section \<open>Writing to cached files\<close>

lemma blockWrite_front:
  fixes s :: "'a files_scheme"
  assumes "at_front x d b s" "length (buf (blocks s x)) = 512"
  shows "\<exists>s1. blockWrite x s = Some (0, s1) \<and> inodes s1 = inodes s \<and> fds s1 = fds s \<and>
    (\<forall>q. bdevice (blocks s1 q) = bdevice (blocks s q) \<and> bblock (blocks s1 q) = bblock (blocks s q) \<and>
      hash_next (blocks s1 q) = hash_next (blocks s q) \<and> buf (blocks s1 q) = buf (blocks s q))"
proof -
  have d: "bdevice (blocks s x) = d" "bblock (blocks s x) = b" using assms(1) by (simp_all add: at_front_def)
  define u where "u = upd_blk x (\<lambda>b. b\<lparr>buf := buf (blocks (cache_hit x s) x)\<rparr>) (cache_hit x s)"
  have l: "length (buf (blocks u x)) = 512" by (simp add: u_def upd_blk_blocks cache_hit_blocks assms(2))
  have "blockWrite x s = Some (hardWrite x u)"
    by (simp add: blockWrite_def d get_front [OF assms(1)] u_def Let_def)
  moreover have "inodes u = inodes s" "fds u = fds s"
    by (simp_all add: u_def upd_blk_def cache_hit_frame)
  ultimately show ?thesis
    using hardWrite_eq [OF l] by (simp add: u_def upd_blk_blocks cache_hit_blocks)
qed

lemma write_piece_front:
  fixes s :: "'a files_scheme"
  assumes "file_blocks ind xs s" "i < length xs" "off + length bs \<le> 512"
  shows "\<exists>s1. write_piece e ind i off bs s = Some s1 \<and> inodes s1 = inodes s \<and> fds s1 = fds s \<and>
    file_blocks ind xs s1 \<and> take (length bs) (drop off (buf (blocks s1 (xs ! i)))) = bs"
proof -
  let ?x = "xs ! i"
  from assms have f: "at_front ?x 0 (dblock (dinode (inodes s ind)) ! i) s"
    and l: "length (buf (blocks s ?x)) = 512" "i < length (dblock (dinode (inodes s ind)))"
    by (auto simp: file_blocks_def)
  define u where "u = upd_blk ?x (\<lambda>b. b\<lparr>buf := blit (buf b) off bs\<rparr>) (cache_hit ?x s)"
  have pk: "poke e ?x off bs (cache_hit ?x s) = Some u"
    using assms(3) l(1) by (simp add: poke_def poke_blk_def cache_hit_blocks u_def upd_blk_def)
  have ub: "bdevice (blocks u q) = bdevice (blocks s q)" "bblock (blocks u q) = bblock (blocks s q)"
    "hash_next (blocks u q) = hash_next (blocks s q)"
    "buf (blocks u q) = (if q = ?x then blit (buf (blocks s q)) off bs else buf (blocks s q))" for q
    by (simp_all add: u_def upd_blk_blocks cache_hit_blocks)
  have bl: "length (blit (buf (blocks s ?x)) off bs) = 512" using assms(3) l(1) by simp
  have uf: "inodes u = inodes s" "fds u = fds s" by (simp_all add: u_def upd_blk_def cache_hit_frame)
  have "at_front ?x 0 (dblock (dinode (inodes s ind)) ! i) u" using f by (simp add: at_front_def ub)
  moreover have "length (buf (blocks u ?x)) = 512" using assms(3) l(1) by (simp add: ub)
  ultimately obtain s1 where s1: "blockWrite ?x u = Some (0, s1)"
    "inodes s1 = inodes u" "fds s1 = fds u"
    "\<And>q. bdevice (blocks s1 q) = bdevice (blocks u q) \<and> bblock (blocks s1 q) = bblock (blocks u q) \<and>
      hash_next (blocks s1 q) = hash_next (blocks u q) \<and> buf (blocks s1 q) = buf (blocks u q)"
    using blockWrite_front by metis
  have "write_piece e ind i off bs s = Some s1"
    using l(2) s1(1) pk by (simp add: write_piece_def dblock_at_def read_front [OF f])
  moreover have "file_blocks ind xs s1"
    using assms(1) bl by (auto simp: file_blocks_def at_front_def s1(2,4) uf ub)
  moreover have "take (length bs) (drop off (buf (blocks s1 ?x))) = bs"
    using assms(3) l(1) by (simp add: s1(4) ub take_drop_blit_same)
  ultimately show ?thesis using s1(2,3) uf by simp
qed



section \<open>Descriptors in use\<close>

lemma demo_files_table: "length (fds demo_files) = 128" "of_bitmap demo_files = [0, 0, 0, 0]" "cwd demo_files \<noteq> INull"
proof -
  have "replicate 4 (0 :: u32) = [0, 0, 0, 0]" by (simp add: numeral_eq_Suc)
  then show "of_bitmap demo_files = [0, 0, 0, 0]" by (simp add: demo_files_fields)
qed (simp_all add: demo_files_fields)

lemma open_scan_last:
  assumes "bitmap_free w3 [0..<32] = Some j"
  shows "open_scan [w0, w1, w2, w3] 0 fd = of_nat (12 + j)"
  using assms by (simp split: option.split del: upt_Suc)

lemma bitmap_free_even: "w AND 1 = 0 \<Longrightarrow> bitmap_free w [0..<32] = Some 0"
  by (simp add: upt_conv_Cons)

lemma open_plain:
  assumes "clean SLASH name" "length name \<le> 200" "length (f_terms (e_frame e (iotrace s))) = 200"
    and "cwd s \<noteq> INull" "of_bitmap s = [w0, w1, w2, w3]" "w3 AND 1 = 0" "length (fds s) = 128"
  shows "open_file e (name @ 0 # r) md s = Some (12, s\<lparr>max_fd := if sint (max_fd s) < 12 then 12 else max_fd s,
    fds := (fds s)[12 := \<lparr>ftype = itype (dinode (inodes s (cwd s))), foff = 0, fflag = ucast md, find = cwd s\<rparr>]\<rparr>)"
proof -
  have fd: "open_scan (of_bitmap s) 0 (- 1) = 12"
    using open_scan_last [OF bitmap_free_even [OF assms(6)]] by (simp add: assms(5))
  have nm: "namei e (name @ 0 # r) s = Some (cwd s, s)"
    using namei_plain [OF assms(1-3), of 0 r] by simp
  define t where "t = (if sint (max_fd s) < sint (12 :: u32) then s\<lparr>max_fd := 12\<rparr> else s)"
  have t: "length (fds t) = 128" "inodes t = inodes s" "fds t = fds s"
    "t = s\<lparr>max_fd := if sint (max_fd s) < 12 then 12 else max_fd s\<rparr>"
    using assms(7) by (simp_all add: t_def)
  have rec: "f\<lparr>find := a, foff := b, ftype := c, fflag := d\<rparr> = \<lparr>ftype = c, foff = b, fflag = d, find = a\<rparr>"
    for f :: file_t and a b c d by (cases f) simp
  have "open_file e (name @ 0 # r) md s = do {
      s \<leftarrow> set_fd 12 (\<lambda>f. f\<lparr>find := cwd s\<rparr>) t;
      s \<leftarrow> set_fd 12 (\<lambda>f. f\<lparr>foff := 0\<rparr>) s;
      s' \<leftarrow> set_fd 12 (\<lambda>f. f\<lparr>ftype := itype (dinode (inodes s (cwd t)))\<rparr>) s;
      s \<leftarrow> set_fd 12 (\<lambda>f. f\<lparr>fflag := ucast md\<rparr>) s';
      Some (12, s) }"
    unfolding open_file_def nm Option.bind.bind_lunit case_prod_conv if_not_P [OF assms(4)] Let_def fd t_def [symmetric]
    by (simp add: t_def)
  also have "\<dots> = Some (12, t\<lparr>fds := (fds s)[12 := \<lparr>ftype = itype (dinode (inodes s (cwd s))), foff = 0,
      fflag = ucast md, find = cwd s\<rparr>]\<rparr>)"
    using assms(7) by (simp add: set_fd_def t(2,3) rec) (simp add: t_def)
  finally show ?thesis unfolding t(4) by simp
qed

text \<open>
  Opening by a plain name, with a bitmap that marks nothing: the current directory is opened, not
  the named file, under descriptor 12, and the next open gets descriptor 12 again and
  overwrites it. The bitmap is never set and the index of a free descriptor is computed with a
  factor 4 in place of 32.
\<close>

theorem open_gives_one_descriptor:
  assumes "clean SLASH name1" "length name1 \<le> 200" "clean SLASH name2" "length name2 \<le> 200"
    and "length (f_terms (e_frame e (iotrace s))) = 200"
    and "cwd s \<noteq> INull" "of_bitmap s = [0, 0, 0, 0]" "length (fds s) = 128"
  shows "\<exists>s1 s2. open_file e (name1 @ 0 # r1) md1 s = Some (12, s1) \<and>
    open_file e (name2 @ 0 # r2) md2 s1 = Some (12, s2) \<and>
    get_fd 12 s2 = Some \<lparr>ftype = itype (dinode (inodes s (cwd s))), foff = 0, fflag = ucast md2, find = cwd s\<rparr> \<and>
    (\<forall>fd. fd \<noteq> 12 \<longrightarrow> get_fd fd s2 = get_fd fd s)"
proof -
  note o1 = open_plain [OF assms(1,2,5-7) _ assms(8), of r1 md1]
  define s1 where "s1 = s\<lparr>max_fd := if sint (max_fd s) < 12 then 12 else max_fd s,
    fds := (fds s)[12 := \<lparr>ftype = itype (dinode (inodes s (cwd s))), foff = 0, fflag = ucast md1, find = cwd s\<rparr>]\<rparr>"
  have s1: "iotrace s1 = iotrace s" "cwd s1 = cwd s" "of_bitmap s1 = [0, 0, 0, 0]" "length (fds s1) = 128"
    "inodes s1 = inodes s"
    using assms(7,8) by (simp_all add: s1_def)
  note o2 = open_plain [OF assms(3,4), of e s1 0 0 0 0 r2 md2]
  have ne: "unat fd \<noteq> 12" if "fd \<noteq> 12" for fd :: u32
    using that by (auto simp: word_unat_eq_iff)
  show ?thesis
    using o1 o2 assms(5-8) s1 ne
    by (auto simp: s1_def [symmetric] get_fd_def) (auto simp: s1_def get_fd_def ne)
qed

theorem open_gives_one_descriptor_witness:
  "\<exists>s1 s2. open_file demo_env (cstr ''one'') 1 demo_files = Some (12, s1) \<and>
    open_file demo_env (cstr ''two'') 1 s1 = Some (12, s2)"
  using open_gives_one_descriptor [of "[0x6f, 0x6e, 0x65]" "[0x74, 0x77, 0x6f]" demo_env demo_files "[]" 1 "[]" 1]
  by (auto simp: clean_def cstr_def demo_files_table)

text \<open>
  Closing clears a bit behind the bitmap for every descriptor from 16 on: the bit index is divided by
  4 in place of 32. For 20 to 23 the bit is one of the read offset of descriptor 0.
\<close>

theorem close_hits_other_file:
  assumes "20 \<le> fd" "fd < 24" "length (fds s) = 128"
  shows "\<exists>s1. close fd s = Some s1 \<and> of_bitmap s1 = of_bitmap s \<and>
    get_fd fd s1 = Some \<lparr>ftype = F_NONE, foff = 0, fflag = M_NONE, find = INull\<rparr> \<and>
    get_fd 0 s1 = map_option (\<lambda>f. f\<lparr>foff := clear_bit (foff f) (unat fd - 20)\<rparr>) (get_fd 0 s)"
proof -
  define k where "k = unat fd"
  have k: "20 \<le> k" "k < 24" using assms(1,2) by (simp_all add: k_def word_le_nat_alt word_less_nat_alt)
  then have i: "k div 4 = 5" "k mod 4 = k - 20" by presburger+
  have l: "k < length (fds s)" "0 < length (fds s)" "k \<noteq> 0" using k assms(3) by simp_all
  then show ?thesis
    unfolding close_def set_fd_def get_fd_def k_def [symmetric] bclr_def i Let_def by simp
qed

theorem close_hits_other_file_witness:
  "\<exists>s1. close 22 demo_files = Some s1 \<and> get_fd 0 s1 = Some \<lparr>ftype = 0, foff = clear_bit 500 2, fflag = 1, find = IBuf 3\<rparr>"
  using close_hits_other_file [of 22 demo_files] by (auto simp: demo_files_table demo_files_file(3))

end
