(* ===== verification/Fs_Invariant.thy ===== *)
theory Fs_Invariant
  imports Files
begin

text \<open>
  The shape of the file system's memory: every block has a buffer of 512 bytes and every inode 64
  block addresses, through every operation of \<^verbatim>\<open>src/fs.c\<close>. One lemma per operation, in the order in
  which they call one another; \<open>yields x P\<close> says that the result of \<open>x\<close>, if there is one, satisfies
  \<open>P\<close>, and the rules of \<open>yields\<close> follow the structure of the definitions.
\<close>

section \<open>Results of partial operations\<close>

definition yields :: "'a option \<Rightarrow> ('a \<Rightarrow> bool) \<Rightarrow> bool" where
  "yields x P \<longleftrightarrow> (\<forall>y. x = Some y \<longrightarrow> P y)"

lemma yields_bind: "yields x Q \<Longrightarrow> (\<And>y. Q y \<Longrightarrow> yields (f y) P) \<Longrightarrow> yields (Option.bind x f) P"
  by (auto simp: yields_def bind_eq_Some_conv)

lemma yields_simps [simp]: "yields (Some y) P \<longleftrightarrow> P y" "yields None P"
  by (simp_all add: yields_def)

lemma yields_if: "(b \<Longrightarrow> yields x P) \<Longrightarrow> (\<not> b \<Longrightarrow> yields y P) \<Longrightarrow> yields (if b then x else y) P"
  by simp

lemma yields_prod: "(\<And>a b. y = (a, b) \<Longrightarrow> yields (f a b) P) \<Longrightarrow> yields (case y of (a, b) \<Rightarrow> f a b) P"
  by (cases y) simp

lemma yields_any: "yields x (\<lambda>_. True)"
  by (simp add: yields_def)

lemma yields_mono: "yields x P \<Longrightarrow> (\<And>y. P y \<Longrightarrow> Q y) \<Longrightarrow> yields x Q"
  by (auto simp: yields_def)

text \<open>An operation that returns a state, a state with a value, or a state with two.\<close>

abbreviation (input) yields1 :: "'s option \<Rightarrow> ('s \<Rightarrow> bool) \<Rightarrow> bool" where
  "yields1 x P \<equiv> yields x P"
abbreviation (input) yields2 :: "('a \<times> 's) option \<Rightarrow> ('s \<Rightarrow> bool) \<Rightarrow> bool" where
  "yields2 x P \<equiv> yields x (\<lambda>(_, s). P s)"
abbreviation (input) yields3 :: "('a \<times> 'b \<times> 's) option \<Rightarrow> ('s \<Rightarrow> bool) \<Rightarrow> bool" where
  "yields3 x P \<equiv> yields x (\<lambda>(_, _, s). P s)"

text \<open>Binding such a result, by its shape; \<open>keep\<close> collects the steps of the proofs below.\<close>

named_theorems keep \<open>steps that keep the shape\<close>

lemma bind1: "yields x Q \<Longrightarrow> (\<And>s. Q s \<Longrightarrow> yields (g s) P) \<Longrightarrow> yields (Option.bind x g) P"
  by (rule yields_bind)

lemma bind2:
  "yields2 x Q \<Longrightarrow> (\<And>a s. Q s \<Longrightarrow> yields (g a s) P) \<Longrightarrow> yields (Option.bind x (\<lambda>(a, s). g a s)) P"
  by (auto simp: yields_def bind_eq_Some_conv)

lemma bind3:
  "yields3 x Q \<Longrightarrow> (\<And>a b s. Q s \<Longrightarrow> yields (g a b s) P) \<Longrightarrow> yields (Option.bind x (\<lambda>(a, b, s). g a b s)) P"
  by (auto simp: yields_def bind_eq_Some_conv)

declare yields_if [keep]

section \<open>The shape\<close>

text \<open>The file system does not take part in scheduling either: \<open>T\<close> is what the scheduler works on.\<close>

type_synonym sched_view = "thread list \<times> thr_ref \<times> thr_ref"

definition view :: "'a thr_scheme \<Rightarrow> sched_view" where
  "view s = (thrqueue s, thr_current s, sched_t s)"

definition fs_ok :: "sched_view \<Rightarrow> 'a fsys_scheme \<Rightarrow> bool" where
  "fs_ok T s \<longleftrightarrow> view s = T \<and> (\<forall>r. length (buf (blocks s r)) = 512) \<and>
     (\<forall>r. length (dblock (dinode (inodes s r))) = 64)"

definition env_ok :: "env \<Rightarrow> bool" where
  "env_ok e \<longleftrightarrow> (\<forall>tr. length (buf (j_stack (f_junk (e_frame e tr)))) = 512)"

lemma fs_okD: "fs_ok T s \<Longrightarrow> length (buf (blocks s r)) = 512" "fs_ok T s \<Longrightarrow> length (dblock (dinode (inodes s n))) = 64"
  by (simp_all add: fs_ok_def)

lemma fs_ok_cong:
  "fs_ok T s \<Longrightarrow> blocks s' = blocks s \<Longrightarrow> inodes s' = inodes s \<Longrightarrow> view s' = view s \<Longrightarrow> fs_ok T s'"
  by (simp add: fs_ok_def)

lemma view_simps [simp]:
  "view (upd_blk r f s) = view s" "view (upd_ino n g t) = view t"
  "view (s\<lparr>blocks := bs\<rparr>) = view s" "view (t\<lparr>inodes := is\<rparr>) = view t"
  "view (u\<lparr>cslLock := l\<rparr>) = view u" "view (u\<lparr>iotrace := tr\<rparr>) = view u" "view (u\<lparr>iflag := b\<rparr>) = view u"
  "view (u\<lparr>row := i\<rparr>) = view u" "view (u\<lparr>col := i\<rparr>) = view u" "view (u\<lparr>videoMemory := vm\<rparr>) = view u"
  by (simp_all add: view_def upd_blk_def upd_ino_def)

lemma fs_ok_upd_blk:
  "fs_ok T s \<Longrightarrow> (\<And>b. length (buf b) = 512 \<Longrightarrow> length (buf (f b)) = 512) \<Longrightarrow> fs_ok T (upd_blk r f s)"
  unfolding fs_ok_def view_simps by (simp add: upd_blk_def)

lemma fs_ok_upd_ino:
  "fs_ok T s \<Longrightarrow> (\<And>n. length (dblock (dinode n)) = 64 \<Longrightarrow> length (dblock (dinode (f n))) = 64) \<Longrightarrow> fs_ok T (upd_ino r f s)"
  unfolding fs_ok_def view_simps by (simp add: upd_ino_def)

lemmas shape_intros = fs_ok_upd_blk fs_ok_upd_ino

section \<open>Messages and ports\<close>

lemma fold_putc_store:
  "blocks (fold putc t s) = blocks (s :: 'a fsys_scheme)" "inodes (fold putc t s) = inodes s"
  "view (fold putc t s) = view s"
proof -
  have "inodes (putc c s) = inodes s" "view (putc c s) = view s" for c and s :: "'a fsys_scheme"
    by (simp_all add: putc_def scroll_def clear_def Let_def)
  then show "inodes (fold putc t s) = inodes s" "view (fold putc t s) = view s"
    by (induction t arbitrary: s) simp_all
qed (rule fold_putc_blocks)

lemma printf_ok: "fs_ok T s \<Longrightarrow> yields1 (printf fmt args s) (fs_ok T)"
  unfolding yields_def
  by (cases "lock (cslLock s) = 0")
    (auto simp: printf_def lock_console_free lock_console_held printf_loop_text bind_eq_Some_conv
      unlock_console_def spinlockUnlock_def Let_def cli_def sti_def fold_putc_store elim!: fs_ok_cong)

lemma msg_ok: "fs_ok T s \<Longrightarrow> yields1 (msg m s) (fs_ok T)"
  unfolding msg_def by (rule printf_ok)

lemma printi_ok: "fs_ok T s \<Longrightarrow> yields1 (printi w base s) (fs_ok T)"
  unfolding yields_def printi_def
  by (auto simp: bind_eq_Some_conv Let_def fold_putc_store split: if_splits elim!: fs_ok_cong
      simp: putc_def scroll_def clear_def)

lemma port_frame:
  "blocks (outb p v s) = blocks (s :: 'a fsys_scheme)" "inodes (outb p v s) = inodes s"
  "view (outb p v s) = view s" "view (snd (inb dev p s)) = view s"
  "blocks (snd (inb dev p s)) = blocks s" "inodes (snd (inb dev p s)) = inodes s"
  by (simp_all add: outb_def inb_def)

lemma outb_ok [keep]: "fs_ok T s \<Longrightarrow> fs_ok T (outb p v s)"
  by (rule fs_ok_cong) (simp_all add: port_frame)

lemma inb_ok [keep]:
  "fs_ok T s \<Longrightarrow> (\<And>v s'. fs_ok T s' \<Longrightarrow> yields (g v s') P) \<Longrightarrow> yields (case inb dev p s of (v, s') \<Rightarrow> g v s') P"
proof -
  assume ok: "fs_ok T s" and g: "\<And>v s'. fs_ok T s' \<Longrightarrow> yields (g v s') P"
  obtain v s' where i: "inb dev p s = (v, s')" by fastforce
  with ok have "fs_ok T s'" using port_frame(4-6) [of dev p s] by (auto elim: fs_ok_cong)
  then show ?thesis using g i by simp
qed

lemmas [keep] = printf_ok bind1 [OF printf_ok] msg_ok bind1 [OF msg_ok] printi_ok bind1 [OF printi_ok]

lemma testIdeState_ok: "fs_ok T s \<Longrightarrow> yields2 (testIdeState dev s) (fs_ok T)"
  unfolding testIdeState_def Let_def testIdeState_loop_id by (auto intro!: keep)

lemma identify_loop_ok:
  assumes ok: "fs_ok T s"
  shows "yields2 (identify_loop dev v s) (fs_ok T)"
proof -
  have "fs_ok T s \<longrightarrow> fs_ok T (snd q)" if run: "identify_loop dev v s = Some q" for q
  proof (rule identify_loop.raw_induct [where P = "\<lambda>_ _ s q. fs_ok T s \<longrightarrow> fs_ok T (snd q)", OF _ run])
    fix f and dev' :: device and v :: u8 and q and u :: "'a fsys_scheme"
    assume IH: "\<And>(dev' :: device) (v :: u8) (u :: 'a fsys_scheme) q. f dev' v u = Some q \<Longrightarrow> fs_ok T u \<longrightarrow> fs_ok T (snd q)"
      and eq: "(if v AND 0x80 = 0x80 \<and> v AND 0x01 \<noteq> 0x01
        then let (v, u) = inb dev' IDE_CMD_PORT u in f dev' v u else Some (v, u)) = Some q"
    have "fs_ok T u \<Longrightarrow> fs_ok T (snd (inb dev' IDE_CMD_PORT u))"
      using port_frame(4-6) [of dev' IDE_CMD_PORT u] fs_ok_cong by blast
    then show "fs_ok T u \<longrightarrow> fs_ok T (snd q)"
      using eq IH by (auto simp: Let_def split: if_splits prod.splits)
  qed
  with ok show ?thesis by (auto simp: yields_def)
qed

lemmas [keep] = bind2 [OF testIdeState_ok] bind2 [OF identify_loop_ok] shape_intros

lemma hardDriverInit_ok: "fs_ok T s \<Longrightarrow> yields2 (hardDriverInit dev s) (fs_ok T)"
  unfolding hardDriverInit_def Let_def by (auto intro!: keep simp: fs_okD)

section \<open>The block cache\<close>

lemma hardReadWait_ok: "fs_ok T s \<Longrightarrow> yields2 (hardReadWait dev r s) (fs_ok T)"
proof -
  assume ok: "fs_ok T s"
  have m: "yields2 (map_option (\<lambda>s. (- 1 :: u32, s)) (msg m s)) (fs_ok T)" if "fs_ok T s" for m and s :: "'a fsys_scheme"
    using msg_ok [OF that] by (auto simp: yields_def)
  from ok have t: "fs_ok T (s\<lparr>iotrace := tr\<rparr>)" for tr by (rule fs_ok_cong) simp_all
  show ?thesis unfolding hardReadWait_eq
    using ok by (intro yields_if m t) (simp add: fs_ok_def)
qed

lemma hardWrite_ok: "fs_ok T s \<Longrightarrow> fs_ok T (snd (hardWrite r s))"
  using hardWrite_eq [of s r] by (simp add: fs_ok_def)

lemma bcache_link_ok: "fs_ok T s \<Longrightarrow> fs_ok T (bcache_link i s)"
  unfolding bcache_link_def Let_def by (auto intro!: keep simp: fs_okD)

lemma bcache_unhash_ok: "fs_ok T s \<Longrightarrow> fs_ok T (bcache_unhash i s)"
  unfolding bcache_unhash_def Let_def by (auto intro!: keep simp: fs_okD)

lemma fold_ok: "(\<And>i s. fs_ok T s \<Longrightarrow> fs_ok T (f i s)) \<Longrightarrow> fs_ok T s \<Longrightarrow> fs_ok T (fold f is s)"
  by (induction "is" arbitrary: s) auto

lemma blockCacheInit_ok: "fs_ok T s \<Longrightarrow> fs_ok T (blockCacheInit s)"
  unfolding blockCacheInit_def Let_def
  by (auto intro!: keep fold_ok bcache_link_ok bcache_unhash_ok simp: fs_okD)

lemma cache_hit_ok [keep]: "fs_ok T s \<Longrightarrow> fs_ok T (cache_hit x s)"
  unfolding cache_hit_def Let_def by (auto intro!: keep simp: fs_okD)

lemma cache_take_ok [keep]: "fs_ok T s \<Longrightarrow> case cache_take key d b s of (_, s') \<Rightarrow> fs_ok T s'"
  unfolding cache_take_def Let_def case_prod_conv by (auto intro!: keep simp: fs_okD)

lemma pure_bind: "(\<And>k. yields (g k) P) \<Longrightarrow> yields (Option.bind x g) P"
  by (auto simp: yields_def bind_eq_Some_conv)

lemmas [keep] = pure_bind [where x = "BLKHASH b" for b]
  pure_bind [where x = "cache_find k d b s" for k d b s] pure_bind [where x = "chain_pred b p s" for b p s]

lemma getCachedBlock_ok: "fs_ok T s \<Longrightarrow> yields2 (getCachedBlock d b s) (fs_ok T)"
  unfolding getCachedBlock_def by (auto intro!: keep simp: fs_okD split: option.split)

lemmas [keep] = bind2 [OF getCachedBlock_ok] bind2 [OF hardReadWait_ok]

lemma blockRead_ok: "fs_ok T s \<Longrightarrow> yields2 (blockRead dev d b s) (fs_ok T)"
  unfolding blockRead_def by (auto intro!: keep simp: fs_okD)

lemma hardWrite_case [keep]: "fs_ok T s \<Longrightarrow> case hardWrite r s of (_, s') \<Rightarrow> fs_ok T s'"
  using hardWrite_ok [of T s r] by (simp add: case_prod_beta)

lemma blockWrite_ok: "fs_ok T s \<Longrightarrow> yields2 (blockWrite r s) (fs_ok T)"
  unfolding blockWrite_def Let_def by (auto intro!: keep simp: fs_okD)

lemma chain_remove_ok: "fs_ok T s \<Longrightarrow> yields1 (chain_remove k r s) (fs_ok T)"
  unfolding chain_remove_def Let_def by (auto intro!: keep simp: fs_okD)

lemmas [keep] = bind1 [OF chain_remove_ok] blockRead_ok bind2 [OF blockRead_ok] blockWrite_ok bind2 [OF blockWrite_ok]

lemma relCachedBlock_ok: "fs_ok T s \<Longrightarrow> yields1 (relCachedBlock r s) (fs_ok T)"
  unfolding relCachedBlock_def Let_def by (auto intro!: keep simp: fs_okD)

lemmas [keep] = relCachedBlock_ok bind1 [OF relCachedBlock_ok]

section \<open>The superblock\<close>

lemma readSuperblock_ok: "fs_ok T s \<Longrightarrow> yields3 (readSuperblock dev sb d s) (fs_ok T)"
  unfolding readSuperblock_def by (auto intro!: keep)

lemma writeSuperblock_ok: "fs_ok T s \<Longrightarrow> yields2 (writeSuperblock sb d s) (fs_ok T)"
  unfolding writeSuperblock_def Let_def by (auto intro!: keep)

lemmas [keep] = bind3 [OF readSuperblock_ok] bind2 [OF writeSuperblock_ok]

lemma diskLayoutInit_ok: "fs_ok T s \<Longrightarrow> yields1 (diskLayoutInit sb s) (fs_ok T)"
  unfolding diskLayoutInit_def Let_def by (auto intro!: keep)

section \<open>Inodes and bitmaps\<close>

lemma icache_link_ok: "fs_ok T s \<Longrightarrow> fs_ok T (icache_link i s)"
  unfolding icache_link_def Let_def by (auto intro!: keep)

lemma icache_unhash_ok: "fs_ok T s \<Longrightarrow> fs_ok T (icache_unhash i s)"
  unfolding icache_unhash_def Let_def by (auto intro!: keep)

lemma inodeCacheInit_ok: "fs_ok T s \<Longrightarrow> fs_ok T (inodeCacheInit s)"
  unfolding inodeCacheInit_def Let_def by (auto intro!: keep fold_ok icache_link_ok icache_unhash_ok)

lemma icache_take_ok [keep]: "fs_ok T s \<Longrightarrow> case icache_take key s of (_, s') \<Rightarrow> fs_ok T s'"
  unfolding icache_take_def Let_def case_prod_conv by (auto intro!: keep)

lemmas [keep] = pure_bind [where x = "IHASH n" for n] pure_bind [where x = "icache_find k n s" for k n s]
  pure_bind [where x = "bitmap_scan bs i n" for bs i n]

lemma getCachedInode_ok: "fs_ok T s \<Longrightarrow> yields2 (getCachedInode n d s) (fs_ok T)"
  unfolding getCachedInode_def Let_def by (auto intro!: keep split: option.split)

lemma poke_buf_ok: "fs_ok T s \<Longrightarrow> yields1 (poke_buf r i v s) (fs_ok T)"
  unfolding poke_buf_def by (auto intro!: keep)

lemmas [keep] = bind2 [OF getCachedInode_ok] bind1 [OF poke_buf_ok]

lemma getInode_ok: "fs_ok T s \<Longrightarrow> yields1 (getInode dev sb n d s) (fs_ok T)"
  unfolding getInode_def by (auto intro!: keep)

lemma length_di_bytes [simp]: "length (di_bytes d) = 36 + 4 * length (dblock d)"
proof -
  have "length (concat (map bytes_of ws)) = 4 * length ws" for ws by (induction ws) simp_all
  then show ?thesis by (simp add: di_bytes_def bytes16_def)
qed

lemma zero_dinode_length [simp]: "length (dblock zero_dinode) = 64"
  by (simp add: zero_dinode_def)

lemma allocInode_mark_ok:
  "fs_ok T s \<Longrightarrow> length (buf (j_stack jk)) = 512 \<Longrightarrow> yields3 (allocInode_mark dev jk d s) (fs_ok T)"
  unfolding allocInode_mark_def Let_def by (auto intro!: keep)

lemmas [keep] = bind3 [OF allocInode_mark_ok]

lemma allocInode_ok:
  "fs_ok T s \<Longrightarrow> length (buf (j_stack jk)) = 512 \<Longrightarrow> yields2 (allocInode dev jk d s) (fs_ok T)"
  unfolding allocInode_def Let_def by (auto intro!: keep simp: fs_okD)

lemma freeInode_ok: "fs_ok T s \<Longrightarrow> yields2 (freeInode dev jk d n s) (fs_ok T)"
  unfolding freeInode_def Let_def by (auto intro!: keep)

lemma allocData_ok:
  "fs_ok T s \<Longrightarrow> length (buf (j_stack jk)) = 512 \<Longrightarrow> yields2 (allocData dev jk d s) (fs_ok T)"
  unfolding allocData_def Let_def by (auto intro!: keep)

lemma freeData_ok:
  "fs_ok T s \<Longrightarrow> length (buf (j_stack jk)) = 512 \<Longrightarrow> yields2 (freeData dev jk d a s) (fs_ok T)"
  unfolding freeData_def Let_def by (auto intro!: keep)

section \<open>Directories\<close>

lemma junk_ok: "env_ok e \<Longrightarrow> length (buf (j_stack (junk_at e s))) = 512"
  by (simp add: env_ok_def)

lemmas [keep] = bind2 [OF allocInode_ok] bind2 [OF freeInode_ok] bind2 [OF allocData_ok] bind2 [OF freeData_ok]
  pure_bind [where x = "strcmp a b" for a b]
  pure_bind [where x = "dblock_at n i s" for n i s] pure_bind [where x = "split p c t" for p c t]
  pure_bind [where x = "getFileName p n" for p n] pure_bind [where x = "set_name d n" for d n]
  pure_bind [where x = "pathcat p c" for p c] pure_bind [where x = "get_fd fd s" for fd s]
  pure_bind [where x = "src_bytes b p n" for b p n] pure_bind [where x = "strlen t" for t]
  pure_bind [where x = "strncpy d t n" for d t n]

lemma set_links_ok: "yields (set_links addr bs b) (\<lambda>b'. buf b' = buf b)"
  by (simp add: yields_def set_links_def bind_eq_Some_conv) auto

lemma blk_mem_length: "length (blk_mem addr b) = length (buf b) + 16"
  by (simp add: blk_mem_def links_of_def)

lemma poke_blk_ok:
  assumes "length (buf b) = 512"
  shows "yields (poke_blk addr b off bs) (\<lambda>b'. length (buf b') = 512)"
  unfolding poke_blk_def Let_def
proof (intro yields_if)
  assume "off + length bs \<le> length (blk_mem addr b)"
  then have "length (take 512 (blit (blk_mem addr b) off bs)) = 512" by (simp add: blk_mem_length assms)
  then show "yields (set_links addr (drop (length (buf b)) (blit (blk_mem addr b) off bs))
      (b\<lparr>buf := take (length (buf b)) (blit (blk_mem addr b) off bs)\<rparr>)) (\<lambda>b'. length (buf b') = 512)"
    using assms by (intro yields_mono [OF set_links_ok]) simp
qed (simp_all add: assms)

lemma poke_ok: "fs_ok T s \<Longrightarrow> yields1 (poke e db off bs s) (fs_ok T)"
  using poke_blk_ok [OF fs_okD(1) [of T s db], of "e_addr e" off bs]
  by (auto simp: poke_def yields_def intro!: keep)

lemma set_dblock_ok: "fs_ok T s \<Longrightarrow> yields1 (set_dblock n i v s) (fs_ok T)"
  unfolding set_dblock_def by (auto intro!: keep)

lemma peek_length: "yields (peek e db off n s) (\<lambda>bs. length bs = n)"
  by (auto simp: peek_def peek_blk_def yields_def)

lemmas [keep] = bind1 [OF peek_length] bind1 [OF poke_ok] bind1 [OF set_dblock_ok]

lemma load_dinode_ok: "fs_ok T s \<Longrightarrow> yields1 (load_dinode e n ind s) (fs_ok T)"
  unfolding load_dinode_def Let_def by (auto intro!: keep simp: di_of_bytes_def)

lemmas [keep] = bind1 [OF load_dinode_ok]

lemma enter_ok: "fs_ok T s \<Longrightarrow> yields2 (enter e de ind s) (fs_ok T)"
  unfolding enter_def by (auto intro!: keep)

lemma namei_entries_ok: "fs_ok T s \<Longrightarrow> yields2 (namei_entries e trm full db off ind s) (fs_ok T)"
proof (induction "512 - off" arbitrary: off ind s rule: less_induct)
  case less
  note step = less.hyps [OF entry_bound_step]
  have "yields2 (if c = 0 then enter e de ind s else Some (ind, s)) (fs_ok T)" for c :: int and de
    using enter_ok [OF less.prems] less.prems by simp
  note entered = bind2 [OF this]
  show ?case
    by (subst namei_entries.simps) (auto intro!: keep entered step simp: less.prems simp del: yields_if)
qed

lemma namei_blocks_ok: "fs_ok T s \<Longrightarrow> yields2 (namei_blocks e terms i ind s) (fs_ok T)"
proof (induction "64 - i" arbitrary: i ind s rule: less_induct)
  case less
  note [keep] = bind2 [OF namei_entries_ok]
  from less.prems show ?case
    by (subst namei_blocks.simps) (auto intro!: keep less.hyps)
qed

lemmas [keep] = bind2 [OF namei_entries_ok] bind2 [OF namei_blocks_ok]

lemma namei_terms_ok: "fs_ok T s \<Longrightarrow> yields2 (namei_terms e terms is ind s) (fs_ok T)"
  by (induction "is" arbitrary: ind s) (auto intro!: keep)

lemma namei_ok: "fs_ok T s \<Longrightarrow> yields2 (namei e path s) (fs_ok T)"
  unfolding namei_def Let_def yields_def
  using namei_terms_ok [of T s, unfolded yields_def] by (auto simp: bind_eq_Some_conv)

lemmas [keep] = bind2 [OF namei_ok]

lemma add_entry_ok: "fs_ok T s \<Longrightarrow> yields2 (add_entry e who de pind s) (fs_ok T)"
  unfolding add_entry_def Let_def by (auto intro!: keep)

lemma files_fields [simp]:
  "fs_ok T (s\<lparr>cwd := i\<rparr>) = fs_ok T s" "fs_ok T (s\<lparr>root := i\<rparr>) = fs_ok T s" "fs_ok T (s\<lparr>cwd_name := n\<rparr>) = fs_ok T s"
  "fs_ok T (s\<lparr>of_cnt := w\<rparr>) = fs_ok T s" "fs_ok T (s\<lparr>max_fd := w\<rparr>) = fs_ok T s" "fs_ok T (s\<lparr>of_bitmap := bm\<rparr>) = fs_ok T s"
  "fs_ok T (s\<lparr>fds := fs\<rparr>) = fs_ok T s"
  by (simp_all add: fs_ok_def view_def)

lemma set_fd_ok: "fs_ok T s \<Longrightarrow> yields1 (set_fd fd f s) (fs_ok T)"
  by (simp add: set_fd_def)

lemmas [keep] = set_fd_ok bind1 [OF set_fd_ok] bind2 [OF add_entry_ok]

lemma creat_parent_ok:
  "fs_ok T s \<Longrightarrow> yields3 (if path ! 0 = SLASH
     then do {
       (p2, pname) \<leftarrow> getFileName path pn;
       de \<leftarrow> set_name de (drop p2 path);
       (pind, s) \<leftarrow> namei e pname s;
       Some (de, pind, s) }
     else do { de \<leftarrow> set_name de path; Some (de, cwd s, s) }) (fs_ok T)"
  by (auto intro!: keep)

lemma creat_ok: "fs_ok T s \<Longrightarrow> env_ok e \<Longrightarrow> yields2 (creat e path md s) (fs_ok T)"
  unfolding creat_def Let_def by (auto intro!: keep bind3 [OF creat_parent_ok] simp: junk_ok)

lemma mk_ok: "fs_ok T s \<Longrightarrow> env_ok e \<Longrightarrow> yields2 (mk e name s) (fs_ok T)"
  unfolding mk_def Let_def by (auto intro!: keep simp: junk_ok)

lemma ls_entries_ok: "fs_ok T s \<Longrightarrow> yields1 (ls_entries e fmt full db off ind s) (fs_ok T)"
proof (induction "512 - off" arbitrary: off ind s rule: less_induct)
  case less
  from less.prems show ?case
    by (subst ls_entries.simps) (auto intro!: keep less.hyps [OF entry_bound_step])
qed

lemma ls_blocks_ok: "fs_ok T s \<Longrightarrow> yields2 (ls_blocks e i ind s) (fs_ok T)"
proof (induction "64 - i" arbitrary: i ind s rule: less_induct)
  case less
  note [keep] = bind1 [OF ls_entries_ok]
  from less.prems show ?case by (subst ls_blocks.simps) (auto intro!: keep less.hyps)
qed

lemmas [keep] = bind1 [OF ls_entries_ok] bind2 [OF ls_blocks_ok]

lemma ls_ok: "fs_ok T s \<Longrightarrow> yields2 (ls e s) (fs_ok T)"
  unfolding ls_def Let_def by (auto intro!: keep)

lemma cd_ok: "fs_ok T s \<Longrightarrow> yields2 (cd e path s) (fs_ok T)"
  unfolding cd_def Let_def by (auto intro!: keep)

lemma rm_entries_ok: "fs_ok T s \<Longrightarrow> yields3 (rm_entries e name full db off de pind s) (fs_ok T)"
proof (induction "512 - off" arbitrary: off de s rule: less_induct)
  case less
  from less.prems show ?case
    by (subst rm_entries.simps) (auto intro!: keep less.hyps [OF entry_bound_step])
qed

lemma rm_read_ok: "fs_ok T s \<Longrightarrow> yields2 (rm_read e pind i s) (fs_ok T)"
  unfolding rm_read_def by (auto intro!: keep)

lemmas [keep] = bind3 [OF rm_entries_ok] bind2 [OF rm_read_ok]

fun search_ok :: "sched_view \<Rightarrow> 'a fsys_scheme search \<Rightarrow> bool" where
  "search_ok T (Unreadable s) = fs_ok T s"
| "search_ok T (Searched found de s) = fs_ok T s"

lemma rm_blocks_ok: "fs_ok T s \<Longrightarrow> yields (rm_blocks e name i de pind s) (search_ok T)"
proof (induction "64 - i" arbitrary: i de s rule: less_induct)
  case less
  from less.prems show ?case by (subst rm_blocks.simps) (auto intro!: keep less.hyps)
qed

lemma rm_find_ok: "fs_ok T s \<Longrightarrow> yields (rm_find e name de pind s) (search_ok T)"
  unfolding rm_find_def
  by (erule bind1 [OF rm_blocks_ok]) (auto intro!: keep split: search.split)

lemma rm_data_ok: "fs_ok T s \<Longrightarrow> env_ok e \<Longrightarrow> yields1 (rm_data e i ind s) (fs_ok T)"
proof (induction "64 - i" arbitrary: i s rule: less_induct)
  case less
  from less.prems show ?case by (subst rm_data.simps) (auto intro!: keep less.hyps simp: junk_ok)
qed

lemmas [keep] = bind1 [OF rm_data_ok]

lemma rm_ok: "fs_ok T s \<Longrightarrow> env_ok e \<Longrightarrow> yields2 (rm e path s) (fs_ok T)"
  unfolding rm_def Let_def
proof (rule bind3 [where Q = "fs_ok T"])
  show "yields3 (if path ! 0 = SLASH
      then do {
        (p2, pname) \<leftarrow> getFileName path (f_pname (e_frame e (iotrace s)));
        (pind, s) \<leftarrow> namei e pname s;
        Some (drop p2 path, pind, s) }
      else Some (path, cwd s, s)) (fs_ok T)" if "fs_ok T s"
    using that by (auto intro!: keep)
qed (auto intro!: keep bind1 [OF rm_find_ok] split: search.split simp: junk_ok)

section \<open>Files\<close>

lemma read_piece_ok: "fs_ok T s \<Longrightarrow> yields2 (read_piece e ind i off n s) (fs_ok T)"
  unfolding read_piece_def by (auto intro!: keep)

lemmas [keep] = bind2 [OF read_piece_ok]

lemma read_whole_ok: "fs_ok T s \<Longrightarrow> yields2 (read_whole e ind i n out s) (fs_ok T)"
  by (induction n arbitrary: i out s) (auto intro!: keep)

lemma write_piece_ok: "fs_ok T s \<Longrightarrow> yields1 (write_piece e ind i off bs s) (fs_ok T)"
  unfolding write_piece_def by (auto intro!: keep)

lemmas [keep] = bind2 [OF read_whole_ok] write_piece_ok bind1 [OF write_piece_ok]

lemma write_alloc_ok: "fs_ok T s \<Longrightarrow> env_ok e \<Longrightarrow> yields1 (write_alloc e ind i n s) (fs_ok T)"
  by (induction n arbitrary: i s) (auto intro!: keep simp: junk_ok)

lemma write_whole_ok: "fs_ok T s \<Longrightarrow> yields2 (write_whole e ind i n src p s) (fs_ok T)"
  by (induction n arbitrary: i p s) (auto intro!: keep)

lemmas [keep] = bind1 [OF write_alloc_ok] bind2 [OF write_whole_ok]

lemma read_fd_ok: "fs_ok T s \<Longrightarrow> yields3 (read_fd e fd n s) (fs_ok T)"
proof -
  have "yields2 (if b then do { (bs, s) \<leftarrow> read_piece e ind i 0 k s; Some (out @ bs, s) } else Some (out, s)) (fs_ok T)"
    if "fs_ok T s" for b ind i k out and s :: "'a files_scheme"
    using that by (auto intro!: keep)
  note [keep] = bind2 [OF this]
  assume "fs_ok T s"
  then show ?thesis unfolding read_fd_def Let_def by (auto intro!: keep simp del: yields_simps) (auto intro!: keep)
qed

lemma write_fd_ok: "fs_ok T s \<Longrightarrow> env_ok e \<Longrightarrow> yields2 (write_fd e fd src n s) (fs_ok T)"
proof -
  have "yields1 (if b then do { bs \<leftarrow> src_bytes src p k; write_piece e ind i 0 bs s } else Some s) (fs_ok T)"
    if "fs_ok T s" for b p ind i k and s :: "'a files_scheme"
    using that by (auto intro!: keep)
  note [keep] = bind1 [OF this]
  assume "fs_ok T s" "env_ok e"
  then show ?thesis unfolding write_fd_def Let_def by (auto intro!: keep)
qed

lemma open_file_ok: "fs_ok T s \<Longrightarrow> env_ok e \<Longrightarrow> yields2 (open_file e path md s) (fs_ok T)"
  unfolding open_file_def Let_def by (auto intro!: keep creat_ok)

lemma bclr_ok: "fs_ok T s \<Longrightarrow> yields1 (bclr i b s) (fs_ok T)"
  unfolding bclr_def Let_def by (auto intro!: keep)

lemma close_ok: "fs_ok T s \<Longrightarrow> yields1 (close fd s) (fs_ok T)"
  unfolding close_def by (auto intro!: keep bclr_ok)

lemmas [keep] = bind3 [OF read_fd_ok] bind2 [OF write_fd_ok] bind2 [OF open_file_ok] bind1 [OF close_ok]
  bind2 [OF creat_ok] bind2 [OF mk_ok] bind2 [OF ls_ok] bind2 [OF hardDriverInit_ok] bind1 [OF diskLayoutInit_ok]

lemma cat_blocks_ok: "fs_ok T s \<Longrightarrow> yields2 (cat_blocks e fd n buffer s) (fs_ok T)"
  by (induction n arbitrary: buffer s) (auto intro!: keep simp: Let_def)

lemmas [keep] = bind2 [OF cat_blocks_ok]

lemma cat_ok: "fs_ok T s \<Longrightarrow> env_ok e \<Longrightarrow> yields2 (cat e path s) (fs_ok T)"
  unfolding cat_def Let_def by (auto intro!: keep)

lemma fileTest_ok: "fs_ok T s \<Longrightarrow> env_ok e \<Longrightarrow> yields1 (fileTest e s) (fs_ok T)"
  unfolding fileTest_def Let_def by (auto intro!: keep)

lemma fsInit_ok: "fs_ok T s \<Longrightarrow> env_ok e \<Longrightarrow> yields1 (fsInit e s) (fs_ok T)"
  unfolding fsInit_def Let_def
  by (auto intro!: keep fileTest_ok blockCacheInit_ok inodeCacheInit_ok simp: junk_ok)

section \<open>The property\<close>


lemma demo_files_ok: "fs_ok (view demo_files) demo_files"
proof -
  have "length (buf (blocks demo_files r)) = 512" for r
    using demo_dir(9) by (cases "r = Buf 7") (auto simp: demo_files_fields demo_block_def)
  moreover have "length (dblock (dinode (inodes demo_files r))) = 64" for r
    by (auto simp: demo_files_fields demo_inode_def)
  ultimately show ?thesis by (simp add: fs_ok_def)
qed


end
