(* ===== verification/Schedule.thy ===== *)
theory Schedule
  imports Sync
begin

text \<open>
  The scheduler of \<^verbatim>\<open>src/thread.c\<close> as the implementation of an abstract one: a list of priorities,
  of which the first greatest positive one is chosen and loses a unit. The thread table refines the list,
  the real turns the abstract ones, for as long as priority is left.
\<close>

section \<open>The specification\<close>

fun spec_pick :: "int list \<Rightarrow> nat option" where
  "spec_pick [] = None"
| "spec_pick (p # ps) =
     (case spec_pick ps of
        None \<Rightarrow> if 0 < p then Some 0 else None
      | Some i \<Rightarrow> if ps ! i \<le> p then Some 0 else Some (Suc i))"

definition spec_turn :: "int list \<Rightarrow> int list" where
  "spec_turn ps = (case spec_pick ps of None \<Rightarrow> ps | Some i \<Rightarrow> ps[i := ps ! i - 1])"

lemma spec_pick_cases:
  "case spec_pick ps of
     None \<Rightarrow> \<forall>j < length ps. ps ! j \<le> 0
   | Some i \<Rightarrow> i < length ps \<and> 0 < ps ! i \<and> (\<forall>j < length ps. ps ! j \<le> ps ! i) \<and> (\<forall>j < i. ps ! j < ps ! i)"
proof (induction ps)
  case (Cons p ps)
  show ?case
  proof (cases "spec_pick ps")
    case None
    with Cons have "\<forall>j < length ps. ps ! j \<le> 0" by simp
    with None show ?thesis by (force simp: nth_Cons split: nat.split)
  next
    case (Some i)
    with Cons have i: "i < length ps" "0 < ps ! i" "\<forall>j < length ps. ps ! j \<le> ps ! i" "\<forall>j < i. ps ! j < ps ! i"
      by simp_all
    show ?thesis
    proof (cases "ps ! i \<le> p")
      case True
      with i have "\<forall>j < length ps. ps ! j \<le> p" by (meson order_trans)
      with Some True i(2) show ?thesis by (force simp: nth_Cons split: nat.split)
    next
      case False
      with Some i show ?thesis by (force simp: nth_Cons split: nat.split)
    qed
  qed
qed simp

interpretation spec: scheduler "\<lambda>ps. ps" spec_pick spec_turn
proof unfold_locales
  fix ps :: "int list" and i
  assume i: "spec_pick ps = Some i"
  with spec_pick_cases [of ps] show "i < length ps \<and> 0 < ps ! i \<and> (\<forall>j < length ps. ps ! j \<le> ps ! i) \<and>
      (\<forall>j < i. ps ! j < ps ! i)" by simp
  from i show "spec_turn ps = ps[i := ps ! i - 1]" by (simp add: spec_turn_def)
next
  fix ps assume "spec_pick ps = None"
  with spec_pick_cases [of ps] show "\<forall>j < length ps. ps ! j \<le> 0" by simp
qed

section \<open>Refinement\<close>

lemma table_refines_pick: "sched_pick s = spec_pick (table_prio s)"
proof (cases "sched_pick s")
  case None
  show ?thesis
  proof (cases "spec_pick (table_prio s)")
    case (Some i)
    from spec.pick_Some [OF this] krn.pick_None [OF None] show ?thesis by force
  qed (simp add: None)
next
  case (Some i)
  have "spec_pick (table_prio s) = Some i"
    using krn.pick_Some [OF Some] by (intro spec.pick_eqI) blast+
  with Some show ?thesis by simp
qed

lemma table_refines_turn:
  assumes "sched_pick s \<noteq> None"
  shows "table_prio (sched_turn s) = spec_turn (table_prio s)"
proof -
  from assms obtain i where i: "sched_pick s = Some i" by blast
  with krn.turn_prio [OF i] show ?thesis by (simp add: spec_turn_def flip: table_refines_pick)
qed

text \<open>A unit of priority is used up at every turn, until none is left.\<close>

lemma sum_list_update: "i < length ps \<Longrightarrow> sum_list (ps[i := v]) = sum_list ps - ps ! i + (v :: int)"
  by (induction ps arbitrary: i) (auto simp: nth_Cons split: nat.split)

lemma spec_pick_left:
  assumes "\<forall>p \<in> set ps. 0 \<le> p" "0 < sum_list ps"
  shows "spec_pick ps \<noteq> None"
proof
  assume "spec_pick ps = None"
  with spec.pick_None have "\<forall>p \<in> set ps. p \<le> 0" by (auto simp: in_set_conv_nth)
  then have "sum_list ps \<le> 0" by (induction ps) auto
  with assms(2) show False by simp
qed

lemma spec_turn_uses:
  assumes "\<forall>p \<in> set ps. 0 \<le> p" "0 < sum_list ps"
  shows "sum_list (spec_turn ps) = sum_list ps - 1" "\<forall>p \<in> set (spec_turn ps). 0 \<le> p"
proof -
  from spec_pick_left [OF assms] obtain i where i: "spec_pick ps = Some i" by blast
  note d = spec.pick_Some [OF i]
  show "sum_list (spec_turn ps) = sum_list ps - 1" using i d by (simp add: spec_turn_def sum_list_update)
  have "set (spec_turn ps) \<subseteq> insert (ps ! i - 1) (set ps)"
    using i by (simp add: spec_turn_def set_update_subset_insert)
  then show "\<forall>p \<in> set (spec_turn ps). 0 \<le> p" using assms(1) d by auto
qed

lemma table_prio_nonneg: "\<forall>p \<in> set (table_prio s). 0 \<le> p"
  by (auto simp: table_prio_def prio_of_def)

lemma turns_refine:
  "int n \<le> sum_list (table_prio s) \<Longrightarrow>
   table_prio ((sched_turn ^^ n) s) = (spec_turn ^^ n) (table_prio s) \<and>
   sum_list (table_prio ((sched_turn ^^ n) s)) = sum_list (table_prio s) - int n"
proof (induction n)
  case (Suc n)
  let ?u = "(sched_turn ^^ n) s"
  have "int n \<le> sum_list (table_prio s)" using Suc.prems by simp
  from Suc.IH [OF this] have IH: "table_prio ?u = (spec_turn ^^ n) (table_prio s)"
    "sum_list (table_prio ?u) = sum_list (table_prio s) - int n" by blast+
  with Suc.prems have left: "0 < sum_list (table_prio ?u)" by simp
  with spec_pick_left [OF table_prio_nonneg] have "sched_pick ?u \<noteq> None" by (simp add: table_refines_pick)
  note t = table_refines_turn [OF this]
  have "(sched_turn ^^ Suc n) s = sched_turn ?u" "(spec_turn ^^ Suc n) (table_prio s) = spec_turn (table_prio ?u)"
    using IH(1) by simp_all
  with t spec_turn_uses(1) [OF table_prio_nonneg left] IH(2) show ?case by (simp del: funpow.simps)
qed simp

section \<open>Properties\<close>

text \<open>
  C5. The threads that run are those of the abstract schedule: after \<open>n\<close> calls of \<^verbatim>\<open>thrYeild\<close> the current thread is
  the one the specification picks after \<open>n\<close> abstract turns, for every \<open>n\<close> below the sum of the priorities.
\<close>

theorem scheduler_refines_priorities:
  assumes "int n < sum_list (table_prio s)"
  shows "\<exists>i. spec_pick ((spec_turn ^^ n) (table_prio s)) = Some i \<and>
    thr_current ((thrYeild ^^ n) (thrSched_step s)) = Thr i \<and>
    table_prio ((sched_turn ^^ n) s) = (spec_turn ^^ n) (table_prio s)"
proof -
  note r = turns_refine [OF less_imp_le [OF assms]]
  have t: "table_prio ((sched_turn ^^ n) s) = (spec_turn ^^ n) (table_prio s)" using r by blast
  have "0 < sum_list (table_prio ((sched_turn ^^ n) s))" using conjunct2 [OF r] assms by linarith
  note t = t this
  from spec_pick_left [OF table_prio_nonneg t(2)] obtain i where
    i: "spec_pick (table_prio ((sched_turn ^^ n) s)) = Some i" by blast
  then have "sched_pick ((sched_turn ^^ n) s) = Some i" by (simp add: table_refines_pick)
  with i t(1) show ?thesis by (simp add: thrYeild_funpow dispatch_Some)
qed

theorem scheduler_refines_priorities_witness:
  "\<exists>i. spec_pick ((spec_turn ^^ 3) [0, 100, 0, 100]) = Some i \<and>
     thr_current ((thrYeild ^^ 3) (thrSched_step two_ready)) = Thr i"
proof -
  have p: "table_prio two_ready = [0, 100, 0, 100]"
    by (simp add: table_prio_def two_ready_def prio_of_def upt_conv_Cons)
  then have "int 3 < sum_list (table_prio two_ready)" by simp
  from scheduler_refines_priorities [OF this] show ?thesis unfolding p by auto
qed

end
