(* ===== verification/Cache_Search.thy ===== *)
theory Cache_Search
  imports Block_Cache
begin

text \<open>
  When the search of a hash chain in \<^verbatim>\<open>getCachedBlock\<close> (\<^verbatim>\<open>src/fs.c\<close>) ends: the loop follows the links and
  has no other bound, so it returns exactly when it meets an entry that stops it.
\<close>

section \<open>Following a chain\<close>

text \<open>The entries in order, and what stops the loop: the end of the chain, or the device or the number.\<close>

fun chain_at :: "'a disk_scheme \<Rightarrow> block_ref \<Rightarrow> nat \<Rightarrow> block_ref" where
  "chain_at s r 0 = r"
| "chain_at s r (Suc n) = chain_at s (hash_next (blocks s r)) n"

definition stops :: "u32 \<Rightarrow> u32 \<Rightarrow> 'a disk_scheme \<Rightarrow> block_ref \<Rightarrow> bool" where
  "stops d b s r \<longleftrightarrow> r = BNull \<or> bdevice (blocks s r) = d \<or> bblock (blocks s r) = b"

lemma chain_find_step:
  "chain_find d b r s = (if stops d b s r then Some r else chain_find d b (hash_next (blocks s r)) s)"
  by (subst chain_find.simps) (auto simp: stops_def)

lemma chain_find_first:
  "(\<forall>i < n. \<not> stops d b s (chain_at s r i)) \<Longrightarrow> stops d b s (chain_at s r n) \<Longrightarrow>
   chain_find d b r s = Some (chain_at s r n)"
proof (induction n arbitrary: r)
  case (Suc n)
  have "\<forall>i < n. \<not> stops d b s (chain_at s (hash_next (blocks s r)) i)"
    using Suc.prems(1) by (metis Suc_less_eq chain_at.simps(2))
  moreover have "\<not> stops d b s r" using Suc.prems(1) by (metis chain_at.simps(1) zero_less_Suc)
  ultimately show ?case using Suc by (subst chain_find_step) simp
qed (subst chain_find_step, simp)

lemma chain_find_found:
  assumes run: "chain_find d b r s = Some x"
  shows "\<exists>n. stops d b s (chain_at s r n)"
proof (rule chain_find.raw_induct [where P = "\<lambda>d b r s x. \<exists>n. stops d b s (chain_at s r n)", OF _ run])
  fix f and d b :: u32 and r x :: block_ref and s :: "'a disk_scheme"
  assume IH: "\<And>d b r (s :: 'a disk_scheme) x. f d b r s = Some x \<Longrightarrow> \<exists>n. stops d b s (chain_at s r n)"
    and eq: "(if r \<noteq> BNull \<and> bdevice (blocks s r) \<noteq> d \<and> bblock (blocks s r) \<noteq> b
      then f d b (hash_next (blocks s r)) s else Some r) = Some x"
  show "\<exists>n. stops d b s (chain_at s r n)"
  proof (cases "stops d b s r")
    case False
    with eq have "f d b (hash_next (blocks s r)) s = Some x" by (simp add: stops_def)
    from IH [OF this] obtain n where "stops d b s (chain_at s r (Suc n))" by auto
    then show ?thesis by blast
  qed (auto intro: exI [of _ 0])
qed

lemma cache_find_loops:
  assumes "hash_next (blocks s (BHash k)) = x" "hash_next (blocks s x) = x" "\<not> stops d b s x"
  shows "cache_find k d b s = None"
proof -
  have "chain_at s x n = x" for n by (induction n) (simp_all add: assms(2))
  then have "chain_find d b x s = None"
    using chain_find_found [of d b x s] assms(3) by (cases "chain_find d b x s") auto
  moreover have "x \<noteq> BNull" using assms(3) by (auto simp: stops_def)
  ultimately show ?thesis using assms(1) by (simp add: cache_find_def)
qed

section \<open>Properties\<close>

text \<open>
  C28. The search for a block in a chain that is not empty returns exactly when some entry along the links stops it,
  and then the first such entry decides.
\<close>

theorem search_returns:
  assumes "hash_next (blocks s (BHash k)) = x" "x \<noteq> BNull"
  shows "(cache_find k d b s \<noteq> None \<longleftrightarrow> (\<exists>n. stops d b s (chain_at s x n))) \<and>
    (\<forall>n. stops d b s (chain_at s x n) \<and> (\<forall>i < n. \<not> stops d b s (chain_at s x i)) \<longrightarrow>
      cache_find k d b s = Some (let r = chain_at s x n in
        if bdevice (blocks s r) = d \<and> bblock (blocks s r) = b then Some r else None))"
proof -
  have "chain_find d b x s \<noteq> None" if "stops d b s (chain_at s x n)" for n
  proof -
    from that obtain m where "\<forall>i < m. \<not> stops d b s (chain_at s x i)" "stops d b s (chain_at s x m)"
      using exists_least_iff [of "\<lambda>i. stops d b s (chain_at s x i)"] by blast
    from chain_find_first [OF this] show ?thesis by simp
  qed
  moreover have "\<exists>n. stops d b s (chain_at s x n)" if "chain_find d b x s \<noteq> None"
    using that chain_find_found [of d b x s] by auto
  ultimately have "chain_find d b x s \<noteq> None \<longleftrightarrow> (\<exists>n. stops d b s (chain_at s x n))" by blast
  with assms chain_find_first [of _ d b s x] show ?thesis
    by (auto simp: cache_find_def Let_def bind_eq_None_conv)
qed

text \<open>
  A buffer that comes to the front of the LRU ring while it is still the first of a chain, as every released buffer
  can, and is then taken for another block of the same chain, becomes its own successor: from then on
  a lookup in that chain with another device and another number never returns.
\<close>

theorem retaken_buffer_hangs_lookup:
  assumes "cache_ok (x # xs) s" "BLKHASH b = Some k" "hash_next (blocks s (BHash k)) = x"
    and "cache_find k d b s = Some None"
  shows "\<exists>s'. getCachedBlock d b s = Some (x, s') \<and> hash_next (blocks s' x) = x \<and>
    (\<forall>d' b'. d' \<noteq> d \<and> b' \<noteq> b \<and> BLKHASH b' = Some k \<longrightarrow> getCachedBlock d' b' s' = None)"
proof -
  obtain y s' where t: "cache_take k d b s = (y, s')" by fastforce
  note tb = take_blocks [OF assms(1) t]
  have x: "x \<noteq> BNull" using cache_okD(3) [OF assms(1)] by simp
  have own: "hash_next (blocks s' (BHash k)) = x" "hash_next (blocks s' x) = x"
    using tb(8) tb(9) [of k] assms(3) by simp_all
  have "getCachedBlock d' b' s' = None" if "d' \<noteq> d" "b' \<noteq> b" "BLKHASH b' = Some k" for d' b'
  proof -
    have "\<not> stops d' b' s' x" using x tb(5,6) that by (simp add: stops_def)
    from cache_find_loops [OF own this] that(3) show ?thesis by (simp add: getCachedBlock_def)
  qed
  moreover have "getCachedBlock d b s = Some (x, s')"
    using get_miss [OF assms(1,2,4)] t tb(1) by simp
  ultimately show ?thesis using own by blast
qed

text \<open>A cache in which the buffer that is taken next is still first in chain 20, with block 148.\<close>

definition stale_chain :: disk where
  "stale_chain = upd_blk (BHash 20) (\<lambda>b. b\<lparr>hash_next := Buf 127\<rparr>)
     (upd_blk (Buf 127) (\<lambda>b. b\<lparr>bdevice := 0, bblock := 148\<rparr>) init_cache)"

lemma stale_chain_ok:
  "cache_ok (Buf 127 # Buf 126 # Buf 125 # map Buf (rev [0..<125])) stale_chain"
  "hash_next (blocks stale_chain (BHash 20)) = Buf 127"
  "bdevice (blocks stale_chain (Buf 127)) = 0" "bblock (blocks stale_chain (Buf 127)) = 148"
proof -
  have "lru.ring stale_chain BNull xs" if "lru.ring init_cache BNull xs" for xs
    using that lru_links_cong(2) [of stale_chain init_cache BNull xs] by (simp add: stale_chain_def upd_blk_blocks)
  with init_cache_facts(1)
  show "cache_ok (Buf 127 # Buf 126 # Buf 125 # map Buf (rev [0..<125])) stale_chain"
    by (simp add: cache_ok_def)
qed (simp_all add: stale_chain_def upd_blk_blocks)

lemma BLKHASH_same_chain: "BLKHASH 20 = Some 20" "BLKHASH 276 = Some 20"
  by (simp_all add: BLKHASH_nonneg)

theorem search_returns_witness:
  "cache_find 20 0 20 stale_chain = Some None \<and> cache_find 20 0 148 stale_chain = Some (Some (Buf 127))"
proof -
  have c: "chain_at stale_chain (Buf 127) 0 = Buf 127" by simp
  have stop: "stops 0 b stale_chain (chain_at stale_chain (Buf 127) 0)" for b
    by (simp add: stops_def stale_chain_ok)
  note r = search_returns [OF stale_chain_ok(2), of 0, THEN conjunct2, rule_format, OF _ conjI [OF stop]]
  have "cache_find 20 0 20 stale_chain = Some None" using r [of 20] by (simp add: stale_chain_ok Let_def)
  moreover have "cache_find 20 0 148 stale_chain = Some (Some (Buf 127))"
    using r [of 148] by (simp add: stale_chain_ok Let_def)
  ultimately show ?thesis ..
qed

theorem retaken_buffer_hangs_lookup_witness:
  "\<exists>s'. getCachedBlock 0 20 stale_chain = Some (Buf 127, s') \<and> getCachedBlock 1 276 s' = None"
proof -
  have "cache_find 20 0 20 stale_chain = Some None"
    using cache_find_front [OF stale_chain_ok(2) _ stale_chain_ok(3)] stale_chain_ok(4) by simp
  from retaken_buffer_hangs_lookup [OF stale_chain_ok(1) BLKHASH_same_chain(1) stale_chain_ok(2) this]
  obtain s' where s': "getCachedBlock 0 20 stale_chain = Some (Buf 127, s')"
    "\<forall>d' b'. d' \<noteq> 0 \<and> b' \<noteq> 20 \<and> BLKHASH b' = Some 20 \<longrightarrow> getCachedBlock d' b' s' = None" by blast
  with BLKHASH_same_chain(2) s'(2) [rule_format, of 1 276] show ?thesis by simp
qed

end
