(* ===== verification/Keyboard.thy ===== *)
theory Keyboard
  imports Files
begin

text \<open>
  The keyboard driver and the shell of \<^verbatim>\<open>src/keyboard.c\<close>: scan codes, the line being typed, its
  division into command and argument, and the commands.

  The arrays \<^verbatim>\<open>line\<close>, \<^verbatim>\<open>cmd\<close> and \<^verbatim>\<open>arg\<close> are 50 bytes each; the linker decides what lies around them,
  and an access outside an array is \<open>None\<close>.
\<close>

section \<open>The driver\<close>

record kbd = files +
  line :: "u8 list"
  cmd :: "u8 list"
  arg :: "u8 list"
  pos :: u32

abbreviation (input) KBD_DATA_PORT :: u16 where "KBD_DATA_PORT \<equiv> 0x60"
abbreviation (input) KBD_CMD_PORT :: u16 where "KBD_CMD_PORT \<equiv> 0x64"
abbreviation (input) KBD_DATA_INBUF :: u8 where "KBD_DATA_INBUF \<equiv> 0x01"

text \<open>The table: 88 codes in order, and eleven extended ones.\<close>

definition codes :: "string \<Rightarrow> u8 list" where
  "codes = map of_char"

definition keymap :: "u8 list" where
  "keymap = ([0, 0x1b] @ codes ''1234567890-='' @ [0x08, 0x09] @ codes ''qwertyuiop[]'' @ [0x0a, 0] @
     codes ''asdfghjkl;'' @ [0x27, 0x60, 0, 0x5c] @ codes ''zxcvbnm,./'' @ [0, 0x2a, 0, 0x20] @
     replicate 13 0 @ codes ''789-456+1230.'' @ replicate 4 0 @ replicate 168 0)
     [0x9c := 0x0a, 0xb5 := 0x2f, 0xc8 := 0xe2, 0xd0 := 0xe3, 0xc9 := 0xe6, 0xd1 := 0xe7,
      0xcb := 0xe4, 0xcd := 0xe5, 0x97 := 0xe0, 0xcf := 0xe1, 0xd2 := 0xe8, 0xd3 := 0xe9]"

text \<open>The controller's buffer is read empty first; a controller that always has data never ends that.\<close>

partial_function (option) kbd_drain :: "device \<Rightarrow> 'a hw_scheme \<Rightarrow> 'a hw_scheme option" where
  "kbd_drain dev s =
     (let (state, s) = inb dev KBD_CMD_PORT s
      in if state AND KBD_DATA_INBUF \<noteq> 0
         then let (_, s) = inb dev KBD_DATA_PORT s in kbd_drain dev s
         else Some s)"

definition kbdDriverInit :: "device \<Rightarrow> 'a hw_scheme \<Rightarrow> 'a hw_scheme option" where
  "kbdDriverInit dev s = do {
     s \<leftarrow> kbd_drain dev s;
     let s = outb KBD_CMD_PORT 0xae s;
     let s = outb KBD_CMD_PORT 0x20 s;
     let (v, s) = inb dev KBD_DATA_PORT s;
     let state = (v OR 1) AND NOT 0x10;
     let s = outb KBD_CMD_PORT 0x60 s;
     let s = outb KBD_DATA_PORT state s;
     Some (outb KBD_DATA_PORT 0xf4 s) }"

definition getc :: "device \<Rightarrow> 'a hw_scheme \<Rightarrow> u32 \<times> 'a hw_scheme" where
  "getc dev s =
     (let (state, s) = inb dev KBD_CMD_PORT s
      in if state AND KBD_DATA_INBUF = 0 then (- 1, s)
         else let (data, s) = inb dev KBD_DATA_PORT s in (ucast data, s))"

text \<open>\<^verbatim>\<open>gets\<close> stores what \<^verbatim>\<open>getc\<close> returns, the -1 of an empty buffer included, up to a newline.\<close>

function gets_loop :: "device \<Rightarrow> u8 list \<Rightarrow> nat \<Rightarrow> 'a hw_scheme \<Rightarrow> (nat \<times> u8 list \<times> 'a hw_scheme) option" where
  "gets_loop dev str p s =
     (let (v, s) = getc dev s; c = ucast v :: u8
      in if p < length str
         then if c \<noteq> 0x0a then gets_loop dev (str[p := c]) (Suc p) s else Some (p, str[p := 0], s)
         else None)"
  by pat_completeness auto
termination
  by (relation "measure (\<lambda>(dev, str, p, s). length str - p)") auto

declare gets_loop.simps [simp del]

definition gets :: "device \<Rightarrow> u8 list \<Rightarrow> 'a hw_scheme \<Rightarrow> (nat \<times> u8 list \<times> 'a hw_scheme) option" where
  "gets dev str s = gets_loop dev str 0 s"

section \<open>Commands\<close>

text \<open>The leading blanks, among them the null character.\<close>

fun skip_blanks :: "u8 list \<Rightarrow> u8 list option" where
  "skip_blanks [] = None"
| "skip_blanks (x # p) = (if x = 0x20 \<or> x = 0 \<or> x = 0x08 \<or> x = 0x09 then skip_blanks p else Some (x # p))"

text \<open>Writing through \<^verbatim>\<open>p\<close>, which points into \<^verbatim>\<open>cmd\<close> and, after a blank, into \<^verbatim>\<open>arg\<close>.\<close>

definition put_word :: "bool \<Rightarrow> nat \<Rightarrow> u8 \<Rightarrow> u8 list \<times> u8 list \<Rightarrow> (u8 list \<times> u8 list) option" where
  "put_word in_arg i v = (\<lambda>(c, a).
     if in_arg then (if i < length a then Some (c, a[i := v]) else None)
     else (if i < length c then Some (c[i := v], a) else None))"

text \<open>After a blank the next character is copied whatever it is, the terminator included.\<close>

fun parse_words :: "u8 list \<Rightarrow> bool \<Rightarrow> nat \<Rightarrow> u8 list \<times> u8 list \<Rightarrow> (u8 list \<times> u8 list) option" where
  "parse_words [] in_arg i ca = None"
| "parse_words (x # pl) in_arg i ca =
     (if x = 0 then put_word in_arg i 0 ca
      else if x = 0x20
      then do {
        ca \<leftarrow> put_word in_arg i 0 ca;
        (case pl of
           [] \<Rightarrow> None
         | y # pl \<Rightarrow> do { ca \<leftarrow> put_word True 0 y ca; parse_words pl True 1 ca }) }
      else do { ca \<leftarrow> put_word in_arg i x ca; parse_words pl in_arg (Suc i) ca })"

definition parseCmd :: "u8 list \<Rightarrow> u8 list \<Rightarrow> u8 list \<Rightarrow> (u8 list \<times> u8 list) option" where
  "parseCmd ln c a = do { pl \<leftarrow> skip_blanks ln; parse_words pl False 0 (c, a) }"

text \<open>Writing a character of the line; \<^verbatim>\<open>pos\<close> is an \<^verbatim>\<open>int\<close>.\<close>

definition put_line :: "u8 \<Rightarrow> 'a kbd_scheme \<Rightarrow> 'a kbd_scheme option" where
  "put_line v s =
     (if 0 \<le> sint (pos s) \<and> sint (pos s) < int (length (line s))
      then Some (s\<lparr>line := (line s)[nat (sint (pos s)) := v]\<rparr>) else None)"

definition run_command :: "env \<Rightarrow> 'a kbd_scheme \<Rightarrow> 'a kbd_scheme option" where
  "run_command e s = do {
     isls \<leftarrow> strcmp (cmd s) (cstr ''ls'');
     iscd \<leftarrow> strcmp (cmd s) (cstr ''cd'');
     ismk \<leftarrow> strcmp (cmd s) (cstr ''mkdir'');
     (if isls = 0 then do { (_, s) \<leftarrow> ls e s; Some s }
      else if iscd = 0 then do { (_, s) \<leftarrow> cd e (arg s) s; Some s }
      else if ismk = 0 then do { (_, s) \<leftarrow> mk e (arg s) s; Some s }
      else printf (cstr (CHR 0x0a # [CHR 0x27] @ ''%s'' @ [CHR 0x27] @ '' command not found'')) [Str (cmd s)] s) }"

definition prompt :: "'a files_scheme \<Rightarrow> 'a files_scheme option" where
  "prompt s = printf (cstr (CHR 0x0a # ''arjenk@orcas: %s$ '')) [Str (cwd_name s)] s"

definition key_char :: "u8 \<Rightarrow> bool" where
  "key_char k \<longleftrightarrow> 0x61 \<le> k \<and> k \<le> 0x7a \<or> 0x30 \<le> k \<and> k \<le> 0x39 \<or> k = 0x20"

text \<open>A key that is pressed; \<open>k\<close> is its character.\<close>

definition key_pressed :: "env \<Rightarrow> u8 \<Rightarrow> 'a kbd_scheme \<Rightarrow> 'a kbd_scheme option" where
  "key_pressed e k s =
     (if key_char k
      then do { s \<leftarrow> put_line k (putc k s); Some (s\<lparr>pos := pos s + 1\<rparr>) }
      else if k = 0x08
      then do {
        ((x, y), s) \<leftarrow> getPos s;
        s \<leftarrow> setPos x (y - 1) 0x20 s;
        Some (s\<lparr>pos := pos s - 1\<rparr>) }
      else if k = 0x0a
      then do {
        s \<leftarrow> (if sint (pos s) > 0
              then do {
                s \<leftarrow> put_line 0 s;
                (c, a) \<leftarrow> parseCmd (line s) (cmd s) (arg s);
                run_command e (s\<lparr>cmd := c, arg := a\<rparr>) }
              else Some s);
        prompt (s\<lparr>pos := 0\<rparr>) }
      else Some s)"

definition kbdInterruptHandler :: "env \<Rightarrow> 'a kbd_scheme \<Rightarrow> 'a kbd_scheme option" where
  "kbdInterruptHandler e s =
     (let (v, s) = getc (e_dev e) s; key = ucast v :: u8
      in if key \<noteq> 0xff \<and> key AND 0x80 = 0 then key_pressed e (keymap ! unat key) s else Some s)"

section \<open>Words of a line\<close>

lemma put_word_in:
  "i < length c \<Longrightarrow> put_word False i v (c, a) = Some (c[i := v], a)"
  "i < length a \<Longrightarrow> put_word True i v (c, a) = Some (c, a[i := v])"
  by (simp_all add: put_word_def)

lemma parse_words_cmd:
  assumes "0 \<notin> set w" "0x20 \<notin> set w" "i + length w \<le> length c"
  shows "parse_words (w @ pl) False i (c, a) = parse_words pl False (i + length w) (blit c i w, a)"
  using assms by (induction w arbitrary: i c) (auto simp: put_word_in blit_Cons)

lemma parse_words_arg:
  assumes "0 \<notin> set w" "0x20 \<notin> set w" "i + length w \<le> length a"
  shows "parse_words (w @ pl) True i (c, a) = parse_words pl True (i + length w) (c, blit a i w)"
  using assms by (induction w arbitrary: i a) (auto simp: put_word_in blit_Cons)

text \<open>A word that ends with the line, and one that ends with a blank.\<close>

lemma parse_words_end:
  assumes "0 \<notin> set w" "0x20 \<notin> set w"
  shows "i + length w < length c \<Longrightarrow>
      parse_words (w @ 0 # r) False i (c, a) = Some (blit c i (w @ [0]), a)"
    "i + length w < length a \<Longrightarrow>
      parse_words (w @ 0 # r) True i (c, a) = Some (c, blit a i (w @ [0]))"
  using assms by (simp_all add: parse_words_cmd parse_words_arg put_word_in blit_extend)

lemma parse_words_blank:
  assumes "0 \<notin> set w" "0x20 \<notin> set w" "0 < length a"
  shows "i + length w < length c \<Longrightarrow>
      parse_words (w @ 0x20 # y # r) False i (c, a) =
      parse_words r True 1 (blit c i (w @ [0]), a[0 := y])"
    "i + length w < length a \<Longrightarrow>
      parse_words (w @ 0x20 # y # r) True i (c, a) =
      parse_words r True 1 (c, (blit a i (w @ [0]))[0 := y])"
  using assms by (simp_all add: parse_words_cmd parse_words_arg put_word_in blit_extend)

lemma skip_blanks_word:
  assumes "set b \<subseteq> {0x20, 0, 0x08, 0x09}" "w \<noteq> []" "hd w \<notin> {0x20, 0, 0x08, 0x09}"
  shows "skip_blanks (b @ w @ r) = Some (w @ r)"
  using assms by (induction b) (auto simp: neq_Nil_conv)

text \<open>A word of a command line.\<close>

definition word_ok :: "u8 list \<Rightarrow> bool" where
  "word_ok w \<longleftrightarrow> w \<noteq> [] \<and> set w \<inter> {0x20, 0, 0x08, 0x09} = {} \<and> length w < 50"

lemma word_okD:
  assumes "word_ok w"
  shows "w \<noteq> []" "0 \<notin> set w" "0x20 \<notin> set w" "hd w \<notin> {0x20, 0, 0x08, 0x09}" "length w < 50"
proof -
  have "hd w \<in> set w" if "w \<noteq> []" using that by simp
  with assms show "w \<noteq> []" "0 \<notin> set w" "0x20 \<notin> set w" "hd w \<notin> {0x20, 0, 0x08, 0x09}"
    "length w < 50"
    by (auto simp: word_ok_def simp del: hd_in_set)
qed

text \<open>The rest of the argument, the first character already copied behind the blank.\<close>

lemma parse_words_rest:
  assumes w: "word_ok w" and a: "length a = 50"
  shows "parse_words (tl w @ 0 # r) True 1 (c, a[0 := hd w]) = Some (c, blit a 0 (w @ [0]))"
proof -
  obtain y v where v: "w = y # v" using word_okD(1) [OF w] by (cases w) auto
  then have "0 \<notin> set v" "0x20 \<notin> set v" "length v < 49"
    using word_okD [OF w] by auto
  with a v show ?thesis by (simp add: parse_words_end blit_Cons)
qed

lemma parseCmd_two:
  assumes "set b \<subseteq> {0x20, 0, 0x08, 0x09}" "word_ok w" "word_ok v"
    and "length c = 50" "length a = 50"
  shows "parseCmd (b @ w @ 0x20 # v @ 0 # r) c a = Some (blit c 0 (w @ [0]), blit a 0 (v @ [0]))"
proof -
  obtain y u where v: "v = y # u" using word_okD(1) [OF assms(3)] by (cases v) auto
  have "skip_blanks (b @ w @ 0x20 # v @ 0 # r) = Some (w @ 0x20 # y # u @ 0 # r)"
    using skip_blanks_word [OF assms(1) word_okD(1,4) [OF assms(2)]] v by simp
  moreover have "parse_words (w @ 0x20 # y # u @ 0 # r) False 0 (c, a) =
      parse_words (u @ 0 # r) True 1 (blit c 0 (w @ [0]), a[0 := y])"
    using assms word_okD [OF assms(2)] by (intro parse_words_blank(1)) auto
  moreover have "\<dots> = Some (blit c 0 (w @ [0]), blit a 0 (v @ [0]))"
    using parse_words_rest [OF assms(3,5), of r] v by simp
  ultimately show ?thesis by (simp add: parseCmd_def)
qed

lemma parseCmd_one:
  assumes "set b \<subseteq> {0x20, 0, 0x08, 0x09}" "word_ok w" "length c = 50"
  shows "parseCmd (b @ w @ 0 # r) c a = Some (blit c 0 (w @ [0]), a)"
  using assms word_okD [OF assms(2)] parse_words_end(1) [of w 0 c r a]
  by (simp add: parseCmd_def skip_blanks_word)

text \<open>Behind a trailing blank the terminator is copied, and the line goes on behind it.\<close>

lemma parseCmd_trailing:
  assumes "set b \<subseteq> {0x20, 0, 0x08, 0x09}" "word_ok w" "0 \<notin> set u" "0x20 \<notin> set u" "length u < 49"
    and "length c = 50" "length a = 50"
  shows "parseCmd (b @ w @ 0x20 # 0 # u @ 0 # r) c a =
      Some (blit c 0 (w @ [0]), blit a 0 (0 # u @ [0]))"
    "word_ok v \<Longrightarrow> parseCmd (b @ w @ 0x20 # 0 # u @ 0x20 # v @ 0 # r) c a =
      Some (blit c 0 (w @ [0]), blit (blit a 0 (0 # u @ [0])) 0 (v @ [0]))"
proof -
  have skip: "skip_blanks (b @ w @ q) = Some (w @ q)" for q
    using assms word_okD [OF assms(2)] by (intro skip_blanks_word) auto
  have head: "parse_words (w @ 0x20 # 0 # q) False 0 (c, a) =
      parse_words q True 1 (blit c 0 (w @ [0]), a[0 := 0])" for q
    using assms word_okD [OF assms(2)] by (intro parse_words_blank(1)) auto
  have end': "parse_words (u @ 0 # r) True 1 (x, a[0 := 0]) = Some (x, blit a 0 (0 # u @ [0]))" for x
    using parse_words_end(2) [OF assms(3,4), of 1 "a[0 := 0]"] assms by (simp add: blit_Cons)
  show "parseCmd (b @ w @ 0x20 # 0 # u @ 0 # r) c a =
      Some (blit c 0 (w @ [0]), blit a 0 (0 # u @ [0]))"
    using skip [of "0x20 # 0 # u @ 0 # r"] head end' by (simp add: parseCmd_def)
  assume v: "word_ok v"
  then obtain y v' where v': "v = y # v'" using word_okD(1) [OF v] by (cases v) auto
  have len: "length (blit a 0 (0 # u @ [0])) = 50" using assms by simp
  have "parse_words (u @ 0x20 # y # v' @ 0 # r) True 1 (x, a[0 := 0]) =
      parse_words (v' @ 0 # r) True 1 (x, (blit a 0 (0 # u @ [0]))[0 := y])" for x
    using parse_words_blank(2) [OF assms(3,4), of "a[0 := 0]" 1] assms by (simp add: blit_Cons)
  with skip [of "0x20 # 0 # u @ 0x20 # v @ 0 # r"] head parse_words_rest [OF v len, of r]
  show "parseCmd (b @ w @ 0x20 # 0 # u @ 0x20 # v @ 0 # r) c a =
      Some (blit c 0 (w @ [0]), blit (blit a 0 (0 # u @ [0])) 0 (v @ [0]))"
    by (simp add: parseCmd_def v')
qed


section \<open>Keys, one interrupt each\<close>

text \<open>The controller offers the code of a key that is pressed; and it offers one code after the other.\<close>

definition key_ready :: "device \<Rightarrow> ioev list \<Rightarrow> u8 \<Rightarrow> bool" where
  "key_ready dev t k \<longleftrightarrow> rd8 dev t KBD_CMD_PORT AND KBD_DATA_INBUF \<noteq> 0 \<and>
     rd8 dev (Inb KBD_CMD_PORT # t) KBD_DATA_PORT = k \<and> k AND 0x80 = 0"

abbreviation (input) key_read :: "ioev list \<Rightarrow> ioev list" where
  "key_read t \<equiv> Inb KBD_DATA_PORT # Inb KBD_CMD_PORT # t"

fun feeds :: "device \<Rightarrow> ioev list \<Rightarrow> u8 list \<Rightarrow> bool" where
  "feeds dev t [] \<longleftrightarrow> True"
| "feeds dev t (k # ks) \<longleftrightarrow> key_ready dev t k \<and> feeds dev (key_read t) ks"

fun presses :: "env \<Rightarrow> nat \<Rightarrow> 'a kbd_scheme \<Rightarrow> 'a kbd_scheme option" where
  "presses e 0 s = Some s"
| "presses e (Suc n) s = do { s \<leftarrow> kbdInterruptHandler e s; presses e n s }"

lemma handler_key:
  assumes "key_ready (e_dev e) (iotrace s) k"
  shows "kbdInterruptHandler e s =
    key_pressed e (keymap ! unat k) (s\<lparr>iotrace := key_read (iotrace s)\<rparr>)"
proof -
  have "k \<noteq> 0xff" using assms by (auto simp: key_ready_def)
  moreover have "ucast (ucast k :: u32) = k" by (rule bit_word_eqI) (simp add: bit_simps)
  ultimately show ?thesis
    using assms by (simp add: kbdInterruptHandler_def getc_def inb_def key_ready_def Let_def)
qed

lemma putc_kbd [simp]:
  "line (putc c s) = line s" "pos (putc c s) = pos s" "iotrace (putc c s) = iotrace s"
  "cmd (putc c s) = cmd s" "arg (putc c s) = arg s"
  by (simp_all add: putc_def clear_def Let_def)

lemma putc_kbd_upd:
  "putc c (s\<lparr>line := l\<rparr>) = putc c s\<lparr>line := l\<rparr>" "putc c (s\<lparr>pos := p\<rparr>) = putc c s\<lparr>pos := p\<rparr>"
  by (simp_all add: putc_def clear_def Let_def)

lemma fold_putc_kbd_upd:
  "fold putc w (s\<lparr>line := l\<rparr>) = fold putc w s\<lparr>line := l\<rparr>"
  "fold putc w (s\<lparr>pos := p\<rparr>) = fold putc w s\<lparr>pos := p\<rparr>"
  by (induction w arbitrary: s) (simp_all add: putc_kbd_upd)

lemma putc_iotrace_upd: "putc c (s\<lparr>iotrace := t\<rparr>) = putc c s\<lparr>iotrace := t\<rparr>"
  by (simp add: putc_def clear_def Let_def)

lemma fold_putc_iotrace_upd: "fold putc w (s\<lparr>iotrace := t\<rparr>) = fold putc w s\<lparr>iotrace := t\<rparr>"
  by (induction w arbitrary: s) (simp_all add: putc_iotrace_upd)

lemma fold_putc_kbd [simp]:
  "line (fold putc w s) = line s" "pos (fold putc w s) = pos s" "iotrace (fold putc w s) = iotrace s"
  by (induction w arbitrary: s) simp_all

text \<open>The value of a position within the line.\<close>

lemma sint_pos: "i \<le> 50 \<Longrightarrow> sint (of_nat i :: u32) = int i"
  by (simp add: signed_of_nat signed_take_bit_int_eq_self)

lemma press_char:
  assumes "key_ready (e_dev e) (iotrace s) k" "key_char (keymap ! unat k)"
    and "pos s = of_nat i" "i \<le> 50" "length (line s) = 50"
  shows "kbdInterruptHandler e s =
    (if i < 50 then Some (putc (keymap ! unat k) s\<lparr>iotrace := key_read (iotrace s),
        line := (line s)[i := keymap ! unat k], pos := of_nat (Suc i)\<rparr>)
     else None)"
  using assms by (simp add: handler_key key_pressed_def put_line_def putc_iotrace_upd sint_pos add.commute)

fun keys_read :: "nat \<Rightarrow> ioev list \<Rightarrow> ioev list" where
  "keys_read 0 t = t"
| "keys_read (Suc n) t = keys_read n (key_read t)"

lemma presses_chars:
  assumes "feeds (e_dev e) (iotrace s) ks" "\<forall>k \<in> set ks. key_char (keymap ! unat k)"
    and "pos s = of_nat i" "i \<le> 50" "length (line s) = 50"
  defines "w \<equiv> map (\<lambda>k. keymap ! unat k) ks"
  shows "presses e (length ks) s =
    (if i + length ks \<le> 50
     then Some (fold putc w s\<lparr>iotrace := keys_read (length ks) (iotrace s),
        line := blit (line s) i w, pos := of_nat (i + length ks)\<rparr>)
     else None)"
  using assms(1-5) unfolding w_def
proof (induction ks arbitrary: s i)
  case Nil
  then show ?case by simp
next
  case (Cons k ks)
  let ?c = "keymap ! unat k"
  show ?case
  proof (cases "i < 50")
    case True
    let ?s = "putc ?c s\<lparr>iotrace := key_read (iotrace s), line := (line s)[i := ?c], pos := of_nat (Suc i)\<rparr>"
    have step: "kbdInterruptHandler e s = Some ?s"
      using Cons.prems True press_char [of e s k i] by simp
    have IH: "presses e (length ks) ?s =
      (if Suc i + length ks \<le> 50
       then Some (fold putc (map (\<lambda>k. keymap ! unat k) ks) ?s\<lparr>iotrace := keys_read (length ks) (iotrace ?s),
          line := blit (line ?s) (Suc i) (map (\<lambda>k. keymap ! unat k) ks), pos := of_nat (Suc i + length ks)\<rparr>)
       else None)"
      using Cons.prems True by (intro Cons.IH) simp_all
    show ?thesis
      using Cons.prems True
      by (simp add: step IH blit_Cons fold_putc_kbd_upd fold_putc_iotrace_upd del: of_nat_Suc of_nat_add)
  next
    case False
    with Cons.prems show ?thesis using press_char [of e s k i] by simp
  qed
qed


section \<open>The other keys\<close>

lemma keymap_keys [simp]:
  "keymap ! 28 = 0x0a" "keymap ! 14 = 0x08" "keymap ! 38 = 0x6c" "length keymap = 256"
  by (simp_all add: keymap_def codes_def nth_append nth_Cons')

lemma backspace_step:
  assumes "lock (cslLock s) = 0"
  shows "key_pressed e 0x08 s = Some (sti s\<lparr>col := col s - 1,
     videoMemory := (videoMemory s)(CSL_WIDTH * row s + (col s - 1) :=
       set_char (videoMemory s (CSL_WIDTH * row s + (col s - 1))) 0x20), pos := pos s - 1\<rparr>)"
proof -
  have "lock (cslLock (sti s)) = 0" using assms by (simp add: sti_def)
  moreover have "cslLock s\<lparr>lock := 0\<rparr> = cslLock s" using assms by (cases "cslLock s") simp
  ultimately show ?thesis
    using assms by (simp add: key_pressed_def key_char_def getPos_def setPos_def lock_console_free
        unlock_console_def spinlockUnlock_def Let_def cli_def sti_def)
qed

text \<open>The command the text of \<open>cmd\<close> names.\<close>

definition shell :: "env \<Rightarrow> u8 list \<Rightarrow> 'a kbd_scheme \<Rightarrow> 'a kbd_scheme option" where
  "shell e w s =
     (if w = codes ''ls'' then map_option snd (ls e s)
      else if w = codes ''cd'' then map_option snd (cd e (arg s) s)
      else if w = codes ''mkdir'' then map_option snd (mk e (arg s) s)
      else printf (cstr (CHR 0x0a # [CHR 0x27] @ ''%s'' @ [CHR 0x27] @ '' command not found'')) [Str (cmd s)] s)"

lemma strcmp_is:
  assumes "c_text p = Some w" "c_text q = Some v"
  shows "\<exists>r. strcmp p q = Some r \<and> (r = 0 \<longleftrightarrow> w = v)"
  using strcmp_text [OF assms] by auto

lemma bind_snd: "Option.bind x (\<lambda>(_, s). Some s) = map_option snd x"
  by (cases x) auto

lemma run_command_shell:
  assumes "cmd s = blit c 0 (w @ [0])" "0 \<notin> set w"
  shows "run_command e s = shell e w s"
proof -
  have "cmd s = w @ 0 # drop (Suc (length w)) c" using assms by (simp add: blit_def)
  then have t: "c_text (cmd s) = Some w" using assms(2) by simp
  have words: "c_text (cstr ''ls'') = Some (codes ''ls'')" "c_text (cstr ''cd'') = Some (codes ''cd'')"
    "c_text (cstr ''mkdir'') = Some (codes ''mkdir'')"
    by (simp_all add: cstr_def codes_def)
  obtain r1 r2 r3 where
    "strcmp (cmd s) (cstr ''ls'') = Some r1" "r1 = 0 \<longleftrightarrow> w = codes ''ls''"
    "strcmp (cmd s) (cstr ''cd'') = Some r2" "r2 = 0 \<longleftrightarrow> w = codes ''cd''"
    "strcmp (cmd s) (cstr ''mkdir'') = Some r3" "r3 = 0 \<longleftrightarrow> w = codes ''mkdir''"
    using strcmp_is [OF t words(1)] strcmp_is [OF t words(2)] strcmp_is [OF t words(3)] by blast
  then show ?thesis by (simp add: run_command_def shell_def bind_snd)
qed

text \<open>Enter on a line of two words, of one, and with a blank at its end.\<close>

lemma enter_line:
  assumes k: "key_ready (e_dev e) (iotrace s) 0x1c"
    and l: "line s = l @ x # r" "pos s = of_nat (length l)" "l \<noteq> []" "length (line s) = 50"
    and p: "parseCmd (l @ 0 # r) (cmd s) (arg s) = Some (blit (cmd s) 0 (w @ [0]), a)" and w: "0 \<notin> set w"
  shows "kbdInterruptHandler e s = do {
     s \<leftarrow> shell e w (s\<lparr>iotrace := key_read (iotrace s), line := l @ 0 # r,
       cmd := blit (cmd s) 0 (w @ [0]), arg := a\<rparr>);
     prompt (s\<lparr>pos := 0\<rparr>) }"
proof -
  have len: "length l < 50" "0 < length l" using l by simp_all
  then have "sint (pos s) = int (length l)" using l(2) by (simp add: sint_pos)
  with len l p show ?thesis
    by (simp add: handler_key [OF k] key_pressed_def key_char_def put_line_def run_command_shell [OF _ w])
qed


section \<open>Draining the controller\<close>

fun drained :: "nat \<Rightarrow> ioev list \<Rightarrow> ioev list" where
  "drained 0 t = t"
| "drained (Suc n) t = drained n (key_read t)"

definition has_data :: "device \<Rightarrow> ioev list \<Rightarrow> bool" where
  "has_data dev t \<longleftrightarrow> rd8 dev t KBD_CMD_PORT AND KBD_DATA_INBUF \<noteq> 0"

lemma kbd_drain_step:
  "kbd_drain dev s =
     (if has_data dev (iotrace s) then kbd_drain dev (s\<lparr>iotrace := key_read (iotrace s)\<rparr>)
      else Some (s\<lparr>iotrace := Inb KBD_CMD_PORT # iotrace s\<rparr>))"
  by (subst kbd_drain.simps) (simp add: inb_def has_data_def Let_def)

lemma kbd_drain_after:
  "(\<forall>i < n. has_data dev (drained i (iotrace s))) \<Longrightarrow> \<not> has_data dev (drained n (iotrace s)) \<Longrightarrow>
   kbd_drain dev s = Some (s\<lparr>iotrace := Inb KBD_CMD_PORT # drained n (iotrace s)\<rparr>)"
proof (induction n arbitrary: s)
  case 0
  then show ?case by (subst kbd_drain_step) simp
next
  case (Suc n)
  let ?s = "s\<lparr>iotrace := key_read (iotrace s)\<rparr>"
  have "has_data dev (drained i (iotrace ?s))" if "i < n" for i
    using Suc.prems(1) [rule_format, of "Suc i"] that by simp
  then have "\<forall>i < n. has_data dev (drained i (iotrace ?s))" by blast
  moreover have "\<not> has_data dev (drained n (iotrace ?s))" using Suc.prems(2) by simp
  ultimately have "kbd_drain dev ?s = Some (?s\<lparr>iotrace := Inb KBD_CMD_PORT # drained n (iotrace ?s)\<rparr>)"
    by (rule Suc.IH)
  moreover have "has_data dev (iotrace s)" using Suc.prems(1) by (auto dest: spec [of _ 0])
  ultimately show ?case by (subst kbd_drain_step) simp
qed

lemma kbd_drain_ends:
  assumes run: "kbd_drain dev s = Some u"
  shows "\<exists>n. \<not> has_data dev (drained n (iotrace s))"
proof (rule kbd_drain.raw_induct
    [where P = "\<lambda>dev s u. \<exists>n. \<not> has_data dev (drained n (iotrace s))", OF _ run])
  fix f and dev :: device and s u :: "'a hw_scheme"
  assume IH: "\<And>dev s (u :: 'a hw_scheme). f dev s = Some u \<Longrightarrow> \<exists>n. \<not> has_data dev (drained n (iotrace s))"
    and eq: "(let (state, s) = inb dev KBD_CMD_PORT s in if state AND KBD_DATA_INBUF \<noteq> 0
         then let (_, s) = inb dev KBD_DATA_PORT s in f dev s else Some s) = Some u"
  show "\<exists>n. \<not> has_data dev (drained n (iotrace s))"
  proof (cases "has_data dev (iotrace s)")
    case True
    with eq have "f dev (s\<lparr>iotrace := key_read (iotrace s)\<rparr>) = Some u"
      by (simp add: inb_def has_data_def Let_def)
    from IH [OF this] obtain n where "\<not> has_data dev (drained (Suc n) (iotrace s))" by auto
    then show ?thesis by blast
  qed (auto intro: exI [of _ 0])
qed

lemma least_undrained:
  assumes "\<not> has_data dev (drained n t)"
  obtains m where "\<forall>i < m. has_data dev (drained i t)" "\<not> has_data dev (drained m t)"
  using exists_least_iff [of "\<lambda>i. \<not> has_data dev (drained i t)"] assms by blast

lemma ucast_minus_one: "(ucast (- 1 :: u32) :: u8) = - 1"
  by (rule bit_word_eqI) (simp add: bit_simps)

section \<open>Properties\<close>

text \<open>
  The keyboard is initialised exactly when its controller runs out of data at some point; a
  controller that always offers a byte is read for ever. After \<open>n\<close> bytes read the mode byte is the old one with
  the interrupt on and the keyboard enabled.
\<close>

theorem kbdDriverInit_returns:
  "kbdDriverInit dev s = None \<longleftrightarrow> (\<forall>n. has_data dev (drained n (iotrace s)))"
proof
  assume never: "kbdDriverInit dev s = None"
  show "\<forall>n. has_data dev (drained n (iotrace s))"
  proof (rule allI, rule ccontr)
    fix n assume "\<not> has_data dev (drained n (iotrace s))"
    then obtain m where "\<forall>i < m. has_data dev (drained i (iotrace s))"
      "\<not> has_data dev (drained m (iotrace s))" by (rule least_undrained)
    from kbd_drain_after [OF this] never show False
      by (simp add: kbdDriverInit_def Let_def split_beta)
  qed
next
  assume "\<forall>n. has_data dev (drained n (iotrace s))"
  then have "kbd_drain dev s = None" using kbd_drain_ends [of dev s] by (cases "kbd_drain dev s") auto
  then show "kbdDriverInit dev s = None" by (simp add: kbdDriverInit_def)
qed

text \<open>
  C26. Letters, digits and blanks typed from the beginning of a line appear on the screen and in the
  line, up to 50 of them; the 51st is stored behind the array.
\<close>

theorem typed_line:
  assumes "feeds (e_dev e) (iotrace s) ks" "\<forall>k \<in> set ks. key_char (keymap ! unat k)"
    and "pos s = 0" "length (line s) = 50"
  shows "presses e (length ks) s =
    (let w = map (\<lambda>k. keymap ! unat k) ks
     in if length ks \<le> 50
        then Some (fold putc w s\<lparr>iotrace := keys_read (length ks) (iotrace s),
          line := w @ drop (length w) (line s), pos := of_nat (length w)\<rparr>)
        else None)"
  using presses_chars [OF assms(1,2), of 0] assms(3,4) by (simp add: blit_def Let_def)

text \<open>
  C27. Enter on a line of a command and an argument runs the command of that name with that argument, then
  prompts on a new line; an unknown command is named in a message.
\<close>

theorem shell_runs_typed_command:
  assumes "key_ready (e_dev e) (iotrace s) 0x1c"
    and "line s = w @ 0x20 # v @ x # r" "pos s = of_nat (length w + 1 + length v)" "length (line s) = 50"
    and "word_ok w" "word_ok v" "length (cmd s) = 50" "length (arg s) = 50"
  shows "kbdInterruptHandler e s = do {
     s \<leftarrow> shell e w (s\<lparr>iotrace := key_read (iotrace s), line := w @ 0x20 # v @ 0 # r,
       cmd := blit (cmd s) 0 (w @ [0]), arg := blit (arg s) 0 (v @ [0])\<rparr>);
     prompt (s\<lparr>pos := 0\<rparr>) }"
  using assms word_okD [OF assms(5)] parseCmd_two [of "[]" w v "cmd s" "arg s" r]
    enter_line [of e s "w @ 0x20 # v" x r w "blit (arg s) 0 (v @ [0])"] by simp

text \<open>
  A blank behind a command makes the shell read on behind the end of the line: its argument is a word
  left over in the array by an earlier, longer line.
\<close>

theorem trailing_blank_takes_old_word:
  assumes "key_ready (e_dev e) (iotrace s) 0x1c"
    and "line s = w @ 0x20 # x # u @ 0x20 # v @ 0 # r" "pos s = of_nat (length w + 1)" "length (line s) = 50"
    and "word_ok w" "0 \<notin> set u" "0x20 \<notin> set u" "word_ok v" "length (cmd s) = 50" "length (arg s) = 50"
  shows "\<exists>a. c_text a = Some v \<and> kbdInterruptHandler e s = do {
     s \<leftarrow> shell e w (s\<lparr>iotrace := key_read (iotrace s), line := w @ 0x20 # 0 # u @ 0x20 # v @ 0 # r,
       cmd := blit (cmd s) 0 (w @ [0]), arg := a\<rparr>);
     prompt (s\<lparr>pos := 0\<rparr>) }"
proof -
  let ?a = "blit (blit (arg s) 0 (0 # u @ [0])) 0 (v @ [0])"
  have "length u < 49" using assms(2,4) word_okD(1) [OF assms(8)] by simp
  then have "parseCmd ((w @ [0x20]) @ 0 # u @ 0x20 # v @ 0 # r) (cmd s) (arg s) =
      Some (blit (cmd s) 0 (w @ [0]), ?a)"
    using assms parseCmd_trailing(2) [of "[]" w u "cmd s" "arg s" v r] by simp
  moreover have "c_text ?a = Some v"
    using word_okD(2) [OF assms(8)] by (simp add: blit_def)
  ultimately show ?thesis
    using assms word_okD(2) [OF assms(5)]
      enter_line [of e s "w @ [0x20]" x "u @ 0x20 # v @ 0 # r" w ?a] by (intro exI [of _ ?a]) simp
qed

text \<open>
  Backspace at the beginning of the line rubs out the cell before the cursor, whatever it is, and
  leaves the line: the next character is stored in front of the array.
\<close>

theorem backspace_leaves_line:
  assumes "feeds (e_dev e) (iotrace s) [0x0e, k]" "key_char (keymap ! unat k)"
    and "pos s = 0" "lock (cslLock s) = 0" "length (line s) = 50"
  shows "presses e 1 s = Some (sti s\<lparr>iotrace := key_read (iotrace s), col := col s - 1,
      videoMemory := (videoMemory s)(CSL_WIDTH * row s + (col s - 1) :=
        set_char (videoMemory s (CSL_WIDTH * row s + (col s - 1))) 0x20), pos := - 1\<rparr>) \<and>
    presses e 2 s = None"
proof -
  have k1: "key_ready (e_dev e) (iotrace s) 0x0e" and k2: "key_ready (e_dev e) (key_read (iotrace s)) k"
    using assms(1) by simp_all
  let ?s = "sti s\<lparr>iotrace := key_read (iotrace s), col := col s - 1,
      videoMemory := (videoMemory s)(CSL_WIDTH * row s + (col s - 1) :=
        set_char (videoMemory s (CSL_WIDTH * row s + (col s - 1))) 0x20), pos := - 1\<rparr>"
  have step: "kbdInterruptHandler e s = Some ?s"
    using assms(3,4) backspace_step [of "s\<lparr>iotrace := key_read (iotrace s)\<rparr>" e]
    by (simp add: handler_key [OF k1] sti_def)
  have "kbdInterruptHandler e ?s = None"
    using k2 assms(2) by (simp add: handler_key key_pressed_def put_line_def)
  with step show ?thesis by (simp add: numeral_2_eq_2)
qed

text \<open>
  \<^verbatim>\<open>gets\<close> does not wait for a key: on an empty controller it stores the -1 of \<^verbatim>\<open>getc\<close> again and
  again until it has left its buffer.
\<close>

theorem gets_overruns_idle:
  assumes "\<forall>t. \<not> has_data dev t"
  shows "gets dev str s = None"
proof -
  have "gets_loop dev str p s = None" for str p and s :: "'a hw_scheme"
  proof (induction "length str - p" arbitrary: str p s rule: less_induct)
    case less
    show ?case
    proof (cases "p < length str")
      case True
      then show ?thesis
        using assms less [of "str[p := - 1]" "Suc p" "snd (getc dev s)"]
        by (subst gets_loop.simps) (simp add: getc_def inb_def has_data_def Let_def ucast_minus_one)
    next
      case False
      then show ?thesis by (subst gets_loop.simps) (simp add: Let_def split_beta)
    qed
  qed
  then show ?thesis by (simp add: gets_def)
qed


section \<open>The properties on concrete input\<close>

text \<open>A keyboard whose key \<open>k\<close> is held down, and a shell with a line typed.\<close>

abbreviation (input) key_env :: "u8 \<Rightarrow> env" where
  "key_env k \<equiv> demo_env\<lparr>e_dev := \<lparr>rd8 = (\<lambda>t port. if port = KBD_CMD_PORT then 1 else k), rd32 = (\<lambda>t port. 0)\<rparr>\<rparr>"

definition demo_kbd :: "u8 list \<Rightarrow> nat \<Rightarrow> kbd" where
  "demo_kbd l p = files.extend demo_files (kbd.fields (l @ replicate (50 - length l) 0)
     (replicate 50 0) (replicate 50 0) (of_nat p))"

lemma demo_kbd_fields:
  "line (demo_kbd l p) = l @ replicate (50 - length l) 0" "pos (demo_kbd l p) = of_nat p"
  "cmd (demo_kbd l p) = replicate 50 0" "arg (demo_kbd l p) = replicate 50 0"
  "cslLock (demo_kbd l p) = cslLock demo_files"
  by (simp_all add: demo_kbd_def kbd.defs files.defs fsys.defs disk.defs thr.defs demo_files_def)

lemma key_env_ready: "k AND 0x80 = 0 \<Longrightarrow> key_ready (e_dev (key_env k)) t k"
  by (simp add: key_ready_def)

lemma key_env_feeds: "k AND 0x80 = 0 \<Longrightarrow> feeds (e_dev (key_env k)) t (replicate n k)"
  by (induction n arbitrary: t) (simp_all add: key_ready_def)

lemma replicate_map_two: "replicate 2 x = [x, x]"
  by (simp add: numeral_2_eq_2)

theorem typed_line_witness:
  "line (the (presses (key_env 0x26) 2 (demo_kbd [] 0))) = [0x6c, 0x6c] @ replicate 48 0 \<and>
   presses (key_env 0x26) 51 (demo_kbd [] 0) = None"
proof -
  have fed: "feeds (e_dev (key_env 0x26)) (iotrace (demo_kbd [] 0)) (replicate n 0x26)" for n
    by (rule key_env_feeds) simp
  have ok: "\<forall>k \<in> set (replicate n (0x26 :: u8)). key_char (keymap ! unat k)" for n
    by (simp add: key_char_def)
  have start: "pos (demo_kbd [] 0) = 0" "length (line (demo_kbd [] 0)) = 50"
    by (simp_all add: demo_kbd_fields)
  note all = typed_line [OF fed ok start, unfolded length_replicate]
  have "line (the (presses (key_env 0x26) 2 (demo_kbd [] 0))) = [0x6c, 0x6c] @ drop 2 (line (demo_kbd [] 0))"
    unfolding all [of 2] by (simp add: Let_def replicate_map_two flip: numeral_2_eq_2)
  then have "line (the (presses (key_env 0x26) 2 (demo_kbd [] 0))) = [0x6c, 0x6c] @ replicate 48 0"
    by (simp add: demo_kbd_fields)
  moreover have "presses (key_env 0x26) 51 (demo_kbd [] 0) = None"
    unfolding all [of 51] by simp
  ultimately show ?thesis by blast
qed

lemma word_ok_demo: "word_ok [0x78]" "word_ok [0x79]" "word_ok (codes ''mkdir'')"
  by (simp_all add: word_ok_def codes_def)

theorem shell_runs_typed_command_witness:
  "kbdInterruptHandler (key_env 0x1c) (demo_kbd (codes ''mkdir'' @ [0x20, 0x78]) 7) = do {
     (_, s) \<leftarrow> mk (key_env 0x1c) (0x78 # replicate 49 0)
       (demo_kbd (codes ''mkdir'' @ [0x20, 0x78]) 7\<lparr>
         iotrace := key_read (iotrace (demo_kbd (codes ''mkdir'' @ [0x20, 0x78]) 7)),
         cmd := codes ''mkdir'' @ replicate 45 0, arg := 0x78 # replicate 49 0\<rparr>);
     prompt (s\<lparr>pos := 0\<rparr>) }"
proof -
  let ?s = "demo_kbd (codes ''mkdir'' @ [0x20, 0x78]) 7"
  have len: "length (codes ''mkdir'') = 5" by (simp add: codes_def)
  have l: "line ?s = codes ''mkdir'' @ 0x20 # [0x78] @ 0 # replicate 42 0"
    by (simp add: demo_kbd_fields len) (simp add: numeral_eq_Suc)
  have same: "?s\<lparr>line := codes ''mkdir'' @ 0x20 # [0x78] @ 0 # replicate 42 0\<rparr> = ?s"
    by (rule kbd.equality) (simp_all add: l)
  have b: "blit (replicate 50 0) 0 (codes ''mkdir'' @ [0]) = codes ''mkdir'' @ replicate 45 0"
    "blit (replicate 50 0) 0 ([0x78] @ [0]) = 0x78 # replicate 49 0"
    by (simp_all add: blit_def len) (simp_all add: numeral_eq_Suc)
  have run: "shell e (codes ''mkdir'') u = map_option snd (mk e (arg u) u)" for e and u :: kbd
    by (simp add: shell_def codes_def)
  have upd: "?s\<lparr>iotrace := t, line := l, cmd := c, arg := a\<rparr> = ?s\<lparr>line := l\<rparr>\<lparr>iotrace := t, cmd := c, arg := a\<rparr>" for t l c a
    by simp
  have bind: "Option.bind (map_option snd x) f = Option.bind x (\<lambda>(_, s). f s)" for x :: "(u32 \<times> kbd) option" and f :: "kbd \<Rightarrow> kbd option"
    by (cases x) auto
  have "pos ?s = of_nat (length (codes ''mkdir'') + 1 + length [0x78 :: u8])" "length (line ?s) = 50"
    "length (cmd ?s) = 50" "length (arg ?s) = 50"
    by (simp_all add: demo_kbd_fields len)
  then show ?thesis
    using shell_runs_typed_command [of "key_env 0x1c" ?s "codes ''mkdir''" "[0x78]" 0 "replicate 42 0"]
      word_ok_demo key_env_ready [of "0x1c"] l
    by (simp add: demo_kbd_fields(3,4) run bind b [simplified] upd same [simplified] del: codes_def)
qed

text \<open>Two keys one after the other, on a fresh trace.\<close>

abbreviation (input) two_keys_env :: "u8 \<Rightarrow> u8 \<Rightarrow> env" where
  "two_keys_env j k \<equiv> demo_env\<lparr>e_dev := \<lparr>rd8 = (\<lambda>t port. if port = KBD_CMD_PORT then 1
     else if t = [Inb KBD_CMD_PORT] then j else k), rd32 = (\<lambda>t port. 0)\<rparr>\<rparr>"

lemma demo_lock_free: "lock (cslLock demo_files) = 0"
  using demo_dir by simp

theorem backspace_leaves_line_witness:
  "pos (the (presses (two_keys_env 0x0e 0x26) 1 (demo_kbd [] 0\<lparr>iotrace := []\<rparr>))) = - 1 \<and>
   presses (two_keys_env 0x0e 0x26) 2 (demo_kbd [] 0\<lparr>iotrace := []\<rparr>) = None"
proof -
  have "feeds (e_dev (two_keys_env 0x0e 0x26)) (iotrace (demo_kbd [] 0\<lparr>iotrace := []\<rparr>)) [0x0e, 0x26]"
    by (simp add: key_ready_def)
  moreover have "key_char (keymap ! unat (0x26 :: u8))" by (simp add: key_char_def)
  moreover have "pos (demo_kbd [] 0\<lparr>iotrace := []\<rparr>) = 0" "lock (cslLock (demo_kbd [] 0\<lparr>iotrace := []\<rparr>)) = 0"
    "length (line (demo_kbd [] 0\<lparr>iotrace := []\<rparr>)) = 50"
    using demo_lock_free by (simp_all add: demo_kbd_fields)
  ultimately have all: "presses (two_keys_env 0x0e 0x26) 1 (demo_kbd [] 0\<lparr>iotrace := []\<rparr>) = Some (sti (demo_kbd [] 0\<lparr>iotrace := []\<rparr>)
      \<lparr>iotrace := key_read (iotrace (demo_kbd [] 0\<lparr>iotrace := []\<rparr>)), col := col (demo_kbd [] 0\<lparr>iotrace := []\<rparr>) - 1,
      videoMemory := (videoMemory (demo_kbd [] 0\<lparr>iotrace := []\<rparr>))(CSL_WIDTH * row (demo_kbd [] 0\<lparr>iotrace := []\<rparr>) + (col (demo_kbd [] 0\<lparr>iotrace := []\<rparr>) - 1) :=
        set_char (videoMemory (demo_kbd [] 0\<lparr>iotrace := []\<rparr>) (CSL_WIDTH * row (demo_kbd [] 0\<lparr>iotrace := []\<rparr>) + (col (demo_kbd [] 0\<lparr>iotrace := []\<rparr>) - 1))) 0x20), pos := - 1\<rparr>) \<and>
    presses (two_keys_env 0x0e 0x26) 2 (demo_kbd [] 0\<lparr>iotrace := []\<rparr>) = None"
    by (rule backspace_leaves_line)
  from all show ?thesis by (simp only: option.sel kbd.simps) simp
qed

theorem trailing_blank_takes_old_word_witness:
  "\<exists>a. c_text a = Some [0x79] \<and>
     kbdInterruptHandler (key_env 0x1c) (demo_kbd [0x78, 0x20, 0x71, 0x20, 0x79] 2) = do {
       s \<leftarrow> shell (key_env 0x1c) [0x78] (demo_kbd [0x78, 0x20, 0x71, 0x20, 0x79] 2\<lparr>
         iotrace := key_read (iotrace (demo_kbd [0x78, 0x20, 0x71, 0x20, 0x79] 2)),
         line := [0x78] @ 0x20 # 0 # [] @ 0x20 # [0x79] @ 0 # replicate 44 0,
         cmd := blit (cmd (demo_kbd [0x78, 0x20, 0x71, 0x20, 0x79] 2)) 0 ([0x78] @ [0]), arg := a\<rparr>);
       prompt (s\<lparr>pos := 0\<rparr>) }"
proof -
  let ?s = "demo_kbd [0x78, 0x20, 0x71, 0x20, 0x79] 2"
  have "line ?s = [0x78] @ 0x20 # 0x71 # [] @ 0x20 # [0x79] @ 0 # replicate 44 0"
    by (simp add: demo_kbd_fields numeral_eq_Suc)
  moreover have "pos ?s = of_nat (length [0x78 :: u8] + 1)" "length (line ?s) = 50"
    "length (cmd ?s) = 50" "length (arg ?s) = 50"
    by (simp_all add: demo_kbd_fields)
  ultimately show ?thesis
    using word_ok_demo key_env_ready [of "0x1c"]
    by (intro trailing_blank_takes_old_word [where x = "0x71"]) simp_all
qed

theorem gets_overruns_idle_witness:
  "gets \<lparr>rd8 = (\<lambda>t port. 0), rd32 = (\<lambda>t port. 0)\<rparr> (replicate 50 0) (demo_kbd [] 0) = None"
  by (rule gets_overruns_idle) (simp add: has_data_def)

end
