(* ===== verification/Kernel.thy ===== *)
theory Kernel
  imports Keyboard Fs_Invariant Sync Memory Descriptors
begin

text \<open>
  The kernel as a whole: the dispatch of interrupts (\<^verbatim>\<open>handleInterrupt\<close> of \<^verbatim>\<open>src/idt.c\<close>) and the
  boot sequence (\<^verbatim>\<open>kernelMain\<close> of \<^verbatim>\<open>src/kernel.c\<close>), over the states of all components. The page
  allocator's memory and the descriptor tables are fields of their own; the descriptor code
  drives the same ports and interrupt flag as everything else.
\<close>

section \<open>The kernel's state\<close>

record kernel = kbd +
  k_mem :: kmem
  k_gdt :: "gde list"
  k_gdtr :: "u16 list"
  k_idt :: "ide_t list"
  k_idtr :: "u16 list"
  k_ticks :: u32

text \<open>The frame the stubs of \<^verbatim>\<open>src/interrupt.s\<close> push.\<close>

record trapframe =
  tf_edi :: u32
  tf_esi :: u32
  tf_ebp :: u32
  tf_oesp :: u32
  tf_ebx :: u32
  tf_edx :: u32
  tf_ecx :: u32
  tf_eax :: u32
  tf_gs :: u16
  tf_padding1 :: u16
  tf_fs :: u16
  tf_padding2 :: u16
  tf_es :: u16
  tf_padding3 :: u16
  tf_ds :: u16
  tf_padding4 :: u16
  trapno :: u32
  tf_err :: u32
  tf_eip :: u32
  tf_cs :: u16
  tf_padding5 :: u16
  tf_eflags :: u32
  tf_esp :: u32
  tf_ss :: u16
  tf_padding6 :: u16

abbreviation (input) MASTER_BOUND :: u32 where "MASTER_BOUND \<equiv> 0x20"
abbreviation (input) SLAVE_BOUND :: u32 where "SLAVE_BOUND \<equiv> 0x28"
abbreviation (input) EOI :: u8 where "EOI \<equiv> 0x20"
abbreviation (input) IV_TIMER :: u32 where "IV_TIMER \<equiv> 32"
abbreviation (input) IV_KEYBOARD :: u32 where "IV_KEYBOARD \<equiv> 33"
abbreviation (input) IV_IDE :: u32 where "IV_IDE \<equiv> 46"
abbreviation (input) IV_SYSCALL :: u32 where "IV_SYSCALL \<equiv> 0x80"

section \<open>Interrupts\<close>

definition handleInterrupt :: "env \<Rightarrow> trapframe \<Rightarrow> 'a kbd_scheme \<Rightarrow> 'a kbd_scheme option" where
  "handleInterrupt e f s =
     (let s = (if trapno f \<ge> MASTER_BOUND
               then let s = outb PIC_MASTER_CMD EOI s
                    in if trapno f \<ge> SLAVE_BOUND then outb PIC_SLAVE_CMD EOI s else s
               else s)
      in if trapno f = IV_KEYBOARD then kbdInterruptHandler e s
         else if trapno f = IV_TIMER then Some (thrYeild s)
         else if trapno f = IV_IDE then Some s
         else if trapno f = IV_SYSCALL then Some s
         else Some s)"

section \<open>Booting\<close>

text \<open>Where the linker has put things, and the addresses of the interrupt stubs.\<close>

record image =
  im_heap :: u32
  im_gdt :: u32
  im_idt :: u32
  im_vectors :: "nat \<Rightarrow> u32"
  im_syms :: code_syms

definition desc_of :: "kernel \<Rightarrow> desc" where
  "desc_of s = \<lparr>iotrace = iotrace s, iflag = iflag s, gdt = k_gdt s, gdtr = k_gdtr s, idt = k_idt s,
     idtr = k_idtr s, ticks = k_ticks s\<rparr>"

definition on_desc :: "(desc \<Rightarrow> desc) \<Rightarrow> kernel \<Rightarrow> kernel" where
  "on_desc f s =
     (let d = f (desc_of s)
      in s\<lparr>iotrace := iotrace d, iflag := iflag d, k_gdt := gdt d, k_gdtr := gdtr d, k_idt := idt d,
        k_idtr := idtr d, k_ticks := ticks d\<rparr>)"

text \<open>The steps of \<^verbatim>\<open>kernelMain\<close> by the numbers of its comments.\<close>

definition boot_console :: "kernel \<Rightarrow> kernel option" where
  "boot_console s = do {
     s \<leftarrow> cslInit s;
     s \<leftarrow> printf (cstr (''[ORCAS]: an evolving operating system.'' @ [CHR 0x0a])) [] s;
     printf (cstr (''[ORCAS]: powered by arjenk.'' @ [CHR 0x0a])) [] s }"

definition boot_memory :: "image \<Rightarrow> kernel \<Rightarrow> kernel option" where
  "boot_memory im s = do { m \<leftarrow> kmemInit (im_heap im) (k_mem s); Some (s\<lparr>k_mem := m\<rparr>) }"

definition boot_tables :: "image \<Rightarrow> kernel \<Rightarrow> kernel" where
  "boot_tables im s =
     (let s = on_desc (gdtInit (im_gdt im)) s
      in on_desc (idtInit (im_vectors im) (im_idt im)) s)"

definition boot_core :: "image \<Rightarrow> kernel \<Rightarrow> kernel option" where
  "boot_core im s = do {
     s \<leftarrow> boot_console s;
     s \<leftarrow> boot_memory im s;
     let s = boot_tables im s;
     Some (thrInit (im_syms im) s) }"

definition kernelMain :: "env \<Rightarrow> image \<Rightarrow> kernel \<Rightarrow> kernel option" where
  "kernelMain e im s = do {
     s \<leftarrow> boot_core im s;
     s \<leftarrow> fsInit e s;
     s \<leftarrow> printf (cstr ''arjenk@orcas: %s$ '') [Str (cwd_name s)] s;
     s \<leftarrow> kbdDriverInit (e_dev e) s;
     Some (timerDriverInit s) }"

section \<open>Acknowledging\<close>

definition acks :: "u32 \<Rightarrow> ioev list" where
  "acks n = (if n \<ge> SLAVE_BOUND then [Outb PIC_SLAVE_CMD EOI, Outb PIC_MASTER_CMD EOI]
     else if n \<ge> MASTER_BOUND then [Outb PIC_MASTER_CMD EOI] else [])"

lemma handleInterrupt_acks:
  "handleInterrupt e f s =
     (let s = s\<lparr>iotrace := acks (trapno f) @ iotrace s\<rparr>
      in if trapno f = IV_KEYBOARD then kbdInterruptHandler e s
         else if trapno f = IV_TIMER then Some (thrYeild s) else Some s)"
proof -
  have "SLAVE_BOUND \<le> n \<Longrightarrow> MASTER_BOUND \<le> n" for n :: u32
    by (rule order_trans [of _ SLAVE_BOUND]) simp_all
  then show ?thesis by (auto simp: handleInterrupt_def acks_def outb_def Let_def)
qed

lemma upd_thr_iotrace:
  "upd_thr r g (s\<lparr>iotrace := t\<rparr>) = upd_thr r g s\<lparr>iotrace := t\<rparr>" "iotrace (upd_thr r g s) = iotrace s"
  by (cases r; simp add: upd_thr_def)+

lemma thrSched_step_iotrace: "thrSched_step (s\<lparr>iotrace := t\<rparr>) = thrSched_step s\<lparr>iotrace := t\<rparr>"
proof -
  have swap: "(s\<lparr>iotrace := t\<rparr>)\<lparr>sched_t := x, thr_current := x\<rparr> =
      s\<lparr>sched_t := x, thr_current := x\<rparr>\<lparr>iotrace := t\<rparr>" for x
    by simp
  show ?thesis by (simp add: thrSched_step_def Let_def swap upd_thr_iotrace)
qed

lemma thrYeild_iotrace_upd: "thrYeild (s\<lparr>iotrace := t\<rparr>) = thrYeild s\<lparr>iotrace := t\<rparr>"
  by (simp add: thrYeild_def yield_leave_def Let_def upd_thr_iotrace thrSched_step_iotrace)

text \<open>A number of timer interrupts, one after the other.\<close>

fun ticked :: "env \<Rightarrow> trapframe \<Rightarrow> nat \<Rightarrow> 'a kbd_scheme \<Rightarrow> 'a kbd_scheme option" where
  "ticked e f 0 s = Some s"
| "ticked e f (Suc n) s = do { s \<leftarrow> handleInterrupt e f s; ticked e f n s }"

lemma ticked_yields:
  assumes "trapno f = IV_TIMER"
  shows "\<exists>t. ticked e f n s = Some ((thrYeild ^^ n) s\<lparr>iotrace := t\<rparr>)"
proof (induction n arbitrary: s)
  case 0
  have "s\<lparr>iotrace := iotrace s\<rparr> = s" by simp
  then show ?case by (metis ticked.simps(1) funpow_0)
next
  case (Suc n)
  have "handleInterrupt e f s = Some (thrYeild s\<lparr>iotrace := acks (trapno f) @ iotrace s\<rparr>)"
    using assms by (simp add: handleInterrupt_acks thrYeild_iotrace_upd Let_def)
  moreover obtain t where "ticked e f n (thrYeild s\<lparr>iotrace := acks (trapno f) @ iotrace s\<rparr>) =
      Some ((thrYeild ^^ n) (thrYeild s\<lparr>iotrace := acks (trapno f) @ iotrace s\<rparr>)\<lparr>iotrace := t\<rparr>)"
    using Suc by blast
  moreover have "(thrYeild ^^ n) (u\<lparr>iotrace := a\<rparr>) = (thrYeild ^^ n) u\<lparr>iotrace := a\<rparr>" for u :: "'a kbd_scheme" and a
    by (induction n) (simp_all add: thrYeild_iotrace_upd)
  ultimately show ?case by (auto simp: funpow_swap1)
qed


section \<open>Everything that can happen\<close>

text \<open>
  A step of the kernel: a call of the thread library, an interrupt at any time, or the start of the
  file system.
\<close>

inductive kernel_step :: "env \<Rightarrow> code_syms \<Rightarrow> 'a kbd_scheme \<Rightarrow> 'a kbd_scheme \<Rightarrow> bool" for e sy where
  call: "kstep sy s s' \<Longrightarrow> kernel_step e sy s s'"
| interrupt: "handleInterrupt e f s = Some s' \<Longrightarrow> kernel_step e sy s s'"
| mount: "fsInit e s = Some s' \<Longrightarrow> kernel_step e sy s s'"

inductive_cases kernel_stepE: "kernel_step e sy s s'"

lemmas kernel_step_split [consumes 1, case_names call interrupt mount] = kernel_stepE

definition kernel_ok :: "'a kbd_scheme \<Rightarrow> bool" where
  "kernel_ok s \<longleftrightarrow> kinv s \<and> fs_ok (view s) s"

lemma kinv_view: "view s' = view s \<Longrightarrow> kinv s' = kinv s"
  by (simp add: kinv_def thr_ok_def view_def)

lemma kernel_ok_view: "kernel_ok s \<Longrightarrow> fs_ok (view s) s' \<Longrightarrow> kernel_ok s'"
proof -
  assume ok: "kernel_ok s" "fs_ok (view s) s'"
  then have "view s' = view s" by (simp add: fs_ok_def)
  with ok kinv_view [of s' s] show ?thesis by (simp add: kernel_ok_def)
qed

lemma kernel_ok_yields: "kernel_ok s \<Longrightarrow> yields x (fs_ok (view s)) \<Longrightarrow> yields x kernel_ok"
  by (auto intro: yields_mono kernel_ok_view)

text \<open>The thread library leaves blocks and inodes alone.\<close>

lemma upd_thr_fs [simp]:
  "blocks (upd_thr r g s) = blocks (s :: 'a fsys_scheme)" "inodes (upd_thr r g s) = inodes s"
  by (cases r; simp add: upd_thr_def)+

lemma thrSched_step_fs [simp]:
  "blocks (thrSched_step s) = blocks (s :: 'a fsys_scheme)" "inodes (thrSched_step s) = inodes s"
  by (simp_all add: thrSched_step_def Let_def)

lemma lock_fs:
  assumes "spinlockLock l (s :: 'a fsys_scheme) = Some (l', s')"
  shows "blocks s' = blocks s" "inodes s' = inodes s"
  using assms by (cases "lock l = 0"; auto simp: spinlockLock_free spinlockLock_held cli_def)+

lemma kstep_fs:
  assumes "kstep sy s s'"
  shows "blocks s' = blocks (s :: 'a fsys_scheme) \<and> inodes s' = inodes s"
  using assms
proof (cases rule: kstep_split)
  case (create f a)
  then show ?thesis by (simp add: thrCreate_def Let_def split: option.split)
next
  case yield
  then show ?thesis by (simp add: thrYeild_def yield_leave_def Let_def)
next
  case exit
  then show ?thesis by (simp add: thrExit_def)
next
  case (kill t)
  then show ?thesis by (auto simp: thrKill_def split: if_splits)
next
  case (wait junk c spl l)
  then show ?thesis
    by (cases spl) (auto simp: thrCondWait_def Let_def spinlockUnlock_def sti_def bind_eq_Some_conv lock_fs)
qed (simp_all add: thrCondSignal_def thrCondBroadcast_def thrSemUp_def)

section \<open>Interrupts keep the shape\<close>

lemma kbd_fields [simp]:
  "fs_ok T (s\<lparr>line := l\<rparr>) = fs_ok T s" "fs_ok T (s\<lparr>cmd := l\<rparr>) = fs_ok T s"
  "fs_ok T (s\<lparr>arg := l\<rparr>) = fs_ok T s" "fs_ok T (s\<lparr>pos := p\<rparr>) = fs_ok T s"
  by (simp_all add: fs_ok_def view_def)

lemma putc_ok: "fs_ok T s \<Longrightarrow> fs_ok T (putc c s)"
  using fold_putc_store [of "[c]" s] by (auto elim: fs_ok_cong)

lemma put_line_ok: "fs_ok T s \<Longrightarrow> yields1 (put_line v s) (fs_ok T)"
  by (simp add: put_line_def)

lemma lock_console_ok: "fs_ok T s \<Longrightarrow> yields1 (lock_console s) (fs_ok T)"
  by (cases "lock (cslLock s) = 0")
    (auto simp: lock_console_free lock_console_held cli_def elim: fs_ok_cong)

lemma unlock_console_ok: "fs_ok T s \<Longrightarrow> fs_ok T (unlock_console s)"
  by (auto simp: unlock_console_def spinlockUnlock_def sti_def Let_def elim: fs_ok_cong)

lemma getPos_ok: "fs_ok T s \<Longrightarrow> yields2 (getPos s) (fs_ok T)"
  unfolding getPos_def Let_def by (rule bind1 [OF lock_console_ok]) (auto intro: unlock_console_ok)

lemma setPos_ok: "fs_ok T s \<Longrightarrow> yields1 (setPos x y c s) (fs_ok T)"
  unfolding setPos_def Let_def
  by (rule bind1 [OF lock_console_ok]) (auto intro!: unlock_console_ok elim: fs_ok_cong)

lemma run_command_ok: "fs_ok T s \<Longrightarrow> env_ok e \<Longrightarrow> yields1 (run_command e s) (fs_ok T)"
  unfolding run_command_def
  by (auto intro!: keep pure_bind [where x = "strcmp a b" for a b] bind2 [OF ls_ok] bind2 [OF cd_ok] bind2 [OF mk_ok])

lemma prompt_ok: "fs_ok T s \<Longrightarrow> yields1 (prompt s) (fs_ok T)"
  unfolding prompt_def by (rule printf_ok)

lemma key_pressed_ok:
  assumes "fs_ok T s" "env_ok e"
  shows "yields1 (key_pressed e k s) (fs_ok T)"
proof -
  have enter: "yields1 (do { s \<leftarrow> put_line 0 s; (c, a) \<leftarrow> parseCmd (line s) (cmd s) (arg s);
      run_command e (s\<lparr>cmd := c, arg := a\<rparr>) }) (fs_ok T)"
    by (rule bind1 [OF put_line_ok [OF assms(1)]], rule pure_bind)
      (auto intro: run_command_ok [OF _ assms(2)])
  have rub: "yields1 (do { ((x, y), s) \<leftarrow> getPos s; s \<leftarrow> setPos x (y - 1) 0x20 s;
      Some (s\<lparr>pos := pos s - 1\<rparr>) }) (fs_ok T)"
    using getPos_ok [OF assms(1)]
    by (cases "getPos s") (auto intro!: bind1 [OF setPos_ok])
  have line: "yields1 (do { s \<leftarrow> (if 0 < sint (pos s) then do {
        s \<leftarrow> put_line 0 s; (c, a) \<leftarrow> parseCmd (line s) (cmd s) (arg s);
        run_command e (s\<lparr>cmd := c, arg := a\<rparr>) } else Some s);
      prompt (s\<lparr>pos := 0\<rparr>) }) (fs_ok T)"
    by (rule bind1 [where Q = "fs_ok T"], rule yields_if, rule enter) (simp_all add: assms(1) prompt_ok)
  show ?thesis unfolding key_pressed_def
    by (intro yields_if bind1 [OF put_line_ok] putc_ok rub line) (simp_all add: assms(1))
qed

lemma kbdInterruptHandler_ok:
  assumes "fs_ok T s" "env_ok e"
  shows "yields1 (kbdInterruptHandler e s) (fs_ok T)"
proof -
  obtain v u where g: "getc (e_dev e) s = (v, u)" by fastforce
  with assms(1) have "fs_ok T u"
    by (auto simp: getc_def inb_def Let_def split: if_splits elim!: fs_ok_cong)
  with g show ?thesis
    by (auto simp: kbdInterruptHandler_def Let_def key_pressed_ok assms(2) intro: yields_if)
qed

lemma kernel_step_ok:
  assumes "kernel_step e sy s s'" "kernel_ok s" "env_ok e"
  shows "kernel_ok s'"
  using assms(1)
proof (cases rule: kernel_step_split)
  case call
  from kstep_fs [OF call] assms(2) have "fs_ok (view s') s'" by (simp add: kernel_ok_def fs_ok_def)
  with kinv_step [OF call] assms(2) show ?thesis by (simp add: kernel_ok_def)
next
  case (interrupt f)
  let ?s = "s\<lparr>iotrace := acks (trapno f) @ iotrace s\<rparr>"
  have ok: "kernel_ok ?s"
    using assms(2) kinv_view [of ?s s] by (auto simp: kernel_ok_def elim!: fs_ok_cong)
  then have fs: "fs_ok (view ?s) ?s" by (simp add: kernel_ok_def)
  have "kernel_ok (thrYeild ?s)"
    using kstep_fs [OF kstep.yield, of ?s] kinv_step [OF kstep.yield, of ?s] ok
    by (simp add: kernel_ok_def fs_ok_def)
  moreover have "yields1 (kbdInterruptHandler e ?s) kernel_ok"
    by (rule kernel_ok_yields [OF ok kbdInterruptHandler_ok [OF fs assms(3)]])
  ultimately show ?thesis
    using interrupt ok by (auto simp: handleInterrupt_acks Let_def yields_def split: if_splits)
next
  case mount
  then show ?thesis
    using kernel_ok_yields [OF assms(2) fsInit_ok] assms(2,3) by (auto simp: kernel_ok_def yields_def)
qed

lemma kernel_reach_ok:
  "(kernel_step e sy)\<^sup>*\<^sup>* s s' \<Longrightarrow> kernel_ok s \<Longrightarrow> env_ok e \<Longrightarrow> kernel_ok s'"
  by (induction rule: rtranclp_induct) (blast intro: kernel_step_ok)+


lemma idtInit_gdt: "gdt (idtInit vectors addr s) = gdt s" "ticks (idtInit vectors addr s) = ticks s"
proof -
  have "gdt (fold (\<lambda>i s. s\<lparr>idt := (idt s)[i := idt_gate vectors i (idt s ! i)]\<rparr>) is s) = gdt s"
    "ticks (fold (\<lambda>i s. s\<lparr>idt := (idt s)[i := idt_gate vectors i (idt s ! i)]\<rparr>) is s) = ticks s" for "is"
    by (induction "is" arbitrary: s) simp_all
  then show "gdt (idtInit vectors addr s) = gdt s" "ticks (idtInit vectors addr s) = ticks s"
    by (simp_all add: idtInit_def outb_def Let_def)
qed


section \<open>The boot sequence\<close>

lemma printf_free:
  assumes "lock (cslLock s) = 0" "fmt_text f args = Some t"
  shows "\<exists>s'. printf f args s = Some s' \<and> lock (cslLock s') = 0 \<and> iflag s'"
proof -
  have "printf f args s = Some (unlock_console (fold putc t (cli s\<lparr>cslLock := (cslLock s)\<lparr>lock := 1\<rparr>\<rparr>)))"
    using assms by (simp add: printf_def lock_console_free printf_loop_text)
  then show ?thesis by (simp add: unlock_console_def spinlockUnlock_def sti_def Let_def)
qed

text \<open>The console keeps every other part of the kernel.\<close>

definition descs :: "kernel \<Rightarrow> gde list \<times> u16 list \<times> ide_t list \<times> u16 list \<times> u32" where
  "descs s = (k_gdt s, k_gdtr s, k_idt s, k_idtr s, k_ticks s)"

definition rest :: "kernel \<Rightarrow> kmem \<times> (gde list \<times> u16 list \<times> ide_t list \<times> u16 list \<times> u32) \<times> sched_view" where
  "rest s = (k_mem s, descs s, view s)"

lemma putc_rest: "rest (fold putc t s) = rest s"
proof -
  have "k_mem (putc c s) = k_mem s" "descs (putc c s) = descs s" for c and s :: kernel
    by (simp_all add: putc_def clear_def Let_def descs_def)
  then have "k_mem (fold putc t s) = k_mem s" "descs (fold putc t s) = descs s"
    by (induction t arbitrary: s) simp_all
  then show ?thesis by (simp add: rest_def fold_putc_store)
qed

lemma printf_rest: "printf f args s = Some s' \<Longrightarrow> rest s' = rest s"
proof -
  have "rest (unlock_console s) = rest s" for s
    by (simp add: rest_def descs_def unlock_console_def spinlockUnlock_def sti_def Let_def)
  moreover have "rest (cli s\<lparr>cslLock := l\<rparr>) = rest s" for s l
    by (simp add: rest_def descs_def cli_def)
  ultimately show "printf f args s = Some s' \<Longrightarrow> rest s' = rest s"
    by (cases "lock (cslLock s) = 0"; cases "fmt_text f args")
      (auto simp: printf_def lock_console_free lock_console_held printf_loop_text putc_rest)
qed

lemma cslInit_free:
  "\<exists>s'. cslInit s = Some s' \<and> lock (cslLock s') = 0 \<and> row s' = 0 \<and> col s' = 0 \<and> rest s' = rest s"
  by (simp add: cslInit_def lock_console_free spinlockInit_def unlock_console_def spinlockUnlock_def
      cli_def sti_def Let_def rest_def descs_def)

lemma boot_console_done: "\<exists>s'. boot_console s = Some s' \<and> lock (cslLock s') = 0 \<and> iflag s' \<and> rest s' = rest s"
proof -
  have fmt: "\<exists>t. fmt_text (cstr (''[ORCAS]: an evolving operating system.'' @ [CHR 0x0a])) [] = Some t"
    "\<exists>t. fmt_text (cstr (''[ORCAS]: powered by arjenk.'' @ [CHR 0x0a])) [] = Some t"
    by (simp_all add: cstr_def)
  obtain s1 where s1: "cslInit s = Some s1" "lock (cslLock s1) = 0" "rest s1 = rest s"
    using cslInit_free by blast
  obtain s2 where s2: "printf (cstr (''[ORCAS]: an evolving operating system.'' @ [CHR 0x0a])) [] s1 = Some s2"
      "lock (cslLock s2) = 0"
    using fmt(1) printf_free [OF s1(2)] by blast
  obtain s3 where s3: "printf (cstr (''[ORCAS]: powered by arjenk.'' @ [CHR 0x0a])) [] s2 = Some s3"
      "lock (cslLock s3) = 0" "iflag s3"
    using fmt(2) printf_free [OF s2(2)] by blast
  have "rest s3 = rest s" using s1(3) printf_rest [OF s2(1)] printf_rest [OF s3(1)] by simp
  with s1 s2 s3 show ?thesis by (simp add: boot_console_def)
qed

lemma on_desc_simps [simp]:
  "view (on_desc f s) = view s" "k_mem (on_desc f s) = k_mem s" "cslLock (on_desc f s) = cslLock s"
  "k_gdt (on_desc f s) = gdt (f (desc_of s))" "k_idt (on_desc f s) = idt (f (desc_of s))"
  by (simp_all add: on_desc_def Let_def view_def)

lemma desc_of_simps [simp]: "gdt (desc_of s) = k_gdt s" "idt (desc_of s) = k_idt s"
  by (simp_all add: desc_of_def)

lemma thrInit_form:
  assumes "length (thrqueue s) = 256"
  shows "\<exists>l q n. thrInit sy s = s\<lparr>thrque_lock := l, thrqueue := q, thr_null := n, iflag := True\<rparr>"
proof -
  define u where "u = (cli s)\<lparr>thrque_lock := spinlockInit (thrque_lock (cli s))\<rparr>"
  define f where "f = (\<lambda>(i :: nat) t. t\<lparr>tid := of_nat i :: u32, status := THR_UNUSED\<rparr> :: thread)"
  have "length (thrqueue u) = 256" using assms by (simp add: u_def cli_def)
  then have fold: "fold (\<lambda>i. upd_thr (Thr i) (f i)) [0..<256] u =
      u\<lparr>thrqueue := map (\<lambda>i. f i (thrqueue u ! i)) [0..<256] @ drop 256 (thrqueue u)\<rparr>"
    by (intro fold_upd_thr) simp
  have init: "thrInit sy s = (let sp = 1004; v = fold (\<lambda>i. upd_thr (Thr i) (f i)) [0..<256] u;
      v = upd_thr ThrNull (\<lambda>t. t\<lparr>ctx := (ThrNull, sp)\<rparr>) v;
      v = upd_thr ThrNull (\<lambda>t. t\<lparr>kstack := blit (kstack t) sp (replicate 20 0)\<rparr>) v
    in sti (upd_thr ThrNull (\<lambda>t. t\<lparr>kstack := put32 (kstack t) (sp + 16) (sym_thrSched sy)\<rparr>) v))"
    by (simp add: thrInit_def f_def u_def Let_def)
  show ?thesis unfolding init [unfolded fold Let_def] u_def cli_def sti_def upd_thr_def
    by (simp del: upt_Suc) (intro exI, rule refl)
qed

lemma thrInit_frame:
  assumes "length (thrqueue s) = 256"
  shows "k_mem (thrInit sy s) = k_mem (s :: kernel)" "k_gdt (thrInit sy s) = k_gdt s"
    "k_idt (thrInit sy s) = k_idt s" "cslLock (thrInit sy s) = cslLock s" "iflag (thrInit sy s)"
  using thrInit_form [OF assms, of sy] by auto

lemma thrInit_fs:
  assumes "length (thrqueue s) = 256"
  shows "blocks (thrInit sy s) = blocks (s :: 'a fsys_scheme)" "inodes (thrInit sy s) = inodes s"
  using thrInit_form [OF assms, of sy] by auto

section \<open>Properties\<close>

lemma boot_core_done:
  assumes "im_heap im < 0x80000000" "length (k_gdt s) = 6" "\<forall>g \<in> set (k_gdt s). length g = 8"
    and "length (k_idt s) = 256" "length (thrqueue s) = 256"
  shows "\<exists>s'. boot_core im s = Some s' \<and>
    (\<forall>va. translate (kpgdir (k_mem s')) va (k_mem s') = (if VTOP va < KERNSIZE then VTOP va else 0)) \<and>
    (\<forall>k < 4. seg_base (k_gdt s' ! Suc k) = 0 \<and> seg_limit (k_gdt s' ! Suc k) = 0xffffffff) \<and>
    (\<forall>i < 256. gate_offset (k_idt s' ! i) = im_vectors im i) \<and>
    (\<forall>i < 256. status (thrqueue s' ! i) = THR_UNUSED \<and> tid (thrqueue s' ! i) = of_nat i) \<and>
    lock (cslLock s') = 0 \<and> iflag s'"
proof -
  obtain s1 where s1: "boot_console s = Some s1" "lock (cslLock s1) = 0" "rest s1 = rest s"
    using boot_console_done by blast
  obtain m where m: "kmemInit (im_heap im) (k_mem s1) = Some m"
    "\<forall>va. translate (kpgdir m) va m = (if VTOP va < KERNSIZE then VTOP va else 0)"
    using kmemInit_maps_kernel [OF assms(1)] by blast
  define s2 where "s2 = s1\<lparr>k_mem := m\<rparr>"
  have s2: "k_gdt s2 = k_gdt s" "k_idt s2 = k_idt s" "thrqueue s2 = thrqueue s" "cslLock s2 = cslLock s1" "k_mem s2 = m"
    using s1(3) by (simp_all add: s2_def rest_def descs_def view_def)
  define s3 where "s3 = boot_tables im s2"
  have core: "boot_core im s = Some (thrInit (im_syms im) s3)"
    using s1(1) m(1) by (simp add: boot_core_def boot_memory_def s2_def s3_def Let_def)
  have "view s3 = view s2" by (simp add: s3_def boot_tables_def Let_def)
  then have th: "length (thrqueue s3) = 256" using assms(5) s2 by (simp add: view_def)
  have parts: "k_mem s3 = m" "cslLock s3 = cslLock s1"
    "k_gdt s3 = gdt (gdtInit (im_gdt im) (desc_of s2))"
    using s2 by (simp_all add: s3_def boot_tables_def Let_def idtInit_gdt)
  have "length (idt (desc_of (on_desc (gdtInit (im_gdt im)) s2))) = 256"
    using assms(4) s2 by (simp add: gdtInit_def Let_def)
  then have gates: "\<forall>i < 256. gate_offset (k_idt s3 ! i) = im_vectors im i"
    by (simp add: s3_def boot_tables_def Let_def idtInit_tables idt_gate_leads del: upt_Suc)
  have segs: "seg_base (k_gdt s3 ! k) = 0 \<and> seg_limit (k_gdt s3 ! k) = 0xffffffff" if "k \<in> {1, 2, 3, 4}" for k
    using gdtInit_flat [of "desc_of s2" "im_gdt im"] assms(2,3) s2(1) that by (auto simp: parts)
  have "\<forall>k < 4. seg_base (k_gdt s3 ! Suc k) = 0 \<and> seg_limit (k_gdt s3 ! Suc k) = 0xffffffff"
    using segs by (auto simp: numeral_eq_Suc less_Suc_eq)
  with core gates parts s1(2) m(2) show ?thesis
    using thrInit_frame [OF th, of "im_syms im"] thrInit_table [OF th, of "im_syms im"]
    by (intro exI [of _ "thrInit (im_syms im) s3"]) (simp del: upt_Suc)
qed

text \<open>
  C4. What the kernel has set up before the file system: from any contents of memory, with a kernel image
  that ends below 2 GB, the boot sequence gets that far; then the 256 MB above \<^verbatim>\<open>KERNELBASE\<close> translate to
  physical memory, the segments span the address space, every vector leads to its stub, the thread table is
  empty, the console is free and interrupts are on.
\<close>

theorem boot_prepares_kernel:
  assumes "im_heap im < 0x80000000" "length (k_gdt s) = 6" "\<forall>g \<in> set (k_gdt s). length g = 8"
    and "length (k_idt s) = 256" "length (thrqueue s) = 256"
  shows "\<exists>s'. boot_core im s = Some s' \<and>
    (\<forall>va. translate (kpgdir (k_mem s')) va (k_mem s') = (if VTOP va < KERNSIZE then VTOP va else 0)) \<and>
    (\<forall>k < 4. seg_base (k_gdt s' ! Suc k) = 0 \<and> seg_limit (k_gdt s' ! Suc k) = 0xffffffff) \<and>
    (\<forall>i < 256. gate_offset (k_idt s' ! i) = im_vectors im i) \<and>
    (\<forall>i < 256. status (thrqueue s' ! i) = THR_UNUSED \<and> tid (thrqueue s' ! i) = of_nat i) \<and>
    lock (cslLock s') = 0 \<and> iflag s'"
  by (rule boot_core_done [OF assms])

text \<open>
  Interrupts are on before there is a table for them: printing the first line unlocks the console, which
  sets the interrupt flag, while the interrupt table and its register are as the machine left them.
\<close>

theorem interrupts_before_table:
  "\<exists>s'. boot_console s = Some s' \<and> iflag s' \<and> k_idt s' = k_idt s \<and> k_idtr s' = k_idtr s"
  using boot_console_done [of s] by (auto simp: rest_def descs_def)

text \<open>
  C6. Time slices: with every ready thread at the same counter \<open>c\<close>, the timer interrupt after timer interrupt gives
  the processor to the ready threads in the order of the table, round after round, \<open>c\<close> slices each.
\<close>

theorem timer_round_robin:
  assumes "trapno f = IV_TIMER"
    and "\<forall>j < length (thrqueue s). status (thrqueue s ! j) = THR_READY \<longrightarrow> sint (counter (thrqueue s ! j)) = c"
    and "int r < c" "k < length (ready_slots s)"
  shows "\<exists>s'. ticked e f (r * length (ready_slots s) + k) (thrSched_step s) = Some s' \<and>
    thr_current s' = Thr (ready_slots s ! k)"
proof -
  obtain t where "ticked e f (r * length (ready_slots s) + k) (thrSched_step s) =
      Some ((thrYeild ^^ (r * length (ready_slots s) + k)) (thrSched_step s)\<lparr>iotrace := t\<rparr>)"
    using ticked_yields [OF assms(1)] by blast
  with yields_in_rounds [OF assms(2-4)] show ?thesis by simp
qed

text \<open>
  Without a thread that is ready and has time left, the timer interrupt switches to whatever thread the
  scheduler's local variable points to.
\<close>

theorem idle_tick_runs_stale_thread:
  assumes "trapno f = IV_TIMER" "thr_current s = ThrNull" "length (thrqueue s) = 256" "ref_ok (sched_t s)"
    and "\<forall>t \<in> set (thrqueue s). status t = THR_READY \<longrightarrow> sint (counter t) \<le> 0"
  shows "\<exists>s'. handleInterrupt e f s = Some s' \<and> thr_current s' = sched_t s \<and>
    status (get_thr (sched_t s) s') = THR_RUNNING"
proof -
  let ?s = "s\<lparr>iotrace := acks (trapno f) @ iotrace s\<rparr>"
  have l: "thrqueue (yield_leave ?s) = thrqueue s" "sched_t (yield_leave ?s) = sched_t s"
    using assms(2) by (simp_all add: yield_leave_def upd_thr_def)
  have none: "sched_pick (yield_leave ?s) = None"
  proof (rule ccontr)
    assume "sched_pick (yield_leave ?s) \<noteq> None"
    then obtain i where "sched_pick (yield_leave ?s) = Some i" by blast
    from sched_pick_SomeD(1-3) [OF this] assms(5) show False by (auto simp: l)
  qed
  have "thrYeild ?s = upd_thr (sched_t s) (\<lambda>x. x\<lparr>status := THR_RUNNING\<rparr>)
      ((yield_leave ?s)\<lparr>thr_current := sched_t s\<rparr>)"
    unfolding thrYeild_def dispatch_None [OF none] l ..
  moreover have "status (get_thr (sched_t s) (upd_thr (sched_t s) (\<lambda>x. x\<lparr>status := THR_RUNNING\<rparr>)
      ((yield_leave ?s)\<lparr>thr_current := sched_t s\<rparr>))) = THR_RUNNING"
    using assms(3,4) l(1) by (cases "sched_t s") (simp_all add: get_thr_def upd_thr_def ref_ok_def)
  ultimately show ?thesis
    using assms(1) by (simp add: handleInterrupt_acks Let_def upd_thr_current)
qed

text \<open>
  Every other vector is acknowledged, by the slave controller too when its number is from 0x28 on, whether
  an interrupt controller raised it or not; nothing else happens. So the completion of a disk command wakes
  nobody, and a system call does nothing.
\<close>

theorem other_interrupts_do_nothing:
  assumes "trapno f \<noteq> IV_TIMER" "trapno f \<noteq> IV_KEYBOARD"
  shows "handleInterrupt e f s = Some (s\<lparr>iotrace :=
    (if trapno f < MASTER_BOUND then [] else if trapno f < SLAVE_BOUND then [Outb 0x20 0x20]
     else [Outb 0xa0 0x20, Outb 0x20 0x20]) @ iotrace s\<rparr>)"
proof -
  have "MASTER_BOUND \<le> n" if "\<not> n < SLAVE_BOUND" for n :: u32
    using that by (intro order_trans [of MASTER_BOUND SLAVE_BOUND n]) simp_all
  then show ?thesis using assms by (auto simp: handleInterrupt_acks acks_def Let_def not_less not_le)
qed

text \<open>
  C1. The kernel's invariant: from a kernel whose memory has its shape, through any sequence of thread calls,
  interrupts at any moment with any key, and the mounting of the file system, at most one thread is marked as
  running and it is the current one, slot i holds thread i, and buffers and inodes keep their sizes.
\<close>

theorem kernel_keeps_invariant:
  assumes "(kernel_step e sy)\<^sup>*\<^sup>* (thrInit sy s) s'" "env_ok e"
    and "length (thrqueue s) = 256" "\<forall>i < 256. length (kstack (thrqueue s ! i)) = 1024"
    and "ref_ok (thr_current s)" "ref_ok (sched_t s)"
    and "\<forall>r. length (buf (blocks s r)) = 512" "\<forall>r. length (dblock (dinode (inodes s r))) = 64"
  shows "(\<forall>i < 256. tid (thrqueue s' ! i) = of_nat i \<and>
      (status (thrqueue s' ! i) = THR_RUNNING \<longrightarrow> thr_current s' = Thr i)) \<and>
    (\<forall>r. length (buf (blocks s' r)) = 512) \<and> (\<forall>r. length (dblock (dinode (inodes s' r))) = 64)"
proof -
  have "fs_ok (view (thrInit sy s)) (thrInit sy s)"
    using assms(7,8) thrInit_fs [OF assms(3)] by (simp add: fs_ok_def)
  with kinv_init [OF assms(3-6)] have "kernel_ok (thrInit sy s)" by (simp add: kernel_ok_def)
  from kernel_reach_ok [OF assms(1) this assms(2)] show ?thesis
    by (auto simp: kernel_ok_def kinv_def thr_ok_def fs_ok_def)
qed


section \<open>The properties on concrete input\<close>

definition demo_kernel :: kernel where
  "demo_kernel = kbd.extend ((demo_kbd [] 0)\<lparr>iotrace := [], thrqueue := replicate 256 idle_thread,
       thr_current := ThrNull, sched_t := ThrNull\<rparr>)
     (kernel.fields small_heap (gdt blank_desc) [] (idt blank_desc) [] 0)"

lemma demo_kernel_fields:
  "thrqueue demo_kernel = replicate 256 idle_thread" "thr_current demo_kernel = ThrNull"
  "sched_t demo_kernel = ThrNull" "k_gdt demo_kernel = gdt blank_desc" "k_idt demo_kernel = idt blank_desc"
  "blocks demo_kernel = blocks demo_files" "inodes demo_kernel = inodes demo_files"
  by (simp_all add: demo_kernel_def demo_kbd_def kernel.defs kbd.defs files.defs fsys.defs disk.defs thr.defs)

abbreviation (input) demo_frame :: "u32 \<Rightarrow> trapframe" where
  "demo_frame n \<equiv> \<lparr>tf_edi = 0, tf_esi = 0, tf_ebp = 0, tf_oesp = 0, tf_ebx = 0, tf_edx = 0, tf_ecx = 0,
     tf_eax = 0, tf_gs = 0, tf_padding1 = 0, tf_fs = 0, tf_padding2 = 0, tf_es = 0, tf_padding3 = 0,
     tf_ds = 0, tf_padding4 = 0, trapno = n, tf_err = 0, tf_eip = 0, tf_cs = 8, tf_padding5 = 0,
     tf_eflags = 0, tf_esp = 0, tf_ss = 0, tf_padding6 = 0\<rparr>"

abbreviation (input) demo_image :: image where
  "demo_image \<equiv> \<lparr>im_heap = 0x345678, im_gdt = 0x120000, im_idt = 0x121000,
     im_vectors = (\<lambda>i. 0x100000 + 16 * of_nat i), im_syms = demo_syms\<rparr>"

theorem boot_prepares_kernel_witness:
  "\<exists>s'. boot_core demo_image demo_kernel = Some s' \<and>
    translate (kpgdir (k_mem s')) 0x8123456 (k_mem s') = 0x123456 \<and>
    seg_limit (k_gdt s' ! 1) = 0xffffffff \<and> gate_offset (k_idt s' ! 33) = 0x100210 \<and> iflag s'"
proof -
  have "im_heap demo_image < 0x80000000" "length (k_gdt demo_kernel) = 6"
    "\<forall>g \<in> set (k_gdt demo_kernel). length g = 8" "length (k_idt demo_kernel) = 256"
    "length (thrqueue demo_kernel) = 256"
    by (simp_all add: demo_kernel_fields blank_desc_def)
  from boot_prepares_kernel [OF this] obtain s' where s': "boot_core demo_image demo_kernel = Some s'"
    "\<forall>va. translate (kpgdir (k_mem s')) va (k_mem s') = (if VTOP va < KERNSIZE then VTOP va else 0)"
    "\<forall>k < 4. seg_base (k_gdt s' ! Suc k) = 0 \<and> seg_limit (k_gdt s' ! Suc k) = 0xffffffff"
    "\<forall>i < 256. gate_offset (k_idt s' ! i) = im_vectors demo_image i" "iflag s'"
    by blast
  then show ?thesis
    using s'(2) [rule_format, of "0x8123456"] s'(3) [rule_format, of 0] s'(4) [rule_format, of 33]
    by (intro exI [of _ s']) (simp add: VTOP_def)
qed

theorem timer_round_robin_witness:
  "\<exists>s'. ticked demo_env (demo_frame 32) 141 (thrSched_step (demo_kernel\<lparr>thrqueue := thrqueue two_ready\<rparr>)) = Some s' \<and>
     thr_current s' = Thr 3"
proof -
  let ?s = "demo_kernel\<lparr>thrqueue := thrqueue two_ready\<rparr>"
  have slots: "ready_slots ?s = [1, 3]" using two_ready_slots by simp
  have "\<forall>j < length (thrqueue ?s). status (thrqueue ?s ! j) = THR_READY \<longrightarrow> sint (counter (thrqueue ?s ! j)) = 100"
    by simp
  from timer_round_robin [of "demo_frame 32", OF _ this, of 70 1 demo_env] show ?thesis
    unfolding slots by simp
qed

theorem idle_tick_runs_stale_thread_witness:
  "\<exists>s'. handleInterrupt demo_env (demo_frame 32) demo_kernel = Some s' \<and> thr_current s' = sched_t demo_kernel \<and>
     status (get_thr (sched_t demo_kernel) s') = THR_RUNNING"
  by (rule idle_tick_runs_stale_thread) (simp_all add: demo_kernel_fields ref_ok_def idle_thread_def)

theorem other_interrupts_do_nothing_witness:
  "handleInterrupt demo_env (demo_frame 46) demo_kernel =
     Some (demo_kernel\<lparr>iotrace := [Outb 0xa0 0x20, Outb 0x20 0x20] @ iotrace demo_kernel\<rparr>)"
  using other_interrupts_do_nothing [of "demo_frame 46" demo_env demo_kernel] by simp

theorem kernel_keeps_invariant_witness:
  "tid (thrqueue (thrYeild (thrInit demo_syms demo_kernel)\<lparr>iotrace := acks 32 @ iotrace (thrInit demo_syms demo_kernel)\<rparr>) ! 7) = 7"
proof -
  let ?s = "thrInit demo_syms demo_kernel"
  let ?t = "thrYeild ?s\<lparr>iotrace := acks 32 @ iotrace ?s\<rparr>"
  have "handleInterrupt demo_env (demo_frame 32) ?s = Some ?t"
    by (simp add: handleInterrupt_acks thrYeild_iotrace_upd Let_def)
  then have reach: "(kernel_step demo_env demo_syms)\<^sup>*\<^sup>* ?s ?t"
    by (intro r_into_rtranclp kernel_step.interrupt)
  have env: "env_ok demo_env" by (simp add: env_ok_def demo_junk_def demo_block_def)
  have shape: "\<forall>r. length (buf (blocks demo_kernel r)) = 512"
    "\<forall>r. length (dblock (dinode (inodes demo_kernel r))) = 64"
    using fs_okD [OF demo_files_ok] by (simp_all add: demo_kernel_fields)
  have "(\<forall>i < 256. tid (thrqueue ?t ! i) = of_nat i \<and>
      (status (thrqueue ?t ! i) = THR_RUNNING \<longrightarrow> thr_current ?t = Thr i)) \<and>
    (\<forall>r. length (buf (blocks ?t r)) = 512) \<and> (\<forall>r. length (dblock (dinode (inodes ?t r))) = 64)"
    by (rule kernel_keeps_invariant [OF reach env _ _ _ _ shape])
      (simp_all add: demo_kernel_fields ref_ok_def)
  then have "\<forall>i < 256. tid (thrqueue ?t ! i) = of_nat i" by blast
  from this [rule_format, of 7] show ?thesis by simp
qed

end
