(* ===== verification/Switch.thy ===== *)
theory Switch
  imports Sync
begin

text \<open>
  The context switch of \<^verbatim>\<open>src/switch.s\<close> on the bytes of the kernel stacks: \<^verbatim>\<open>ctxSwitch\<close> pushes four
  registers, exchanges the stack pointers, pops the registers of the other side and returns there.
  A push or pop outside a stack is \<open>None\<close>.
\<close>

section \<open>The processor\<close>

record cpu =
  edi :: u32
  esi :: u32
  ebx :: u32
  ebp :: u32
  esp :: "thr_ref \<times> nat"
  eip :: u32

definition push :: "u32 \<Rightarrow> 'b cpu_scheme \<Rightarrow> 'a thr_scheme \<Rightarrow> ('b cpu_scheme \<times> 'a thr_scheme) option" where
  "push v c s =
     (let (r, n) = esp c
      in if 4 \<le> n \<and> n \<le> length (kstack (get_thr r s))
         then Some (c\<lparr>esp := (r, n - 4)\<rparr>, upd_thr r (\<lambda>t. t\<lparr>kstack := put32 (kstack t) (n - 4) v\<rparr>) s)
         else None)"

definition pop :: "'b cpu_scheme \<Rightarrow> 'a thr_scheme \<Rightarrow> (u32 \<times> 'b cpu_scheme) option" where
  "pop c s =
     (let (r, n) = esp c
      in if n + 4 \<le> length (kstack (get_thr r s))
         then Some (get32 (kstack (get_thr r s)) n, c\<lparr>esp := (r, n + 4)\<rparr>)
         else None)"

text \<open>The end of a function: the return address is popped.\<close>

definition ret :: "'b cpu_scheme \<Rightarrow> 'a thr_scheme \<Rightarrow> ('b cpu_scheme \<times> 'a thr_scheme) option" where
  "ret c s = do { (v, c) \<leftarrow> pop c s; Some (c\<lparr>eip := v\<rparr>, s) }"

text \<open>
  The parameters are the thread whose context pointer is written and the context switched to; on
  entry the stack pointer is at the return address.
\<close>

definition ctxSwitch :: "thr_ref \<Rightarrow> thr_ref \<times> nat \<Rightarrow> cpu \<Rightarrow> 'a thr_scheme \<Rightarrow> (cpu \<times> 'a thr_scheme) option" where
  "ctxSwitch oldctx newctx c s = do {
     (c, s) \<leftarrow> push (ebp c) c s;
     (c, s) \<leftarrow> push (ebx c) c s;
     (c, s) \<leftarrow> push (esi c) c s;
     (c, s) \<leftarrow> push (edi c) c s;
     let s = upd_thr oldctx (\<lambda>t. t\<lparr>ctx := esp c\<rparr>) s;
     let c = c\<lparr>esp := newctx\<rparr>;
     (v, c) \<leftarrow> pop c s;
     let c = c\<lparr>edi := v\<rparr>;
     (v, c) \<leftarrow> pop c s;
     let c = c\<lparr>esi := v\<rparr>;
     (v, c) \<leftarrow> pop c s;
     let c = c\<lparr>ebx := v\<rparr>;
     (v, c) \<leftarrow> pop c s;
     let c = c\<lparr>ebp := v\<rparr>;
     ret c s }"

definition thread_entry :: "cpu \<Rightarrow> 'a thr_scheme \<Rightarrow> (cpu \<times> 'a thr_scheme) option" where
  "thread_entry c s = ret c s"

section \<open>Saving and restoring\<close>

text \<open>The stack of the side that is left, and the state after the exchange.\<close>

definition saved :: "thr_ref \<Rightarrow> thr_ref \<Rightarrow> nat \<Rightarrow> cpu \<Rightarrow> 'a thr_scheme \<Rightarrow> 'a thr_scheme" where
  "saved oldctx r k c s =
     upd_thr oldctx (\<lambda>t. t\<lparr>ctx := (r, k)\<rparr>)
       (upd_thr r (\<lambda>t. t\<lparr>kstack := put32 (put32 (put32 (put32 (kstack t) (k + 12) (ebp c)) (k + 8) (ebx c))
          (k + 4) (esi c)) k (edi c)\<rparr>) s)"

definition valid :: "thr_ref \<Rightarrow> 'a thr_scheme \<Rightarrow> bool" where
  "valid r s \<longleftrightarrow> (case r of ThrNull \<Rightarrow> True | Thr i \<Rightarrow> i < length (thrqueue s))"

lemma get_upd_thr [simp]:
  "valid r s \<Longrightarrow> get_thr r (upd_thr r f s) = f (get_thr r s)"
  "r \<noteq> q \<Longrightarrow> get_thr r (upd_thr q f s) = get_thr r s"
  "valid r (upd_thr q f s) = valid r s"
  by (cases r; cases q; simp add: get_thr_def upd_thr_def valid_def)+

lemma upd_upd_thr [simp]: "valid r s \<Longrightarrow> upd_thr r g (upd_thr r f s) = upd_thr r (g \<circ> f) s"
  by (auto simp: upd_thr_def valid_def split: thr_ref.split)

lemma ctxSwitch_saves:
  assumes "esp c = (r, k + 16)" "valid r s" "k + 16 \<le> length (kstack (get_thr r s))"
  shows "ctxSwitch oldctx newctx c s = do {
     let s = saved oldctx r k c s;
     let c = c\<lparr>esp := newctx\<rparr>;
     (v, c) \<leftarrow> pop c s;
     let c = c\<lparr>edi := v\<rparr>;
     (v, c) \<leftarrow> pop c s;
     let c = c\<lparr>esi := v\<rparr>;
     (v, c) \<leftarrow> pop c s;
     let c = c\<lparr>ebx := v\<rparr>;
     (v, c) \<leftarrow> pop c s;
     let c = c\<lparr>ebp := v\<rparr>;
     ret c s }"
  using assms by (simp add: ctxSwitch_def push_def saved_def comp_def Let_def add.commute)

text \<open>What the pops find at a context.\<close>

lemma pops:
  assumes "m + 20 \<le> length (kstack (get_thr q s))"
  shows "do {
     let c = c\<lparr>esp := (q, m)\<rparr>;
     (v, c) \<leftarrow> pop c s;
     let c = c\<lparr>edi := v\<rparr>;
     (v, c) \<leftarrow> pop c s;
     let c = c\<lparr>esi := v\<rparr>;
     (v, c) \<leftarrow> pop c s;
     let c = c\<lparr>ebx := v\<rparr>;
     (v, c) \<leftarrow> pop c s;
     let c = c\<lparr>ebp := v\<rparr>;
     ret c s } = Some (let k = kstack (get_thr q s) in
       c\<lparr>esp := (q, m + 20), edi := get32 k m, esi := get32 k (m + 4), ebx := get32 k (m + 8),
         ebp := get32 k (m + 12), eip := get32 k (m + 16)\<rparr>, s)"
  using assms by (simp add: pop_def ret_def Let_def add.assoc)

lemma ctxSwitch_result:
  assumes "esp c = (r, k + 16)" "valid r s" "k + 16 \<le> length (kstack (get_thr r s))"
    and "m + 20 \<le> length (kstack (get_thr q (saved oldctx r k c s)))"
  shows "ctxSwitch oldctx (q, m) c s = Some (let st = kstack (get_thr q (saved oldctx r k c s)) in
    c\<lparr>esp := (q, m + 20), edi := get32 st m, esi := get32 st (m + 4), ebx := get32 st (m + 8),
      ebp := get32 st (m + 12), eip := get32 st (m + 16)\<rparr>, saved oldctx r k c s)"
  unfolding ctxSwitch_saves [OF assms(1-3)] Let_def pops [OF assms(4), unfolded Let_def] ..

lemma saved_stack:
  assumes "valid r s" "k + 16 \<le> length (kstack (get_thr r s))"
  shows "get32 (kstack (get_thr r (saved r r k c s))) k = edi c"
    "get32 (kstack (get_thr r (saved r r k c s))) (k + 4) = esi c"
    "get32 (kstack (get_thr r (saved r r k c s))) (k + 8) = ebx c"
    "get32 (kstack (get_thr r (saved r r k c s))) (k + 12) = ebp c"
    "k + 20 \<le> length (kstack (get_thr r s)) \<Longrightarrow>
      get32 (kstack (get_thr r (saved r r k c s))) (k + 16) = get32 (kstack (get_thr r s)) (k + 16)"
    "length (kstack (get_thr r (saved r r k c s))) = length (kstack (get_thr r s))"
    "ctx (get_thr r (saved r r k c s)) = (r, k)"
  using assms by (simp_all add: saved_def get32_put32_other)

lemma saved_other: "q \<noteq> r \<Longrightarrow> q \<noteq> oldctx \<Longrightarrow> get_thr q (saved oldctx r k c s) = get_thr q s"
  by (simp add: saved_def)

section \<open>The stack of a new thread\<close>

lemma get32_blit_zeros:
  "i \<le> j \<Longrightarrow> j + 4 \<le> i + n \<Longrightarrow> i + n \<le> length bs \<Longrightarrow> get32 (blit bs i (replicate n 0)) j = 0"
  by (simp add: get32_def nth_blit word_of_bytes_def)

lemma thread_setup_zeros:
  assumes "length (kstack t) = 1024"
  shows "get32 (kstack (thread_setup sy f a i t)) 912 = 0" "get32 (kstack (thread_setup sy f a i t)) 916 = 0"
    "get32 (kstack (thread_setup sy f a i t)) 920 = 0" "get32 (kstack (thread_setup sy f a i t)) 924 = 0"
  using assms unfolding thread_setup_def Let_def
  by (simp_all add: get32_put32_other get32_blit_zeros)

lemma thrCreate_thread:
  assumes "thr_ok s" "thrCreate sy f a s = (t, s1)" "t \<noteq> - 1"
  shows "\<exists>u. length (kstack u) = 1024 \<and> get_thr (Thr (unat t)) s1 = thread_setup sy f a (unat t) u"
proof -
  obtain i where i: "thrAlloc s = Some i" using assms(2,3) by (auto simp: thrCreate_def split: option.splits)
  then have lt: "i < length (thrqueue s)" by (simp add: thrAlloc_Some)
  then have "i < 256" using thr_okD(1) [OF assms(1)] by simp
  note ok = thr_okD(2,3) [OF assms(1) this]
  have "t = of_nat i" "s1 = upd_thr (Thr i) (thread_setup sy f a i) s"
    using assms(2) i lt ok by (auto simp: thrCreate_def Let_def upd_thr_def thread_setup_frame)
  moreover have "unat (of_nat i :: u32) = i" using \<open>i < 256\<close> by (simp add: unat_of_nat take_bit_nat_eq_self)
  ultimately show ?thesis using lt ok by (intro exI [of _ "thrqueue s ! i"]) (simp add: get_thr_def upd_thr_def)
qed

section \<open>Properties\<close>

text \<open>
  A thread that switches away and is switched to again, whatever happened to the others in between, has its
  registers and stack pointer back and continues behind its call.
\<close>

theorem switch_back_restores:
  assumes "esp c = (a, k + 16)" "valid a s" "k + 20 \<le> length (kstack (get_thr a s))"
    and "ctxSwitch a new c s = Some (c1, s1)"
    and "get_thr a s2 = get_thr a s1" "esp c2 = (b, j + 16)" "b \<noteq> a" "valid b s2"
    and "j + 16 \<le> length (kstack (get_thr b s2))"
  shows "\<exists>c3 s3. ctxSwitch b (ctx (get_thr a s2)) c2 s2 = Some (c3, s3) \<and>
    edi c3 = edi c \<and> esi c3 = esi c \<and> ebx c3 = ebx c \<and> ebp c3 = ebp c \<and>
    esp c3 = (a, k + 20) \<and> eip c3 = get32 (kstack (get_thr a s)) (k + 16)"
proof -
  have k: "k + 16 \<le> length (kstack (get_thr a s))" using assms(3) by simp
  obtain q m where new: "new = (q, m)" by fastforce
  have s1: "s1 = saved a a k c s"
  proof -
    from assms(4) show ?thesis
      unfolding new ctxSwitch_saves [OF assms(1,2) k] Let_def ret_def
      by (auto simp: bind_eq_Some_conv)
  qed
  note st = saved_stack [OF assms(2) k, of c, folded s1]
  have a2: "get_thr a (saved b b j c2 s2) = get_thr a s1"
    using assms(5,7) by (simp add: saved_other)
  have m: "k + 20 \<le> length (kstack (get_thr a (saved b b j c2 s2)))" using assms(3) st(6) a2 by simp
  have x: "ctx (get_thr a s2) = (a, k)" using assms(5) st(7) by simp
  show ?thesis
    unfolding x ctxSwitch_result [OF assms(6,8,9) m]
    using st(1-5) assms(3) by (simp add: a2 Let_def)
qed

definition demo_cpu :: cpu where
  "demo_cpu = \<lparr>edi = 1, esi = 2, ebx = 3, ebp = 4, esp = (Thr 0, 116), eip = 5\<rparr>"

theorem switch_back_restores_witness:
  "\<exists>c1 s1 c3 s3. ctxSwitch (Thr 0) (Thr 1, 500) demo_cpu idle_threads = Some (c1, s1)
    \<and> ctxSwitch (Thr 1) (ctx (get_thr (Thr 0) s1)) c1 s1 = Some (c3, s3)
    \<and> edi c3 = 1 \<and> esi c3 = 2 \<and> ebx c3 = 3 \<and> ebp c3 = 4 \<and> esp c3 = (Thr 0, 120)"
proof -
  have k: "esp demo_cpu = (Thr 0, 100 + 16)" "valid (Thr 0) idle_threads"
      "100 + 20 \<le> length (kstack (get_thr (Thr 0) idle_threads))"
    by (simp_all add: demo_cpu_def valid_def get_thr_def)
  have m: "500 + 20 \<le> length (kstack (get_thr (Thr 1) (saved (Thr 0) (Thr 0) 100 demo_cpu idle_threads)))"
    by (simp add: saved_other) (simp add: get_thr_def)
  obtain c1 where c1: "ctxSwitch (Thr 0) (Thr 1, 500) demo_cpu idle_threads
      = Some (c1, saved (Thr 0) (Thr 0) 100 demo_cpu idle_threads)" "esp c1 = (Thr 1, 504 + 16)"
    using ctxSwitch_result [OF k(1,2) _ m] k(3) by (simp add: Let_def)
  from switch_back_restores [OF k c1(1) refl c1(2)] m c1(1) show ?thesis
    by (auto simp: demo_cpu_def valid_def saved_def upd_thr_def)
qed

text \<open>
  C22. The first switch to a new thread ends up in \<^verbatim>\<open>kernStub\<close>: the registers are cleared, \<^verbatim>\<open>thread_entry\<close> returns
  into the stub, and the stack holds \<^verbatim>\<open>trapret\<close> as its return address and the thread's function and argument as its
  parameters.
\<close>

theorem new_thread_reaches_stub:
  assumes "thr_ok s" "thrCreate sy f a s = (t, s1)" "t \<noteq> - 1"
    and "esp c = (r, k + 16)" "r \<noteq> Thr (unat t)" "valid r s1" "k + 16 \<le> length (kstack (get_thr r s1))"
  shows "\<exists>c1 s2 c2. ctxSwitch r (ctx (get_thr (Thr (unat t)) s1)) c s1 = Some (c1, s2) \<and>
    eip c1 = sym_thread_entry sy \<and> edi c1 = 0 \<and> esi c1 = 0 \<and> ebx c1 = 0 \<and> ebp c1 = 0 \<and>
    thread_entry c1 s2 = Some (c2, s2) \<and> eip c2 = sym_kernStub sy \<and> esp c2 = (Thr (unat t), 936) \<and>
    map (get32 (kstack (get_thr (Thr (unat t)) s2))) [936, 940, 944] = [sym_trapret sy, f, a]"
proof -
  let ?T = "Thr (unat t)"
  obtain u where u: "length (kstack u) = 1024" "get_thr ?T s1 = thread_setup sy f a (unat t) u"
    using thrCreate_thread [OF assms(1-3)] by blast
  note frame = thread_setup_frame [OF u(1), of sy f a "unat t", folded u(2)]
  note zeros = thread_setup_zeros [OF u(1), of sy f a "unat t", folded u(2)]
  have T: "get_thr ?T (saved r r k c s1) = get_thr ?T s1" using assms(5) by (simp add: saved_other)
  have m: "912 + 20 \<le> length (kstack (get_thr ?T (saved r r k c s1)))" unfolding T frame(5) by simp
  show ?thesis
    unfolding frame(4) ctxSwitch_result [OF assms(4,6,7) m]
    using frame zeros by (simp add: T Let_def thread_entry_def ret_def pop_def)
qed

definition fresh_threads :: thr where
  "fresh_threads = idle_threads\<lparr>thrqueue := map (\<lambda>i. idle_thread\<lparr>tid := of_nat i, status := THR_UNUSED\<rparr>) [0..<256]\<rparr>"

lemma fresh_threads_facts:
  "thr_ok fresh_threads" "thrAlloc fresh_threads = Some 0"
  "thr_null fresh_threads = idle_thread" "tid (thrqueue fresh_threads ! 0) = 0"
  by (simp_all add: fresh_threads_def thr_ok_def thrAlloc_Some idle_threads_def del: upt_Suc)

theorem new_thread_reaches_stub_witness:
  "\<exists>c1 s2 c2. ctxSwitch ThrNull (ctx (get_thr (Thr 0) (snd (thrCreate demo_syms 4096 5 fresh_threads))))
      (demo_cpu\<lparr>esp := (ThrNull, 516)\<rparr>) (snd (thrCreate demo_syms 4096 5 fresh_threads)) = Some (c1, s2)
    \<and> eip c1 = 48 \<and> thread_entry c1 s2 = Some (c2, s2) \<and> eip c2 = 32 \<and> esp c2 = (Thr 0, 936)
    \<and> map (get32 (kstack (get_thr (Thr 0) s2))) [936, 940, 944] = [16, 4096, 5]"
proof -
  obtain s1 where s1: "thrCreate demo_syms 4096 5 fresh_threads = (0, s1)"
      "thr_null s1 = idle_thread"
    using fresh_threads_facts thr_okD [OF fresh_threads_facts(1)]
    by (simp add: thrCreate_def Let_def upd_thr_def thread_setup_frame)
  show ?thesis
    using new_thread_reaches_stub [OF fresh_threads_facts(1) s1(1),
        where c = "demo_cpu\<lparr>esp := (ThrNull, 516)\<rparr>" and k = 500 and r = ThrNull] s1
    by (auto simp: valid_def get_thr_def)
qed

end
