(* ===== verification/Trap.thy ===== *)
theory Trap
  imports Switch Kernel
begin

text \<open>
  The way into \<^verbatim>\<open>handleInterrupt\<close> and back: the processor's delivery of an interrupt through a gate of the
  table, the stubs of \<^verbatim>\<open>src/interruptVector.s\<close>, \<^verbatim>\<open>interrupt\<close> and \<^verbatim>\<open>trapret\<close> of \<^verbatim>\<open>src/interrupt.s\<close>, on the bytes of the
  interrupted stack.
\<close>

section \<open>Delivery and stubs\<close>

record regs = cpu +
  eax :: u32
  ecx :: u32
  edx :: u32
  seg_ds :: u16
  seg_es :: u16
  seg_fs :: u16
  seg_gs :: u16
  seg_cs :: u16
  eflags :: u32

fun push_all :: "u32 list \<Rightarrow> 'b cpu_scheme \<Rightarrow> 'a thr_scheme \<Rightarrow> ('b cpu_scheme \<times> 'a thr_scheme) option" where
  "push_all [] c s = Some (c, s)"
| "push_all (v # vs) c s = do { (c, s) \<leftarrow> push v c s; push_all vs c s }"

text \<open>The exceptions for which the processor pushes an error code itself.\<close>

definition has_err :: "nat \<Rightarrow> bool" where
  "has_err n \<longleftrightarrow> n \<in> {8, 10, 11, 12, 13, 14, 17}"

text \<open>The gates of \<^verbatim>\<open>idtInit\<close> are interrupt gates for the kernel's code segment; bit 9 of the flags is the
  interrupt flag.\<close>

definition deliver :: "nat \<Rightarrow> u32 \<Rightarrow> regs \<Rightarrow> 'a thr_scheme \<Rightarrow> (regs \<times> 'a thr_scheme) option" where
  "deliver n err c s = do {
     let flags = (if iflag s then set_bit 9 (eflags c) else unset_bit 9 (eflags c));
     (c, s) \<leftarrow> push_all ([flags, ucast (seg_cs c), eip c] @ (if has_err n then [err] else [])) c s;
     Some (c\<lparr>seg_cs := 8\<rparr>, s\<lparr>iflag := False\<rparr>) }"

definition vector :: "nat \<Rightarrow> regs \<Rightarrow> 'a thr_scheme \<Rightarrow> (regs \<times> 'a thr_scheme) option" where
  "vector n c s =
     (let s = cli s
      in if n \<in> {8, 10, 11, 12, 13, 14, 17} then push_all [of_nat n] c s else push_all [0, of_nat n] c s)"

text \<open>\<open>adr\<close> gives the addresses of the stacks, \<open>back\<close> is the address behind the call.\<close>

definition pushal :: "(thr_ref \<times> nat \<Rightarrow> u32) \<Rightarrow> regs \<Rightarrow> 'a thr_scheme \<Rightarrow> (regs \<times> 'a thr_scheme) option" where
  "pushal adr c s = push_all [eax c, ecx c, edx c, ebx c, adr (esp c), ebp c, esi c, edi c] c s"

definition interrupt_entry ::
  "(thr_ref \<times> nat \<Rightarrow> u32) \<Rightarrow> u32 \<Rightarrow> regs \<Rightarrow> 'a thr_scheme \<Rightarrow> (regs \<times> 'a thr_scheme) option" where
  "interrupt_entry adr back c s = do {
     (c, s) \<leftarrow> push_all [ucast (seg_ds c), ucast (seg_es c), ucast (seg_fs c), ucast (seg_gs c)] c s;
     (c, s) \<leftarrow> pushal adr c s;
     let c = c\<lparr>eax := (eax c AND 0xffff0000) + 16\<rparr>;
     let c = c\<lparr>seg_ds := ucast (eax c)\<rparr>;
     let c = c\<lparr>seg_es := ucast (eax c)\<rparr>;
     (c, s) \<leftarrow> push (adr (esp c)) c s;
     push back c s }"

definition popal :: "regs \<Rightarrow> 'a thr_scheme \<Rightarrow> regs option" where
  "popal c s = do {
     (v, c) \<leftarrow> pop c s; let c = c\<lparr>edi := v\<rparr>;
     (v, c) \<leftarrow> pop c s; let c = c\<lparr>esi := v\<rparr>;
     (v, c) \<leftarrow> pop c s; let c = c\<lparr>ebp := v\<rparr>;
     (v, c) \<leftarrow> pop c s;
     (v, c) \<leftarrow> pop c s; let c = c\<lparr>ebx := v\<rparr>;
     (v, c) \<leftarrow> pop c s; let c = c\<lparr>edx := v\<rparr>;
     (v, c) \<leftarrow> pop c s; let c = c\<lparr>ecx := v\<rparr>;
     (v, c) \<leftarrow> pop c s; Some (c\<lparr>eax := v\<rparr>) }"

definition iret :: "regs \<Rightarrow> 'a thr_scheme \<Rightarrow> (regs \<times> 'a thr_scheme) option" where
  "iret c s = do {
     (v, c) \<leftarrow> pop c s; let c = c\<lparr>eip := v\<rparr>;
     (v, c) \<leftarrow> pop c s; let c = c\<lparr>seg_cs := ucast v\<rparr>;
     (v, c) \<leftarrow> pop c s; Some (c\<lparr>eflags := v\<rparr>, s\<lparr>iflag := bit v 9\<rparr>) }"

definition trapret :: "regs \<Rightarrow> 'a thr_scheme \<Rightarrow> (regs \<times> 'a thr_scheme) option" where
  "trapret c s = do {
     c \<leftarrow> popal c s;
     (v, c) \<leftarrow> pop c s; let c = c\<lparr>seg_gs := ucast v\<rparr>;
     (v, c) \<leftarrow> pop c s; let c = c\<lparr>seg_fs := ucast v\<rparr>;
     (v, c) \<leftarrow> pop c s; let c = c\<lparr>seg_es := ucast v\<rparr>;
     (v, c) \<leftarrow> pop c s; let c = c\<lparr>seg_ds := ucast v\<rparr>;
     let c = c\<lparr>esp := (fst (esp c), snd (esp c) + 8)\<rparr>;
     iret c (sti s) }"

text \<open>The frame the handler is given: \<open>None\<close> where the structure does not fit the stack.\<close>

definition frame_of :: "u8 list \<Rightarrow> nat \<Rightarrow> trapframe option" where
  "frame_of k p =
     (let w = (\<lambda>i. get32 k (p + 4 * i)); lo = (\<lambda>i. ucast (w i) :: u16); hi = (\<lambda>i. ucast (drop_bit 16 (w i)) :: u16)
      in if p + 76 \<le> length k
         then Some \<lparr>tf_edi = w 0, tf_esi = w 1, tf_ebp = w 2, tf_oesp = w 3, tf_ebx = w 4, tf_edx = w 5, tf_ecx = w 6,
           tf_eax = w 7, tf_gs = lo 8, tf_padding1 = hi 8, tf_fs = lo 9, tf_padding2 = hi 9, tf_es = lo 10,
           tf_padding3 = hi 10, tf_ds = lo 11, tf_padding4 = hi 11, trapno = w 12, tf_err = w 13, tf_eip = w 14,
           tf_cs = lo 15, tf_padding5 = hi 15, tf_eflags = w 16, tf_esp = w 17, tf_ss = lo 18, tf_padding6 = hi 18\<rparr>
         else None)"

text \<open>
  An interrupt from its delivery to its return. The compiled handler returns with the stack pointer it was
  called with and otherwise any registers, \<open>used\<close>; its return and the removal of its parameter are the 8 bytes.
\<close>

definition interrupt_in ::
  "(thr_ref \<times> nat \<Rightarrow> u32) \<Rightarrow> u32 \<Rightarrow> nat \<Rightarrow> u32 \<Rightarrow> regs \<Rightarrow> 'a thr_scheme \<Rightarrow> (regs \<times> 'a thr_scheme) option" where
  "interrupt_in adr back n err c s = do {
     (c, s) \<leftarrow> deliver n err c s;
     (c, s) \<leftarrow> vector n c s;
     interrupt_entry adr back c s }"

definition interrupt_path ::
  "(thr_ref \<times> nat \<Rightarrow> u32) \<Rightarrow> u32 \<Rightarrow> (regs \<Rightarrow> regs) \<Rightarrow> env \<Rightarrow> nat \<Rightarrow> u32 \<Rightarrow> regs \<Rightarrow> 'a kbd_scheme \<Rightarrow>
   (regs \<times> 'a kbd_scheme) option" where
  "interrupt_path adr back used e n err c s = do {
     (c, s) \<leftarrow> interrupt_in adr back n err c s;
     let (r, k) = esp c;
     f \<leftarrow> frame_of (kstack (get_thr r s)) (k + 8);
     s \<leftarrow> handleInterrupt e f s;
     trapret ((used c)\<lparr>esp := (r, k + 8)\<rparr>) s }"

section \<open>The frame\<close>

lemma blit_blit:
  "k + length y + length x \<le> length bs \<Longrightarrow> blit (blit bs (k + length y) x) k y = blit bs k (y @ x)"
  by (rule nth_equalityI) (auto simp: nth_blit nth_append)

lemma get32_blit_words:
  "i < length ws \<Longrightarrow> k + 4 * length ws \<le> length bs \<Longrightarrow>
   get32 (blit bs k (concat (map bytes_of ws))) (k + 4 * i) = ws ! i"
proof (induction ws arbitrary: i k bs)
  case (Cons w ws)
  have "blit bs k (concat (map bytes_of (w # ws))) = blit (blit bs (k + 4) (concat (map bytes_of ws))) k (bytes_of w)"
    using Cons.prems(2) blit_blit [of k "bytes_of w" "concat (map bytes_of ws)" bs] by simp
  moreover have "get32 (blit bs' k (bytes_of w)) k = w" if "k + 4 \<le> length bs'" for bs'
    using get32_put32 [OF that] by (simp add: put32_def)
  moreover have "i = Suc m \<Longrightarrow> get32 (blit bs (k + 4) (concat (map bytes_of ws))) (k + 4 + 4 * m) = ws ! m" for m
    using Cons.IH [of m "k + 4" bs] Cons.prems by simp
  ultimately show ?case using Cons.prems
    by (cases i) (auto simp: get32_blit_other add.assoc)
qed simp

lemma upd_thr_cong: "f (get_thr r s) = g (get_thr r s) \<Longrightarrow> upd_thr r f s = upd_thr r g s"
  by (cases r) (simp_all add: upd_thr_def get_thr_def)

lemma push_all_result:
  "esp c = (r, k + 4 * length vs) \<Longrightarrow> valid r s \<Longrightarrow> k + 4 * length vs \<le> length (kstack (get_thr r s)) \<Longrightarrow>
   push_all vs c s = Some (c\<lparr>esp := (r, k)\<rparr>,
     upd_thr r (\<lambda>t. t\<lparr>kstack := blit (kstack t) k (concat (map bytes_of (rev vs)))\<rparr>) s)"
proof (induction vs arbitrary: c s)
  case Nil
  then show ?case by (auto simp: upd_thr_def split: thr_ref.split)
next
  case (Cons v vs)
  have "blit (put32 (kstack (get_thr r s)) (k + 4 * length vs) v) k (concat (map bytes_of (rev vs))) =
      blit (kstack (get_thr r s)) k (concat (map bytes_of (rev (v # vs))))"
    using Cons.prems(3) blit_blit [of k "concat (map bytes_of (rev vs))" "bytes_of v"]
    by (simp add: put32_def)
  with Cons show ?case by (auto simp: push_def comp_def intro: upd_thr_cong)
qed

text \<open>A state whose stack \<open>r\<close> has been written with \<open>ws\<close> from \<open>k\<close> on.\<close>

definition stk :: "thr_ref \<Rightarrow> nat \<Rightarrow> u32 list \<Rightarrow> 'a thr_scheme \<Rightarrow> 'a thr_scheme" where
  "stk r k ws s = upd_thr r (\<lambda>t. t\<lparr>kstack := blit (kstack t) k (concat (map bytes_of ws))\<rparr>) s"

lemma stk_Nil: "stk r k [] s = s"
  by (cases r) (auto simp: stk_def upd_thr_def)

lemma stk_iflag [simp]:
  "(stk r k ws s)\<lparr>iflag := b\<rparr> = stk r k ws (s\<lparr>iflag := b\<rparr>)" "iflag (stk r k ws s) = iflag s"
  "cli (stk r k ws s) = stk r k ws (s\<lparr>iflag := False\<rparr>)"
  by (cases r; simp add: stk_def upd_thr_def cli_def)+

lemma valid_iflag [simp]: "valid r (s\<lparr>iflag := b\<rparr>) = valid r s" "get_thr r (s\<lparr>iflag := b\<rparr>) = get_thr r s"
  by (cases r; simp add: valid_def get_thr_def)+

lemma push_all_stk [simp]:
  assumes "esp c = (r, p)" "4 * length vs \<le> p" "valid r s" "p + 4 * length ws \<le> length (kstack (get_thr r s))"
  shows "push_all vs c (stk r p ws s) =
    Some (c\<lparr>esp := (r, p - 4 * length vs)\<rparr>, stk r (p - 4 * length vs) (rev vs @ ws) s)"
proof -
  let ?k = "p - 4 * length vs"
  have "blit (blit (kstack (get_thr r s)) p (concat (map bytes_of ws))) ?k (concat (map bytes_of (rev vs))) =
      blit (kstack (get_thr r s)) ?k (concat (map bytes_of (rev vs @ ws)))"
    using assms(2,4) blit_blit [of ?k "concat (map bytes_of (rev vs))" "concat (map bytes_of ws)"
        "kstack (get_thr r s)"] by simp
  with assms show ?thesis
    using push_all_result [of c r ?k vs "stk r p ws s"] by (auto simp: stk_def intro: upd_thr_cong)
qed

lemma push_push_all: "push v c s = push_all [v] c s"
  by (cases "push v c s") auto

text \<open>The words the handler finds from its return address upwards.\<close>

definition frame_words :: "(thr_ref \<times> nat \<Rightarrow> u32) \<Rightarrow> nat \<Rightarrow> u32 \<Rightarrow> thr_ref \<Rightarrow> nat \<Rightarrow> regs \<Rightarrow> u32 list" where
  "frame_words adr n err r j c =
     [edi c, esi c, ebp c, adr (r, j + 40), ebx c, edx c, ecx c, eax c, ucast (seg_gs c), ucast (seg_fs c),
      ucast (seg_es c), ucast (seg_ds c), of_nat n, (if has_err n then err else 0), eip c, ucast (seg_cs c),
      set_bit 9 (eflags c)]"

lemma interrupt_in_result:
  assumes "esp c = (r, j + 76)" "valid r s" "j + 76 \<le> length (kstack (get_thr r s))" "iflag s"
  shows "\<exists>c1. interrupt_in adr back n err c s =
      Some (c1, stk r j (back # adr (r, j + 8) # frame_words adr n err r j c) (s\<lparr>iflag := False\<rparr>)) \<and>
    esp c1 = (r, j)"
proof -
  have "interrupt_in adr back n err c (stk r (j + 76) [] s) =
      interrupt_in adr back n err c s" by (simp add: stk_Nil)
  moreover have "\<exists>c1. interrupt_in adr back n err c (stk r (j + 76) [] s) =
      Some (c1, stk r j (back # adr (r, j + 8) # frame_words adr n err r j c) (s\<lparr>iflag := False\<rparr>)) \<and>
    esp c1 = (r, j)"
    using assms unfolding interrupt_in_def deliver_def vector_def interrupt_entry_def pushal_def push_push_all
    by (cases "has_err n") (simp_all add: frame_words_def Let_def has_err_def add.commute del: push_all.simps)
  ultimately show ?thesis by simp
qed

lemma stk_word:
  "valid r s \<Longrightarrow> k + 4 * length ws \<le> length (kstack (get_thr r s)) \<Longrightarrow> i < length ws \<Longrightarrow>
   get32 (kstack (get_thr r (stk r k ws s))) (k + 4 * i) = ws ! i"
  by (simp add: stk_def get32_blit_words)

lemma length_stk [simp]:
  "valid r s \<Longrightarrow> k + 4 * length ws \<le> length (kstack (get_thr r s)) \<Longrightarrow>
   length (kstack (get_thr r (stk r k ws s))) = length (kstack (get_thr r s))"
  by (simp add: stk_def)

text \<open>What \<^verbatim>\<open>trapret\<close> makes of a frame at \<open>p\<close>.\<close>

lemma trapret_result:
  assumes "esp c = (r, p)" "p + 68 \<le> length (kstack (get_thr r s))"
  shows "trapret c s = Some (let w = (\<lambda>i. get32 (kstack (get_thr r s)) (p + 4 * i)) in
    c\<lparr>edi := w 0, esi := w 1, ebp := w 2, ebx := w 4, edx := w 5, ecx := w 6, eax := w 7,
      seg_gs := ucast (w 8), seg_fs := ucast (w 9), seg_es := ucast (w 10), seg_ds := ucast (w 11),
      eip := w 14, seg_cs := ucast (w 15), eflags := w 16, esp := (r, p + 68)\<rparr>,
    s\<lparr>iflag := bit (get32 (kstack (get_thr r s)) (p + 64)) 9\<rparr>)"
  using assms by (simp add: trapret_def popal_def iret_def pop_def Let_def add.assoc sti_def)

lemma trapret_frame:
  assumes "esp c = (r, j + 8)" "j + 76 \<le> length (kstack (get_thr r s))"
    and "esp c0 = (r, j + 76)" "bit (eflags c0) 9"
    and "\<forall>i < 17. get32 (kstack (get_thr r s)) (j + 8 + 4 * i) = frame_words adr n err r j c0 ! i"
  shows "trapret c s = Some (c0, s\<lparr>iflag := True\<rparr>)"
proof -
  have w: "get32 (kstack (get_thr r s)) (j + 8 + 4 * i) = frame_words adr n err r j c0 ! i" if "i < 17" for i
    using assms(5) that by blast
  have "set_bit 9 (eflags c0) = eflags c0" using assms(4) by (auto intro!: bit_word_eqI simp: bit_simps)
  moreover have "ucast (ucast x :: u32) = x" for x :: u16 by (rule bit_word_eqI) (simp add: bit_simps)
  moreover have "get32 (kstack (get_thr r s)) (j + 8 + 64) = frame_words adr n err r j c0 ! 16" using w [of 16] by simp
  ultimately show ?thesis
    using trapret_result [OF assms(1), of s] assms(2,3,4)
      w [of 0] w [of 1] w [of 2] w [of 4] w [of 5] w [of 6] w [of 7] w [of 8] w [of 9] w [of 10] w [of 11]
      w [of 14] w [of 15]
    by (cases c0) (simp add: Let_def frame_words_def)
qed

section \<open>Properties\<close>

lemma handler_view:
  assumes "handleInterrupt e f s = Some s'" "trapno f \<noteq> 32" "fs_ok T s" "env_ok e"
  shows "view s' = view s"
proof -
  let ?s = "s\<lparr>iotrace := acks (trapno f) @ iotrace s\<rparr>"
  have "fs_ok T ?s" using assms(3) by (auto elim!: fs_ok_cong)
  from kbdInterruptHandler_ok [OF this assms(4)] assms show ?thesis
    by (auto simp: handleInterrupt_acks Let_def yields_def fs_ok_def split: if_splits)
qed

lemma stk_fs_ok: "fs_ok T s \<Longrightarrow> fs_ok (view (stk r k ws s)) (stk r k ws (s\<lparr>iflag := b\<rparr>))"
  by (cases r) (simp_all add: stk_def fs_ok_def view_def upd_thr_def)

text \<open>
  C21. An interrupt of a thread, from its delivery to its return: the handler finds the vector and the interrupted
  program counter and registers in its frame, and when it returns without yielding, \<^verbatim>\<open>trapret\<close> gives the
  interrupted thread back every register, the stack pointer, the flags and the place where it was.
\<close>

theorem interrupt_is_transparent:
  assumes "esp c = (Thr i, j + 76)" "i < length (thrqueue s)" "j + 84 \<le> length (kstack (thrqueue s ! i))"
    and "iflag s" "bit (eflags c) 9" "n < 256" "n \<noteq> 32" "fs_ok T s" "env_ok e"
  shows "\<exists>c1 s1 f. interrupt_in adr back n err c s = Some (c1, s1) \<and>
    frame_of (kstack (thrqueue s1 ! i)) (j + 8) = Some f \<and> trapno f = of_nat n \<and> tf_eip f = eip c \<and>
    tf_eax f = eax c \<and> tf_err f = (if has_err n then err else 0) \<and>
    (case handleInterrupt e f s1 of
       None \<Rightarrow> interrupt_path adr back used e n err c s = None
     | Some s2 \<Rightarrow> interrupt_path adr back used e n err c s = Some (c, s2\<lparr>iflag := True\<rparr>))"
proof -
  let ?r = "Thr i" and ?w = "back # adr (Thr i, j + 8) # frame_words adr n err (Thr i) j c"
  let ?s1 = "stk ?r j ?w (s\<lparr>iflag := False\<rparr>)"
  have v: "valid ?r s" "j + 84 \<le> length (kstack (get_thr ?r s))"
    using assms(2,3) by (simp_all add: valid_def get_thr_def)
  obtain c1 where c1: "interrupt_in adr back n err c s = Some (c1, ?s1)" "esp c1 = (?r, j)"
    using interrupt_in_result [OF assms(1) v(1) _ assms(4), of adr "back" n err] v(2) by auto
  have len: "length ?w = 19" by (simp add: frame_words_def)
  have words: "get32 (kstack (get_thr ?r ?s1)) (j + 8 + 4 * m) = frame_words adr n err ?r j c ! m" if "m < 17" for m
    using stk_word [of ?r "s\<lparr>iflag := False\<rparr>" j ?w "m + 2"] v that len by (simp add: algebra_simps)
  have st: "kstack (thrqueue ?s1 ! i) = kstack (get_thr ?r ?s1)" by (simp add: get_thr_def)
  have long: "j + 84 \<le> length (kstack (get_thr ?r ?s1))" using v len by simp
  have w: "get32 (kstack (get_thr ?r ?s1)) (j + 8 + 4 * m) = frame_words adr n err ?r j c ! m" if "m < 17" for m
    using words that by blast
  obtain f where f: "frame_of (kstack (get_thr ?r ?s1)) (j + 8) = Some f" "trapno f = of_nat n" "tf_eip f = eip c"
      "tf_eax f = eax c" "tf_err f = (if has_err n then err else 0)"
    using long w [of 12] w [of 14] w [of 7] w [of 13] by (simp add: frame_of_def Let_def frame_words_def)
  have path: "interrupt_path adr back used e n err c s =
      do { s \<leftarrow> handleInterrupt e f ?s1; trapret ((used c1)\<lparr>esp := (?r, j + 8)\<rparr>) s }"
    using f(1) c1(2) by (simp add: interrupt_path_def c1(1))
  have "trapret ((used c1)\<lparr>esp := (?r, j + 8)\<rparr>) s2 = Some (c, s2\<lparr>iflag := True\<rparr>)"
    if h: "handleInterrupt e f ?s1 = Some s2" for s2
  proof -
    have "trapno f \<noteq> 32" using f(2) assms(6,7) by (auto simp: word_unat_eq_iff unat_of_nat take_bit_nat_eq_self)
    from handler_view [OF h this stk_fs_ok [OF assms(8)] assms(9)]
    have "get_thr ?r s2 = get_thr ?r ?s1" by (simp add: view_def get_thr_def)
    then show ?thesis
      using trapret_frame [OF _ _ assms(1,5), of _ s2 adr n err] long words by simp
  qed
  then have "case handleInterrupt e f ?s1 of
       None \<Rightarrow> interrupt_path adr back used e n err c s = None
     | Some s2 \<Rightarrow> interrupt_path adr back used e n err c s = Some (c, s2\<lparr>iflag := True\<rparr>)"
    unfolding path by (simp split: option.split)
  with f c1 show ?thesis unfolding st [symmetric] by blast
qed

definition demo_regs :: regs where
  "demo_regs = \<lparr>edi = 1, esi = 2, ebx = 3, ebp = 4, esp = (Thr 0, 576), eip = 5, eax = 6, ecx = 7, edx = 8,
     seg_ds = 16, seg_es = 16, seg_fs = 0, seg_gs = 0, seg_cs = 8, eflags = 0x202\<rparr>"

theorem interrupt_is_transparent_witness:
  "\<exists>s2. interrupt_path (\<lambda>_. 0) 0 (\<lambda>c. c\<lparr>eax := 9\<rparr>) demo_env 46 0 demo_regs (demo_kernel\<lparr>iflag := True\<rparr>) =
    Some (demo_regs, s2) \<and> iflag s2"
proof -
  let ?s = "demo_kernel\<lparr>iflag := True\<rparr>"
  have env: "env_ok demo_env" by (simp add: env_ok_def demo_junk_def demo_block_def)
  have fs: "fs_ok (view ?s) ?s"
    using fs_okD [OF demo_files_ok] by (simp add: fs_ok_def demo_kernel_fields)
  have regs: "esp demo_regs = (Thr 0, 500 + 76)" "bit (eflags demo_regs) 9" by (simp_all add: demo_regs_def)
  have stack: "0 < length (thrqueue ?s)" "500 + 84 \<le> length (kstack (thrqueue ?s ! 0))" "iflag ?s"
    by (simp_all add: demo_kernel_fields)
  have n: "(46 :: nat) < 256" "(46 :: nat) \<noteq> 32" by simp_all
  from interrupt_is_transparent [OF regs(1) stack regs(2) n fs env,
      of "\<lambda>_. 0" 0 0 "\<lambda>c. c\<lparr>eax := 9\<rparr>"]
  show ?thesis by (auto simp: handleInterrupt_acks Let_def)
qed

end
