(* ===== verification/Machine.thy ===== *)
theory Machine
  imports Switch
begin

text \<open>
  The dispatch as the code performs it: \<^verbatim>\<open>thrYeild\<close> and \<^verbatim>\<open>thrExit\<close> switch to the scheduler's context on their
  own kernel stack, the loop of \<^verbatim>\<open>thrSched\<close> goes on there and switches to the chosen thread's context. The machine
  refines the dispatch steps of \<open>Thread\<close> and \<open>Sync\<close>, which abstract from stacks and registers, and it
  gives every thread back its own registers.
\<close>

section \<open>The scheduler's side\<close>

text \<open>
  What the compiler chooses: the address behind the call of \<^verbatim>\<open>ctxSwitch\<close> in \<^verbatim>\<open>thrSched\<close>, and how far the
  function lowers the stack pointer before that call.
\<close>

record points =
  sched_call :: u32
  sched_frame :: nat

text \<open>One turn of the loop, up to the switch.\<close>

definition sched_loop :: "points \<Rightarrow> cpu \<Rightarrow> 'a thr_scheme \<Rightarrow> (cpu \<times> 'a thr_scheme) option" where
  "sched_loop pt c s = do {
     let s = thrSched_step s;
     (c, s) \<leftarrow> push (sched_call pt) c s;
     ctxSwitch ThrNull (ctx (get_thr (thr_current s) s)) c s }"

text \<open>Entering \<^verbatim>\<open>thrSched\<close>, with a frame below the stack pointer.\<close>

definition sched_enter :: "points \<Rightarrow> cpu \<Rightarrow> 'a thr_scheme \<Rightarrow> (cpu \<times> 'a thr_scheme) option" where
  "sched_enter pt c s =
     (let (r, n) = esp c
      in if sched_frame pt \<le> n then sched_loop pt (c\<lparr>esp := (r, n - sched_frame pt)\<rparr>) s else None)"

text \<open>
  Where the switch to the scheduler's context arrives: at the start of the function the first time, then behind
  its call of \<^verbatim>\<open>ctxSwitch\<close>. Any other place is not code of the scheduler: \<open>None\<close>.
\<close>

definition sched_resume :: "code_syms \<Rightarrow> points \<Rightarrow> cpu \<Rightarrow> 'a thr_scheme \<Rightarrow> (cpu \<times> 'a thr_scheme) option" where
  "sched_resume sy pt c s =
     (if eip c = sym_thrSched sy then sched_enter pt c s
      else if eip c = sched_call pt then sched_loop pt c s
      else None)"

text \<open>\<open>ra\<close> is the address behind the call of \<^verbatim>\<open>ctxSwitch\<close>, \<open>leave\<close> what the caller does to its slot before.\<close>

definition switch_out ::
  "code_syms \<Rightarrow> points \<Rightarrow> u32 \<Rightarrow> ('a thr_scheme \<Rightarrow> 'a thr_scheme) \<Rightarrow> cpu \<Rightarrow> 'a thr_scheme \<Rightarrow> (cpu \<times> 'a thr_scheme) option"
where
  "switch_out sy pt ra leave c s = do {
     let s = leave s;
     (c, s) \<leftarrow> push ra c s;
     (c, s) \<leftarrow> ctxSwitch (thr_current s) (ctx (get_thr ThrNull s)) c s;
     sched_resume sy pt c s }"

definition exit_leave :: "'a thr_scheme \<Rightarrow> 'a thr_scheme" where
  "exit_leave s = upd_thr (thr_current s) (\<lambda>t. t\<lparr>status := THR_ZOMBIE\<rparr>) s"

definition yield_switch where
  "yield_switch sy pt ra c s = switch_out sy pt ra yield_leave c s"

definition exit_switch where
  "exit_switch sy pt ra c s = switch_out sy pt ra exit_leave c s"

text \<open>
  \<^verbatim>\<open>thrCondWait\<close> marks the thread and calls \<^verbatim>\<open>thrSched\<close> as a function, on the waiting thread's stack.
\<close>

definition wait_switch ::
  "points \<Rightarrow> u32 \<Rightarrow> u32 \<Rightarrow> thr_ref \<Rightarrow> cpu \<Rightarrow> 'a thr_scheme \<Rightarrow> (cpu \<times> 'a thr_scheme) option" where
  "wait_switch pt ra key junk c s = do {
     let t = getCurThread s;
     let s = upd_thr t (\<lambda>t. t\<lparr>cv := key\<rparr>) s;
     let s = upd_thr t (\<lambda>t. t\<lparr>status := THR_SLEEPING\<rparr>) s;
     (c, s) \<leftarrow> push ra c s;
     sched_enter pt c (s\<lparr>sched_t := junk\<rparr>) }"

section \<open>Contexts\<close>

text \<open>The registers a switch to the thread will load.\<close>

definition context_of :: "thr_ref \<Rightarrow> 'a thr_scheme \<Rightarrow> cpu" where
  "context_of r s =
     (let (q, k) = ctx (get_thr r s); st = kstack (get_thr q s)
      in \<lparr>edi = get32 st k, esi = get32 st (k + 4), ebx = get32 st (k + 8), ebp = get32 st (k + 12),
          esp = (q, k + 20), eip = get32 st (k + 16)\<rparr>)"

text \<open>A thread is parked if its context lies on its own stack.\<close>

definition parked :: "thr_ref \<Rightarrow> 'a thr_scheme \<Rightarrow> bool" where
  "parked r s \<longleftrightarrow> (\<exists>k. ctx (get_thr r s) = (r, k) \<and> k + 20 \<le> length (kstack (get_thr r s)))"

definition same_stack :: "thr_ref \<Rightarrow> 'a thr_scheme \<Rightarrow> 'a thr_scheme \<Rightarrow> bool" where
  "same_stack r s s' \<longleftrightarrow> ctx (get_thr r s') = ctx (get_thr r s) \<and> kstack (get_thr r s') = kstack (get_thr r s)"

lemma same_stackD:
  assumes "same_stack r s s'" "parked r s"
  shows "parked r s'" "context_of r s' = context_of r s"
  using assms by (auto simp: same_stack_def parked_def context_of_def)

lemma same_stack_refl [simp, intro]: "same_stack r s s"
  by (simp add: same_stack_def)

lemma same_stack_trans: "same_stack r s t \<Longrightarrow> same_stack r t u \<Longrightarrow> same_stack r s u"
  by (simp add: same_stack_def)

lemma same_stack_upd:
  "(\<And>t. ctx (f t) = ctx t \<and> kstack (f t) = kstack t) \<Longrightarrow> same_stack r s (upd_thr q f s)"
proof -
  assume f: "\<And>t. ctx (f t) = ctx t \<and> kstack (f t) = kstack t"
  have "xs[i := x] ! j = (if i = j \<and> i < length xs then x else xs ! j)" for xs :: "thread list" and i j x
    by (cases "i < length xs") (simp_all add: nth_list_update list_update_beyond)
  with f show ?thesis
    by (cases r; cases q) (auto simp: same_stack_def get_thr_def upd_thr_def)
qed

lemma same_stack_other: "r \<noteq> q \<Longrightarrow> same_stack r s (upd_thr q f s)"
  by (simp add: same_stack_def)

lemma same_stack_dispatch: "same_stack r s (thrSched_step s)"
proof -
  have "same_stack r s (s\<lparr>sched_t := t, thr_current := t\<rparr>)" for t
    by (cases r) (simp_all add: same_stack_def get_thr_def)
  then show ?thesis
    unfolding thrSched_step_def Let_def by (intro same_stack_trans [OF _ same_stack_upd]) simp_all
qed

section \<open>Forgetting the stacks\<close>

definition strip :: "thread \<Rightarrow> thread" where
  "strip t = t\<lparr>ctx := (ThrNull, 0), kstack := []\<rparr>"

definition forget :: "'a thr_scheme \<Rightarrow> 'a thr_scheme" where
  "forget s = s\<lparr>thrqueue := map strip (thrqueue s), thr_null := strip (thr_null s)\<rparr>"

lemma strip_simps [simp]:
  "status (strip t) = status t" "counter (strip t) = counter t" "tid (strip t) = tid t" "cv (strip t) = cv t"
  "strip (t\<lparr>ctx := x\<rparr>) = strip t" "strip (t\<lparr>kstack := bs\<rparr>) = strip t"
  "strip (t\<lparr>status := x1\<rparr>) = (strip t)\<lparr>status := x1\<rparr>" "strip (t\<lparr>counter := n\<rparr>) = (strip t)\<lparr>counter := n\<rparr>"
  "strip (t\<lparr>cv := w\<rparr>) = (strip t)\<lparr>cv := w\<rparr>"
  by (simp_all add: strip_def)

lemma forget_simps [simp]:
  "thr_current (forget s) = thr_current s" "sched_t (forget s) = sched_t s"
  "thrqueue (forget s) = map strip (thrqueue s)" "thr_null (forget s) = strip (thr_null s)"
  by (simp_all add: forget_def)

lemma forget_upd_thr:
  assumes "\<And>t. strip (f t) = g (strip t)"
  shows "forget (upd_thr r f s) = upd_thr r g (forget s)"
proof (cases r)
  case (Thr i)
  have "map strip ((thrqueue s)[i := f (thrqueue s ! i)]) = (map strip (thrqueue s))[i := g (map strip (thrqueue s) ! i)]"
    using assms by (cases "i < length (thrqueue s)") (simp_all add: map_update list_update_beyond)
  with Thr show ?thesis by (simp add: upd_thr_def forget_def)
qed (simp add: assms upd_thr_def forget_def)

lemma forget_scan: "thrSched_scan (map strip ts) i t m = thrSched_scan ts i t m"
  by (induction ts arbitrary: i t m) simp_all

lemma forget_dispatch: "forget (thrSched_step s) = thrSched_step (forget s)"
proof -
  have "forget (s\<lparr>sched_t := t, thr_current := t\<rparr>) = (forget s)\<lparr>sched_t := t, thr_current := t\<rparr>" for t
    by (simp add: forget_def)
  then show ?thesis
    unfolding thrSched_step_def Let_def by (simp add: forget_upd_thr forget_scan)
qed

lemma forget_leave:
  "forget (yield_leave s) = yield_leave (forget s)" "forget (exit_leave s) = exit_leave (forget s)"
proof -
  have upd: "forget (upd_thr r (\<lambda>t. t\<lparr>status := x1\<rparr>) s) = upd_thr r (\<lambda>t. t\<lparr>status := x1\<rparr>) (forget s)"
    "forget (upd_thr r (\<lambda>t. t\<lparr>counter := counter t - 1\<rparr>) s) =
      upd_thr r (\<lambda>t. t\<lparr>counter := counter t - 1\<rparr>) (forget s)" for r x1 and s :: "'a thr_scheme"
    by (rule forget_upd_thr; simp)+
  show "forget (yield_leave s) = yield_leave (forget s)" "forget (exit_leave s) = exit_leave (forget s)"
    by (simp_all add: yield_leave_def exit_leave_def Let_def upd upd_thr_current)
qed

lemma forget_stack:
  "forget (upd_thr r (\<lambda>t. t\<lparr>kstack := g t\<rparr>) s) = forget s" "forget (upd_thr r (\<lambda>t. t\<lparr>ctx := x\<rparr>) s) = forget s"
proof -
  have "upd_thr r id s = s" for s :: "'a thr_scheme" by (cases r) (simp_all add: upd_thr_def)
  then show "forget (upd_thr r (\<lambda>t. t\<lparr>kstack := g t\<rparr>) s) = forget s"
    "forget (upd_thr r (\<lambda>t. t\<lparr>ctx := x\<rparr>) s) = forget s"
    by (simp_all add: forget_upd_thr [where g = id])
qed

lemma forget_saved: "forget (saved old r k c s) = forget s"
  by (simp add: saved_def forget_stack)

section \<open>The invariant\<close>

text \<open>
  \<open>room\<close>: the scheduler's context lies on the stack of the null thread, behind one of the two places
  the scheduler can go on from. \<open>machine_ok\<close>: a thread of the table runs, on its own stack; every other
  thread that may run again is parked.
\<close>

definition sched_parked :: "code_syms \<Rightarrow> points \<Rightarrow> 'a thr_scheme \<Rightarrow> bool" where
  "sched_parked sy pt s \<longleftrightarrow> parked ThrNull s \<and>
     (eip (context_of ThrNull s) = sched_call pt \<and> sched_call pt \<noteq> sym_thrSched sy \<or>
      eip (context_of ThrNull s) = sym_thrSched sy \<and> sched_frame pt \<le> snd (ctx (thr_null s)))"

lemma sched_parked_same: "sched_parked sy pt s \<Longrightarrow> same_stack ThrNull s s' \<Longrightarrow> sched_parked sy pt s'"
  using same_stackD [of ThrNull s s'] by (auto simp: sched_parked_def same_stack_def get_thr_def)

definition runnable :: "thread \<Rightarrow> bool" where
  "runnable t \<longleftrightarrow> status t \<in> {THR_READY, THR_RUNNING, THR_SLEEPING}"

definition machine_ok :: "code_syms \<Rightarrow> points \<Rightarrow> cpu \<Rightarrow> 'a thr_scheme \<Rightarrow> bool" where
  "machine_ok sy pt c s \<longleftrightarrow> thr_ok s \<and> sched_parked sy pt s \<and> sched_call pt \<noteq> sym_thrSched sy \<and>
     (\<exists>a < THRQUESIZE. thr_current s = Thr a \<and> sched_t s = Thr a \<and> fst (esp c) = Thr a \<and> snd (esp c) \<le> KSTACKSIZE) \<and>
     (\<forall>j < THRQUESIZE. Thr j \<noteq> thr_current s \<longrightarrow> runnable (thrqueue s ! j) \<longrightarrow> parked (Thr j) s)"

text \<open>A switch stores the registers at the context left and loads those of the context entered.\<close>

lemma ctxSwitch_context:
  assumes "esp c = (r, k + 16)" "valid r s" "k + 20 \<le> length (kstack (get_thr r s))"
    and "ctx (get_thr q s') = (q, m)" "m + 20 \<le> length (kstack (get_thr q s'))"
    and "s' = saved r r k c s"
  shows "ctxSwitch r (ctx (get_thr q s')) c s = Some (context_of q s', s')"
    and "ctx (get_thr r s') = (r, k)" "length (kstack (get_thr r s')) = length (kstack (get_thr r s))"
    and "context_of r s' = c\<lparr>esp := (r, k + 20), eip := get32 (kstack (get_thr r s)) (k + 16)\<rparr>"
proof -
  have k: "k + 16 \<le> length (kstack (get_thr r s))" using assms(3) by simp
  note st = saved_stack [OF assms(2) k, of c, folded assms(6)]
  show "ctx (get_thr r s') = (r, k)" "length (kstack (get_thr r s')) = length (kstack (get_thr r s))"
    using st by simp_all
  show "context_of r s' = c\<lparr>esp := (r, k + 20), eip := get32 (kstack (get_thr r s)) (k + 16)\<rparr>"
    using st assms(3) by (cases c) (simp add: context_of_def Let_def)
  show "ctxSwitch r (ctx (get_thr q s')) c s = Some (context_of q s', s')"
    using ctxSwitch_result [OF assms(1,2) k, of m q r] assms(4,5)
    unfolding assms(6) [symmetric] assms(4) by (cases c) (simp add: context_of_def Let_def assms(4))
qed

text \<open>A call of \<^verbatim>\<open>ctxSwitch\<close>: the return address is part of the context that is left.\<close>

lemma call_switch:
  assumes "esp c = (r, k + 20)" "valid r s" "k + 20 \<le> length (kstack (get_thr r s))"
    and "q \<noteq> r" "parked q s"
  obtains s' where "do { (c, s) \<leftarrow> push ra c s; ctxSwitch r (ctx (get_thr q s)) c s } = Some (context_of q s, s')"
    and "context_of r s' = c\<lparr>eip := ra\<rparr>" "ctx (get_thr r s') = (r, k)" "parked r s'" "forget s' = forget s"
    and "\<And>p. p \<noteq> r \<Longrightarrow> same_stack p s s'" "length (kstack (get_thr r s')) = length (kstack (get_thr r s))"
proof -
  define s1 where "s1 = upd_thr r (\<lambda>t. t\<lparr>kstack := put32 (kstack t) (k + 16) ra\<rparr>) s"
  define c1 where "c1 = c\<lparr>esp := (r, k + 16)\<rparr>"
  define s' where "s' = saved r r k c1 s1"
  have push: "push ra c s = Some (c1, s1)"
    using assms(1,3) by (simp add: push_def s1_def c1_def add.commute)
  have c1: "esp c1 = (r, k + 16)" by (simp add: c1_def)
  have v: "valid r s1" using assms(2) by (simp add: s1_def)
  have len: "k + 20 \<le> length (kstack (get_thr r s1))" using assms(2,3) by (simp add: s1_def)
  have other: "same_stack p s s'" if "p \<noteq> r" for p
    using that by (auto simp: s'_def s1_def saved_def intro!: same_stack_trans [OF same_stack_other same_stack_trans [OF same_stack_other same_stack_other]])
  obtain m where m: "ctx (get_thr q s') = (q, m)" "m + 20 \<le> length (kstack (get_thr q s'))"
    using same_stackD(1) [OF other [OF assms(4)] assms(5)] by (auto simp: parked_def)
  note sw = ctxSwitch_context [OF c1 v len m s'_def]
  have arg: "ctx (get_thr q s1) = ctx (get_thr q s')" using assms(4) by (simp add: s'_def saved_def)
  have "get32 (kstack (get_thr r s1)) (k + 16) = ra" using assms(2,3) by (simp add: s1_def)
  then have ctx: "context_of r s' = c\<lparr>eip := ra\<rparr>" using sw(4) assms(1) by (cases c) (simp add: c1_def)
  show ?thesis
  proof (rule that [OF _ ctx sw(2)])
    show "do { (c, s) \<leftarrow> push ra c s; ctxSwitch r (ctx (get_thr q s)) c s } = Some (context_of q s, s')"
      using sw(1) arg same_stackD(2) [OF other [OF assms(4)] assms(5)] by (simp add: push)
    show "parked r s'" using sw(2,3) len by (simp add: parked_def)
    show "forget s' = forget s" by (simp add: s'_def s1_def forget_saved forget_stack)
    show "length (kstack (get_thr r s')) = length (kstack (get_thr r s))" using sw(3) assms(2,3) by (simp add: s1_def)
  qed (use other in blast)
qed

text \<open>One turn of the loop, and the scheduler's way from its parked context to the next thread.\<close>

lemma sched_loop_result:
  assumes "esp c = (ThrNull, m + 20)" "m + 20 \<le> length (kstack (thr_null s))"
    and "thr_current (thrSched_step s) = Thr b" "parked (Thr b) s"
  obtains s' where "sched_loop pt c s = Some (context_of (Thr b) s, s')"
    and "context_of ThrNull s' = c\<lparr>eip := sched_call pt\<rparr>" "parked ThrNull s'"
    and "forget s' = forget (thrSched_step s)" "\<And>j. same_stack (Thr j) s s'"
proof -
  let ?s = "thrSched_step s"
  have null: "m + 20 \<le> length (kstack (get_thr ThrNull ?s))"
    using assms(2) same_stack_dispatch [of ThrNull s] by (simp add: same_stack_def get_thr_def)
  have b: "parked (Thr b) ?s" "context_of (Thr b) ?s = context_of (Thr b) s"
    using same_stackD [OF same_stack_dispatch assms(4)] by simp_all
  have v: "valid ThrNull ?s" by (simp add: valid_def)
  obtain s' where s': "do { (c, s) \<leftarrow> push (sched_call pt) c ?s; ctxSwitch ThrNull (ctx (get_thr (Thr b) s)) c s } =
      Some (context_of (Thr b) ?s, s')"
    "context_of ThrNull s' = c\<lparr>eip := sched_call pt\<rparr>" "parked ThrNull s'" "forget s' = forget ?s"
    "\<And>p. p \<noteq> ThrNull \<Longrightarrow> same_stack p ?s s'"
    using call_switch [OF assms(1) v null _ b(1)] by blast
  have cur: "push x c ?s = Some (c', t) \<Longrightarrow> thr_current t = Thr b" for x c' t
    using assms(3) by (auto simp: push_def upd_thr_current split: prod.splits if_splits)
  show ?thesis
  proof (rule that [OF _ s'(2-4)])
    show "sched_loop pt c s = Some (context_of (Thr b) s, s')"
      using s'(1) b(2) cur by (auto simp: sched_loop_def bind_eq_Some_conv)
    show "same_stack (Thr j) s s'" for j
      using same_stack_trans [OF same_stack_dispatch s'(5)] by simp
  qed
qed

lemma sched_resume_result:
  assumes "sched_parked sy pt s" "sched_call pt \<noteq> sym_thrSched sy" "thr_current (thrSched_step s) = Thr b" "parked (Thr b) s"
  obtains s' where "sched_resume sy pt (context_of ThrNull s) s = Some (context_of (Thr b) s, s')"
    and "sched_parked sy pt s'" "forget s' = forget (thrSched_step s)" "\<And>j. same_stack (Thr j) s s'"
proof -
  obtain k where k: "ctx (thr_null s) = (ThrNull, k)" "k + 20 \<le> length (kstack (thr_null s))"
      "esp (context_of ThrNull s) = (ThrNull, k + 20)"
    using assms(1) by (auto simp: sched_parked_def parked_def get_thr_def context_of_def Let_def)
  define f where "f = (if eip (context_of ThrNull s) = sym_thrSched sy then sched_frame pt else 0)"
  have f: "f \<le> k" "k - f + 20 \<le> length (kstack (thr_null s))"
    using assms(1,2) k by (auto simp: sched_parked_def f_def)
  let ?c = "(context_of ThrNull s)\<lparr>esp := (ThrNull, k - f + 20)\<rparr>"
  have same: "context_of ThrNull s = (context_of ThrNull s)\<lparr>esp := (ThrNull, k + 20)\<rparr>"
    using k(3) by (cases "context_of ThrNull s") simp
  have enter: "sched_resume sy pt (context_of ThrNull s) s = sched_loop pt ?c s"
  proof (cases "eip (context_of ThrNull s) = sym_thrSched sy")
    case True
    then show ?thesis using k(3) f(1) by (simp add: sched_resume_def sched_enter_def f_def)
  next
    case False
    then show ?thesis using assms(1) same by (simp add: sched_resume_def sched_parked_def f_def)
  qed
  have c: "esp ?c = (ThrNull, k - f + 20)" by simp
  obtain s' where s': "sched_loop pt ?c s = Some (context_of (Thr b) s, s')"
      "context_of ThrNull s' = ?c\<lparr>eip := sched_call pt\<rparr>" "parked ThrNull s'"
      "forget s' = forget (thrSched_step s)" "\<And>j. same_stack (Thr j) s s'"
    using sched_loop_result [OF c f(2) assms(3,4)] by blast
  show ?thesis
  proof (rule that [OF _ _ s'(4,5)])
    show "sched_parked sy pt s'" using s'(2,3) assms(2) by (simp add: sched_parked_def)
  qed (simp add: enter s'(1))
qed

section \<open>Leaving the processor\<close>

lemma forgetD:
  assumes "forget s' = forget t"
  shows "thr_current s' = thr_current t" "sched_t s' = sched_t t" "length (thrqueue s') = length (thrqueue t)"
    "j < length (thrqueue t) \<Longrightarrow> status (thrqueue s' ! j) = status (thrqueue t ! j)"
    "j < length (thrqueue t) \<Longrightarrow> tid (thrqueue s' ! j) = tid (thrqueue t ! j)"
proof -
  have q: "map strip (thrqueue s') = map strip (thrqueue t)" using arg_cong [OF assms, of thrqueue] by simp
  show len: "length (thrqueue s') = length (thrqueue t)" using arg_cong [OF q, of length] by simp
  show "thr_current s' = thr_current t" "sched_t s' = sched_t t"
    using arg_cong [OF assms, of thr_current] arg_cong [OF assms, of sched_t] by simp_all
  assume "j < length (thrqueue t)"
  then have "strip (thrqueue s' ! j) = strip (thrqueue t ! j)"
    using arg_cong [OF q, of "\<lambda>xs. xs ! j"] len by simp
  then show "status (thrqueue s' ! j) = status (thrqueue t ! j)" "tid (thrqueue s' ! j) = tid (thrqueue t ! j)"
    by (metis strip_simps)+
qed

lemma leave_facts:
  assumes "leave \<in> {yield_leave, exit_leave}"
  shows "thr_current (leave s) = thr_current s" "sched_t (leave s) = sched_t s" "same_stack r s (leave s)"
    "forget (leave s) = leave (forget s)" "thr_ok s \<Longrightarrow> thr_ok (leave s)"
    "thr_current s = Thr a \<Longrightarrow> j \<noteq> a \<Longrightarrow> thrqueue (leave s) ! j = thrqueue s ! j"
    "length (thrqueue (leave s)) = length (thrqueue s)"
proof -
  have y: "yield_leave s = upd_thr (thr_current s) (\<lambda>t. t\<lparr>counter := counter t - 1\<rparr>)
      (upd_thr (thr_current s) (\<lambda>t. t\<lparr>status := THR_READY\<rparr>) s)"
    by (simp add: yield_leave_def Let_def upd_thr_current)
  have "\<exists>f. leave s = upd_thr (thr_current s) f s \<and>
      (\<forall>t. ctx (f t) = ctx t \<and> kstack (f t) = kstack t \<and> keeps t (f t))"
  proof (cases "leave = exit_leave")
    case True
    then show ?thesis by (intro exI [of _ "\<lambda>t. t\<lparr>status := THR_ZOMBIE\<rparr>"]) (simp add: exit_leave_def keeps_def)
  next
    case False
    then show ?thesis using assms y unfolding upd_thr_twice
      by (intro exI [of _ "\<lambda>t. t\<lparr>status := THR_READY, counter := counter t - 1\<rparr>"]) (simp add: keeps_def)
  qed
  then obtain f where f: "leave s = upd_thr (thr_current s) f s"
      "\<And>t. ctx (f t) = ctx t \<and> kstack (f t) = kstack t" "\<And>t. keeps t (f t)" by blast
  show "thr_current (leave s) = thr_current s" "sched_t (leave s) = sched_t s"
    by (simp_all add: f(1) upd_thr_current)
  show "same_stack r s (leave s)" unfolding f(1) by (rule same_stack_upd [OF f(2)])
  show "forget (leave s) = leave (forget s)" using assms forget_leave by auto
  show "thr_ok s \<Longrightarrow> thr_ok (leave s)" unfolding f(1) by (rule thr_ok_upd_thr [OF _ f(3)])
  show "thr_current s = Thr a \<Longrightarrow> j \<noteq> a \<Longrightarrow> thrqueue (leave s) ! j = thrqueue s ! j"
    "length (thrqueue (leave s)) = length (thrqueue s)"
    by (simp_all add: f(1) upd_thr_def split: thr_ref.split)
qed

text \<open>The next thread is one that was ready, or the one the loop remembers.\<close>

lemma dispatch_target:
  assumes "thr_ok s" "sched_pick s \<noteq> None \<or> sched_t s = Thr a \<and> a < THRQUESIZE"
  obtains b where "b < THRQUESIZE" "thr_current (thrSched_step s) = Thr b" "sched_t (thrSched_step s) = Thr b"
    "status (thrqueue s ! b) = THR_READY \<or> sched_t s = Thr b"
    "\<And>j. j \<noteq> b \<Longrightarrow> thrqueue (thrSched_step s) ! j = thrqueue s ! j" "thr_ok (thrSched_step s)"
proof (cases "sched_pick s")
  case None
  then show ?thesis
    using that [of a] assms thr_ok_keeps [OF assms(1) keeps_dispatch]
    by (simp add: dispatch_None [OF None] upd_thr_def)
next
  case (Some b)
  then show ?thesis
    using that [of b] sched_pick_SomeD(1,2) [OF Some] thr_okD(1) [OF assms(1)] thr_ok_keeps [OF assms(1) keeps_dispatch]
    by (simp add: dispatch_Some [OF Some])
qed

lemma thr_ok_forget:
  assumes "forget s' = forget t" "thr_ok t" "\<And>j. j < THRQUESIZE \<Longrightarrow> length (kstack (thrqueue s' ! j)) = KSTACKSIZE"
  shows "thr_ok s'"
  using forgetD(3,5) [OF assms(1)] thr_okD(1,2) [OF assms(2)] assms(3) by (simp add: thr_ok_def)

lemma machine_okD:
  assumes "machine_ok sy pt c s" "thr_current s = Thr a"
  shows "thr_ok s" "sched_parked sy pt s" "sched_call pt \<noteq> sym_thrSched sy" "a < THRQUESIZE" "sched_t s = Thr a"
    "fst (esp c) = Thr a" "snd (esp c) \<le> KSTACKSIZE"
    "j < THRQUESIZE \<Longrightarrow> j \<noteq> a \<Longrightarrow> runnable (thrqueue s ! j) \<Longrightarrow> parked (Thr j) s"
  using assms by (auto simp: machine_ok_def)

text \<open>\<open>sched_ready\<close>: what the scheduler needs to pick a thread and switch to it.\<close>

definition sched_ready :: "code_syms \<Rightarrow> points \<Rightarrow> 'a thr_scheme \<Rightarrow> bool" where
  "sched_ready sy pt s \<longleftrightarrow> thr_ok s \<and> sched_parked sy pt s \<and> sched_call pt \<noteq> sym_thrSched sy \<and>
     (sched_pick s \<noteq> None \<or> (\<exists>a < THRQUESIZE. sched_t s = Thr a \<and> parked (Thr a) s)) \<and>
     (\<forall>j < THRQUESIZE. runnable (thrqueue s ! j) \<longrightarrow> parked (Thr j) s)"

lemma scheduler_picks:
  assumes "sched_ready sy pt s"
  obtains b s' where "sched_resume sy pt (context_of ThrNull s) s = Some (context_of (Thr b) s, s')"
    "machine_ok sy pt (context_of (Thr b) s) s'" "thr_current s' = Thr b" "forget s' = forget (thrSched_step s)"
    "\<And>j. same_stack (Thr j) s s'" "parked (Thr b) s"
proof -
  have r: "thr_ok s" "sched_parked sy pt s" "sched_call pt \<noteq> sym_thrSched sy"
      "\<And>j. j < THRQUESIZE \<Longrightarrow> runnable (thrqueue s ! j) \<Longrightarrow> parked (Thr j) s"
    using assms by (auto simp: sched_ready_def)
  obtain a where a: "sched_pick s \<noteq> None \<or> sched_t s = Thr a \<and> a < THRQUESIZE"
      "sched_pick s = None \<Longrightarrow> parked (Thr a) s"
    using assms by (auto simp: sched_ready_def)
  obtain b where b: "b < THRQUESIZE" "thr_current (thrSched_step s) = Thr b" "sched_t (thrSched_step s) = Thr b"
      "\<And>j. j \<noteq> b \<Longrightarrow> thrqueue (thrSched_step s) ! j = thrqueue s ! j" "thr_ok (thrSched_step s)" "parked (Thr b) s"
  proof (rule dispatch_target [OF r(1) a(1)])
    fix b assume "b < THRQUESIZE" "thr_current (thrSched_step s) = Thr b" "sched_t (thrSched_step s) = Thr b"
      "status (thrqueue s ! b) = THR_READY \<or> sched_t s = Thr b"
      "\<And>j. j \<noteq> b \<Longrightarrow> thrqueue (thrSched_step s) ! j = thrqueue s ! j" "thr_ok (thrSched_step s)"
    then show ?thesis
      using that [of b] r(4) [of b] a sched_pick_SomeD(2) [of s b] dispatch_Some [of s]
      by (cases "sched_pick s") (auto simp: runnable_def dest: sched_pick_SomeD(2))
  qed
  obtain s' where s': "sched_resume sy pt (context_of ThrNull s) s = Some (context_of (Thr b) s, s')"
      "sched_parked sy pt s'" "forget s' = forget (thrSched_step s)" "\<And>j. same_stack (Thr j) s s'"
    using sched_resume_result [OF r(2,3) b(2,6)] by blast
  note f' = forgetD [OF s'(3)]
  have len: "length (kstack (thrqueue s' ! j)) = KSTACKSIZE" if "j < THRQUESIZE" for j
    using thr_okD(3) [OF r(1) that] s'(4) [of j] by (simp add: same_stack_def get_thr_def)
  have esp: "fst (esp (context_of (Thr b) s)) = Thr b" "snd (esp (context_of (Thr b) s)) \<le> KSTACKSIZE"
    using b(6) thr_okD(3) [OF r(1) b(1)] by (auto simp: parked_def context_of_def get_thr_def Let_def)
  have park: "parked (Thr j) s'" if "j < THRQUESIZE" "j \<noteq> b" "runnable (thrqueue s' ! j)" for j
  proof (rule same_stackD(1) [OF s'(4) r(4)])
    show "runnable (thrqueue s ! j)"
      using f'(4) [of j] b(4) [OF that(2)] that(1,3) thr_okD(1) [OF b(5)] by (simp add: runnable_def)
  qed (fact that)
  have "machine_ok sy pt (context_of (Thr b) s) s'"
    unfolding machine_ok_def
    using thr_ok_forget [OF s'(3) b(5) len] s'(2) r(3) b(1,2,3) f'(1,2) esp park by auto
  with that [OF s'(1) _ _ s'(3,4) b(6)] f'(1) b(2) show ?thesis by simp
qed

text \<open>The way out of a thread, up to the scheduler.\<close>

lemma leave_parks:
  assumes ok: "machine_ok sy pt c s" "thr_current s = Thr a"
    and room: "20 \<le> snd (esp c)" and leave: "leave \<in> {yield_leave, exit_leave}"
  obtains s1 where "switch_out sy pt ra leave c s = sched_resume sy pt (context_of ThrNull s1) s1"
    "sched_ready sy pt s1" "context_of (Thr a) s1 = c\<lparr>eip := ra\<rparr>" "forget s1 = forget (leave s)"
    "\<And>j. j \<noteq> a \<Longrightarrow> same_stack (Thr j) s s1" "parked (Thr a) s1"
proof -
  note m = machine_okD [OF ok] and lv = leave_facts [OF leave]
  let ?u = "leave s"
  have u: "thr_ok ?u" "thr_current ?u = Thr a" "sched_t ?u = Thr a" using lv(1,2,5) m(1,5) ok(2) by simp_all
  obtain k where k: "esp c = (Thr a, k + 20)" "k + 20 \<le> KSTACKSIZE"
    using m(6,7) room that [of "snd (esp c) - 20"] by (cases "esp c") auto
  have stack: "k + 20 \<le> length (kstack (get_thr (Thr a) ?u))" "valid (Thr a) ?u"
    using k(2) m(4) thr_okD(1,3) [OF u(1)] by (simp_all add: get_thr_def valid_def)
  have null: "parked ThrNull ?u" "context_of ThrNull ?u = context_of ThrNull s"
    using same_stackD [OF lv(3)] m(2) by (simp_all add: sched_parked_def)
  obtain s1 where s1: "do { (c, s) \<leftarrow> push ra c ?u; ctxSwitch (Thr a) (ctx (get_thr ThrNull s)) c s } =
      Some (context_of ThrNull ?u, s1)"
    "context_of (Thr a) s1 = c\<lparr>eip := ra\<rparr>" "parked (Thr a) s1" "forget s1 = forget ?u"
    "\<And>p. p \<noteq> Thr a \<Longrightarrow> same_stack p ?u s1" "length (kstack (get_thr (Thr a) s1)) = length (kstack (get_thr (Thr a) ?u))"
    using call_switch [OF k(1) stack(2,1) _ null(1), of ra] by blast
  have len: "length (kstack (thrqueue s1 ! j)) = KSTACKSIZE" if "j < THRQUESIZE" for j
    using s1(5) [of "Thr j"] s1(6) thr_okD(3) [OF u(1) that] by (cases "j = a") (auto simp: same_stack_def get_thr_def)
  note f1 = forgetD [OF s1(4)]
  have other: "same_stack p s s1" if "p \<noteq> Thr a" for p
    using same_stack_trans [OF lv(3) s1(5) [OF that]] .
  have park: "parked (Thr j) s1" if "j < THRQUESIZE" "runnable (thrqueue s1 ! j)" for j
  proof (cases "j = a")
    case False
    then have "runnable (thrqueue s ! j)"
      using f1(4) [of j] lv(6) [OF ok(2) False] that thr_okD(1) [OF u(1)] by (simp add: runnable_def)
    with m(8) [OF that(1) False] False show ?thesis using same_stackD(1) [OF other] by simp
  qed (use s1(3) in simp)
  have "sched_parked sy pt s1"
    using sched_parked_same [OF m(2) other] by simp
  then have ready: "sched_ready sy pt s1"
    using thr_ok_forget [OF s1(4) u(1) len] m(3,4) f1(2) u(3) s1(3) park by (auto simp: sched_ready_def)
  have null1: "context_of ThrNull ?u = context_of ThrNull s1"
    using same_stackD(2) [OF s1(5) null(1)] by simp
  obtain c0 s0 where p: "push ra c ?u = Some (c0, s0)"
      "ctxSwitch (Thr a) (ctx (get_thr ThrNull s0)) c0 s0 = Some (context_of ThrNull s1, s1)"
    using s1(1) null1 by (auto simp: bind_eq_Some_conv)
  have "thr_current s0 = Thr a" using p(1) u(2) by (auto simp: push_def upd_thr_current split: prod.splits if_splits)
  with p have "switch_out sy pt ra leave c s = sched_resume sy pt (context_of ThrNull s1) s1"
    by (simp add: switch_out_def)
  from that [OF this ready s1(2,4) other s1(3)] show ?thesis by simp
qed

text \<open>What the switch out of thread \<open>a\<close> leads to.\<close>

definition switched ::
  "code_syms \<Rightarrow> points \<Rightarrow> nat \<Rightarrow> cpu \<Rightarrow> 'a thr_scheme \<Rightarrow> 'a thr_scheme \<Rightarrow> cpu \<Rightarrow> 'a thr_scheme \<Rightarrow> bool" where
  "switched sy pt a c s u c' s' \<longleftrightarrow> machine_ok sy pt c' s' \<and> forget s' = forget (thrSched_step u) \<and>
     (\<exists>b. thr_current s' = Thr b \<and> c' = (if b = a then c else context_of (Thr b) s)) \<and>
     parked (Thr a) s' \<and> context_of (Thr a) s' = c \<and> (\<forall>j. j \<noteq> a \<longrightarrow> same_stack (Thr j) s s')"

lemma leave_switches:
  assumes ok: "machine_ok sy pt c s" "thr_current s = Thr a"
    and room: "20 \<le> snd (esp c)" and leave: "leave \<in> {yield_leave, exit_leave}"
  shows "\<exists>c' s'. switch_out sy pt ra leave c s = Some (c', s') \<and> switched sy pt a (c\<lparr>eip := ra\<rparr>) s (leave s) c' s'"
proof -
  obtain s1 where s1: "switch_out sy pt ra leave c s = sched_resume sy pt (context_of ThrNull s1) s1"
      "sched_ready sy pt s1" "context_of (Thr a) s1 = c\<lparr>eip := ra\<rparr>" "forget s1 = forget (leave s)"
      "\<And>j. j \<noteq> a \<Longrightarrow> same_stack (Thr j) s s1" "parked (Thr a) s1"
    using leave_parks [OF assms] by blast
  obtain b s' where s': "sched_resume sy pt (context_of ThrNull s1) s1 = Some (context_of (Thr b) s1, s')"
      "machine_ok sy pt (context_of (Thr b) s1) s'" "thr_current s' = Thr b" "forget s' = forget (thrSched_step s1)"
      "\<And>j. same_stack (Thr j) s1 s'" "parked (Thr b) s1"
    using scheduler_picks [OF s1(2)] by blast
  have regs: "context_of (Thr b) s1 = (if b = a then c\<lparr>eip := ra\<rparr> else context_of (Thr b) s)"
    using s1(3,5,6) s'(6) by (auto simp: same_stack_def parked_def context_of_def)
  have "forget s' = forget (thrSched_step (leave s))" by (simp add: s'(4) forget_dispatch s1(4))
  moreover have "parked (Thr a) s'" "context_of (Thr a) s' = c\<lparr>eip := ra\<rparr>"
    using same_stackD [OF s'(5) s1(6)] s1(3) by simp_all
  ultimately show ?thesis
    unfolding switched_def using s1(1) s'(1-3) regs same_stack_trans [OF s1(5) s'(5)] by auto
qed

end
