(* ===== verification/Runs.thy ===== *)
theory Runs
  imports Machine
begin

text \<open>
  Runs of the machine of \<open>Machine\<close>: the refinement of the dispatch steps, the return of a thread to where it has
  yielded, the machine's start, and what \<^verbatim>\<open>thrCondWait\<close> does to the scheduler and to the waiting thread.
\<close>

section \<open>Runs of the machine\<close>

text \<open>
  \<open>compute\<close> is anything the running thread does to its registers and its own stack; the other steps are its
  calls. \<^verbatim>\<open>thrCondWait\<close> is not among them: it breaks the invariant, as shown below.
\<close>

inductive mstep :: "code_syms \<Rightarrow> points \<Rightarrow> cpu \<times> 'a thr_scheme \<Rightarrow> cpu \<times> 'a thr_scheme \<Rightarrow> bool" for sy pt where
  compute: "thr_current s = Thr a \<Longrightarrow> fst (esp c') = Thr a \<Longrightarrow> snd (esp c') \<le> KSTACKSIZE \<Longrightarrow> length bs = KSTACKSIZE \<Longrightarrow>
    mstep sy pt (c, s) (c', upd_thr (Thr a) (\<lambda>t. t\<lparr>kstack := bs\<rparr>) s)"
| create: "mstep sy pt (c, s) (c, snd (thrCreate sy f x s))"
| kill: "thrKill t s = Some s' \<Longrightarrow> mstep sy pt (c, s) (c, s')"
| signal: "mstep sy pt (c, s) (c, thrCondSignal w s)"
| broadcast: "mstep sy pt (c, s) (c, thrCondBroadcast w s)"
| sem_up: "mstep sy pt (c, s) (c, snd (thrSemUp w sem s))"
| yield: "20 \<le> snd (esp c) \<Longrightarrow> yield_switch sy pt ra c s = Some x \<Longrightarrow> mstep sy pt (c, s) x"
| exit: "20 \<le> snd (esp c) \<Longrightarrow> exit_switch sy pt ra c s = Some x \<Longrightarrow> mstep sy pt (c, s) x"

inductive_cases mstepE: "mstep sy pt (c, s) (c', s')"

lemmas mstep_split [consumes 1, case_names compute create kill signal broadcast sem_up yield exit] = mstepE

text \<open>The calls on the forgotten table.\<close>

lemma strip_strip [simp]: "strip (strip t) = strip t"
  by (simp add: strip_def)

lemma forget_forget [simp]: "forget (forget s) = forget s"
  by (simp add: forget_def o_def)

lemma sleeps_on_strip [simp]: "sleeps_on w (strip t) = sleeps_on w t"
  by (simp add: sleeps_on_def)

lemma signal_scan_strip: "signal_scan w (map strip ts) = map strip (signal_scan w ts)"
  by (induction ts) simp_all

lemma forget_table: "forget (s\<lparr>thrqueue := q\<rparr>) = (forget s)\<lparr>thrqueue := map strip q\<rparr>"
  by (simp add: forget_def)

lemma forget_calls:
  "forget (thrCondSignal w s) = thrCondSignal w (forget s)"
  "forget (thrCondBroadcast w s) = thrCondBroadcast w (forget s)"
  "forget (snd (thrSemUp w sem s)) = snd (thrSemUp w sem (forget s))"
  "forget (thrYeild s) = thrYeild (forget s)" "forget (thrExit s) = thrExit (forget s)"
  "map_option forget (thrKill t s) = thrKill t (forget s)"
proof -
  show "forget (thrCondSignal w s) = thrCondSignal w (forget s)"
    by (simp add: thrCondSignal_def forget_table take_map drop_map signal_scan_strip)
  show "forget (thrCondBroadcast w s) = thrCondBroadcast w (forget s)"
    by (simp add: thrCondBroadcast_def forget_table take_map drop_map broadcast_scan_map o_def if_distrib cong: if_cong)
  show "forget (snd (thrSemUp w sem s)) = snd (thrSemUp w sem (forget s))"
    by (simp add: thrSemUp_def forget_table o_def if_distrib cong: if_cong)
  show "forget (thrYeild s) = thrYeild (forget s)" by (simp add: thrYeild_def forget_dispatch forget_leave)
  have "thrExit s = thrSched_step (exit_leave s)" for s :: "'a thr_scheme" by (simp add: thrExit_def exit_leave_def)
  then show "forget (thrExit s) = thrExit (forget s)" by (simp add: forget_dispatch forget_leave)
  have "forget (upd_thr r (\<lambda>t. t\<lparr>status := THR_ZOMBIE\<rparr>) s) = upd_thr r (\<lambda>t. t\<lparr>status := THR_ZOMBIE\<rparr>) (forget s)" for r
    by (rule forget_upd_thr) simp
  then show "map_option forget (thrKill t s) = thrKill t (forget s)" by (simp add: thrKill_def)
qed

lemma strip_setup: "strip (thread_setup sy f x i (strip t)) = strip (thread_setup sy f x i t)"
  by (simp add: thread_setup_def strip_def Let_def)

lemma thrAlloc_forget: "thrAlloc (forget s) = thrAlloc s"
proof -
  have "thrAlloc_scan (map strip ts) i = thrAlloc_scan ts i" for ts i
    by (induction ts arbitrary: i) simp_all
  then show ?thesis by (simp add: thrAlloc_def)
qed

lemma forget_create: "forget (snd (thrCreate sy f x (forget s))) = forget (snd (thrCreate sy f x s))"
proof (cases "thrAlloc s")
  case (Some i)
  then have "i < length (thrqueue s)" by (simp add: thrAlloc_Some)
  with Some show ?thesis
    by (simp add: thrCreate_def thrAlloc_forget Let_def upd_thr_def forget_table map_update strip_setup o_def)
qed (simp add: thrCreate_def thrAlloc_forget)

section \<open>Steps\<close>

text \<open>
  \<open>stirs\<close>: what a call does to a slot it does not create; \<open>quiet\<close>: what a call leaves as it was.
\<close>

definition stirs :: "thread \<Rightarrow> thread \<Rightarrow> bool" where
  "stirs t u \<longleftrightarrow> ctx u = ctx t \<and> keeps t u \<and> kstack u = kstack t \<and> (runnable u \<longrightarrow> runnable t)"

definition quiet :: "'a thr_scheme \<Rightarrow> 'a thr_scheme \<Rightarrow> bool" where
  "quiet s s' \<longleftrightarrow> thr_ok s' \<and> thr_current s' = thr_current s \<and> sched_t s' = sched_t s \<and> thr_null s' = thr_null s \<and>
     (\<forall>j < THRQUESIZE. stirs (thrqueue s ! j) (thrqueue s' ! j) \<or>
        status (thrqueue s ! j) \<in> {THR_UNUSED, THR_STOP} \<and> parked (Thr j) s')"

lemma stirs_refl [simp, intro]: "stirs t t"
  by (simp add: stirs_def)

lemma stirs_quiet:
  assumes "list_all2 stirs (thrqueue s) (thrqueue s')" "thr_ok s"
    and "thr_current s' = thr_current s" "sched_t s' = sched_t s" "thr_null s' = thr_null s"
  shows "quiet s s'"
proof -
  have "list_all2 keeps (thrqueue s) (thrqueue s')"
    using assms(1) by (rule list_all2_mono) (simp add: stirs_def)
  with thr_ok_keeps [OF assms(2)] show ?thesis
    using assms thr_okD(1) [OF assms(2)] by (auto simp: quiet_def list_all2_conv_all_nth)
qed

lemma stirs_scan:
  "list_all2 stirs ts (signal_scan w ts)" "list_all2 stirs ts (broadcast_scan w ts)"
  "list_all2 stirs ts (map (\<lambda>t. if sleeps_on w t then t\<lparr>status := THR_READY, cv := 0\<rparr> else t) ts)"
proof -
  have wake: "sleeps_on w t \<Longrightarrow> stirs t (t\<lparr>status := THR_READY\<rparr>)" "sleeps_on w t \<Longrightarrow> stirs t (t\<lparr>status := THR_READY, cv := 0\<rparr>)" for t
    by (simp_all add: stirs_def keeps_def runnable_def sleeps_on_def)
  show "list_all2 stirs ts (signal_scan w ts)"
    by (induction ts) (simp_all add: wake list_all2_refl)
  show "list_all2 stirs ts (broadcast_scan w ts)"
    by (induction ts) (simp_all add: wake)
  show "list_all2 stirs ts (map (\<lambda>t. if sleeps_on w t then t\<lparr>status := THR_READY, cv := 0\<rparr> else t) ts)"
    by (induction ts) (simp_all add: wake)
qed

lemma stirs_tail: "list_all2 stirs (drop 1 ts) us \<Longrightarrow> list_all2 stirs ts (take 1 ts @ us)"
  by (cases ts) simp_all

lemma quiet_create: "thr_ok s \<Longrightarrow> quiet s (snd (thrCreate sy f x s))"
proof (cases "thrAlloc s")
  case None
  then show "thr_ok s \<Longrightarrow> ?thesis" by (simp add: thrCreate_def quiet_def)
next
  case (Some i)
  assume ok: "thr_ok s"
  from Some have i: "i < length (thrqueue s)" "status (thrqueue s ! i) \<in> {THR_UNUSED, THR_STOP}" by (auto simp: thrAlloc_Some)
  then have "i < 256" using thr_okD(1) [OF ok] by simp
  note fr = thread_setup_frame [OF thr_okD(3) [OF ok this]]
  have s': "snd (thrCreate sy f x s) = s\<lparr>thrqueue := (thrqueue s)[i := thread_setup sy f x i (thrqueue s ! i)]\<rparr>"
    using Some by (simp add: thrCreate_def upd_thr_def Let_def)
  have "thr_ok (snd (thrCreate sy f x s))"
    by (rule thr_ok_keeps [OF ok calm_keeps [OF calm_create [OF ok]]])
  moreover have "parked (Thr i) (snd (thrCreate sy f x s))"
    using i(1) fr unfolding s' by (simp add: parked_def get_thr_def)
  ultimately show ?thesis using i unfolding quiet_def s' by (auto simp: nth_list_update)
qed

lemma quiet_calls:
  assumes "thr_ok s"
  shows "quiet s (thrCondSignal w s)" "quiet s (thrCondBroadcast w s)" "quiet s (snd (thrSemUp w sem s))"
    "thrKill t s = Some s' \<Longrightarrow> quiet s s'"
proof -
  show "quiet s (thrCondSignal w s)" "quiet s (thrCondBroadcast w s)" "quiet s (snd (thrSemUp w sem s))"
    by (rule stirs_quiet [OF _ assms]; simp add: thrCondSignal_def thrCondBroadcast_def thrSemUp_def stirs_tail stirs_scan
        del: One_nat_def)+
  show "quiet s s'" if "thrKill t s = Some s'"
  proof (rule stirs_quiet [OF _ assms])
    show "list_all2 stirs (thrqueue s) (thrqueue s')"
      using that by (auto simp: thrKill_def upd_thr_def stirs_def keeps_def runnable_def list_all2_conv_all_nth nth_list_update
          split: if_splits)
  qed (use that in \<open>auto simp: thrKill_def upd_thr_def split: if_splits\<close>)
qed

lemma quiet_stack:
  assumes "quiet s s'" "j < THRQUESIZE" "status (thrqueue s ! j) \<notin> {THR_UNUSED, THR_STOP}"
  shows "same_stack (Thr j) s s'" "status (thrqueue s' ! j) \<notin> {THR_UNUSED, THR_STOP}"
  using assms by (auto simp: quiet_def stirs_def keeps_def same_stack_def get_thr_def)

lemma quiet_ok:
  assumes "machine_ok sy pt c s" "quiet s s'"
  shows "machine_ok sy pt c s'"
proof -
  have null: "sched_parked sy pt s'"
    by (rule sched_parked_same) (use assms in \<open>simp_all add: machine_ok_def quiet_def same_stack_def get_thr_def\<close>)
  have "parked (Thr j) s'" if "j < THRQUESIZE" "Thr j \<noteq> thr_current s'" "runnable (thrqueue s' ! j)" for j
  proof (cases "stirs (thrqueue s ! j) (thrqueue s' ! j)")
    case True
    then have "parked (Thr j) s" "same_stack (Thr j) s s'"
      using assms that by (auto simp: machine_ok_def quiet_def stirs_def same_stack_def get_thr_def)
    then show ?thesis using same_stackD(1) by blast
  qed (use assms(2) that(1) in \<open>auto simp: quiet_def\<close>)
  with null assms show ?thesis by (simp add: machine_ok_def quiet_def)
qed

lemma compute_ok:
  assumes "machine_ok sy pt c s" "thr_current s = Thr a" "fst (esp c') = Thr a" "snd (esp c') \<le> KSTACKSIZE" "length bs = KSTACKSIZE"
  defines "s' \<equiv> upd_thr (Thr a) (\<lambda>t. t\<lparr>kstack := bs\<rparr>) s"
  shows "machine_ok sy pt c' s'" "forget s' = forget s" "j \<noteq> a \<Longrightarrow> same_stack (Thr j) s s'"
    "j < THRQUESIZE \<Longrightarrow> status (thrqueue s' ! j) = status (thrqueue s ! j)" "thr_current s' = Thr a"
proof -
  note m = machine_okD [OF assms(1,2)]
  show f: "forget s' = forget s" by (simp add: s'_def forget_stack)
  note f' = forgetD [OF f]
  show same: "j \<noteq> a \<Longrightarrow> same_stack (Thr j) s s'" for j by (simp add: s'_def same_stack_other)
  show st: "j < THRQUESIZE \<Longrightarrow> status (thrqueue s' ! j) = status (thrqueue s ! j)" for j
    using f'(4) thr_okD(1) [OF m(1)] by simp
  show cur: "thr_current s' = Thr a" using f'(1) assms(2) by simp
  have null: "sched_parked sy pt s'"
    using sched_parked_same [OF m(2)] by (simp add: s'_def same_stack_other)
  have len: "length (kstack (thrqueue s' ! j)) = KSTACKSIZE" if "j < THRQUESIZE" for j
    using thr_okD(3) [OF m(1) that] assms(5) that thr_okD(1) [OF m(1)]
    by (cases "j = a") (simp_all add: s'_def upd_thr_def)
  have "parked (Thr j) s'" if "j < THRQUESIZE" "j \<noteq> a" "runnable (thrqueue s' ! j)" for j
    using same_stackD(1) [OF same [OF that(2)] m(8) [OF that(1,2)]] that(3) st [OF that(1)] by (simp add: runnable_def)
  then show "machine_ok sy pt c' s'"
    unfolding machine_ok_def
    using thr_ok_forget [OF f m(1) len] null m(3,4,5) f'(2) cur assms(3,4) by auto
qed

text \<open>The effect of one step: the invariant, the step of the table, and what becomes of another thread.\<close>

lemma forget_kstep:
  assumes "forget t = forget s"
  shows "forget (thrYeild t) = forget (thrYeild s)" "forget (thrExit t) = forget (thrExit s)"
    "forget (thrCondSignal w t) = forget (thrCondSignal w s)" "forget (thrCondBroadcast w t) = forget (thrCondBroadcast w s)"
    "forget (snd (thrSemUp w sem t)) = forget (snd (thrSemUp w sem s))"
    "forget (snd (thrCreate sy f x t)) = forget (snd (thrCreate sy f x s))"
    "thrKill i s = Some s' \<Longrightarrow> \<exists>t'. thrKill i t = Some t' \<and> forget t' = forget s'"
proof -
  show "forget (snd (thrCreate sy f x t)) = forget (snd (thrCreate sy f x s))"
    using forget_create [of sy f x t] forget_create [of sy f x s] assms by simp
  have "map_option forget (thrKill i t) = map_option forget (thrKill i s)"
    by (simp add: forget_calls assms)
  then show "thrKill i s = Some s' \<Longrightarrow> \<exists>t'. thrKill i t = Some t' \<and> forget t' = forget s'"
    by (cases "thrKill i t") simp_all
qed (simp_all add: forget_calls assms)

lemma mstep_switch:
  assumes "mstep sy pt (c, s) (c', s')" "machine_ok sy pt c s" "thr_current s = Thr a"
  obtains (compute) bs where "s' = upd_thr (Thr a) (\<lambda>t. t\<lparr>kstack := bs\<rparr>) s" "fst (esp c') = Thr a" "snd (esp c') \<le> KSTACKSIZE"
      "length bs = KSTACKSIZE"
  | (call) "c' = c" "quiet s s'" "\<And>t. forget t = forget s \<Longrightarrow> \<exists>t'. kstep sy t t' \<and> forget t' = forget s'"
  | (switch) leave ra where "leave \<in> {yield_leave, exit_leave}" "switched sy pt a (c\<lparr>eip := ra\<rparr>) s (leave s) c' s'"
      "\<And>t. forget t = forget s \<Longrightarrow> \<exists>t'. kstep sy t t' \<and> forget t' = forget (thrSched_step (leave s))"
proof -
  note ok = machine_okD(1) [OF assms(2,3)]
  have ex: "thrExit s = thrSched_step (exit_leave s)" by (simp add: thrExit_def exit_leave_def)
  have sw: "switched sy pt a (c\<lparr>eip := ra\<rparr>) s (leave s) c' s'"
    if "20 \<le> snd (esp c)" "leave \<in> {yield_leave, exit_leave}" "switch_out sy pt ra leave c s = Some (c', s')" for leave ra
    using leave_switches [OF assms(2,3) that(1,2), of ra] that(3) by simp
  from assms(1) show ?thesis
  proof (cases rule: mstep_split)
    case (compute b bs)
    then show ?thesis using that(1) assms(3) by simp
  next
    case (yield ra)
    show ?thesis
    proof (rule that(3))
      show "switched sy pt a (c\<lparr>eip := ra\<rparr>) s (yield_leave s) c' s'"
        using yield by (intro sw) (simp_all add: yield_switch_def)
      show "\<exists>t'. kstep sy t t' \<and> forget t' = forget (thrSched_step (yield_leave s))" if "forget t = forget s" for t
        using forget_kstep(1) [OF that] kstep.yield by (auto simp: thrYeild_def)
    qed simp
  next
    case (exit ra)
    show ?thesis
    proof (rule that(3))
      show "switched sy pt a (c\<lparr>eip := ra\<rparr>) s (exit_leave s) c' s'"
        using exit by (intro sw) (simp_all add: exit_switch_def)
      show "\<exists>t'. kstep sy t t' \<and> forget t' = forget (thrSched_step (exit_leave s))" if "forget t = forget s" for t
        using forget_kstep(2) [OF that] kstep.exit ex by auto
    qed simp
  next
    case (kill i)
    then show ?thesis using that(2) quiet_calls(4) [OF ok] forget_kstep(7) kstep.kill by blast
  next
    case (create f x)
    then show ?thesis using that(2) quiet_create [OF ok, of sy f x] forget_kstep(6) kstep.create by metis
  next
    case (signal w)
    then show ?thesis using that(2) quiet_calls(1) [OF ok, of w] forget_kstep(3) kstep.signal by metis
  next
    case (broadcast w)
    then show ?thesis using that(2) quiet_calls(2) [OF ok, of w] forget_kstep(4) kstep.broadcast by metis
  next
    case (sem_up w sem)
    then show ?thesis using that(2) quiet_calls(3) [OF ok, of w sem] forget_kstep(5) kstep.sem_up by metis
  qed
qed

lemma mstep_refines:
  assumes "mstep sy pt (c, s) (c', s')" "machine_ok sy pt c s" "forget t = forget s"
  shows "machine_ok sy pt c' s' \<and> (\<exists>t'. (kstep sy)\<^sup>*\<^sup>* t t' \<and> forget t' = forget s')"
proof -
  obtain a where a: "thr_current s = Thr a" using assms(2) by (auto simp: machine_ok_def)
  show ?thesis
  proof (cases rule: mstep_switch [OF assms(1,2) a, case_names compute call switch])
    case (compute bs)
    then show ?thesis using compute_ok(1,2) [OF assms(2) a compute(2-4)] assms(3) by auto
  next
    case call
    then show ?thesis using quiet_ok [OF assms(2)] assms(3) r_into_rtranclp [of "kstep sy"] by metis
  next
    case (switch leave ra)
    from switch(3) [OF assms(3)] obtain t' where "kstep sy t t'" "forget t' = forget (thrSched_step (leave s))" by blast
    with switch(2) show ?thesis by (auto simp: switched_def)
  qed
qed

lemma switched_status:
  assumes "switched sy pt a c s u c' s'" "thr_ok u" "j < THRQUESIZE" "status (thrqueue u ! j) \<notin> {THR_UNUSED, THR_STOP}"
  shows "status (thrqueue s' ! j) \<notin> {THR_UNUSED, THR_STOP}"
proof -
  have "keeps (thrqueue u ! j) (thrqueue (thrSched_step u) ! j)"
    using keeps_dispatch [of u] thr_okD(1) [OF assms(2)] assms(3) by (auto simp: list_all2_conv_all_nth)
  moreover have "status (thrqueue s' ! j) = status (thrqueue (thrSched_step u) ! j)"
    using assms(1,3) forgetD(4) [of s' "thrSched_step u" j] thr_okD(1) [OF thr_ok_keeps [OF assms(2) keeps_dispatch]]
    by (simp add: switched_def)
  ultimately show ?thesis using assms(4) by (simp add: keeps_def)
qed

text \<open>What a step of another thread does to thread \<open>a\<close>.\<close>

lemma mstep_other:
  assumes "mstep sy pt (c, s) (c', s')" "machine_ok sy pt c s" "thr_current s \<noteq> Thr a" "a < THRQUESIZE"
    and "status (thrqueue s ! a) \<notin> {THR_UNUSED, THR_STOP}" "parked (Thr a) s"
  shows "machine_ok sy pt c' s' \<and>
    (if thr_current s' = Thr a then c' = context_of (Thr a) s
     else status (thrqueue s' ! a) \<notin> {THR_UNUSED, THR_STOP} \<and> same_stack (Thr a) s s')"
proof -
  obtain b where b: "thr_current s = Thr b" using assms(2) by (auto simp: machine_ok_def)
  then have ba: "a \<noteq> b" using assms(3) by simp
  show ?thesis
  proof (cases rule: mstep_switch [OF assms(1,2) b, case_names compute call switch])
    case (compute bs)
    note ok = compute_ok [OF assms(2) b compute(2-4), folded compute(1)]
    show ?thesis using ok(1) ok(3) [OF ba] ok(4) [OF assms(4)] ok(5) ba assms(5) by simp
  next
    case call
    then show ?thesis
      using quiet_ok [OF assms(2)] quiet_stack [OF _ assms(4,5)] b ba by (simp add: quiet_def)
  next
    case (switch leave ra)
    note lv = leave_facts [OF switch(1)]
    have "status (thrqueue s' ! a) \<notin> {THR_UNUSED, THR_STOP}"
      using switched_status [OF switch(2) lv(5) [OF machine_okD(1) [OF assms(2) b]] assms(4)] lv(6) [OF b ba] assms(5)
      by simp
    then show ?thesis using switch(2) ba by (auto simp: switched_def)
  qed
qed

text \<open>Runs in which thread \<open>a\<close> does not have the processor.\<close>

definition away :: "nat \<Rightarrow> code_syms \<Rightarrow> points \<Rightarrow> cpu \<times> 'a thr_scheme \<Rightarrow> cpu \<times> 'a thr_scheme \<Rightarrow> bool" where
  "away a sy pt x y \<longleftrightarrow> mstep sy pt x y \<and> thr_current (snd y) \<noteq> Thr a"

lemma away_keeps:
  assumes "(away a sy pt)\<^sup>*\<^sup>* x y" "machine_ok sy pt (fst x) (snd x)" "thr_current (snd x) \<noteq> Thr a" "a < THRQUESIZE"
    and "status (thrqueue (snd x) ! a) \<notin> {THR_UNUSED, THR_STOP}" "parked (Thr a) (snd x)"
  shows "machine_ok sy pt (fst y) (snd y) \<and> thr_current (snd y) \<noteq> Thr a \<and>
    status (thrqueue (snd y) ! a) \<notin> {THR_UNUSED, THR_STOP} \<and> same_stack (Thr a) (snd x) (snd y)"
  using assms(1)
proof (induction rule: rtranclp_induct)
  case (step y z)
  then have "parked (Thr a) (snd y)" using same_stackD(1) [OF _ assms(6)] by blast
  with step mstep_other [of sy pt "fst y" "snd y" "fst z" "snd z" a] assms(4) same_stack_trans
  show ?case by (auto simp: away_def)
qed (use assms in auto)

section \<open>Properties\<close>

text \<open>
  C7. Every run of the machine is a run of the thread system that forgets the stacks: the invariant is kept, the
  tables agree at every moment, and a thread with room for a frame can always yield.
\<close>

theorem machine_refines_steps:
  assumes "(mstep sy pt)\<^sup>*\<^sup>* (c, s) (c', s')" "machine_ok sy pt c s"
  shows "machine_ok sy pt c' s' \<and> (\<exists>t. (kstep sy)\<^sup>*\<^sup>* s t \<and> forget t = forget s') \<and>
    (20 \<le> snd (esp c') \<longrightarrow> (\<exists>x. yield_switch sy pt ra c' s' = Some x))"
proof -
  have run: "machine_ok sy pt c' s' \<and> (\<exists>t. (kstep sy)\<^sup>*\<^sup>* s t \<and> forget t = forget s')"
    using assms(1)
  proof (induction "(c', s')" arbitrary: c' s' rule: rtranclp_induct)
    case (step y)
    obtain c1 s1 where y: "y = (c1, s1)" by (cases y)
    from step(3) [OF y] obtain t where t: "machine_ok sy pt c1 s1" "(kstep sy)\<^sup>*\<^sup>* s t" "forget t = forget s1" by blast
    from mstep_refines [OF _ t(1,3)] step(2) y t(2) show ?case by (meson rtranclp_trans)
  qed (use assms(2) in auto)
  moreover have "\<exists>x. yield_switch sy pt ra c' s' = Some x" if "20 \<le> snd (esp c')"
  proof -
    obtain a where "thr_current s' = Thr a" using run by (auto simp: machine_ok_def)
    from leave_switches [OF _ this that, of sy pt yield_leave ra] run show ?thesis by (auto simp: yield_switch_def)
  qed
  ultimately show ?thesis by blast
qed

text \<open>
  C9. A thread that yields gets the processor back with the registers it yielded with, behind its call, whatever the
  other threads have done in the meantime.
\<close>

theorem thread_resumes:
  assumes "machine_ok sy pt c s" "thr_current s = Thr a" "20 \<le> snd (esp c)"
    and "yield_switch sy pt ra c s = Some (c1, s1)" "thr_current s1 \<noteq> Thr a"
    and "(away a sy pt)\<^sup>*\<^sup>* (c1, s1) (c2, s2)" "mstep sy pt (c2, s2) (c3, s3)" "thr_current s3 = Thr a"
  shows "c3 = c\<lparr>eip := ra\<rparr>"
proof -
  note m = machine_okD [OF assms(1,2)]
  have sw: "switched sy pt a (c\<lparr>eip := ra\<rparr>) s (yield_leave s) c1 s1"
    using leave_switches [OF assms(1-3), of yield_leave ra] assms(4) by (auto simp: yield_switch_def)
  obtain b where b: "thr_current s1 = Thr b" "b \<noteq> a" using sw assms(5) by (auto simp: switched_def)
  have ok: "thr_ok (yield_leave s)" using leave_facts(5) [of yield_leave s] m(1) by simp
  have "status (thrqueue (yield_leave s) ! a) = THR_READY"
    using assms(2) m(4) thr_okD(1) [OF m(1)] by (simp add: yield_leave_def Let_def upd_thr_def)
  then have "status (thrqueue s1 ! a) \<notin> {THR_UNUSED, THR_STOP}"
    using switched_status [OF sw ok m(4)] by simp
  with away_keeps [OF assms(6)] sw assms(5) m(4)
  have k: "machine_ok sy pt c2 s2" "thr_current s2 \<noteq> Thr a" "status (thrqueue s2 ! a) \<notin> {THR_UNUSED, THR_STOP}"
    "same_stack (Thr a) s1 s2" "parked (Thr a) s1" "context_of (Thr a) s1 = c\<lparr>eip := ra\<rparr>"
    by (auto simp: switched_def)
  note s2 = same_stackD [OF k(4,5)]
  from mstep_other [OF assms(7) k(1,2) m(4) k(3) s2(1)] assms(8) s2(2) k(6) show ?thesis by simp
qed

lemma thrInit_null:
  assumes "length (thrqueue s) = 256" "length (kstack (thr_null s)) = 1024"
  shows "parked ThrNull (thrInit sy s)" "ctx (thr_null (thrInit sy s)) = (ThrNull, 1004)"
    "eip (context_of ThrNull (thrInit sy s)) = sym_thrSched sy"
proof -
  define u where "u = (cli s)\<lparr>thrque_lock := spinlockInit (thrque_lock (cli s))\<rparr>"
  have u: "length (thrqueue u) = 256" "thr_null u = thr_null s" using assms(1) by (simp_all add: u_def cli_def)
  have "thr_null (fold (\<lambda>i. upd_thr (Thr i) (f i)) [0..<256] u) = thr_null s" for f
    using fold_upd_thr [of 256 u f] u by simp
  then have null: "thr_null (thrInit sy s) = (thr_null s)\<lparr>ctx := (ThrNull, 1004),
      kstack := put32 (blit (kstack (thr_null s)) 1004 (replicate 20 0)) 1020 (sym_thrSched sy)\<rparr>"
    by (simp add: thrInit_def u_def [symmetric] Let_def upd_thr_def sti_def)
  show "parked ThrNull (thrInit sy s)" "ctx (thr_null (thrInit sy s)) = (ThrNull, 1004)"
    "eip (context_of ThrNull (thrInit sy s)) = sym_thrSched sy"
    using assms(2) by (simp_all add: null parked_def context_of_def get_thr_def Let_def)
qed

text \<open>
  C23. The machine's start: after \<^verbatim>\<open>thrInit\<close> and the creation of a first thread, the scheduler's initial context enters
  \<^verbatim>\<open>thrSched\<close>, and its first turn starts the thread at \<^verbatim>\<open>thread_entry\<close> with the invariant established.
\<close>

theorem machine_starts:
  assumes "length (thrqueue s0) = 256" "\<forall>i < 256. length (kstack (thrqueue s0 ! i)) = 1024"
    and "length (kstack (thr_null s0)) = 1024"
    and "sched_frame pt \<le> 1004" "sched_call pt \<noteq> sym_thrSched sy"
    and "s = snd (thrCreate sy f x (thrInit sy s0))"
  shows "\<exists>c' s'. sched_resume sy pt (context_of ThrNull s) s = Some (c', s') \<and> machine_ok sy pt c' s' \<and>
    thr_current s' = Thr 0 \<and> eip c' = sym_thread_entry sy \<and> esp c' = (Thr 0, 932)"
proof -
  let ?i = "thrInit sy s0"
  note null = thrInit_null [OF assms(1,3), of sy] and table = thrInit_table [OF assms(1), of sy]
  have ok: "thr_ok ?i" using assms(2) by (auto simp: thr_ok_def table simp del: upt_Suc)
  have unused: "status (thrqueue ?i ! j) = THR_UNUSED" if "j < 256" for j using that by (simp add: table del: upt_Suc)
  then have alloc: "thrAlloc ?i = Some 0" by (simp add: thrAlloc_Some thr_okD(1) [OF ok])
  define t where "t = thread_setup sy f x 0 (thrqueue ?i ! 0)"
  note fr = thread_setup_frame [OF thr_okD(3) [OF ok], of 0 sy f x 0, folded t_def, simplified]
  have s: "s = ?i\<lparr>thrqueue := (thrqueue ?i)[0 := t]\<rparr>"
    using alloc by (simp add: assms(6) thrCreate_def upd_thr_def Let_def t_def)
  have len: "length (thrqueue ?i) = 256" using thr_okD(1) [OF ok] .
  have oks: "thr_ok s" unfolding assms(6) by (rule thr_ok_keeps [OF ok calm_keeps [OF calm_create [OF ok]]])
  have same: "same_stack ThrNull ?i s" by (simp add: s same_stack_def get_thr_def)
  have t: "thrqueue s ! 0 = t" using len by (simp add: s)
  have run0: "runnable (thrqueue s ! j) \<Longrightarrow> j = 0" if "j < 256" for j
    using unused [OF that] that len by (cases "j = 0") (auto simp: s runnable_def)
  have p0: "parked (Thr 0) s" using fr by (simp add: parked_def get_thr_def t)
  have pick: "sched_pick s = Some 0"
  proof -
    have "prio_of (thrqueue s ! 0) = 100" using fr by (simp add: t prio_of_def)
    moreover have "prio_of (thrqueue s ! j) = 0" if "0 < j" "j < 256" for j
      using unused [OF that(2)] that by (simp add: s prio_of_def)
    ultimately have "prio_of (thrqueue s ! j) \<le> prio_of (thrqueue s ! 0)" if "j < 256" for j
      using that by (cases "j = 0") simp_all
    moreover have "length (thrqueue s) = 256" using len by (simp add: s)
    ultimately show ?thesis using \<open>prio_of (thrqueue s ! 0) = 100\<close> by (intro krn.pick_eqI) simp_all
  qed
  have "sched_parked sy pt s"
    by (rule sched_parked_same [OF _ same]) (use null assms(4) in \<open>simp add: sched_parked_def\<close>)
  then have "sched_ready sy pt s"
    using oks assms(5) pick p0 run0 by (auto simp: sched_ready_def)
  then obtain b s' where s': "sched_resume sy pt (context_of ThrNull s) s = Some (context_of (Thr b) s, s')"
      "machine_ok sy pt (context_of (Thr b) s) s'" "thr_current s' = Thr b" "forget s' = forget (thrSched_step s)"
    using scheduler_picks by blast
  have "b = 0" using s'(3) forgetD(1) [OF s'(4)] dispatch_Some [OF pick] by simp
  moreover have "eip (context_of (Thr 0) s) = sym_thread_entry sy" "esp (context_of (Thr 0) s) = (Thr 0, 932)"
    using fr by (simp_all add: context_of_def get_thr_def t Let_def)
  ultimately show ?thesis using s' by auto
qed

section \<open>Waiting on a condition\<close>

lemma valid_null [simp]: "valid ThrNull s"
  by (simp add: valid_def)

text \<open>A turn of the loop on the stack of a thread: its context is recorded as the scheduler's.\<close>

lemma sched_loop_foreign:
  assumes "esp c = (Thr a, k + 20)" "valid (Thr a) s" "k + 20 \<le> length (kstack (get_thr (Thr a) s))"
    and "thr_current (thrSched_step s) = Thr b" "ctx (get_thr (Thr b) s) = (Thr b, m)"
    and "m + 20 \<le> length (kstack (get_thr (Thr b) s))" "b \<noteq> a \<or> k + 20 \<le> m"
  obtains s' where "sched_loop pt c s = Some (context_of (Thr b) s, s')"
    "ctx (thr_null s') = (Thr a, k)" "context_of ThrNull s' = c\<lparr>eip := sched_call pt\<rparr>" "forget s' = forget (thrSched_step s)"
    "ctx (get_thr (Thr a) s') = ctx (get_thr (Thr a) s)"
    "length (kstack (get_thr (Thr a) s')) = length (kstack (get_thr (Thr a) s))"
    "\<And>i. k + 20 \<le> i \<Longrightarrow> i + 4 \<le> length (kstack (get_thr (Thr a) s)) \<Longrightarrow>
      get32 (kstack (get_thr (Thr a) s')) i = get32 (kstack (get_thr (Thr a) s)) i"
proof -
  let ?u = "thrSched_step s"
  have same: "ctx (get_thr r ?u) = ctx (get_thr r s)" "kstack (get_thr r ?u) = kstack (get_thr r s)" for r
    using same_stack_dispatch [of r s] by (simp_all add: same_stack_def)
  have va: "valid (Thr a) ?u"
    using assms(2) list_all2_lengthD [OF keeps_dispatch [of s]] by (simp add: valid_def)
  define s1 where "s1 = upd_thr (Thr a) (\<lambda>t. t\<lparr>kstack := put32 (kstack t) (k + 16) (sched_call pt)\<rparr>) ?u"
  define c1 where "c1 = c\<lparr>esp := (Thr a, k + 16)\<rparr>"
  define s' where "s' = saved ThrNull (Thr a) k c1 s1"
  have push: "push (sched_call pt) c ?u = Some (c1, s1)"
    using assms(1,3) by (simp add: push_def s1_def c1_def same add.commute)
  have v: "valid (Thr a) s1" using va by (simp add: s1_def)
  have len: "k + 16 \<le> length (kstack (get_thr (Thr a) s1))" using assms(3) va by (simp add: s1_def same)
  have cur: "thr_current s1 = Thr b" "ctx (get_thr (Thr b) s1) = (Thr b, m)"
    using assms(4,5) va by (simp_all add: s1_def upd_thr_current same) (cases "b = a"; simp add: same)
  have word: "get32 (kstack (get_thr (Thr b) s')) i = get32 (kstack (get_thr (Thr b) s)) i"
    if "m \<le> i" "i + 4 \<le> length (kstack (get_thr (Thr b) s))" for i
    using assms(3,7) that va by (cases "b = a") (simp_all add: s'_def s1_def saved_def same get32_put32_other)
  have lb: "length (kstack (get_thr (Thr b) s')) = length (kstack (get_thr (Thr b) s))"
    using assms(3) va by (cases "b = a") (simp_all add: s'_def s1_def saved_def same)
  have "ctxSwitch ThrNull (Thr b, m) c1 s1 = Some (let st = kstack (get_thr (Thr b) s') in
      c1\<lparr>esp := (Thr b, m + 20), edi := get32 st m, esi := get32 st (m + 4), ebx := get32 st (m + 8),
        ebp := get32 st (m + 12), eip := get32 st (m + 16)\<rparr>, s')"
    using ctxSwitch_result [of c1 "Thr a" k s1 m "Thr b" ThrNull, folded s'_def] v len lb assms(6)
    by (simp add: c1_def)
  moreover have "(let st = kstack (get_thr (Thr b) s') in
      c1\<lparr>esp := (Thr b, m + 20), edi := get32 st m, esi := get32 st (m + 4), ebx := get32 st (m + 8),
        ebp := get32 st (m + 12), eip := get32 st (m + 16)\<rparr>) = context_of (Thr b) s"
    using assms(5,6) by (cases c1) (simp add: word context_of_def Let_def)
  ultimately have run: "sched_loop pt c s = Some (context_of (Thr b) s, s')"
    by (simp add: sched_loop_def push cur)
  show ?thesis
  proof (rule that [OF run])
    show "ctx (thr_null s') = (Thr a, k)" by (simp add: s'_def saved_def upd_thr_def)
    show "forget s' = forget ?u" by (simp add: s'_def s1_def forget_saved forget_stack)
    show "ctx (get_thr (Thr a) s') = ctx (get_thr (Thr a) s)"
      "length (kstack (get_thr (Thr a) s')) = length (kstack (get_thr (Thr a) s))"
      using assms(3) va by (simp_all add: s'_def s1_def saved_def same)
    show "get32 (kstack (get_thr (Thr a) s')) i = get32 (kstack (get_thr (Thr a) s)) i"
      if "k + 20 \<le> i" "i + 4 \<le> length (kstack (get_thr (Thr a) s))" for i
      using that assms(3) va by (simp add: s'_def s1_def saved_def same get32_put32_other)
    show "context_of ThrNull s' = c\<lparr>eip := sched_call pt\<rparr>"
      using assms(1,3) va
      by (cases c) (simp add: context_of_def s'_def s1_def saved_def c1_def same get32_put32_other Let_def)
  qed
qed

lemma runnable_ready: "status t = THR_READY \<Longrightarrow> runnable t"
  by (simp add: runnable_def)

text \<open>The waiting thread's slot when the scheduler is entered; the return address lies at \<open>n\<close>.\<close>

definition asleep :: "nat \<Rightarrow> u32 \<Rightarrow> u32 \<Rightarrow> nat \<Rightarrow> thr_ref \<Rightarrow> 'a thr_scheme \<Rightarrow> 'a thr_scheme" where
  "asleep a key ra n junk s =
     (upd_thr (Thr a) (\<lambda>t. t\<lparr>cv := key, status := THR_SLEEPING, kstack := put32 (kstack t) n ra\<rparr>) s)\<lparr>sched_t := junk\<rparr>"

lemma asleep_facts:
  assumes "thr_ok s" "a < THRQUESIZE" "v = asleep a key ra n junk s"
  shows "kstack (get_thr (Thr a) v) = put32 (kstack (get_thr (Thr a) s)) n ra"
    "valid (Thr a) v" "ctx (get_thr (Thr a) v) = ctx (get_thr (Thr a) s)"
    "status (thrqueue v ! a) = THR_SLEEPING" "i \<noteq> a \<Longrightarrow> thrqueue v ! i = thrqueue s ! i"
    "length (thrqueue v) = THRQUESIZE" "length (kstack (get_thr (Thr a) s)) = KSTACKSIZE" "valid (Thr a) s"
  using thr_okD(1,3) [OF assms(1)] assms(2,3) by (simp_all add: asleep_def get_thr_def valid_def upd_thr_def)

lemma wait_enters:
  assumes "thr_current s = Thr a" "esp c = (Thr a, sched_frame pt + k + 24)" "sched_frame pt + k + 24 \<le> KSTACKSIZE"
    and "thr_ok s" "a < THRQUESIZE"
  shows "wait_switch pt ra key junk c s =
    sched_loop pt (c\<lparr>esp := (Thr a, k + 20)\<rparr>) (asleep a key ra (sched_frame pt + k + 20) junk s)"
  using assms asleep_facts(7,8) [OF assms(4,5) refl]
  by (simp add: wait_switch_def getCurThread_def push_def sched_enter_def upd_thr_twice asleep_def comp_def Let_def ac_simps)

lemma wait_picks:
  assumes "machine_ok sy pt c s" "thr_current s = Thr a"
    and "j < THRQUESIZE" "j \<noteq> a" "status (thrqueue s ! j) = THR_READY" "0 < sint (counter (thrqueue s ! j))"
  obtains b q where "b \<noteq> a" "sched_pick (asleep a key ra n junk s) = Some b"
    "ctx (get_thr (Thr b) (asleep a key ra n junk s)) = (Thr b, q)"
    "q + 20 \<le> length (kstack (get_thr (Thr b) (asleep a key ra n junk s)))"
proof -
  note ok = machine_okD [OF assms(1,2)]
  let ?v = "asleep a key ra n junk s"
  note va = asleep_facts [OF ok(1,4) refl]
  obtain b where b: "sched_pick ?v = Some b"
    using sched_pick_NoneD(1) [of ?v] assms(3-6) va(5,6) by (cases "sched_pick ?v") (auto simp: prio_of_def)
  note bD = sched_pick_SomeD(1,2) [OF b]
  have "b \<noteq> a" using bD(2) va(4) by auto
  then have "parked (Thr b) s" using ok(8) [of b] bD va(5,6) by (auto intro: runnable_ready)
  then obtain q where "ctx (get_thr (Thr b) ?v) = (Thr b, q)" "q + 20 \<le> length (kstack (get_thr (Thr b) ?v))"
    using va(5) [OF \<open>b \<noteq> a\<close>] by (auto simp: parked_def get_thr_def)
  with that [OF \<open>b \<noteq> a\<close> b] show ?thesis by blast
qed

text \<open>
  C25. \<^verbatim>\<open>thrCondWait\<close> enters the scheduler by a call instead of a switch, so the waiting thread's own context
  pointer keeps the place of its last switch, and the scheduler goes on on the waiting thread's stack. When the
  thread is woken and picked again, it resumes at that old place with the registers of that time, not behind
  its wait.
\<close>

theorem wait_loses_its_place:
  assumes "machine_ok sy pt c s" "thr_current s = Thr a" "esp c = (Thr a, sched_frame pt + k + 24)"
    and "ctx (thrqueue s ! a) = (Thr a, m)" "sched_frame pt + k + 24 \<le> m" "m + 20 \<le> KSTACKSIZE"
    and "j < THRQUESIZE" "j \<noteq> a" "status (thrqueue s ! j) = THR_READY" "0 < sint (counter (thrqueue s ! j))"
  shows "\<exists>c1 s1. wait_switch pt ra key junk c s = Some (c1, s1) \<and> thr_current s1 \<noteq> Thr a \<and>
    status (thrqueue s1 ! a) = THR_SLEEPING \<and> ctx (thr_null s1) = (Thr a, k) \<and>
    (\<forall>u. same_stack (Thr a) s1 u \<and> valid (Thr a) u \<and> thr_current (thrSched_step u) = Thr a \<longrightarrow>
      (\<exists>u'. sched_loop pt (context_of ThrNull s1) u = Some (context_of (Thr a) s, u')))"
proof -
  note ok = machine_okD [OF assms(1,2)]
  define n where "n = sched_frame pt + k + 20"
  define v where "v = asleep a key ra n junk s"
  note va = asleep_facts [OF ok(1,4) v_def]
  have room: "n + 4 \<le> m" "n + 4 \<le> KSTACKSIZE" "k + 20 \<le> n" using assms(5,6) by (simp_all add: n_def)
  have enter: "wait_switch pt ra key junk c s = sched_loop pt (c\<lparr>esp := (Thr a, k + 20)\<rparr>) v"
    using wait_enters [OF assms(2,3) _ ok(1,4)] assms(5,6) by (simp add: v_def n_def)
  obtain b q where b: "b \<noteq> a" "sched_pick v = Some b" "ctx (get_thr (Thr b) v) = (Thr b, q)"
      "q + 20 \<le> length (kstack (get_thr (Thr b) v))"
    using wait_picks [OF assms(1,2,7-10)] unfolding v_def by blast
  have a0: "ctx (get_thr (Thr a) s) = (Thr a, m)" using assms(4) by (simp add: get_thr_def)
  have la: "k + 20 \<le> length (kstack (get_thr (Thr a) v))" using va(1,7) room by simp
  have cur: "thr_current (thrSched_step v) = Thr b" by (simp add: dispatch_Some [OF b(2)])
  obtain s1 where s1: "sched_loop pt (c\<lparr>esp := (Thr a, k + 20)\<rparr>) v = Some (context_of (Thr b) v, s1)"
    "ctx (thr_null s1) = (Thr a, k)" "context_of ThrNull s1 = c\<lparr>esp := (Thr a, k + 20), eip := sched_call pt\<rparr>"
    "forget s1 = forget (thrSched_step v)" "ctx (get_thr (Thr a) s1) = (Thr a, m)"
    "length (kstack (get_thr (Thr a) s1)) = KSTACKSIZE"
    "\<And>i. n + 4 \<le> i \<Longrightarrow> i + 4 \<le> KSTACKSIZE \<Longrightarrow>
      get32 (kstack (get_thr (Thr a) s1)) i = get32 (kstack (get_thr (Thr a) s)) i"
    by (rule sched_loop_foreign [of "c\<lparr>esp := (Thr a, k + 20)\<rparr>" a k v b q pt, OF _ va(2) la cur b(3,4)])
      (use va(1,3,7) a0 room b(1) in \<open>simp_all add: get32_put32_other\<close>)
  have esp1: "esp (context_of ThrNull s1) = (Thr a, k + 20)" by (simp add: s1(3))
  have old: "context_of (Thr a) u = context_of (Thr a) s" if "same_stack (Thr a) s1 u" for u
    using that s1(5,7) room assms(6) a0 by (simp add: same_stack_def context_of_def Let_def)
  have again: "\<exists>u'. sched_loop pt (context_of ThrNull s1) u = Some (context_of (Thr a) s, u')"
    if "same_stack (Thr a) s1 u" "valid (Thr a) u" "thr_current (thrSched_step u) = Thr a" for u
    using sched_loop_foreign [OF esp1 that(2) _ that(3), of m pt] that(1) s1(5,6) room assms(6) old [OF that(1)]
    by (auto simp: same_stack_def)
  have "thr_current s1 = Thr b" "status (thrqueue s1 ! a) = THR_SLEEPING"
    using forgetD(1) [OF s1(4)] forgetD(4) [OF s1(4), of a] va(4,6) ok(4) b(1)
    by (simp_all add: dispatch_Some [OF b(2)])
  with enter s1(1,2) again b(1) show ?thesis by auto
qed

section \<open>Runs on concrete states\<close>

definition demo_points :: points where
  "demo_points = \<lparr>sched_call = 7, sched_frame = 40\<rparr>"

definition started :: "nat \<Rightarrow> thread" where
  "started i = thread_setup demo_syms 4096 5 i (idle_thread\<lparr>tid := of_nat i\<rparr>)"

definition demo_machine :: thr where
  "demo_machine = fresh_threads\<lparr>thrqueue := (thrqueue fresh_threads)[0 := (started 0)\<lparr>status := THR_RUNNING\<rparr>, 1 := started 1],
     thr_current := Thr 0, sched_t := Thr 0,
     thr_null := idle_thread\<lparr>ctx := (ThrNull, 900), kstack := put32 (replicate 1024 0) 916 7\<rparr>\<rparr>"

lemma started_facts:
  "status (started i) = THR_READY" "counter (started i) = 100" "tid (started i) = of_nat i" "ctx (started i) = (Thr i, 912)"
  "length (kstack (started i)) = 1024" "get32 (kstack (started i)) 928 = 48"
  using thread_setup_frame [of "idle_thread\<lparr>tid := of_nat i\<rparr>" demo_syms 4096 5 i] by (simp_all add: started_def)

lemma demo_machine_slots:
  "length (thrqueue demo_machine) = 256" "thrqueue demo_machine ! 0 = (started 0)\<lparr>status := THR_RUNNING\<rparr>"
  "thrqueue demo_machine ! 1 = started 1"
  "1 < j \<Longrightarrow> j < 256 \<Longrightarrow> thrqueue demo_machine ! j = idle_thread\<lparr>tid := of_nat j, status := THR_UNUSED\<rparr>"
  "thr_current demo_machine = Thr 0" "sched_t demo_machine = Thr 0"
  by (simp_all add: demo_machine_def fresh_threads_def del: upt_Suc)

lemma slot_cases: "P 0 \<Longrightarrow> P 1 \<Longrightarrow> (\<And>j. 1 < j \<Longrightarrow> P j) \<Longrightarrow> P (j :: nat)"
  by (metis One_nat_def less_antisym not_less_eq not_less_zero linorder_neqE_nat)

lemma demo_machine_ok: "machine_ok demo_syms demo_points demo_cpu demo_machine"
proof -
  have ok: "thr_ok demo_machine"
    unfolding thr_ok_def
  proof (intro conjI allI impI)
    show "tid (thrqueue demo_machine ! i) = of_nat i" "length (kstack (thrqueue demo_machine ! i)) = 1024" if "i < 256" for i
      using that by (induction i rule: slot_cases) (simp_all add: demo_machine_slots started_facts del: One_nat_def)
  qed (simp add: demo_machine_slots)
  have "parked (Thr j) demo_machine" if "j < 256" "j \<noteq> 0" "runnable (thrqueue demo_machine ! j)" for j
    using that by (induction j rule: slot_cases)
      (simp_all add: demo_machine_slots started_facts parked_def get_thr_def runnable_def del: One_nat_def)
  moreover have "sched_parked demo_syms demo_points demo_machine"
    by (simp add: sched_parked_def parked_def context_of_def get_thr_def demo_machine_def demo_points_def Let_def)
  ultimately show ?thesis
    using ok by (auto simp: machine_ok_def demo_machine_slots demo_cpu_def demo_points_def)
qed

lemma demo_yields:
  "thr_current (thrYeild demo_machine) = Thr 1" "thr_current (thrYeild (thrYeild demo_machine)) = Thr 0"
proof -
  note started = started_facts demo_machine_slots
  define y1 where "y1 = yield_leave demo_machine"
  have y1: "y1 = demo_machine\<lparr>thrqueue := (thrqueue demo_machine)[0 := (started 0)\<lparr>status := THR_READY, counter := 99\<rparr>]\<rparr>"
    by (simp add: y1_def yield_leave_def Let_def upd_thr_def started del: One_nat_def)
  have idle: "prio_of (thrqueue demo_machine ! j) = 0" if "1 < j" "j < 256" for j
    using that by (simp add: started prio_of_def del: One_nat_def)
  have p1: "sched_pick y1 = Some 1"
  proof (rule krn.pick_eqI)
    show "table_prio y1 ! j \<le> table_prio y1 ! 1" if "j < length (table_prio y1)" for j
      using that idle [of j] by (induction j rule: slot_cases)
        (simp_all add: y1 started prio_of_def del: One_nat_def)
    show "table_prio y1 ! j < table_prio y1 ! 1" if "j < 1" for j
      using that by (simp add: y1 started prio_of_def started [unfolded One_nat_def])
  qed (simp_all add: y1 started prio_of_def del: One_nat_def)
  have t1: "thrYeild demo_machine = y1\<lparr>thrqueue := (thrqueue y1)[1 := (started 1)\<lparr>status := THR_RUNNING\<rparr>],
      thr_current := Thr 1, sched_t := Thr 1\<rparr>"
    by (simp add: thrYeild_def y1_def [symmetric] dispatch_Some [OF p1] del: One_nat_def)
      (simp add: y1 started del: One_nat_def)
  then show "thr_current (thrYeild demo_machine) = Thr 1" by simp
  define y2 where "y2 = yield_leave (thrYeild demo_machine)"
  have y2: "thrqueue y2 = (thrqueue y1)[1 := (started 1)\<lparr>status := THR_READY, counter := 99\<rparr>]"
    by (simp add: y2_def t1 yield_leave_def Let_def upd_thr_def y1 started del: One_nat_def)
  have "sched_pick y2 = Some 0"
  proof (rule krn.pick_eqI)
    show "table_prio y2 ! j \<le> table_prio y2 ! 0" if "j < length (table_prio y2)" for j
      using that idle [of j] by (induction j rule: slot_cases)
        (simp_all add: y2 y1 started prio_of_def del: One_nat_def)
  qed (simp_all add: y2 y1 started prio_of_def del: One_nat_def)
  then show "thr_current (thrYeild (thrYeild demo_machine)) = Thr 0"
    by (simp add: thrYeild_def [of "thrYeild demo_machine"] y2_def [symmetric] dispatch_Some)
qed

lemma forget_cur: "forget s = forget t \<Longrightarrow> thr_current (thrYeild s) = thr_current (thrYeild t)"
  using forgetD(1) [of "thrYeild s" "thrYeild t"] by (simp add: forget_calls)

lemma demo_first_yield:
  obtains c1 s1 where "yield_switch demo_syms demo_points 9 demo_cpu demo_machine = Some (c1, s1)"
    "thr_current s1 = Thr 1" "esp c1 = (Thr 1, 932)" "machine_ok demo_syms demo_points c1 s1" "forget s1 = forget (thrYeild demo_machine)"
proof -
  have "20 \<le> snd (esp demo_cpu)" by (simp add: demo_cpu_def)
  from leave_switches [OF demo_machine_ok demo_machine_slots(5) this, of yield_leave 9]
  obtain c1 s1 where s: "yield_switch demo_syms demo_points 9 demo_cpu demo_machine = Some (c1, s1)"
      "switched demo_syms demo_points 0 (demo_cpu\<lparr>eip := 9\<rparr>) demo_machine (yield_leave demo_machine) c1 s1"
    by (auto simp: yield_switch_def)
  then have f: "forget s1 = forget (thrYeild demo_machine)" by (simp add: switched_def thrYeild_def)
  have cur: "thr_current s1 = Thr 1" using forgetD(1) [OF f] demo_yields(1) by simp
  have "esp (context_of (Thr 1) demo_machine) = (Thr 1, 932)"
    by (simp add: context_of_def get_thr_def demo_machine_slots started_facts Let_def del: One_nat_def)
  with s(2) cur have "esp c1 = (Thr 1, 932)" by (auto simp: switched_def)
  with that s f cur show ?thesis by (auto simp: switched_def)
qed

theorem machine_refines_steps_witness:
  "\<exists>c1 s1 x. yield_switch demo_syms demo_points 9 demo_cpu demo_machine = Some (c1, s1) \<and>
     machine_ok demo_syms demo_points c1 s1 \<and> yield_switch demo_syms demo_points 8 c1 s1 = Some x"
proof -
  obtain c1 s1 where s: "yield_switch demo_syms demo_points 9 demo_cpu demo_machine = Some (c1, s1)" "esp c1 = (Thr 1, 932)"
    using demo_first_yield by blast
  have "mstep demo_syms demo_points (demo_cpu, demo_machine) (c1, s1)"
    by (rule mstep.yield [OF _ s(1)]) (simp add: demo_cpu_def)
  from machine_refines_steps [OF r_into_rtranclp [of "mstep demo_syms demo_points", OF this] demo_machine_ok, of 8] s show ?thesis by auto
qed

theorem thread_resumes_witness:
  "\<exists>c1 s1 s3. yield_switch demo_syms demo_points 9 demo_cpu demo_machine = Some (c1, s1) \<and> thr_current s1 = Thr 1 \<and>
     yield_switch demo_syms demo_points 8 c1 s1 = Some (demo_cpu\<lparr>eip := 9\<rparr>, s3)"
proof -
  obtain c1 s1 where s: "yield_switch demo_syms demo_points 9 demo_cpu demo_machine = Some (c1, s1)"
      "thr_current s1 = Thr 1" "esp c1 = (Thr 1, 932)" "machine_ok demo_syms demo_points c1 s1"
      "forget s1 = forget (thrYeild demo_machine)"
    using demo_first_yield by blast
  have room: "20 \<le> snd (esp c1)" by (simp add: s(3))
  obtain c3 s3 where y: "yield_switch demo_syms demo_points 8 c1 s1 = Some (c3, s3)" "forget s3 = forget (thrYeild s1)"
    using leave_switches [OF s(4,2) room, of yield_leave 8] by (auto simp: yield_switch_def switched_def thrYeild_def)
  have "thr_current s3 = Thr 0"
    using forgetD(1) [OF y(2)] forget_cur [OF s(5)] demo_yields(2) by simp
  with thread_resumes [OF demo_machine_ok demo_machine_slots(5) _ s(1) _ rtranclp.rtrancl_refl mstep.yield [OF room y(1)]] s(2)
  have "c3 = demo_cpu\<lparr>eip := 9\<rparr>" by (simp add: demo_cpu_def)
  with s y show ?thesis by auto
qed

theorem machine_starts_witness:
  "\<exists>c' s'. sched_resume demo_syms demo_points (context_of ThrNull (snd (thrCreate demo_syms 4096 5 (thrInit demo_syms idle_threads))))
      (snd (thrCreate demo_syms 4096 5 (thrInit demo_syms idle_threads))) = Some (c', s') \<and> esp c' = (Thr 0, 932)"
proof -
  have "sched_frame demo_points \<le> 1004" "sched_call demo_points \<noteq> sym_thrSched demo_syms"
    "length (kstack (thr_null idle_threads)) = 1024"
    by (simp_all add: demo_points_def idle_threads_def)
  from machine_starts [OF _ _ this(3,1,2) refl, where f = 4096 and x = 5] show ?thesis by auto
qed

theorem wait_loses_its_place_witness:
  "\<exists>c1 s1. wait_switch demo_points 9 77 ThrNull (demo_cpu\<lparr>esp := (Thr 0, 164)\<rparr>) demo_machine = Some (c1, s1) \<and>
     thr_current s1 \<noteq> Thr 0 \<and> ctx (thr_null s1) = (Thr 0, 100)"
proof -
  have "machine_ok demo_syms demo_points (demo_cpu\<lparr>esp := (Thr 0, 164)\<rparr>) demo_machine"
    using demo_machine_ok by (simp add: machine_ok_def demo_machine_slots demo_cpu_def)
  moreover have "esp (demo_cpu\<lparr>esp := (Thr 0, 164)\<rparr>) = (Thr 0, sched_frame demo_points + 100 + 24)"
    by (simp add: demo_points_def)
  ultimately show ?thesis
    using wait_loses_its_place [of demo_syms demo_points "demo_cpu\<lparr>esp := (Thr 0, 164)\<rparr>" demo_machine 0 100 912 1 9 77 ThrNull]
    by (auto simp: demo_machine_slots started_facts demo_points_def simp del: One_nat_def)
qed

end
