(* ===== verification/Sem_Test.thy ===== *)
theory Sem_Test
  imports Switch
begin

text \<open>
  The bounded buffer of \<^verbatim>\<open>src/thread.c\<close> (\<^verbatim>\<open>semTest\<close>, \<^verbatim>\<open>producer\<close>, \<^verbatim>\<open>consumer\<close>): two threads over two semaphores, with
  timer interrupts at any moment. An update of a variable in memory is two steps, a load and a store, because
  the semaphores' own lock is never taken: between the two the other thread may run.
\<close>

section \<open>The threads\<close>

text \<open>The places of the two loops. A stage with a value is the one between a load and the store.\<close>

datatype p_stage =
  PTest | PTake | PTaken u32 | PPut | PNext | PNexted u32 | PPrint u32 | PGive | PGiven u32 | PWake | PExit | PDone

datatype c_stage =
  CTest | CTake | CTaken u32 | CPrev | CPreved u32 | CClear u32 | CPrint | CGive | CGiven u32 | CWake | CExit | CDone

record semtest = thr +
  s_emp :: semaphore
  s_full :: semaphore
  idx :: u32
  slot :: "u32 list"
  p_at :: p_stage
  p_i :: u32
  c_at :: c_stage
  c_i :: u32

text \<open>The waiting loop of \<^verbatim>\<open>thrSemDown\<close> and the wake-up loop of \<^verbatim>\<open>thrSemUp\<close>, on a semaphore at \<open>addr\<close>.\<close>

definition wait_on :: "u32 \<Rightarrow> 'a thr_scheme \<Rightarrow> 'a thr_scheme" where
  "wait_on addr s =
     (let s = upd_thr (getCurThread s) (\<lambda>t. t\<lparr>status := THR_SLEEPING\<rparr>) s
      in upd_thr (getCurThread s) (\<lambda>t. t\<lparr>cv := addr\<rparr>) s)"

definition wake_on :: "u32 \<Rightarrow> 'a thr_scheme \<Rightarrow> 'a thr_scheme" where
  "wake_on addr s =
     s\<lparr>thrqueue := map (\<lambda>t. if sleeps_on addr t then t\<lparr>status := THR_READY, cv := 0\<rparr> else t) (thrqueue s)\<rparr>"

text \<open>An access to \<^verbatim>\<open>slot\<close> outside the array is \<open>None\<close>.\<close>

definition put_slot :: "u32 \<Rightarrow> u32 \<Rightarrow> 'a semtest_scheme \<Rightarrow> 'a semtest_scheme option" where
  "put_slot i v s =
     (if 0 \<le> sint i \<and> sint i < int (length (slot s)) then Some (s\<lparr>slot := (slot s)[nat (sint i) := v]\<rparr>) else None)"

definition producer :: "u32 \<Rightarrow> u32 \<Rightarrow> 'a semtest_scheme \<Rightarrow> 'a semtest_scheme option" where
  "producer emp full s =
     (case p_at s of
        PTest \<Rightarrow> Some (if sint (count (s_emp s)) \<le> 0 then wait_on emp s else s\<lparr>p_at := PTake\<rparr>)
      | PTake \<Rightarrow> Some (s\<lparr>p_at := PTaken (count (s_emp s))\<rparr>)
      | PTaken v \<Rightarrow> Some (s\<lparr>s_emp := (s_emp s)\<lparr>count := v - 1\<rparr>, p_at := PPut\<rparr>)
      | PPut \<Rightarrow> map_option (p_at_update (\<lambda>_. PNext)) (put_slot (idx s) 1 s)
      | PNext \<Rightarrow> Some (s\<lparr>p_at := PNexted (idx s)\<rparr>)
      | PNexted v \<Rightarrow> Some (s\<lparr>idx := v + 1, p_at := PPrint v\<rparr>)
      | PPrint v \<Rightarrow> map_option (p_at_update (\<lambda>_. PGive)) (printf (cstr (''slot %d: full'' @ [CHR 0x0a])) [Num v] s)
      | PGive \<Rightarrow> Some (s\<lparr>p_at := PGiven (count (s_full s))\<rparr>)
      | PGiven v \<Rightarrow> Some (s\<lparr>s_full := (s_full s)\<lparr>count := v + 1\<rparr>, p_at := PWake\<rparr>)
      | PWake \<Rightarrow> Some ((wake_on full s)\<lparr>p_i := p_i s + 1, p_at := (if sint (p_i s + 1) < 100 then PTest else PExit)\<rparr>)
      | PExit \<Rightarrow> Some (thrExit (s\<lparr>p_at := PDone\<rparr>))
      | PDone \<Rightarrow> None)"

definition consumer :: "u32 \<Rightarrow> u32 \<Rightarrow> 'a semtest_scheme \<Rightarrow> 'a semtest_scheme option" where
  "consumer emp full s =
     (case c_at s of
        CTest \<Rightarrow> Some (if sint (count (s_full s)) \<le> 0 then wait_on full s else s\<lparr>c_at := CTake\<rparr>)
      | CTake \<Rightarrow> Some (s\<lparr>c_at := CTaken (count (s_full s))\<rparr>)
      | CTaken v \<Rightarrow> Some (s\<lparr>s_full := (s_full s)\<lparr>count := v - 1\<rparr>, c_at := CPrev\<rparr>)
      | CPrev \<Rightarrow> Some (s\<lparr>c_at := CPreved (idx s)\<rparr>)
      | CPreved v \<Rightarrow> Some (s\<lparr>idx := v - 1, c_at := CClear (v - 1)\<rparr>)
      | CClear v \<Rightarrow> map_option (c_at_update (\<lambda>_. CPrint)) (put_slot v 0 s)
      | CPrint \<Rightarrow> map_option (c_at_update (\<lambda>_. CGive)) (printf (cstr (''slot %d: empty'' @ [CHR 0x0a])) [Num (idx s)] s)
      | CGive \<Rightarrow> Some (s\<lparr>c_at := CGiven (count (s_emp s))\<rparr>)
      | CGiven v \<Rightarrow> Some (s\<lparr>s_emp := (s_emp s)\<lparr>count := v + 1\<rparr>, c_at := CWake\<rparr>)
      | CWake \<Rightarrow> Some ((wake_on emp s)\<lparr>c_i := c_i s + 1, c_at := (if sint (c_i s + 1) < 100 then CTest else CExit)\<rparr>)
      | CExit \<Rightarrow> Some (thrExit (s\<lparr>c_at := CDone\<rparr>))
      | CDone \<Rightarrow> None)"

text \<open>\<open>fp\<close> and \<open>fc\<close> are the addresses of the two functions; a thread starts at the beginning of its loop.\<close>

definition semTest :: "code_syms \<Rightarrow> u32 \<Rightarrow> u32 \<Rightarrow> 'a semtest_scheme \<Rightarrow> 'a semtest_scheme" where
  "semTest sy fp fc s =
     (let s = s\<lparr>idx := 0\<rparr>;
          s = s\<lparr>s_emp := thrSemInit (s_emp s) 5\<rparr>;
          s = s\<lparr>s_full := thrSemInit (s_full s) 0\<rparr>;
          s = (snd (thrCreate sy fp 0 s))\<lparr>p_at := PTest, p_i := 0\<rparr>
      in (snd (thrCreate sy fc 0 s))\<lparr>c_at := CTest, c_i := 0\<rparr>)"

text \<open>
  \<open>sem_step\<close>: the running thread goes one step, or the timer interrupts it. With \<open>gentle\<close> the timer never
  comes between a load and its store.
\<close>

definition updating :: "'a semtest_scheme \<Rightarrow> bool" where
  "updating s \<longleftrightarrow> (case p_at s of PTaken _ \<Rightarrow> True | PNexted _ \<Rightarrow> True | PGiven _ \<Rightarrow> True | _ \<Rightarrow> False) \<or>
     (case c_at s of CTaken _ \<Rightarrow> True | CPreved _ \<Rightarrow> True | CGiven _ \<Rightarrow> True | _ \<Rightarrow> False)"

inductive sem_step :: "bool \<Rightarrow> u32 \<Rightarrow> u32 \<Rightarrow> 'a semtest_scheme \<Rightarrow> 'a semtest_scheme \<Rightarrow> bool" for gentle emp full where
  produce: "thr_current s = Thr 0 \<Longrightarrow> producer emp full s = Some s' \<Longrightarrow> sem_step gentle emp full s s'"
| consume: "thr_current s = Thr 1 \<Longrightarrow> consumer emp full s = Some s' \<Longrightarrow> sem_step gentle emp full s s'"
| tick: "gentle \<longrightarrow> \<not> updating s \<Longrightarrow> sem_step gentle emp full s (thrYeild s)"

inductive_cases sem_stepE: "sem_step gentle emp full s s'"

lemmas sem_step_split [consumes 1, case_names produce consume tick] = sem_stepE

section \<open>Steps between interrupts are the operations\<close>

text \<open>A thread that is not interrupted does in three steps what \<^verbatim>\<open>thrSemDown\<close> and \<^verbatim>\<open>thrSemUp\<close> do.\<close>

lemma uninterrupted_down:
  assumes "p_at s = PTest" "0 < sint (count (s_emp s))"
  shows "do { s \<leftarrow> producer emp full s; s \<leftarrow> producer emp full s; producer emp full s } =
    do { (sem, s) \<leftarrow> thrSemDown emp (s_emp s) s; Some (s\<lparr>s_emp := sem, p_at := PPut\<rparr>) }"
  using assms by (simp add: producer_def thrSemDown.simps)

lemma uninterrupted_up:
  assumes "p_at s = PGive"
  shows "do { s \<leftarrow> producer emp full s; s \<leftarrow> producer emp full s; producer emp full s } =
    (let (sem, s) = thrSemUp full (s_full s) s
     in Some (s\<lparr>s_full := sem, p_i := p_i s + 1, p_at := (if sint (p_i s + 1) < 100 then PTest else PExit)\<rparr>))"
  using assms by (simp add: producer_def thrSemUp_def wake_on_def Let_def)

section \<open>What the other operations leave alone\<close>

definition sview :: "'a semtest_scheme \<Rightarrow> semaphore \<times> semaphore \<times> u32 \<times> u32 list \<times> p_stage \<times> u32 \<times> c_stage \<times> u32" where
  "sview s = (s_emp s, s_full s, idx s, slot s, p_at s, p_i s, c_at s, c_i s)"

lemma sviewD:
  assumes "sview s' = sview s"
  shows "s_emp s' = s_emp s" "s_full s' = s_full s" "idx s' = idx s" "slot s' = slot s" "p_at s' = p_at s"
    "p_i s' = p_i s" "c_at s' = c_at s" "c_i s' = c_i s"
  using assms by (simp_all add: sview_def)

lemma sview_upd [simp]: "sview (upd_thr r f s) = sview s" "sview (s\<lparr>thrqueue := q\<rparr>) = sview s"
  by (cases r; simp add: upd_thr_def sview_def)+

lemma sview_sched [simp]: "sview (thrSched_step s) = sview s"
proof -
  have "sview (s\<lparr>sched_t := t, thr_current := t\<rparr>) = sview s" for t by (simp add: sview_def)
  then show ?thesis by (simp add: thrSched_step_def Let_def)
qed

lemma sview_calls [simp]:
  "sview (wait_on a s) = sview s" "sview (wake_on a s) = sview s" "sview (thrYeild s) = sview s" "sview (thrExit s) = sview s"
  by (simp_all add: wait_on_def wake_on_def thrYeild_def yield_leave_def thrExit_def Let_def)

lemma current_calls [simp]: "thr_current (wait_on a s) = thr_current s" "thr_current (wake_on a s) = thr_current s"
  by (simp_all add: wait_on_def wake_on_def upd_thr_current Let_def)

lemma printf_keeps:
  assumes "printf fmt args s = Some s'"
  shows "sview s' = sview s" "thrqueue s' = thrqueue s" "thr_current s' = thr_current s" "lock (cslLock s') = 0"
proof -
  let ?c = "cli s\<lparr>cslLock := (cslLock s)\<lparr>lock := 1\<rparr>\<rparr>"
  have putc: "sview (putc c u) = sview u" "thrqueue (putc c u) = thrqueue u" "thr_current (putc c u) = thr_current u"
    for c and u :: "'a semtest_scheme"
    by (simp_all add: putc_def clear_def Let_def sview_def)
  have fold: "sview (fold putc t u) = sview u" "thrqueue (fold putc t u) = thrqueue u" "thr_current (fold putc t u) = thr_current u"
    for t and u :: "'a semtest_scheme"
    by (induction t arbitrary: u) (simp_all add: putc)
  from assms obtain t where "s' = unlock_console (fold putc t ?c)"
    by (cases "lock (cslLock s) = 0"; cases "fmt_text fmt args")
      (auto simp: printf_def lock_console_free lock_console_held printf_loop_text)
  then show "sview s' = sview s" "thrqueue s' = thrqueue s" "thr_current s' = thr_current s" "lock (cslLock s') = 0"
    using fold [of t ?c] by (simp_all add: unlock_console_def spinlockUnlock_def sti_def cli_def Let_def sview_def)
qed

section \<open>The buffer's invariant\<close>

text \<open>
  What a thread holds between its two semaphore operations, and how far \<^verbatim>\<open>idx\<close> is ahead of the full slots.
\<close>

definition p_holds :: "p_stage \<Rightarrow> int" where
  "p_holds a = (case a of PPut \<Rightarrow> 1 | PNext \<Rightarrow> 1 | PNexted _ \<Rightarrow> 1 | PPrint _ \<Rightarrow> 1 | PGive \<Rightarrow> 1 | PGiven _ \<Rightarrow> 1 | _ \<Rightarrow> 0)"

definition p_stored :: "p_stage \<Rightarrow> int" where
  "p_stored a = (case a of PPrint _ \<Rightarrow> 1 | PGive \<Rightarrow> 1 | PGiven _ \<Rightarrow> 1 | _ \<Rightarrow> 0)"

definition c_holds :: "c_stage \<Rightarrow> int" where
  "c_holds a = (case a of CPrev \<Rightarrow> 1 | CPreved _ \<Rightarrow> 1 | CClear _ \<Rightarrow> 1 | CPrint \<Rightarrow> 1 | CGive \<Rightarrow> 1 | CGiven _ \<Rightarrow> 1 | _ \<Rightarrow> 0)"

definition c_claims :: "c_stage \<Rightarrow> int" where
  "c_claims a = (case a of CPrev \<Rightarrow> 1 | CPreved _ \<Rightarrow> 1 | _ \<Rightarrow> 0)"

definition p_loaded :: "thr_ref \<Rightarrow> u32 \<Rightarrow> u32 \<Rightarrow> u32 \<Rightarrow> p_stage \<Rightarrow> bool" where
  "p_loaded r e f x a =
     (case a of PTake \<Rightarrow> 0 < sint e | PTaken v \<Rightarrow> v = e \<and> 0 < sint e \<and> r = Thr 0
      | PNexted v \<Rightarrow> v = x \<and> r = Thr 0 | PGiven v \<Rightarrow> v = f \<and> r = Thr 0 | _ \<Rightarrow> True)"

definition c_loaded :: "thr_ref \<Rightarrow> u32 \<Rightarrow> u32 \<Rightarrow> u32 \<Rightarrow> c_stage \<Rightarrow> bool" where
  "c_loaded r e f x a =
     (case a of CTake \<Rightarrow> 0 < sint f | CTaken v \<Rightarrow> v = f \<and> 0 < sint f \<and> r = Thr 1
      | CPreved v \<Rightarrow> v = x \<and> r = Thr 1 | CClear v \<Rightarrow> 0 \<le> sint v \<and> sint v < 5 | CGiven v \<Rightarrow> v = e \<and> r = Thr 1 | _ \<Rightarrow> True)"

text \<open>The part of the state the buffer is about, and what a step of either thread does to it.\<close>

type_synonym buffer = "thr_ref \<times> u32 \<times> u32 \<times> u32 \<times> p_stage \<times> c_stage"

definition buffer_of :: "'a semtest_scheme \<Rightarrow> buffer" where
  "buffer_of s = (thr_current s, count (s_emp s), count (s_full s), idx s, p_at s, c_at s)"

definition p_move :: "bool \<Rightarrow> buffer \<Rightarrow> buffer" where
  "p_move go w =
     (case w of (r, e, f, x, a, c) \<Rightarrow>
        (case a of
           PTest \<Rightarrow> (r, e, f, x, if sint e \<le> 0 then PTest else PTake, c)
         | PTake \<Rightarrow> (r, e, f, x, PTaken e, c)
         | PTaken v \<Rightarrow> (r, v - 1, f, x, PPut, c)
         | PPut \<Rightarrow> (r, e, f, x, PNext, c)
         | PNext \<Rightarrow> (r, e, f, x, PNexted x, c)
         | PNexted v \<Rightarrow> (r, e, f, v + 1, PPrint v, c)
         | PPrint v \<Rightarrow> (r, e, f, x, PGive, c)
         | PGive \<Rightarrow> (r, e, f, x, PGiven f, c)
         | PGiven v \<Rightarrow> (r, e, v + 1, x, PWake, c)
         | PWake \<Rightarrow> (r, e, f, x, if go then PTest else PExit, c)
         | _ \<Rightarrow> (r, e, f, x, PDone, c)))"

definition c_move :: "bool \<Rightarrow> buffer \<Rightarrow> buffer" where
  "c_move go w =
     (case w of (r, e, f, x, a, c) \<Rightarrow>
        (case c of
           CTest \<Rightarrow> (r, e, f, x, a, if sint f \<le> 0 then CTest else CTake)
         | CTake \<Rightarrow> (r, e, f, x, a, CTaken f)
         | CTaken v \<Rightarrow> (r, e, v - 1, x, a, CPrev)
         | CPrev \<Rightarrow> (r, e, f, x, a, CPreved x)
         | CPreved v \<Rightarrow> (r, e, f, v - 1, a, CClear (v - 1))
         | CClear v \<Rightarrow> (r, e, f, x, a, CPrint)
         | CPrint \<Rightarrow> (r, e, f, x, a, CGive)
         | CGive \<Rightarrow> (r, e, f, x, a, CGiven e)
         | CGiven v \<Rightarrow> (r, v + 1, f, x, a, CWake)
         | CWake \<Rightarrow> (r, e, f, x, a, if go then CTest else CExit)
         | _ \<Rightarrow> (r, e, f, x, a, CDone)))"

lemma put_slot_keeps:
  "put_slot i v s = Some s' \<Longrightarrow> buffer_of s' = buffer_of s \<and> length (slot s') = length (slot s)"
  by (auto simp: put_slot_def buffer_of_def split: if_splits)

lemmas view_calls = sviewD [OF sview_calls(1)] sviewD [OF sview_calls(2)]

lemma producer_moves:
  assumes "producer emp full s = Some s'" "p_at s \<noteq> PExit"
  shows "buffer_of s' = p_move (sint (p_i s + 1) < 100) (buffer_of s) \<and> length (slot s') = length (slot s)"
proof (cases "p_at s")
  case PPut
  with assms show ?thesis by (auto simp: producer_def p_move_def buffer_of_def dest!: put_slot_keeps)
next
  case (PPrint v)
  with assms obtain u where u: "printf (cstr (''slot %d: full'' @ [CHR 0x0a])) [Num v] s = Some u" "s' = u\<lparr>p_at := PGive\<rparr>"
    by (auto simp: producer_def)
  with PPrint sviewD [OF printf_keeps(1) [OF u(1)]] printf_keeps(3) [OF u(1)] show ?thesis
    by (simp add: p_move_def buffer_of_def)
next
  case PTest
  with assms show ?thesis by (auto simp: producer_def p_move_def buffer_of_def view_calls)
next
  case PWake
  with assms show ?thesis by (auto simp: producer_def p_move_def buffer_of_def view_calls)
qed (use assms in \<open>auto simp: producer_def p_move_def buffer_of_def\<close>)

lemma consumer_moves:
  assumes "consumer emp full s = Some s'" "c_at s \<noteq> CExit"
  shows "buffer_of s' = c_move (sint (c_i s + 1) < 100) (buffer_of s) \<and> length (slot s') = length (slot s)"
proof (cases "c_at s")
  case (CClear v)
  with assms show ?thesis by (auto simp: consumer_def c_move_def buffer_of_def dest!: put_slot_keeps)
next
  case CPrint
  with assms obtain u where u: "printf (cstr (''slot %d: empty'' @ [CHR 0x0a])) [Num (idx s)] s = Some u" "s' = u\<lparr>c_at := CGive\<rparr>"
    by (auto simp: consumer_def)
  with CPrint sviewD [OF printf_keeps(1) [OF u(1)]] printf_keeps(3) [OF u(1)] show ?thesis
    by (simp add: c_move_def buffer_of_def)
next
  case CTest
  with assms show ?thesis by (auto simp: consumer_def c_move_def buffer_of_def view_calls)
next
  case CWake
  with assms show ?thesis by (auto simp: consumer_def c_move_def buffer_of_def view_calls)
qed (use assms in \<open>auto simp: consumer_def c_move_def buffer_of_def\<close>)

definition buffer_ok :: "buffer \<Rightarrow> bool" where
  "buffer_ok w \<longleftrightarrow> (case w of (r, e, f, x, a, c) \<Rightarrow>
     0 \<le> sint e \<and> 0 \<le> sint f \<and> sint e + sint f + p_holds a + c_holds c = 5 \<and>
     sint x = sint f + p_stored a + c_claims c \<and> p_loaded r e f x a \<and> c_loaded r e f x c)"

lemmas stage_defs = p_holds_def p_stored_def c_holds_def c_claims_def p_loaded_def c_loaded_def

lemma sint_inc: "0 \<le> sint (x :: u32) \<Longrightarrow> sint x < 9 \<Longrightarrow> sint (x + 1) = sint x + 1"
  by (auto simp: sint_word_ariths intro!: signed_take_bit_int_eq_self)

lemma c_bounds: "0 \<le> c_holds c" "c_holds c \<le> 1" "0 \<le> c_claims c" "c_claims c \<le> c_holds c"
  by (simp_all add: c_holds_def c_claims_def split: c_stage.split)

lemma p_bounds: "0 \<le> p_holds a" "p_holds a \<le> 1" "0 \<le> p_stored a" "p_stored a \<le> p_holds a"
  by (simp_all add: p_holds_def p_stored_def split: p_stage.split)

text \<open>The other thread's loads are not spoilt by a move that is not between its load and its store.\<close>

lemma c_loaded_step: "c_loaded (Thr 0) e f x c \<Longrightarrow> 0 < sint f \<longrightarrow> 0 < sint f' \<Longrightarrow> c_loaded (Thr 0) e' f' x' c"
  by (auto simp: c_loaded_def split: c_stage.splits)

lemma p_loaded_step: "p_loaded (Thr 1) e f x a \<Longrightarrow> 0 < sint e \<longrightarrow> 0 < sint e' \<Longrightarrow> p_loaded (Thr 1) e' f' x' a"
  by (auto simp: p_loaded_def split: p_stage.splits)

lemma p_move_ok:
  assumes "buffer_ok (Thr 0, e, f, x, a, c)"
  shows "buffer_ok (p_move go (Thr 0, e, f, x, a, c))"
  using assms c_bounds [of c] c_loaded_step [of e f x c]
  by (cases a) (auto simp: buffer_ok_def p_move_def p_holds_def p_stored_def p_loaded_def sint_inc sint_dec)

lemma c_move_ok:
  assumes "buffer_ok (Thr 1, e, f, x, a, c)"
  shows "buffer_ok (c_move go (Thr 1, e, f, x, a, c))"
  using assms p_bounds [of a] p_loaded_step [of e f x a]
  by (cases c) (auto simp: buffer_ok_def c_move_def c_holds_def c_claims_def c_loaded_def sint_inc sint_dec)

section \<open>Without interrupts inside an update\<close>

lemma buffer_ok_idle:
  assumes "buffer_ok (buffer_of s)" "sview s' = sview s" "\<not> updating s"
  shows "buffer_ok (buffer_of s')"
  using assms(1,3) unfolding buffer_of_def sviewD [OF assms(2)]
  by (auto simp: buffer_ok_def updating_def p_loaded_def c_loaded_def split: p_stage.splits c_stage.splits)

lemma sem_step_ok:
  assumes "sem_step True emp full s s'" "buffer_ok (buffer_of s)"
  shows "buffer_ok (buffer_of s')"
  using assms(1)
proof (cases rule: sem_step_split)
  case produce
  show ?thesis
  proof (cases "p_at s = PExit")
    case True
    then have "s' = thrExit (s\<lparr>p_at := PDone\<rparr>)" using produce(2) by (simp add: producer_def)
    then have "sview s' = sview (s\<lparr>p_at := PDone\<rparr>)" by simp
    moreover have "buffer_ok (buffer_of (s\<lparr>p_at := PDone\<rparr>))" "\<not> updating (s\<lparr>p_at := PDone\<rparr>)"
      using assms(2) produce(1) True
      by (auto simp: buffer_of_def buffer_ok_def stage_defs updating_def split: c_stage.splits)
    ultimately show ?thesis using buffer_ok_idle by blast
  next
    case False
    with producer_moves [OF produce(2)] assms(2) produce(1) p_move_ok show ?thesis by (simp add: buffer_of_def)
  qed
next
  case consume
  show ?thesis
  proof (cases "c_at s = CExit")
    case True
    then have "s' = thrExit (s\<lparr>c_at := CDone\<rparr>)" using consume(2) by (simp add: consumer_def)
    then have "sview s' = sview (s\<lparr>c_at := CDone\<rparr>)" by simp
    moreover have "buffer_ok (buffer_of (s\<lparr>c_at := CDone\<rparr>))" "\<not> updating (s\<lparr>c_at := CDone\<rparr>)"
      using assms(2) consume(1) True
      by (auto simp: buffer_of_def buffer_ok_def stage_defs updating_def split: p_stage.splits)
    ultimately show ?thesis using buffer_ok_idle by blast
  next
    case False
    with consumer_moves [OF consume(2)] assms(2) consume(1) c_move_ok show ?thesis by (simp add: buffer_of_def)
  qed
next
  case tick
  then show ?thesis using buffer_ok_idle [OF assms(2), of s'] by simp
qed

lemma sem_reach_ok:
  "(sem_step True emp full)\<^sup>*\<^sup>* s s' \<Longrightarrow> buffer_ok (buffer_of s) \<Longrightarrow> buffer_ok (buffer_of s')"
  by (induction rule: rtranclp_induct) (blast intro: sem_step_ok)+

lemma sview_create [simp]: "sview (snd (thrCreate sy f x s)) = sview s"
  by (simp add: thrCreate_def Let_def split: option.split)

lemma semTest_start:
  "sview (semTest sy fp fc s) = (thrSemInit (s_emp s) 5, thrSemInit (s_full s) 0, 0, slot s, PTest, 0, CTest, 0)"
proof -
  have p: "sview (u\<lparr>p_at := a, p_i := i\<rparr>) = (s_emp u, s_full u, idx u, slot u, a, i, c_at u, c_i u)"
    and c: "sview (u\<lparr>c_at := b, c_i := i\<rparr>) = (s_emp u, s_full u, idx u, slot u, p_at u, p_i u, b, i)"
    for u :: "'a semtest_scheme" and a b i by (simp_all add: sview_def)
  show ?thesis unfolding semTest_def Let_def p c
    by (simp add: sviewD [OF sview_create])
qed


section \<open>An interrupt inside an update\<close>

text \<open>\<open>live\<close>: the table is that of the two threads, who take turns at the timer, with work for \<open>n\<close> more steps.\<close>

definition live :: "nat \<Rightarrow> 'a semtest_scheme \<Rightarrow> bool" where
  "live n s \<longleftrightarrow> lock (cslLock s) = 0 \<and> length (slot s) = 5 \<and> unat (p_i s) + n < 90 \<and> unat (c_i s) + n < 90 \<and>
     length (thrqueue s) = THRQUESIZE \<and> (\<forall>j < THRQUESIZE. 1 < j \<longrightarrow> status (thrqueue s ! j) = THR_UNUSED) \<and>
     (\<exists>k. n < k \<and> k \<le> 100 \<and> counter (thrqueue s ! 0) = of_nat k \<and>
       (thr_current s = Thr 0 \<and> status (thrqueue s ! 0) = THR_RUNNING \<and> status (thrqueue s ! 1) = THR_READY \<and>
          counter (thrqueue s ! 1) = of_nat k \<or>
        thr_current s = Thr 1 \<and> status (thrqueue s ! 0) = THR_READY \<and> status (thrqueue s ! 1) = THR_RUNNING \<and>
          counter (thrqueue s ! 1) = of_nat (k + 1)))"

lemma live_keeps:
  assumes "live (Suc n) s" "thrqueue s' = thrqueue s" "thr_current s' = thr_current s" "lock (cslLock s') = 0"
    and "length (slot s') = 5" "unat (p_i s') \<le> unat (p_i s) + 1" "unat (c_i s') \<le> unat (c_i s) + 1"
  shows "live n s'"
  using assms unfolding live_def by (auto dest: Suc_lessD)

text \<open>Where a thread can go on.\<close>

definition p_goes :: "buffer \<Rightarrow> bool" where
  "p_goes w \<longleftrightarrow> (case w of (r, e, f, x, a, c) \<Rightarrow>
     (case a of PTest \<Rightarrow> 0 < sint e | PPut \<Rightarrow> 0 \<le> sint x \<and> sint x < 5 | PPrint v \<Rightarrow> v \<in> {0, 1} | PExit \<Rightarrow> False | PDone \<Rightarrow> False
      | _ \<Rightarrow> True))"

definition c_goes :: "buffer \<Rightarrow> bool" where
  "c_goes w \<longleftrightarrow> (case w of (r, e, f, x, a, c) \<Rightarrow>
     (case c of CTest \<Rightarrow> 0 < sint f | CClear v \<Rightarrow> 0 \<le> sint v \<and> sint v < 5 | CPrint \<Rightarrow> x \<in> {0, 1} | CExit \<Rightarrow> False | CDone \<Rightarrow> False
      | _ \<Rightarrow> True))"

lemma slot_text:
  "v \<in> {0, 1} \<Longrightarrow> \<exists>t. fmt_text (cstr (''slot %d: full'' @ [CHR 0x0a])) [Num v] = Some t"
  "v \<in> {0, 1} \<Longrightarrow> \<exists>t. fmt_text (cstr (''slot %d: empty'' @ [CHR 0x0a])) [Num v] = Some t"
proof -
  assume "v \<in> {0, 1}"
  then have "v \<noteq> 0x80000000" by auto
  then obtain w where "num_text v 10 = Some w" using num_text_reads_back [of v 10] by auto
  then show "\<exists>t. fmt_text (cstr (''slot %d: full'' @ [CHR 0x0a])) [Num v] = Some t"
    "\<exists>t. fmt_text (cstr (''slot %d: empty'' @ [CHR 0x0a])) [Num v] = Some t"
    by (simp_all add: cstr_def arg_text_def)
qed

lemma printf_some:
  assumes "lock (cslLock s) = 0" "fmt_text f args = Some t"
  shows "\<exists>s'. printf f args s = Some s'"
  using assms by (simp add: printf_def lock_console_free printf_loop_text)

lemma live_awake: "live n s \<Longrightarrow> wake_on addr s = s"
proof -
  assume l: "live n s"
  have "\<not> sleeps_on addr (thrqueue s ! j)" if "j < 256" for j
  proof -
    consider "j = 0" | "j = 1" | "1 < j" by arith
    then show ?thesis using l that by cases (auto simp: live_def sleeps_on_def)
  qed
  then have "map (\<lambda>t. if sleeps_on addr t then t\<lparr>status := THR_READY, cv := 0\<rparr> else t) (thrqueue s) = thrqueue s"
    using l by (intro map_idI) (auto simp: live_def in_set_conv_nth)
  then show ?thesis by (simp add: wake_on_def)
qed

lemma unat_inc: "unat (x + 1 :: u32) \<le> unat x + 1"
  by (simp add: unat_word_ariths(1))

lemma live_loop: "live (Suc n) s \<Longrightarrow> sint (p_i s + 1) < 100 \<and> sint (c_i s + 1) < 100"
proof -
  have small: "sint (x + 1) < 100" if "unat x < 90" for x :: u32
  proof -
    have "unat (x + 1) < 91" using unat_inc [of x] that by linarith
    moreover from this have "sint (x + 1) = int (unat (x + 1))" by (intro sint_small) linarith
    ultimately show ?thesis by linarith
  qed
  assume "live (Suc n) s"
  then show ?thesis using small by (simp add: live_def)
qed

lemma live_produces:
  assumes "live (Suc n) s" "thr_current s = Thr 0" "p_goes (buffer_of s)"
  shows "\<exists>s'. sem_step False emp full s s' \<and> buffer_of s' = p_move True (buffer_of s) \<and> live n s'"
proof -
  have len: "length (slot s) = 5" "lock (cslLock s) = 0" using assms(1) by (simp_all add: live_def)
  have "\<exists>s'. producer emp full s = Some s' \<and> thrqueue s' = thrqueue s \<and> lock (cslLock s') = 0 \<and>
      thr_current s' = thr_current s \<and> c_i s' = c_i s \<and> unat (p_i s') \<le> unat (p_i s) + 1"
  proof (cases "p_at s")
    case (PPrint v)
    with assms(3) have "v \<in> {0, 1}" by (simp add: p_goes_def buffer_of_def)
    then obtain u where u: "printf (cstr (''slot %d: full'' @ [CHR 0x0a])) [Num v] s = Some u"
      using slot_text(1) printf_some [OF len(2)] by blast
    note k = printf_keeps [OF u]
    show ?thesis using PPrint u k(2-4) sviewD(6,8) [OF k(1)] by (simp add: producer_def)
  next
    case PWake
    then show ?thesis using len live_awake [OF assms(1), of full] unat_inc by (simp add: producer_def)
  qed (use assms(3) len in \<open>auto simp: producer_def p_goes_def buffer_of_def put_slot_def\<close>)
  then obtain s' where s': "producer emp full s = Some s'" "thrqueue s' = thrqueue s" "lock (cslLock s') = 0"
      "thr_current s' = thr_current s" "c_i s' = c_i s" "unat (p_i s') \<le> unat (p_i s) + 1" by blast
  have "p_at s \<noteq> PExit" using assms(3) by (auto simp: p_goes_def buffer_of_def)
  from producer_moves [OF s'(1) this] live_loop [OF assms(1)] len
  have m: "buffer_of s' = p_move True (buffer_of s)" "length (slot s') = 5" by simp_all
  have "live n s'" by (rule live_keeps [OF assms(1) s'(2,4,3) m(2) s'(6)]) (simp add: s'(5))
  with m sem_step.produce [OF assms(2) s'(1)] show ?thesis by blast
qed

lemma live_consumes:
  assumes "live (Suc n) s" "thr_current s = Thr 1" "c_goes (buffer_of s)"
  shows "\<exists>s'. sem_step False emp full s s' \<and> buffer_of s' = c_move True (buffer_of s) \<and> live n s'"
proof -
  have len: "length (slot s) = 5" "lock (cslLock s) = 0" using assms(1) by (simp_all add: live_def)
  have "\<exists>s'. consumer emp full s = Some s' \<and> thrqueue s' = thrqueue s \<and> lock (cslLock s') = 0 \<and>
      thr_current s' = thr_current s \<and> p_i s' = p_i s \<and> unat (c_i s') \<le> unat (c_i s) + 1"
  proof (cases "c_at s")
    case CPrint
    with assms(3) have "idx s \<in> {0, 1}" by (simp add: c_goes_def buffer_of_def)
    then obtain u where u: "printf (cstr (''slot %d: empty'' @ [CHR 0x0a])) [Num (idx s)] s = Some u"
      using slot_text(2) printf_some [OF len(2)] by blast
    note k = printf_keeps [OF u]
    show ?thesis using CPrint u k(2-4) sviewD(6,8) [OF k(1)] by (simp add: consumer_def)
  next
    case CWake
    then show ?thesis using len live_awake [OF assms(1), of emp] unat_inc by (simp add: consumer_def)
  qed (use assms(3) len in \<open>auto simp: consumer_def c_goes_def buffer_of_def put_slot_def\<close>)
  then obtain s' where s': "consumer emp full s = Some s'" "thrqueue s' = thrqueue s" "lock (cslLock s') = 0"
      "thr_current s' = thr_current s" "p_i s' = p_i s" "unat (c_i s') \<le> unat (c_i s) + 1" by blast
  have "c_at s \<noteq> CExit" using assms(3) by (auto simp: c_goes_def buffer_of_def)
  from consumer_moves [OF s'(1) this] live_loop [OF assms(1)] len
  have m: "buffer_of s' = c_move True (buffer_of s)" "length (slot s') = 5" by simp_all
  have "live n s'" by (rule live_keeps [OF assms(1) s'(2,4,3) m(2) _ s'(6)]) (simp add: s'(5))
  with m sem_step.consume [OF assms(2) s'(1)] show ?thesis by blast
qed

fun p_path :: "nat \<Rightarrow> buffer \<Rightarrow> buffer option" where
  "p_path 0 w = Some w"
| "p_path (Suc n) w = (if p_goes w then p_path n (p_move True w) else None)"

fun c_path :: "nat \<Rightarrow> buffer \<Rightarrow> buffer option" where
  "c_path 0 w = Some w"
| "c_path (Suc n) w = (if c_goes w then c_path n (c_move True w) else None)"

lemma move_current [simp]: "fst (p_move g w) = fst w" "fst (c_move g w) = fst w"
  by (auto simp: p_move_def c_move_def split: prod.splits p_stage.splits c_stage.splits)

lemma produces_path:
  "live (m + n) s \<Longrightarrow> thr_current s = Thr 0 \<Longrightarrow> p_path m (buffer_of s) = Some w \<Longrightarrow>
   \<exists>s'. (sem_step False emp full)\<^sup>*\<^sup>* s s' \<and> buffer_of s' = w \<and> live n s'"
proof (induction m arbitrary: s)
  case (Suc m)
  then have "p_goes (buffer_of s)" "live (Suc (m + n)) s" by (simp_all split: if_splits)
  from live_produces [OF this(2) Suc.prems(2) this(1)] obtain u where
    u: "sem_step False emp full s u" "buffer_of u = p_move True (buffer_of s)" "live (m + n) u" by blast
  have "fst (buffer_of u) = Thr 0" using u(2) Suc.prems(2) by (simp add: buffer_of_def [of s])
  then have "thr_current u = Thr 0" by (simp add: buffer_of_def)
  from Suc.IH [OF u(3) this] Suc.prems(3) u(1,2) show ?case
    by (auto split: if_splits intro: converse_rtranclp_into_rtranclp)
qed auto

lemma consumes_path:
  "live (m + n) s \<Longrightarrow> thr_current s = Thr 1 \<Longrightarrow> c_path m (buffer_of s) = Some w \<Longrightarrow>
   \<exists>s'. (sem_step False emp full)\<^sup>*\<^sup>* s s' \<and> buffer_of s' = w \<and> live n s'"
proof (induction m arbitrary: s)
  case (Suc m)
  then have "c_goes (buffer_of s)" "live (Suc (m + n)) s" by (simp_all split: if_splits)
  from live_consumes [OF this(2) Suc.prems(2) this(1)] obtain u where
    u: "sem_step False emp full s u" "buffer_of u = c_move True (buffer_of s)" "live (m + n) u" by blast
  have "fst (buffer_of u) = Thr 1" using u(2) Suc.prems(2) by (simp add: buffer_of_def [of s])
  then have "thr_current u = Thr 1" by (simp add: buffer_of_def)
  from Suc.IH [OF u(3) this] Suc.prems(3) u(1,2) show ?case
    by (auto split: if_splits intro: converse_rtranclp_into_rtranclp)
qed auto

text \<open>The timer hands the processor to the other thread.\<close>

lemma table_pick:
  assumes "length (thrqueue s) = 256" "\<forall>j < 256. 1 < j \<longrightarrow> status (thrqueue s ! j) = THR_UNUSED"
    and "status (thrqueue s ! 0) = THR_READY" "status (thrqueue s ! 1) = THR_READY"
    and "counter (thrqueue s ! 0) = of_nat k" "counter (thrqueue s ! 1) = of_nat l" "k \<le> 100" "l \<le> 100" "0 < k" "0 < l"
  shows "sched_pick s = Some (if l \<le> k then 0 else 1)"
proof -
  have small: "sint (of_nat i :: u32) = int i" if "i \<le> 100" for i
    using sint_small [of "of_nat i"] that by (simp add: unat_of_nat take_bit_nat_eq_self)
  have prio: "table_prio s ! 0 = int k" "table_prio s ! 1 = int l" "\<And>j. 1 < j \<Longrightarrow> j < 256 \<Longrightarrow> table_prio s ! j = 0"
    using assms small by (simp_all add: prio_of_def)
  show ?thesis
  proof (rule krn.pick_eqI)
    show "table_prio s ! j \<le> table_prio s ! (if l \<le> k then 0 else 1)" if "j < length (table_prio s)" for j
    proof -
      consider "j = 0" | "j = 1" | "1 < j" by arith
      then show ?thesis using prio that assms(1) by cases auto
    qed
    show "table_prio s ! j < table_prio s ! (if l \<le> k then 0 else 1)" if "j < (if l \<le> k then 0 else 1)" for j
      using that prio by (simp split: if_splits)
  qed (use prio assms(1,9,10) in auto)
qed

lemma live_tick:
  assumes "live (Suc n) s"
  shows "live n (thrYeild s) \<and> thr_current (thrYeild s) = (if thr_current s = Thr 0 then Thr 1 else Thr 0)"
proof -
  let ?q = "thrqueue s"
  from assms obtain k where k: "Suc n < k" "k \<le> 100" "counter (?q ! 0) = of_nat k"
    and cur: "thr_current s = Thr 0 \<and> status (?q ! 0) = THR_RUNNING \<and> status (?q ! 1) = THR_READY \<and> counter (?q ! 1) = of_nat k \<or>
        thr_current s = Thr 1 \<and> status (?q ! 0) = THR_READY \<and> status (?q ! 1) = THR_RUNNING \<and> counter (?q ! 1) = of_nat (k + 1)"
    unfolding live_def by blast
  have len: "length ?q = 256" "\<forall>j < 256. 1 < j \<longrightarrow> status (?q ! j) = THR_UNUSED" using assms by (simp_all add: live_def)
  have dec: "of_nat k - 1 = (of_nat (k - 1) :: u32)" using k(1) by (simp add: of_nat_diff)
  from cur show ?thesis
  proof
    assume c: "thr_current s = Thr 0 \<and> status (?q ! 0) = THR_RUNNING \<and> status (?q ! 1) = THR_READY \<and> counter (?q ! 1) = of_nat k"
    have y: "yield_leave s = s\<lparr>thrqueue := ?q[0 := (?q ! 0)\<lparr>status := THR_READY, counter := of_nat (k - 1)\<rparr>]\<rparr>"
      using c len k(3) dec by (simp add: yield_leave_def upd_thr_def Let_def)
    have "sched_pick (yield_leave s) = Some 1"
      using table_pick [of "yield_leave s" "k - 1" k] c len k(1,2) by (simp add: y)
    then have t: "thrYeild s = s\<lparr>thrqueue := ?q[0 := (?q ! 0)\<lparr>status := THR_READY, counter := of_nat (k - 1)\<rparr>,
        1 := (?q ! 1)\<lparr>status := THR_RUNNING\<rparr>], thr_current := Thr 1, sched_t := Thr 1\<rparr>"
      by (simp add: thrYeild_def dispatch_Some) (simp add: y)
    have "n < k - 1" "k - 1 \<le> 100" "of_nat k = (of_nat (k - 1 + 1) :: u32)" using k(1,2) by simp_all
    then show ?thesis using assms c len unfolding t live_def
      by (intro conjI exI [of _ "k - 1"]) (simp_all del: One_nat_def)
  next
    assume c: "thr_current s = Thr 1 \<and> status (?q ! 0) = THR_READY \<and> status (?q ! 1) = THR_RUNNING \<and> counter (?q ! 1) = of_nat (k + 1)"
    have y: "yield_leave s = s\<lparr>thrqueue := ?q[1 := (?q ! 1)\<lparr>status := THR_READY, counter := of_nat k\<rparr>]\<rparr>"
      using c len by (simp add: yield_leave_def upd_thr_def Let_def)
    have "sched_pick (yield_leave s) = Some 0"
      using table_pick [of "yield_leave s" k k] c len k by (simp add: y)
    then have t: "thrYeild s = s\<lparr>thrqueue := ?q[1 := (?q ! 1)\<lparr>status := THR_READY, counter := of_nat k\<rparr>,
        0 := (?q ! 0)\<lparr>status := THR_RUNNING\<rparr>], thr_current := Thr 0, sched_t := Thr 0\<rparr>"
      by (simp add: thrYeild_def dispatch_Some) (simp add: y)
    show ?thesis using assms c len k unfolding t live_def
      by (intro conjI exI [of _ k]) (simp_all del: One_nat_def)
  qed
qed

lemma live_tick_step:
  assumes "live (Suc n) s" "buffer_of s = (r, e, f, x, a, c)"
  shows "sem_step False emp full s (thrYeild s)" "live n (thrYeild s)"
    "buffer_of (thrYeild s) = (if r = Thr 0 then Thr 1 else Thr 0, e, f, x, a, c)"
    "thr_current (thrYeild s) = (if r = Thr 0 then Thr 1 else Thr 0)"
  using live_tick [OF assms(1)] assms(2) sviewD [of "thrYeild s" s]
  by (auto simp: buffer_of_def intro: sem_step.tick)

lemma create_form:
  assumes "thr_ok s" "thrAlloc s = Some i"
  shows "\<exists>u. snd (thrCreate sy f x s) = s\<lparr>thrqueue := (thrqueue s)[i := u]\<rparr> \<and> status u = THR_READY \<and> counter u = 100"
proof -
  have "i < 256" using assms thr_okD(1) [OF assms(1)] by (simp add: thrAlloc_Some)
  note fr = thread_setup_frame(1,2) [OF thr_okD(3) [OF assms(1) this]]
  show ?thesis
    using assms(2) fr by (intro exI [of _ "thread_setup sy f x i (thrqueue s ! i)"]) (simp add: thrCreate_def upd_thr_def Let_def)
qed

lemma semTest_live:
  assumes "thr_ok s" "\<forall>i < 256. status (thrqueue s ! i) = THR_UNUSED" "lock (cslLock s) = 0" "length (slot s) = 5"
    and "thr_current s = ThrNull"
  shows "live 89 (thrYeild (semTest sy fp fc s)) \<and> buffer_of (thrYeild (semTest sy fp fc s)) = (Thr 0, 5, 0, 0, PTest, CTest)"
proof -
  define s1 where "s1 = s\<lparr>idx := 0, s_emp := thrSemInit (s_emp s) 5, s_full := thrSemInit (s_full s) 0\<rparr>"
  have s1: "thr_ok s1" "thrqueue s1 = thrqueue s" "thr_current s1 = ThrNull" "cslLock s1 = cslLock s" "slot s1 = slot s"
    using assms(1,5) by (simp_all add: s1_def thr_ok_def)
  have len: "length (thrqueue s) = 256" using thr_okD(1) [OF assms(1)] .
  have "thrAlloc s1 = Some 0" using assms(2) len by (simp add: thrAlloc_Some s1(2))
  from create_form [OF s1(1) this, of sy fp 0] obtain u where
    u: "snd (thrCreate sy fp 0 s1) = s1\<lparr>thrqueue := (thrqueue s)[0 := u]\<rparr>" "status u = THR_READY" "counter u = 100"
    by (auto simp: s1(2))
  define s2 where "s2 = s1\<lparr>thrqueue := (thrqueue s)[0 := u], p_at := PTest, p_i := 0\<rparr>"
  have "thr_ok (snd (thrCreate sy fp 0 s1))" by (rule thr_ok_keeps [OF s1(1) calm_keeps [OF calm_create [OF s1(1)]]])
  then have ok2: "thr_ok s2" unfolding u(1) s2_def by (simp add: thr_ok_def)
  have "thrAlloc s2 = Some 1"
    using assms(2) len u(2) by (simp add: thrAlloc_Some s2_def)
  from create_form [OF ok2 this, of sy fc 0] obtain w where
    w: "snd (thrCreate sy fc 0 s2) = s2\<lparr>thrqueue := (thrqueue s)[0 := u, 1 := w]\<rparr>" "status w = THR_READY" "counter w = 100"
    by (auto simp: s2_def)
  let ?t = "semTest sy fp fc s"
  have t: "?t = s2\<lparr>thrqueue := (thrqueue s)[0 := u, 1 := w], c_at := CTest, c_i := 0\<rparr>"
    unfolding semTest_def Let_def w(1) [symmetric] using u(1) by (simp add: s1_def s2_def)
  have leave: "thrqueue (yield_leave ?t) = (thrqueue s)[0 := u, 1 := w]" "thr_current (yield_leave ?t) = ThrNull"
    using s1(3) by (simp_all add: yield_leave_def t s2_def upd_thr_def Let_def)
  have pick: "sched_pick (yield_leave ?t) = Some 0"
    using table_pick [of "yield_leave ?t" 100 100] assms(2) len u w by (simp add: leave)
  have table: "thrqueue (thrYeild ?t) = (thrqueue s)[0 := u\<lparr>status := THR_RUNNING\<rparr>, 1 := w]"
    "thr_current (thrYeild ?t) = Thr 0"
    using len by (simp_all add: thrYeild_def dispatch_Some [OF pick] leave list_update_swap [of "Suc 0" 0])
  have "cslLock (yield_leave ?t) = cslLock s"
    using s1(3,4) by (simp add: yield_leave_def t s2_def upd_thr_def Let_def)
  then have lock: "lock (cslLock (thrYeild ?t)) = 0" using assms(3) by (simp add: thrYeild_def dispatch_Some [OF pick])
  note v = sviewD [OF sview_calls(3), of ?t]
  have "sview ?t = (thrSemInit (s_emp s) 5, thrSemInit (s_full s) 0, 0, slot s, PTest, 0, CTest, 0)"
    by (rule semTest_start)
  then have fields: "count (s_emp ?t) = 5" "count (s_full ?t) = 0" "idx ?t = 0" "slot ?t = slot s" "p_at ?t = PTest"
      "c_at ?t = CTest" "p_i ?t = 0" "c_i ?t = 0"
    by (simp_all add: sview_def thrSemInit_def)
  show ?thesis
  proof
    show "live 89 (thrYeild ?t)"
      using lock table len assms(2,4) u(3) w(2,3) fields v
      by (auto simp: live_def intro!: exI [of _ 100])
    show "buffer_of (thrYeild ?t) = (Thr 0, 5, 0, 0, PTest, CTest)"
      using table(2) fields v by (simp add: buffer_of_def)
  qed
qed

lemma produces_tick:
  assumes "live (m + Suc n) s" "buffer_of s = w" "fst w = Thr 0" "p_path m w = Some (Thr 0, e, f, x, a, c)"
  shows "\<exists>u. (sem_step False emp full)\<^sup>*\<^sup>* s u \<and> live n (thrYeild u) \<and> sem_step False emp full u (thrYeild u) \<and>
    buffer_of (thrYeild u) = (Thr 1, e, f, x, a, c)"
proof -
  have "thr_current s = Thr 0" using assms(2,3) by (auto simp: buffer_of_def)
  from produces_path [OF assms(1) this, unfolded assms(2), OF assms(4), of emp full] obtain u where
    u: "(sem_step False emp full)\<^sup>*\<^sup>* s u" "buffer_of u = (Thr 0, e, f, x, a, c)" "live (Suc n) u" by blast
  from live_tick_step [OF u(3,2)] u(1) show ?thesis by auto
qed

lemma consumes_tick:
  assumes "live (m + Suc n) s" "buffer_of s = w" "fst w = Thr 1" "c_path m w = Some (Thr 1, e, f, x, a, c)"
  shows "\<exists>u. (sem_step False emp full)\<^sup>*\<^sup>* s u \<and> live n (thrYeild u) \<and> sem_step False emp full u (thrYeild u) \<and>
    buffer_of (thrYeild u) = (Thr 0, e, f, x, a, c)"
proof -
  have "thr_current s = Thr 1" using assms(2,3) by (auto simp: buffer_of_def)
  from consumes_path [OF assms(1) this, unfolded assms(2), OF assms(4), of emp full] obtain u where
    u: "(sem_step False emp full)\<^sup>*\<^sup>* s u" "buffer_of u = (Thr 1, e, f, x, a, c)" "live (Suc n) u" by blast
  from live_tick_step [OF u(3,2)] u(1) show ?thesis by auto
qed

text \<open>
  C24. With interrupts at any moment the semaphores lose their count: the producer is interrupted between the load
  and the store of \<^verbatim>\<open>s_full.count\<close>, the consumer's unit is counted again, and the consumer clears
  \<^verbatim>\<open>slot[-1]\<close>.
\<close>

theorem interrupted_update_leaves_array:
  assumes "thr_ok s" "\<forall>i < 256. status (thrqueue s ! i) = THR_UNUSED" "lock (cslLock s) = 0" "length (slot s) = 5"
    and "thr_current s = ThrNull"
  shows "\<exists>t. (sem_step False emp full)\<^sup>*\<^sup>* (semTest sy fp fc s) t \<and> thr_current t = Thr 1 \<and> c_at t = CClear (- 1) \<and>
    consumer emp full t = None"
proof -
  let ?s = "thrYeild (semTest sy fp fc s)"
  have start: "sem_step False emp full (semTest sy fp fc s) ?s" by (rule sem_step.tick) simp
  have s: "live (18 + 71) ?s" "buffer_of ?s = (Thr 0, 5, 0, 0, PTest, CTest)" using semTest_live [OF assms] by simp_all
  then have c: "thr_current ?s = Thr 0" by (simp add: buffer_of_def)
  have p1: "p_path 18 (Thr 0, 5, 0, 0, PTest, CTest) = Some (Thr 0, 3, 1, 2, PGiven 1, CTest)"
    by (simp add: p_goes_def p_move_def eval_nat_numeral)
  have p2: "c_path 10 (Thr 1, 3, 1, 2, PGiven 1, CTest) = Some (Thr 1, 4, 0, 1, PGiven 1, CTest)"
    by (simp add: c_goes_def c_move_def eval_nat_numeral)
  have p3: "p_path 1 (Thr 0, 4, 0, 1, PGiven 1, CTest) = Some (Thr 0, 4, 2, 1, PWake, CTest)"
    by (simp add: p_goes_def p_move_def eval_nat_numeral)
  have p4: "c_path 15 (Thr 1, 4, 2, 1, PWake, CTest) = Some (Thr 1, 5, 0, - 1, PWake, CClear (- 1))"
    by (simp add: c_goes_def c_move_def eval_nat_numeral)
  obtain u1 where u1: "(sem_step False emp full)\<^sup>*\<^sup>* ?s u1" "live (10 + Suc 59) (thrYeild u1)" "sem_step False emp full u1 (thrYeild u1)"
      "buffer_of (thrYeild u1) = (Thr 1, 3, 1, 2, PGiven 1, CTest)"
    using produces_tick [of 18 70, OF _ s(2) _ p1] s(1) by auto
  obtain u2 where u2: "(sem_step False emp full)\<^sup>*\<^sup>* (thrYeild u1) u2" "live (1 + Suc 57) (thrYeild u2)" "sem_step False emp full u2 (thrYeild u2)"
      "buffer_of (thrYeild u2) = (Thr 0, 4, 0, 1, PGiven 1, CTest)"
    using consumes_tick [OF u1(2,4) _ p2] by auto
  obtain u3 where u3: "(sem_step False emp full)\<^sup>*\<^sup>* (thrYeild u2) u3" "live (15 + 42) (thrYeild u3)" "sem_step False emp full u3 (thrYeild u3)"
      "buffer_of (thrYeild u3) = (Thr 1, 4, 2, 1, PWake, CTest)"
    using produces_tick [OF u2(2,4) _ p3] by auto
  have "thr_current (thrYeild u3) = Thr 1" using u3(4) by (simp add: buffer_of_def)
  from consumes_path [OF u3(2) this, unfolded u3(4), OF p4, of emp full]
  obtain t where t: "(sem_step False emp full)\<^sup>*\<^sup>* (thrYeild u3) t" "buffer_of t = (Thr 1, 5, 0, - 1, PWake, CClear (- 1))" by blast
  have "(sem_step False emp full)\<^sup>*\<^sup>* (semTest sy fp fc s) t"
    using start u1(1,3) u2(1,3) u3(1,3) t(1) by (meson converse_rtranclp_into_rtranclp rtranclp_trans)
  moreover have "consumer emp full t = None" if "c_at t = CClear (- 1)" for t :: "'a semtest_scheme"
    using that by (simp add: consumer_def put_slot_def)
  ultimately show ?thesis using t(2) by (auto simp: buffer_of_def)
qed

section \<open>On a concrete state\<close>

definition demo_sem :: semtest where
  "demo_sem = thr.extend fresh_threads
     \<lparr>s_emp = \<lparr>count = 0, slk = \<lparr>lock = 0\<rparr>\<rparr>, s_full = \<lparr>count = 0, slk = \<lparr>lock = 0\<rparr>\<rparr>, idx = 9, slot = [0, 0, 0, 0, 0],
       p_at = PDone, p_i = 0, c_at = CDone, c_i = 0\<rparr>"

lemma demo_sem_facts:
  "thr_ok demo_sem" "\<forall>i < 256. status (thrqueue demo_sem ! i) = THR_UNUSED" "lock (cslLock demo_sem) = 0"
  "length (slot demo_sem) = 5" "thr_current demo_sem = ThrNull"
proof -
  have q: "thrqueue demo_sem = thrqueue fresh_threads" by (simp add: demo_sem_def thr.defs)
  show "thr_ok demo_sem" using fresh_threads_facts(1) by (simp add: thr_ok_def q)
  show "\<forall>i < 256. status (thrqueue demo_sem ! i) = THR_UNUSED"
    by (simp add: q fresh_threads_def del: upt_Suc)
qed (simp_all add: demo_sem_def thr.defs fresh_threads_def idle_threads_def)


theorem interrupted_update_leaves_array_witness:
  "\<exists>t. (sem_step False 700 800)\<^sup>*\<^sup>* (semTest demo_syms 4096 8192 demo_sem) t \<and> c_at t = CClear (- 1) \<and>
     consumer 700 800 t = None"
  using interrupted_update_leaves_array [OF demo_sem_facts] by blast

end
