(* ===== verification/Self_Tests.thy ===== *)
theory Self_Tests
  imports Inode Util
begin

text \<open>
  The test functions the repository keeps beside its components, run against the models of those components:
  \<^verbatim>\<open>strTest\<close> (\<^verbatim>\<open>src/util.c\<close>), \<^verbatim>\<open>cslTest\<close> (\<^verbatim>\<open>src/console.c\<close>), \<^verbatim>\<open>hardTest\<close> (\<^verbatim>\<open>src/ide.c\<close>), and \<^verbatim>\<open>blockCacheTest\<close>,
  \<^verbatim>\<open>superblockTest\<close>, \<^verbatim>\<open>inodeTest\<close>, \<^verbatim>\<open>dataTest\<close> (\<^verbatim>\<open>src/fs.c\<close>). What a test prints is what it tests.

  Blocks in a test's frame are the entries \<open>BLoc 3\<close> and \<open>BLoc 4\<close> of the block store; the contents of
  uninitialised locals are arguments, \<open>jk\<close> a function of the port traffic so far.
\<close>

section \<open>The tests\<close>

fun for_each :: "(nat \<Rightarrow> 's \<Rightarrow> 's option) \<Rightarrow> nat list \<Rightarrow> 's \<Rightarrow> 's option" where
  "for_each f [] s = Some s"
| "for_each f (i # is) s = do { s \<leftarrow> f i s; for_each f is s }"

abbreviation (input) nl :: string where "nl \<equiv> [CHR 0x0a]"

definition strTest :: "u8 list \<Rightarrow> 'a console_scheme \<Rightarrow> 'a console_scheme option" where
  "strTest terms s = do {
     let text1 = cstr ''/Documents'' @ replicate 29 0;
     let text2 = cstr ''/Projects'';
     text1 \<leftarrow> strcat text1 text2;
     s \<leftarrow> printf (cstr (''%s'' @ nl)) [Str text1] s;
     let text3 = cstr ''/Documents/Projects/Orcas/'';
     (n, terms) \<leftarrow> split text3 (of_char CHR ''/'') terms;
     s \<leftarrow> printf (cstr (''%d'' @ nl)) [Num (of_nat n)] s;
     for_each (\<lambda>i. printf (cstr (''%s'' @ nl)) [Str (drop (LTERM * i) terms)]) [0..<n] s }"

definition cslTest :: "'a console_scheme \<Rightarrow> 'a console_scheme option" where
  "cslTest s =
     (let text = cstr ''CONSOLE TEST''
      in for_each (\<lambda>i. printf (cstr (''%s: %d'' @ nl)) [Str text, Num (of_nat i)]) [0..<10] s)"

text \<open>\<open>b0\<close> and \<open>rb0\<close> are the contents of the two blocks before anything is assigned to them.\<close>

definition hardTest :: "device \<Rightarrow> block \<Rightarrow> block \<Rightarrow> 'a disk_scheme \<Rightarrow> 'a disk_scheme option" where
  "hardTest dev b0 rb0 s = do {
     let s = upd_blk (BLoc 3) (\<lambda>_. b0) s;
     let s = upd_blk (BLoc 4) (\<lambda>_. rb0) s;
     let s = upd_blk (BLoc 3) (\<lambda>b. b\<lparr>buf := replicate BSIZE 0\<rparr>) s;
     let str = cstr ''the design of unix operating system'';
     n \<leftarrow> strlen str;
     (bs, _) \<leftarrow> strncpy (buf (blocks s (BLoc 3))) str n;
     let s = upd_blk (BLoc 3) (\<lambda>b. b\<lparr>buf := bs\<rparr>) s;
     let s = upd_blk (BLoc 3) (\<lambda>b. b\<lparr>bdevice := 0\<rparr>) s;
     let s = upd_blk (BLoc 3) (\<lambda>b. b\<lparr>bblock := 1\<rparr>) s;
     let s = upd_blk (BLoc 3) (\<lambda>b. b\<lparr>flags := B_DIRTY\<rparr>) s;
     let (r, s) = hardWrite (BLoc 3) s;
     (if r \<noteq> 0 then msg ''[Error]: write failed'' s
      else do {
        let s = upd_blk (BLoc 4) (\<lambda>b. b\<lparr>buf := replicate BSIZE 0\<rparr>) s;
        (r, s) \<leftarrow> hardReadWait dev (BLoc 4) s;
        (if r \<noteq> 0 then msg ''[Error]: write failed'' s
         else printf (cstr (''[Hard Test] %s'' @ nl)) [Str (buf (blocks s (BLoc 4)))] s) }) }"

definition blockCacheTest :: "device \<Rightarrow> block \<Rightarrow> 'a disk_scheme \<Rightarrow> 'a disk_scheme option" where
  "blockCacheTest dev b0 s = do {
     let s = upd_blk (BLoc 3) (\<lambda>_. b0) s;
     let str = cstr ''Ernest Hermingway'';
     n \<leftarrow> strlen str;
     (bs, _) \<leftarrow> strncpy (buf (blocks s (BLoc 3))) str n;
     let s = upd_blk (BLoc 3) (\<lambda>b. b\<lparr>buf := bs\<rparr>) s;
     s \<leftarrow> printf (cstr (''[Block Write] write: %s'' @ nl)) [Str (buf (blocks s (BLoc 3)))] s;
     let s = upd_blk (BLoc 3) (\<lambda>b. b\<lparr>bdevice := 0\<rparr>) s;
     let s = upd_blk (BLoc 3) (\<lambda>b. b\<lparr>bblock := 2\<rparr>) s;
     let s = upd_blk (BLoc 3) (\<lambda>b. b\<lparr>flags := B_DIRTY\<rparr>) s;
     (r, s) \<leftarrow> blockWrite (BLoc 3) s;
     (if r \<noteq> 0 then msg ''[Error] blockCachedTest: blockWrite'' s
      else do {
        (rb, s) \<leftarrow> blockRead dev (bdevice (blocks s (BLoc 3))) (bblock (blocks s (BLoc 3))) s;
        s \<leftarrow> printf (cstr (''[Block Read] first read: %s'' @ nl)) [Str (buf (blocks s rb))] s;
        (rb, s) \<leftarrow> blockRead dev (bdevice (blocks s (BLoc 3))) (bblock (blocks s (BLoc 3))) s;
        s \<leftarrow> printf (cstr (''[Block Read] second read: %s'' @ nl)) [Str (buf (blocks s rb))] s;
        s \<leftarrow> relCachedBlock rb s;
        (tt, s) \<leftarrow> blockRead dev (bdevice (blocks s (BLoc 3))) (bblock (blocks s (BLoc 3))) s;
        printf (cstr (''[Block Read] third read: %s'' @ nl)) [Str (buf (blocks s tt))] s }) }"

definition superblockTest :: "device \<Rightarrow> superblock \<Rightarrow> superblock \<Rightarrow> 'a disk_scheme \<Rightarrow> 'a disk_scheme option" where
  "superblockTest dev ws rs s = do {
     let ws = ws\<lparr>sb_device := 0\<rparr>;
     let ws = ws\<lparr>nLogBlock := 30\<rparr>;
     let ws = ws\<lparr>nInodeBlock := 32\<rparr>;
     let ws = ws\<lparr>nDataBlock := 32\<rparr>;
     let ws = ws\<lparr>logStart := 2\<rparr>;
     let ws = ws\<lparr>inodeStart := 32\<rparr>;
     let ws = ws\<lparr>dataStart := 64\<rparr>;
     (_, s) \<leftarrow> writeSuperblock ws 0 s;
     (_, rs, s) \<leftarrow> readSuperblock dev rs 0 s;
     s \<leftarrow> printf (cstr (''[Log Start Block] %d'' @ nl)) [Num (logStart rs)] s;
     s \<leftarrow> printf (cstr (''[Inode Start Block] %d'' @ nl)) [Num (inodeStart rs)] s;
     printf (cstr (''[Data Start Block] %d'' @ nl)) [Num (dataStart rs)] s }"

definition inodeTest :: "device \<Rightarrow> (ioev list \<Rightarrow> junk) \<Rightarrow> 'a fsys_scheme \<Rightarrow> 'a fsys_scheme option" where
  "inodeTest dev jk s = do {
     (ind, s) \<leftarrow> allocInode dev (jk (iotrace s)) 0 s;
     (if ind = INull then msg ''[Error] inodeTest: allocInode'' s
      else do {
        s \<leftarrow> printf (cstr (''[Inode Test] ino: %d'' @ nl)) [Num (ino (inodes s ind))] s;
        (ind, s) \<leftarrow> allocInode dev (jk (iotrace s)) 0 s;
        (if ind = INull then msg ''[Error] inodeTest: allocInode'' s
         else printf (cstr (''[Inode Test] ino: %d'' @ nl)) [Num (ino (inodes s ind))] s) }) }"

definition dataTest :: "device \<Rightarrow> (ioev list \<Rightarrow> junk) \<Rightarrow> 'a disk_scheme \<Rightarrow> 'a disk_scheme option" where
  "dataTest dev jk s = do {
     (addr0, s) \<leftarrow> allocData dev (jk (iotrace s)) 0 s;
     s \<leftarrow> printf (cstr (''[Data Test] addr0: %d'' @ nl)) [Num addr0] s;
     (addr1, s) \<leftarrow> allocData dev (jk (iotrace s)) 0 s;
     s \<leftarrow> printf (cstr (''[Data Test] addr1: %d'' @ nl)) [Num addr1] s;
     (_, s) \<leftarrow> freeData dev (jk (iotrace s)) 0 addr0 s;
     (addr2, s) \<leftarrow> allocData dev (jk (iotrace s)) 0 s;
     s \<leftarrow> printf (cstr (''[Data Test] addr2: %d'' @ nl)) [Num addr2] s;
     for_each (\<lambda>i s. do {
         (addr, s) \<leftarrow> allocData dev (jk (iotrace s)) 0 s;
         printf (cstr (''[Data Test] addr: %d'' @ nl)) [Num addr] s }) [0..<10] s }"

section \<open>What is printed\<close>

text \<open>\<open>say\<close>: the console's part of a print; \<open>prints\<close>: the screen after a run is the one with the text printed.\<close>

definition say :: "u8 list \<Rightarrow> 'a console_scheme \<Rightarrow> 'a console_scheme" where
  "say t s = unlock_console (fold putc t (cli s\<lparr>cslLock := (cslLock s)\<lparr>lock := 1\<rparr>\<rparr>))"

definition lines :: "string list \<Rightarrow> u8 list" where
  "lines ls = concat (map (\<lambda>l. map of_char l @ [0x0a]) ls)"

definition screen :: "'a console_scheme \<Rightarrow> int \<times> int \<times> (int \<Rightarrow> u16)" where
  "screen s = (row s, col s, videoMemory s)"

definition prints :: "u8 list \<Rightarrow> 'a console_scheme \<Rightarrow> 'a console_scheme \<Rightarrow> bool" where
  "prints t s s' \<longleftrightarrow> screen s' = screen (fold putc t s) \<and> lock (cslLock s') = 0"

lemma printf_say: "lock (cslLock s) = 0 \<Longrightarrow> printf f args s = map_option (\<lambda>t. say t s) (fmt_text f args)"
  by (cases "fmt_text f args") (simp_all add: printf_def lock_console_free printf_loop_text say_def)

lemma screen_putc: "screen s = screen u \<Longrightarrow> screen (putc c s) = screen (putc c u)"
  by (simp add: screen_def putc_def clear_def Let_def)

lemma screen_fold: "screen s = screen u \<Longrightarrow> screen (fold putc t s) = screen (fold putc t u)"
proof (induction t arbitrary: s u)
  case (Cons c t)
  from Cons.IH [OF screen_putc [OF Cons.prems]] show ?case by simp
qed simp

lemma prints_say: "prints t s (say t s)"
proof -
  have "screen (say t s) = screen (fold putc t (cli s\<lparr>cslLock := (cslLock s)\<lparr>lock := 1\<rparr>\<rparr>))"
    by (simp add: say_def screen_def unlock_console_def spinlockUnlock_def sti_def Let_def)
  also have "\<dots> = screen (fold putc t s)" by (rule screen_fold) (simp add: screen_def cli_def)
  finally show ?thesis by (simp add: prints_def say_def unlock_console_def spinlockUnlock_def sti_def Let_def)
qed

lemma prints_trans: "prints t s s1 \<Longrightarrow> prints t' s1 s2 \<Longrightarrow> prints (t @ t') s s2"
  using screen_fold by (auto simp: prints_def)

lemma prints_Nil: "screen s' = screen s \<Longrightarrow> lock (cslLock s') = 0 \<Longrightarrow> prints [] s s'"
  by (simp add: prints_def)

lemma prints_lock: "prints t s s' \<Longrightarrow> lock (cslLock s') = 0"
  by (simp add: prints_def)

lemma printf_prints:
  assumes "lock (cslLock s) = 0" "fmt_text f args = Some t"
  shows "printf f args s = Some (say t s)" "prints t s (say t s)"
  using assms by (simp_all add: printf_say prints_say)

lemma lines_simps [simp]: "lines [] = []" "lines (l # ls) = map of_char l @ [0x0a] @ lines ls"
  by (simp_all add: lines_def)

lemma say_trace: "iotrace (say t s) = iotrace s"
proof -
  have "iotrace (putc c u) = iotrace u" for c and u :: "'a console_scheme" by (simp add: putc_def clear_def Let_def)
  then have "iotrace (fold putc t u) = iotrace u" for u :: "'a console_scheme" by (induction t arbitrary: u) simp_all
  then show ?thesis by (simp add: say_def unlock_console_def spinlockUnlock_def sti_def cli_def Let_def)
qed

text \<open>A loop that prints a text at each turn.\<close>

lemma for_each_prints:
  assumes "\<And>i s. i \<in> set is \<Longrightarrow> lock (cslLock s) = 0 \<Longrightarrow> \<exists>s'. f i s = Some s' \<and> prints (t i) s s'"
    and "lock (cslLock s) = 0"
  shows "\<exists>s'. for_each f is s = Some s' \<and> prints (concat (map t is)) s s'"
  using assms
proof (induction "is" arbitrary: s)
  case (Cons i "is")
  obtain s1 where s1: "f i s = Some s1" "prints (t i) s s1" using Cons.prems by fastforce
  obtain s2 where "for_each f is s1 = Some s2" "prints (concat (map t is)) s1 s2"
    using Cons.IH [OF _ prints_lock [OF s1(2)]] Cons.prems(1) by auto
  with s1 prints_trans [OF s1(2)] show ?case by auto
qed (simp add: prints_Nil)

text \<open>The decimal text of a number.\<close>

fun dec :: "nat \<Rightarrow> u8 list" where
  "dec n = (if n < 10 then [0x30 + of_nat n] else dec (n div 10) @ [0x30 + of_nat (n mod 10)])"

declare dec.simps [simp del]

lemma digit_at_dec:
  assumes "n < 10"
  shows "digit_at (int n) = Some (0x30 + of_nat n)"
proof -
  have "n = 0 \<or> n = 1 \<or> n = 2 \<or> n = 3 \<or> n = 4 \<or> n = 5 \<or> n = 6 \<or> n = 7 \<or> n = 8 \<or> n = 9"
    using assms by arith
  then show ?thesis by (elim disjE) (simp_all add: digit_at_def cstr_def)
qed

lemma printi_loop_dec:
  "0 < n \<Longrightarrow> length acc + length (dec n) \<le> 32 \<Longrightarrow> printi_loop (int n) 10 acc = Some (acc @ rev (dec n))"
proof (induction n arbitrary: acc rule: dec.induct)
  case (1 n)
  have d: "digit_at (int n smod 10) = Some (0x30 + of_nat (n mod 10))"
    using digit_at_dec [of "n mod 10"] 1(2) by (simp add: signed_modulo_int_def zmod_int)
  have q: "int n sdiv 10 = int (n div 10)" using 1(2) by (simp add: signed_divide_int_def zdiv_int)
  show ?case
  proof (cases "n < 10")
    case True
    with 1 d q show ?thesis
      by (simp add: printi_loop.simps [of "int n"] printi_loop.simps [of 0] dec.simps [of n])
  next
    case False
    with 1(3) have "dec n = dec (n div 10) @ [0x30 + of_nat (n mod 10)]" "length acc < 32"
      by (simp_all add: dec.simps [of n])
    with 1(1) [OF False, of "acc @ [0x30 + of_nat (n mod 10)]"] 1(3) False d q show ?thesis
      by (simp add: printi_loop.simps [of "int n"])
  qed
qed

lemma length_dec: "n < 10 ^ Suc k \<Longrightarrow> length (dec n) \<le> Suc k"
proof (induction k arbitrary: n)
  case (Suc k)
  then have "n div 10 < 10 ^ Suc k" by (simp add: less_mult_imp_div_less mult.commute)
  from Suc.IH [OF this] show ?case by (simp add: dec.simps [of n])
qed (simp add: dec.simps)

lemma num_text_dec:
  assumes "n < 2147483648"
  shows "num_text (of_nat n) 10 = Some (dec n)"
proof (cases "n = 0")
  case False
  have s: "sint (of_nat n :: u32) = int n" using assms sint_small [of "of_nat n"] by (simp add: unat_of_nat_u32)
  have "length (dec n) \<le> Suc 9" using assms by (intro length_dec) simp
  with False s show ?thesis
    using printi_loop_dec [of n "[]"] by (auto simp: num_text_def)
qed (simp add: num_text_def dec.simps)

section \<open>Strings and the console\<close>

lemma strTest_cat:
  "strcat (cstr ''/Documents'' @ replicate 29 0) (cstr ''/Projects'') =
     Some (map of_char ''/Documents/Projects'' @ replicate 21 0)"
proof -
  have "c_text (cstr ''/Documents'' @ replicate 29 0) = Some (map of_char ''/Documents'')"
    "c_text (cstr ''/Projects'') = Some (map of_char ''/Projects'')"
    by (simp_all add: cstr_def)
  from strcat_text [OF this] show ?thesis by (simp add: cstr_def blit_def)
qed

lemma c_text_zeros: "0 < n \<Longrightarrow> c_text (replicate n 0) = Some []"
  by (cases n) simp_all

lemma fmt_row: "c_text p = Some t \<Longrightarrow> fmt_text (cstr (''%s'' @ nl)) [Str p] = Some (t @ [0x0a])"
  by (simp add: cstr_def arg_text_def)

lemma cslTest_text:
  assumes "i < 10"
  shows "fmt_text (cstr (''%s: %d'' @ nl)) [Str (cstr ''CONSOLE TEST''), Num (of_nat i)] =
    Some (map of_char ''CONSOLE TEST: '' @ dec i @ [0x0a])"
  using assms num_text_dec [of i] by (simp add: cstr_def arg_text_def)

lemma dec_digit: "n < 10 \<Longrightarrow> dec n = [0x30 + of_nat n]"
  by (simp add: dec.simps)

text \<open>\<^verbatim>\<open>strTest\<close> prints the concatenation and the three names of its path, \<^verbatim>\<open>cslTest\<close> its ten lines.\<close>

lemma strTest_prints:
  assumes "lock (cslLock s) = 0" "length terms = 200"
  shows "\<exists>s'. strTest terms s = Some s' \<and>
    prints (lines [''/Documents/Projects'', ''3'', ''Documents'', ''Projects'', ''Orcas'']) s s'"
proof -
  let ?t1 = "map of_char ''/Documents/Projects'' @ replicate 21 0 :: u8 list"
  let ?ts = "map (map of_char) [''Documents'', ''Projects'', ''Orcas''] :: u8 list list"
  have "fmt_text (cstr (''%s'' @ nl)) [Str ?t1] = Some (map of_char ''/Documents/Projects'' @ [0x0a])"
    by (rule fmt_row) (simp add: c_text_zeros)
  from printf_prints [OF assms(1) this] obtain s1 where s1: "printf (cstr (''%s'' @ nl)) [Str ?t1] s = Some s1"
    "prints (lines [''/Documents/Projects'']) s s1" by auto
  obtain terms' where sp: "split (cstr ''/Documents/Projects/Orcas/'') (of_char CHR ''/'') terms = Some (3, terms')"
    "\<forall>i < 3. term_row terms' i = Some (?ts ! i)"
    using split_closed_tokens [of "of_char CHR ''/''" terms "[]" ?ts 1] assms(2)
    by (auto simp: clean_def cstr_def)
  have "fmt_text (cstr (''%d'' @ nl)) [Num (of_nat 3)] = Some (lines [''3''])"
    using num_text_dec [of 3] by (simp add: cstr_def arg_text_def dec.simps)
  from printf_prints [OF prints_lock [OF s1(2)] this] obtain s2 where
    s2: "printf (cstr (''%d'' @ nl)) [Num (of_nat 3)] s1 = Some s2" "prints (lines [''3'']) s1 s2" by auto
  let ?row = "\<lambda>i. printf (cstr (''%s'' @ nl)) [Str (drop (LTERM * i) terms')]"
  have row: "\<exists>u'. ?row i u = Some u' \<and> prints (?ts ! i @ [0x0a]) u u'" if "i \<in> set [0..<3]" "lock (cslLock u) = 0" for i u
  proof -
    have "c_text (drop (LTERM * i) terms') = Some (?ts ! i)" using sp(2) that(1) by (simp add: term_row_def)
    from printf_prints [OF that(2) fmt_row [OF this]] show ?thesis by blast
  qed
  obtain s3 where s3: "for_each ?row [0..<3] s2 = Some s3"
    "prints (concat (map (\<lambda>i. ?ts ! i @ [0x0a]) [0..<3])) s2 s3"
    using for_each_prints [of "[0..<3]" ?row, OF row prints_lock [OF s2(2)]] by blast
  have "concat (map (\<lambda>i. ?ts ! i @ [0x0a]) [0..<3]) = lines [''Documents'', ''Projects'', ''Orcas'']"
    by (simp add: upt_conv_Cons)
  with prints_trans [OF prints_trans [OF s1(2) s2(2)] s3(2)] s1(1) s2(1) s3(1) sp(1) show ?thesis
    by (simp add: strTest_def strTest_cat)
qed

lemma cslTest_prints:
  assumes "lock (cslLock s) = 0"
  shows "\<exists>s'. cslTest s = Some s' \<and>
    prints (concat (map (\<lambda>i. map of_char ''CONSOLE TEST: '' @ [0x30 + of_nat i, 0x0a]) [0..<10])) s s'"
  unfolding cslTest_def Let_def
  by (rule for_each_prints [OF _ assms]) (use printf_prints [OF _ cslTest_text] in \<open>fastforce simp: dec_digit\<close>)

section \<open>Data blocks\<close>

text \<open>
  \<open>still\<close>: of the blocks, only the stack's and the links of the LRU ring have changed.
\<close>

definition still :: "'a disk_scheme \<Rightarrow> 'a disk_scheme \<Rightarrow> bool" where
  "still s s' \<longleftrightarrow> disk_io s s' \<and> (\<forall>q. q \<noteq> BLoc 2 \<longrightarrow> bdevice (blocks s' q) = bdevice (blocks s q) \<and>
     bblock (blocks s' q) = bblock (blocks s q) \<and> hash_next (blocks s' q) = hash_next (blocks s q) \<and>
     buf (blocks s' q) = buf (blocks s q))"

lemma disk_io_prints: "disk_io s s' \<Longrightarrow> lock (cslLock s) = 0 \<Longrightarrow> prints [] s s'"
  by (cases s; cases s') (auto simp: disk_io_def prints_def screen_def)

lemma still_trans: "still s t \<Longrightarrow> still t u \<Longrightarrow> still s u"
  unfolding still_def using disk_io_trans by metis

lemma still_hit: "still s (cache_hit x s)"
  by (simp add: still_def disk_io_hit cache_hit_blocks)

lemma still_front: "still s s' \<Longrightarrow> at_front x d b s \<Longrightarrow> x \<noteq> BLoc 2 \<Longrightarrow> at_front x d b s'"
  by (auto simp: still_def at_front_def)

lemma still_write:
  assumes "at_front x d b s" "length (buf (blocks s x)) = 512"
  obtains s1 where "blockWrite x s = Some (0, s1)" "still s s1"
proof -
  have d: "bdevice (blocks s x) = d" "bblock (blocks s x) = b" using assms(1) by (simp_all add: at_front_def)
  define u where "u = upd_blk x (\<lambda>b. b\<lparr>buf := buf (blocks (cache_hit x s) x)\<rparr>) (cache_hit x s)"
  have l: "length (buf (blocks u x)) = 512" by (simp add: u_def upd_blk_blocks cache_hit_blocks assms(2))
  have w: "blockWrite x s = Some (hardWrite x u)"
    by (simp add: blockWrite_def d get_front [OF assms(1)] u_def Let_def)
  have "still s u"
    unfolding u_def by (rule still_trans [OF still_hit [of s x]]) (simp add: still_def upd_blk_blocks)
  moreover have "still u (snd (hardWrite x u))"
    using hardWrite_eq [OF l] by (simp add: still_def disk_io_def)
  ultimately have "still s (snd (hardWrite x u))" by (rule still_trans)
  then show ?thesis using that [of "snd (hardWrite x u)"] w hardWrite_eq [OF l] by simp
qed

lemma still_release:
  assumes "BLKHASH (bblock B) = Some k" "hash_next (blocks s (BHash k)) = BNull"
  obtains s1 where "relCachedBlock (BLoc 2) (upd_blk (BLoc 2) (\<lambda>_. B) s) = Some s1" "still s s1"
  using assms by (auto simp: relCachedBlock_def chain_remove_def upd_blk_blocks Let_def still_def disk_io_def upd_blk_def)

text \<open>The state of the data bitmap \<open>z\<close> with the first \<open>m\<close> of ten blocks in use.\<close>

definition data_ready :: "block_ref \<Rightarrow> block_ref \<Rightarrow> u32 \<Rightarrow> nat \<Rightarrow> 'a disk_scheme \<Rightarrow> bool" where
  "data_ready x z n m s \<longleftrightarrow> x \<noteq> z \<and> {x, z} \<subseteq> range Buf \<and> at_front x 0 1 s \<and>
     sb_of_bytes (buf (blocks s x)) = layout n \<and> at_front z 0 21 s \<and>
     buf (blocks s z) = replicate m 1 @ replicate (512 - m) 0 \<and> m \<le> 10"

definition spare :: "block \<Rightarrow> 'a disk_scheme \<Rightarrow> bool" where
  "spare B s \<longleftrightarrow> (\<exists>k. BLKHASH (bblock B) = Some k \<and> hash_next (blocks s (BHash k)) = BNull)"

lemma data_ready_still: "still s s' \<Longrightarrow> data_ready x z n m s \<Longrightarrow> data_ready x z n m s'"
  using still_front [of s s' x 0 1] still_front [of s s' z 0 21] by (auto simp: data_ready_def still_def)

lemma data_ready_mark:
  assumes "data_ready x z n m s" "\<And>b. bdevice (f b) = bdevice b \<and> bblock (f b) = bblock b \<and> hash_next (f b) = hash_next b"
    and "buf (f (blocks s z)) = replicate m' 1 @ replicate (512 - m') 0" "m' \<le> 10"
  shows "data_ready x z n m' (upd_blk z f s)"
proof -
  have e: "bdevice (blocks (upd_blk z f s) q) = bdevice (blocks s q)" "bblock (blocks (upd_blk z f s) q) = bblock (blocks s q)"
    "hash_next (blocks (upd_blk z f s) q) = hash_next (blocks s q)" for q
    using assms(2) by (simp_all add: upd_blk_blocks)
  with assms(1,3,4) show ?thesis
    unfolding data_ready_def at_front_def e by (simp add: upd_blk_blocks)
qed

lemma spare_still: "still s s' \<Longrightarrow> spare B s \<Longrightarrow> spare B s'"
  by (auto simp: still_def spare_def)

lemma data_ready_blocks: "blocks s' = blocks s \<Longrightarrow> data_ready x z n m s' = data_ready x z n m s"
  by (simp add: data_ready_def at_front_def)

lemma scan_marked:
  assumes "m \<le> 10"
  shows "bitmap_scan (replicate m 1 @ replicate (512 - m) 0) 0 10 = Some (if m < 10 then of_nat m else - 1)"
proof -
  have scan: "bitmap_scan (replicate m 1 @ replicate (512 - m) 0) i (10 - i) = Some (if m < 10 then of_nat m else - 1)"
    if "i \<le> m" for i
    using that
  proof (induction "m - i" arbitrary: i)
    case 0
    with assms show ?case by (cases "10 - i") (auto simp: nth_append)
  next
    case (Suc d)
    then have "10 - i = Suc (10 - Suc i)" "d = m - Suc i" "Suc i \<le> m" using assms by auto
    with Suc(1) [of "Suc i"] Suc(2) show ?case by (simp add: nth_append)
  qed
  from scan [of 0] show ?thesis by simp
qed

lemma allocData_next:
  assumes "data_ready x z n m s" "spare (j_stack jk) s"
  obtains s' where "allocData dev jk 0 s = Some (if m < 10 then of_nat (23 + m) else 22, s')"
    "data_ready x z n (if m < 10 then Suc m else m) s'" "disk_io s s'"
    "\<And>B. spare B s \<Longrightarrow> spare B s'"
proof -
  define u where "u = cache_hit z (cache_hit x s)"
  have su: "still s u" unfolding u_def by (rule still_trans [OF still_hit still_hit])
  have rs: "data_ready x z n m u" by (rule data_ready_still [OF su assms(1)])
  have f: "at_front x 0 1 s" "at_front z 0 21 s" "sb_of_bytes (buf (blocks s x)) = layout n" "m \<le> 10"
    "buf (blocks u z) = replicate m 1 @ replicate (512 - m) 0"
    using assms(1) rs by (simp_all add: data_ready_def)
  have r1: "readSuperblock dev (j_sb jk) 0 s = Some (0, layout n, cache_hit x s)"
    using readSuperblock_front [OF f(1)] f(3) by simp
  have r2: "blockRead dev 0 (bitmapStart (layout n) + 1) (cache_hit x s) = Some (z, u)"
    using read_front [OF at_front_hit [OF f(2)]] by (simp add: layout_fields u_def)
  define a :: u32 where "a = (if m < 10 then of_nat m else - 1)"
  have sc: "bitmap_scan (buf (blocks u z)) 0 (nat (sint (nDataBlock (layout n)))) = Some a"
    using scan_marked [OF f(4)] by (simp add: f(5) layout_fields a_def)
  obtain v where v: "poke_buf z (sint a) 1 u = Some v" "disk_io u v" "data_ready x z n (if m < 10 then Suc m else m) v"
    "\<And>q. hash_next (blocks v q) = hash_next (blocks u q)"
  proof (cases "m < 10")
    case True
    have s: "sint a = int m" using True sint_small [of a] by (simp add: a_def unat_of_nat)
    define v where "v = upd_blk z (\<lambda>b. b\<lparr>buf := (buf b)[m := 1]\<rparr>) u"
    have "(replicate m 1 @ replicate (512 - m) 0)[m := 1] = replicate (Suc m) 1 @ replicate (512 - Suc m) (0 :: u8)"
      using True by (cases "512 - m") (auto simp: list_update_append replicate_app_Cons_same)
    then have "data_ready x z n (Suc m) v"
      unfolding v_def by (intro data_ready_mark [OF rs]) (use True f(5) in simp_all)
    with that [of v] True show ?thesis by (simp add: v_def poke_buf_def s f(5) upd_blk_blocks)
  next
    case False
    define v where "v = upd_blk z (\<lambda>b. b\<lparr>lruCnt := (lruCnt b AND 0x00ffffff) OR push_bit 24 (ucast (1 :: u8))\<rparr>) u"
    have "data_ready x z n m v"
      unfolding v_def by (rule data_ready_mark [OF rs]) (use f(4,5) in simp_all)
    with that [of v] False show ?thesis by (simp add: v_def poke_buf_def a_def upd_blk_blocks)
  qed
  have fz: "at_front z 0 21 v" "length (buf (blocks v z)) = 512" using v(3) by (auto simp: data_ready_def)
  obtain w where w: "blockWrite z v = Some (0, w)" "still v w" using still_write [OF fz] .
  have spare: "spare B s \<Longrightarrow> spare B w" for B
    using spare_still [OF su] spare_still [OF w(2)] v(4) by (auto simp: spare_def)
  obtain k where k: "BLKHASH (bblock (j_stack jk)) = Some k" "hash_next (blocks w (BHash k)) = BNull"
    using spare [OF assms(2)] by (auto simp: spare_def)
  obtain s' where s': "relCachedBlock (BLoc 2) (upd_blk (BLoc 2) (\<lambda>_. j_stack jk) w) = Some s'" "still w s'"
    using still_release [OF k] .
  show ?thesis
  proof (rule that [of s'])
    show "allocData dev jk 0 s = Some (if m < 10 then of_nat (23 + m) else 22, s')"
      using r1 r2 sc v(1) w(1) s'(1) by (simp add: allocData_def a_def layout_fields)
    show "data_ready x z n (if m < 10 then Suc m else m) s'"
      by (rule data_ready_still [OF still_trans [OF w(2) s'(2)] v(3)])
    show "disk_io s s'"
      using su v(2) w(2) s'(2) disk_io_trans by (metis still_def)
    show "spare B s \<Longrightarrow> spare B s'" for B by (rule spare_still [OF s'(2) spare])
  qed
qed

lemma freeData_refuses:
  assumes "data_ready x z n m s" "addr = of_nat (23 + a)" "a < 10" "lock (cslLock s) = 0"
  obtains s' where "freeData dev jk 0 addr s = Some (- 1, s')" "data_ready x z n m s'"
    "prints (lines [''[Error] freeData: invalid data block number'']) s s'" "\<And>B. spare B s \<Longrightarrow> spare B s'"
proof -
  define u where "u = cache_hit z (cache_hit x s)"
  have su: "still s u" unfolding u_def by (rule still_trans [OF still_hit still_hit])
  have f: "at_front x 0 1 s" "at_front z 0 21 s" "sb_of_bytes (buf (blocks s x)) = layout n"
    using assms(1) by (simp_all add: data_ready_def)
  have r1: "readSuperblock dev (j_sb jk) 0 s = Some (0, layout n, cache_hit x s)"
    using readSuperblock_front [OF f(1)] f(3) by simp
  have r2: "blockRead dev 0 (bitmapStart (layout n) + 1) (cache_hit x s) = Some (z, u)"
    using read_front [OF at_front_hit [OF f(2)]] by (simp add: layout_fields u_def)
  have "unat addr = 23 + a" using assms(2,3) by (simp add: unat_of_nat_u32 del: of_nat_add)
  then have big: "nDataBlock (layout n) < addr" by (simp add: layout_fields word_less_nat_alt)
  have "still s u \<Longrightarrow> disk_io s u" by (simp add: still_def)
  then have pu: "prints [] s u" using disk_io_prints su assms(4) by blast
  have "fmt_text (cstr (''[Error] freeData: invalid data block number'' @ nl)) [] =
      Some (lines [''[Error] freeData: invalid data block number''])" by (simp add: cstr_def)
  note pf = printf_prints [OF prints_lock [OF pu] this]
  define s' where "s' = say (lines [''[Error] freeData: invalid data block number'']) u"
  have m: "msg ''[Error] freeData: invalid data block number'' u = Some s'" using pf(1) by (simp add: msg_def s'_def)
  note b = msg_blocks [OF m]
  show ?thesis
  proof (rule that [of s'])
    show "freeData dev jk 0 addr s = Some (- 1, s')" using r1 r2 m big by (simp add: freeData_def)
    show "data_ready x z n m s'" using data_ready_still [OF su assms(1)] b by (simp add: data_ready_def at_front_def)
    show "prints (lines [''[Error] freeData: invalid data block number'']) s s'"
      using prints_trans [OF pu pf(2)] by (simp add: s'_def)
    show "spare B s \<Longrightarrow> spare B s'" for B using spare_still [OF su] b by (simp add: spare_def)
  qed
qed

text \<open>One allocation and the line about it.\<close>

definition found :: "nat \<Rightarrow> nat" where
  "found m = (if m < 10 then 23 + m else 22)"

lemma alloc_line:
  assumes "data_ready x z n m s" "\<forall>t. spare (j_stack (jk t)) s" "lock (cslLock s) = 0"
    and "\<And>w. w < 100 \<Longrightarrow> fmt_text f [Num (of_nat w)] = Some (text w)"
  obtains u s' where "allocData dev (jk (iotrace s)) 0 s = Some (of_nat (found m), u)"
    "printf f [Num (of_nat (found m))] u = Some s'" "prints (text (found m)) s s'"
    "data_ready x z n (min (Suc m) 10) s'" "\<forall>t. spare (j_stack (jk t)) s'"
proof -
  obtain u where u: "allocData dev (jk (iotrace s)) 0 s = Some (if m < 10 then of_nat (23 + m) else 22, u)"
    "data_ready x z n (if m < 10 then Suc m else m) u" "disk_io s u" "\<And>B. spare B s \<Longrightarrow> spare B u"
    using allocData_next [OF assms(1)] assms(2) by metis
  note p0 = disk_io_prints [OF u(3) assms(3)]
  have "found m < 100" by (simp add: found_def)
  note pf = printf_prints [OF prints_lock [OF p0] assms(4) [OF this]]
  define s' where "s' = say (text (found m)) u"
  have b: "blocks s' = blocks u" by (simp add: s'_def say_def unlock_console_def spinlockUnlock_def sti_def cli_def Let_def fold_putc_blocks)
  have m: "(if m < 10 then Suc m else m) = min (Suc m) 10" using assms(1) by (auto simp: data_ready_def)
  show ?thesis
  proof (rule that [of u s'])
    show "allocData dev (jk (iotrace s)) 0 s = Some (of_nat (found m), u)" using u(1) by (simp add: found_def)
    show "printf f [Num (of_nat (found m))] u = Some s'" using pf(1) by (simp add: s'_def)
    show "prints (text (found m)) s s'" using prints_trans [OF p0 pf(2)] by (simp add: s'_def)
    show "data_ready x z n (min (Suc m) 10) s'" using u(2) unfolding m data_ready_blocks [OF b] .
    show "\<forall>t. spare (j_stack (jk t)) s'" using u(4) assms(2) b by (simp add: spare_def)
  qed
qed

lemma data_lines:
  assumes "w < 100"
  shows "fmt_text (cstr (''[Data Test] addr0: %d'' @ nl)) [Num (of_nat w)] = Some (map of_char ''[Data Test] addr0: '' @ dec w @ [0x0a])"
    "fmt_text (cstr (''[Data Test] addr1: %d'' @ nl)) [Num (of_nat w)] = Some (map of_char ''[Data Test] addr1: '' @ dec w @ [0x0a])"
    "fmt_text (cstr (''[Data Test] addr2: %d'' @ nl)) [Num (of_nat w)] = Some (map of_char ''[Data Test] addr2: '' @ dec w @ [0x0a])"
    "fmt_text (cstr (''[Data Test] addr: %d'' @ nl)) [Num (of_nat w)] = Some (map of_char ''[Data Test] addr: '' @ dec w @ [0x0a])"
  using assms num_text_dec [of w] by (simp_all add: cstr_def arg_text_def)

lemma alloc_loop:
  assumes "data_ready x z n m s" "\<forall>t. spare (j_stack (jk t)) s" "lock (cslLock s) = 0"
  shows "\<exists>s'. for_each (\<lambda>i s. do {
      (addr, s) \<leftarrow> allocData dev (jk (iotrace s)) 0 s;
      printf (cstr (''[Data Test] addr: %d'' @ nl)) [Num addr] s }) is s = Some s' \<and>
    prints (concat (map (\<lambda>i. map of_char ''[Data Test] addr: '' @ dec (found (min (m + i) 10)) @ [0x0a]) [0..<length is])) s s'"
  using assms
proof (induction "is" arbitrary: m s)
  case (Cons i "is")
  obtain u s1 where s1: "allocData dev (jk (iotrace s)) 0 s = Some (of_nat (found m), u)"
    "printf (cstr (''[Data Test] addr: %d'' @ nl)) [Num (of_nat (found m))] u = Some s1"
    "prints (map of_char ''[Data Test] addr: '' @ dec (found m) @ [0x0a]) s s1"
    "data_ready x z n (min (Suc m) 10) s1" "\<forall>t. spare (j_stack (jk t)) s1"
    using alloc_line [OF Cons.prems, of _ "\<lambda>w. map of_char ''[Data Test] addr: '' @ dec w @ [0x0a]", OF data_lines(4)] by metis
  have "m \<le> 10" using Cons.prems(1) by (simp add: data_ready_def)
  moreover have "min (min (Suc m) 10 + j) 10 = min (m + Suc j) 10" for j by simp
  ultimately show ?case
    using Cons.IH [OF s1(4,5) prints_lock [OF s1(3)]] s1(1,2) prints_trans [OF s1(3)]
    by (fastforce simp: map_upt_Suc comp_def simp del: upt_Suc)
qed (simp add: prints_Nil)

section \<open>Blocks\<close>

text \<open>A name copied over the start of a buffer, without its terminator.\<close>

lemma copied_name:
  assumes "c_text src = Some t" "length t \<le> length d"
  shows "strlen src = Some (length t)" "strncpy d src (length t) = Some (blit d 0 t, 0)"
  using assms strncpy_text [OF assms(1), of "length t" d] by (simp_all add: strlen_text)

lemma c_text_copied:
  assumes "0 \<notin> set t" "length t < length d" "d ! length t = 0"
  shows "c_text (blit d 0 t) = Some t"
proof -
  have "blit d 0 t = t @ 0 # drop (Suc (length t)) d"
    using assms(2,3) by (simp add: blit_def Cons_nth_drop_Suc [symmetric])
  with assms(1) show ?thesis by simp
qed

lemma message_line:
  assumes "c_text p = Some t"
  shows "fmt_text (cstr (''[Hard Test] %s'' @ nl)) [Str p] = Some (map of_char ''[Hard Test] '' @ t @ [0x0a])"
    "fmt_text (cstr (''[Block Write] write: %s'' @ nl)) [Str p] = Some (map of_char ''[Block Write] write: '' @ t @ [0x0a])"
    "fmt_text (cstr (''[Block Read] first read: %s'' @ nl)) [Str p] = Some (map of_char ''[Block Read] first read: '' @ t @ [0x0a])"
    "fmt_text (cstr (''[Block Read] second read: %s'' @ nl)) [Str p] = Some (map of_char ''[Block Read] second read: '' @ t @ [0x0a])"
    "fmt_text (cstr (''[Block Read] third read: %s'' @ nl)) [Str p] = Some (map of_char ''[Block Read] third read: '' @ t @ [0x0a])"
  using assms by (simp_all add: cstr_def arg_text_def)

lemma print_blocks:
  fixes s :: "'a disk_scheme"
  assumes "lock (cslLock s) = 0" "fmt_text f args = Some t"
  obtains s' where "printf f args s = Some s'" "prints t s s'" "blocks s' = blocks s"
proof -
  have "blocks (say t s) = blocks s"
    by (simp add: say_def unlock_console_def spinlockUnlock_def sti_def cli_def Let_def fold_putc_blocks)
  with that printf_prints [OF assms] show ?thesis by blast
qed

lemma read_again:
  assumes "at_front x d b s" "lock (cslLock s) = 0"
  obtains s' where "blockRead dev d b s = Some (x, s')" "prints [] s s'" "buf (blocks s' x) = buf (blocks s x)"
    "at_front x d b s'" "hash_next (blocks s' x) = hash_next (blocks s x)"
    "\<And>q. bdevice (blocks s' q) = bdevice (blocks s q)" "\<And>q. bblock (blocks s' q) = bblock (blocks s q)"
  using that [of "cache_hit x s"] read_front [OF assms(1)] disk_io_prints [OF disk_io_hit assms(2)] at_front_hit [OF assms(1)]
  by (simp add: cache_hit_blocks)

text \<open>A block at the front of its chain stays there when it is released, if it is the last of the chain.\<close>

lemma release_front:
  assumes "at_front (Buf i) d b s" "hash_next (blocks s (Buf i)) = BNull"
  obtains s1 where "relCachedBlock (Buf i) s = Some s1" "at_front (Buf i) d b s1"
    "buf (blocks s1 (Buf i)) = buf (blocks s (Buf i))" "disk_io s s1"
    "\<And>j. bdevice (blocks s1 (BLoc j)) = bdevice (blocks s (BLoc j)) \<and> bblock (blocks s1 (BLoc j)) = bblock (blocks s (BLoc j))"
proof -
  obtain k where k: "BLKHASH b = Some k" "hash_next (blocks s (BHash k)) = Buf i" "bdevice (blocks s (Buf i)) = d"
    "bblock (blocks s (Buf i)) = b" using assms(1) by (auto simp: at_front_def)
  have pred: "chain_pred (Buf i) (Buf i) s = Some (Buf i)" by (subst chain_pred.simps) (simp add: assms(2))
  have "(blocks s (Buf i))\<lparr>hash_next := BNull\<rparr> = blocks s (Buf i)" using assms(2) by (cases "blocks s (Buf i)") simp
  then have "upd_blk (Buf i) (\<lambda>b. b\<lparr>hash_next := BNull\<rparr>) s = s" by (simp add: upd_blk_def)
  then have rem: "chain_remove k (Buf i) s = Some s"
    using k assms(2) by (simp add: chain_remove_def pred Let_def)
  obtain s1 where s1: "relCachedBlock (Buf i) s = Some s1" using k rem by (simp add: relCachedBlock_def Let_def)
  then have b: "bdevice (blocks s1 q) = bdevice (blocks s q)" "bblock (blocks s1 q) = bblock (blocks s q)"
    "buf (blocks s1 q) = buf (blocks s q)" "hash_next (blocks s1 (BHash j)) = hash_next (blocks s (BHash j))" for q j
    using k rem by (auto simp: relCachedBlock_def Let_def upd_blk_blocks)
  have "disk_io s s1" using s1 k rem by (auto simp: relCachedBlock_def Let_def disk_io_def upd_blk_def)
  with that [OF s1] assms(1) b show ?thesis by (simp add: at_front_def)
qed

section \<open>Properties\<close>


lemma laid_out_cong: "blocks s' = blocks s \<Longrightarrow> laid_out n x y z xs s' = laid_out n x y z xs s"
  using lru_links_cong(2) [of s' s BNull xs] by (simp add: laid_out_def cache_ok_def at_front_def)


text \<open>
  \<^verbatim>\<open>hardTest\<close>: the text is written to sector 1 of drive 0, but the block that is read is the one its uninitialised
  number and drive name. Only if they happen to name that sector the text comes back.
\<close>

theorem hardTest_prints:
  assumes "ata_disk m0 dev" "lock (cslLock s) = 0"
    and "c_text (concat (map bytes_of (media (ata_run m0 (iotrace s)) (sector_of rb0)))) = Some t"
  shows "\<exists>s'. hardTest dev b0 rb0 s = Some s' \<and>
    prints (map of_char ''[Hard Test] '' @ (if sector_of rb0 = (False, 1) then map of_char ''the design of unix operating system'' else t) @
      [0x0a]) s s' \<and>
    media (ata_run m0 (iotrace s')) =
      (media (ata_run m0 (iotrace s)))((False, 1) := words_of (map of_char ''the design of unix operating system'' @ replicate 477 0))"
proof -
  define T where "T = (map of_char ''the design of unix operating system'' :: u8 list)"
  have c: "c_text (cstr ''the design of unix operating system'') = Some T" by (simp add: cstr_def T_def)
  have T: "length T = 35" "0 \<notin> set T" by (simp_all add: T_def)
  have b: "blit (replicate 512 0) 0 T = T @ replicate 477 0" by (simp add: blit_def T)
  have cp: "strlen (cstr ''the design of unix operating system'') = Some (length T)"
    "strncpy (replicate 512 0) (cstr ''the design of unix operating system'') (length T) = Some (T @ replicate 477 0, 0)"
    using copied_name [OF c, of "replicate 512 0"] T b by simp_all
  define B where "B = b0\<lparr>buf := T @ replicate 477 0, bdevice := 0, bblock := 1, flags := B_DIRTY\<rparr>"
  define u where "u = s\<lparr>blocks := (blocks s)(BLoc 3 := B, BLoc 4 := rb0)\<rparr>"
  have B: "blocks u (BLoc 3) = B" "length (buf B) = 512" "sector_of B = (False, 1)"
    by (simp_all add: u_def B_def sector_of_def T)
  have l: "length (buf (blocks u (BLoc 3))) = 512" by (simp add: B)
  define v where "v = snd (hardWrite (BLoc 3) u)"
  have w: "hardWrite (BLoc 3) u = (0, v)" "iotrace u = iotrace s"
    using hardWrite_eq [OF l] by (simp_all add: v_def u_def)
  have mv: "media (ata_run m0 (iotrace v)) = (media (ata_run m0 (iotrace s)))((False, 1) := words_of (T @ replicate 477 0))"
    using ata_hardWrite [OF assms(1) l] by (simp add: v_def B w(2)) (simp add: B_def)
  define v' where "v' = upd_blk (BLoc 4) (\<lambda>b. b\<lparr>buf := replicate 512 0\<rparr>) v"
  have "blocks v (BLoc 4) = rb0" using hardWrite_eq [OF l] by (simp add: v_def u_def)
  then have sv: "sector_of (blocks v' (BLoc 4)) = sector_of rb0" "iotrace v' = iotrace v"
    by (simp_all add: v'_def upd_blk_def sector_of_def)
  obtain t' where rd: "hardReadWait dev (BLoc 4) v' = Some (0, v'\<lparr>iotrace := t', blocks := (blocks v')(BLoc 4 := (blocks v' (BLoc 4))\<lparr>
      buf := concat (map bytes_of (media (ata_run m0 (iotrace v')) (sector_of (blocks v' (BLoc 4))))), flags := B_VALID\<rparr>)\<rparr>)"
    "media (ata_run m0 t') = media (ata_run m0 (iotrace v'))"
    by (rule ata_hardReadWait [OF assms(1), of "BLoc 4" v'])
  define bs where "bs = concat (map bytes_of (media (ata_run m0 (iotrace v')) (sector_of (blocks v' (BLoc 4)))))"
  define r where "r = v'\<lparr>iotrace := t', blocks := (blocks v')(BLoc 4 := (blocks v' (BLoc 4))\<lparr>buf := bs, flags := B_VALID\<rparr>)\<rparr>"
  have "concat (map bytes_of (words_of (T @ replicate 477 0))) = T @ replicate 477 0"
    by (rule concat_bytes_of_words_of [of _ 128]) (simp add: T)
  moreover have "c_text (T @ replicate 477 0) = Some T"
    using c_text_copied [of T "replicate 512 0"] T b by simp
  ultimately have tx: "c_text bs = Some (if sector_of rb0 = (False, 1) then T else t)"
    using assms(3) by (auto simp: bs_def sv mv)
  have io: "disk_io s r"
    using hardWrite_eq [OF l] by (simp add: disk_io_def r_def v'_def v_def u_def upd_blk_def)
  note p0 = disk_io_prints [OF io assms(2)]
  note pf = printf_prints [OF prints_lock [OF p0] message_line(1) [OF tx]]
  have rb: "buf (blocks r (BLoc 4)) = bs" by (simp add: r_def)
  have up: "upd_blk (BLoc 3) (\<lambda>b. b\<lparr>flags := B_DIRTY\<rparr>) (upd_blk (BLoc 3) (\<lambda>b. b\<lparr>bblock := 1\<rparr>) (upd_blk (BLoc 3) (\<lambda>b. b\<lparr>bdevice := 0\<rparr>)
      (upd_blk (BLoc 3) (\<lambda>b. b\<lparr>buf := T @ replicate 477 0\<rparr>) (upd_blk (BLoc 3) (\<lambda>b. b\<lparr>buf := replicate 512 0\<rparr>)
      (upd_blk (BLoc 4) (\<lambda>_. rb0) (upd_blk (BLoc 3) (\<lambda>_. b0) s)))))) = u"
    by (simp add: upd_blk_def u_def B_def fun_upd_twist)
  have "hardTest dev b0 rb0 s = printf (cstr (''[Hard Test] %s'' @ nl)) [Str bs] r"
    using cp rd(1) w(1) up rb by (simp add: hardTest_def upd_blk_blocks v'_def [symmetric] r_def [symmetric] bs_def [symmetric])
  moreover have "iotrace (say t'' r) = t'" for t''
    by (simp add: say_trace r_def)
  ultimately show ?thesis
    using pf prints_trans [OF p0 pf(2)] rd(2) mv sv(2) unfolding T_def [symmetric] by simp
qed

theorem hardTest_prints_witness:
  "\<exists>s'. hardTest (ram_disk (\<lambda>_. replicate 128 0)) demo_block (demo_block\<lparr>bdevice := 1\<rparr>) demo_disk = Some s' \<and>
    prints (map of_char ''[Hard Test] '' @ [0x0a]) demo_disk s'"
proof -
  have t: "iotrace demo_disk = []" "lock (cslLock demo_disk) = 0"
    by (simp_all add: demo_disk_def thr.defs disk.defs full_table_def idle_threads_def)
  have "concat (map bytes_of (replicate n (0 :: u32))) = replicate (4 * n) 0" for n
  proof (induction n)
    case (Suc n)
    have "4 * Suc n = Suc (Suc (Suc (Suc (4 * n))))" by simp
    with Suc show ?case by (simp only: replicate_Suc) (simp add: bytes_of_def byte_of_def)
  qed simp
  from this [of 128] have "concat (map bytes_of (replicate 128 (0 :: u32))) = replicate 512 0" by simp
  then have "c_text (concat (map bytes_of (media (ata_run (\<lambda>_. replicate 128 0) (iotrace demo_disk))
      (sector_of (demo_block\<lparr>bdevice := 1\<rparr>))))) = Some []"
    by (simp add: t(1) c_text_zeros)
  from hardTest_prints [OF ata_ram_disk t(2) this, of demo_block] show ?thesis
    by (auto simp: sector_of_def demo_block_def)
qed

text \<open>
  \<^verbatim>\<open>blockCacheTest\<close> passes: the three reads give what was written. The third read, after the release, gets the
  released buffer, because the release leaves it in its chain. The byte behind the name is taken to be 0: the name is
  copied without its terminator.
\<close>

theorem blockCacheTest_prints:
  assumes "cache_ok (x # xs) s" "hash_next (blocks s (BHash 2)) = BNull" "lock (cslLock s) = 0"
    and "length (buf b0) = 512" "buf b0 ! 17 = 0"
  shows "\<exists>s'. blockCacheTest dev b0 s = Some s' \<and>
    prints (lines [''[Block Write] write: Ernest Hermingway'', ''[Block Read] first read: Ernest Hermingway'',
      ''[Block Read] second read: Ernest Hermingway'', ''[Block Read] third read: Ernest Hermingway'']) s s'"
proof -
  define T where "T = (map of_char ''Ernest Hermingway'' :: u8 list)"
  have T: "length T = 17" "0 \<notin> set T" by (simp_all add: T_def)
  have c: "c_text (cstr ''Ernest Hermingway'') = Some T" by (simp add: cstr_def T_def)
  note cp = copied_name [OF c, of "buf b0"]
  define bs where "bs = blit (buf b0) 0 T"
  have bs: "c_text bs = Some T" "length bs = 512" using c_text_copied [of T "buf b0"] T assms(4,5) by (simp_all add: bs_def)
  define s1 where "s1 = upd_blk (BLoc 3) (\<lambda>_. b0\<lparr>buf := bs\<rparr>) s"
  have s1e: "upd_blk (BLoc 3) (\<lambda>b. b\<lparr>buf := bs\<rparr>) (upd_blk (BLoc 3) (\<lambda>_. b0) s) = s1" by (simp add: s1_def upd_blk_def)
  have l1: "lock (cslLock s1) = 0" "prints [] s s1"
    using disk_io_prints [OF disk_io_upd assms(3)] assms(3) by (simp_all add: s1_def upd_blk_def)
  obtain s2 where s2: "printf (cstr (''[Block Write] write: %s'' @ nl)) [Str bs] s1 = Some s2"
    "prints (map of_char ''[Block Write] write: '' @ T @ [0x0a]) s1 s2" "blocks s2 = blocks s1"
    using print_blocks [OF l1(1) message_line(2) [OF bs(1)]] .
  define B where "B = b0\<lparr>buf := bs, bdevice := 0, bblock := 2, flags := B_DIRTY\<rparr>"
  define v where "v = s2\<lparr>blocks := blocks s\<rparr>"
  have v: "cache_ok (x # xs) v" "hash_next (blocks v (BHash 2)) = BNull"
    using assms(1,2) lru_links_cong(2) [of v s] by (simp_all add: v_def cache_ok_def)
  have k: "BLKHASH (bblock B) = Some 2" "length (buf B) = 512" by (simp_all add: B_def BLKHASH_nonneg bs(2))
  obtain s4 where s4: "blockWrite (BLoc 3) (v\<lparr>blocks := (blocks v)(BLoc 3 := B)\<rparr>) = Some (0, s4)" "wrote x xs 3 2 B v s4" "disk_io v s4"
    by (rule write_local [OF v(1) k(1) v(2) k(2) refl])
  note w = wroteD [OF s4(2)]
  obtain i where i: "x = Buf i" using assms(1) by (auto simp: cache_ok_def)
  have f4: "at_front (Buf i) 0 2 s4" "buf (blocks s4 (Buf i)) = bs" "hash_next (blocks s4 (Buf i)) = BNull"
    "bdevice (blocks s4 (BLoc 3)) = 0" "bblock (blocks s4 (BLoc 3)) = 2"
    using w(2,3,6,7,13) v(2) by (simp_all add: i B_def)
  have "v = s2\<lparr>blocks := blocks v\<rparr>" by (simp add: v_def)
  then have "disk_io s2 s4" using s4(3) by (simp add: disk_io_def v_def)
  note p4 = disk_io_prints [OF this prints_lock [OF s2(2)]]
  obtain s5 where s5: "blockRead dev 0 2 s4 = Some (Buf i, s5)" "prints [] s4 s5" "buf (blocks s5 (Buf i)) = bs"
    "at_front (Buf i) 0 2 s5" "hash_next (blocks s5 (Buf i)) = BNull" "bdevice (blocks s5 (BLoc 3)) = 0" "bblock (blocks s5 (BLoc 3)) = 2"
    using read_again [OF f4(1) prints_lock [OF p4]] f4 by metis
  obtain s6 where s6: "printf (cstr (''[Block Read] first read: %s'' @ nl)) [Str bs] s5 = Some s6"
    "prints (map of_char ''[Block Read] first read: '' @ T @ [0x0a]) s5 s6" "blocks s6 = blocks s5"
    using print_blocks [OF prints_lock [OF s5(2)] message_line(3) [OF bs(1)]] .
  have f6: "at_front (Buf i) 0 2 s6" using s5(4) s6(3) by (simp add: at_front_def)
  obtain s7 where s7: "blockRead dev 0 2 s6 = Some (Buf i, s7)" "prints [] s6 s7" "buf (blocks s7 (Buf i)) = bs"
    "at_front (Buf i) 0 2 s7" "hash_next (blocks s7 (Buf i)) = BNull" "bdevice (blocks s7 (BLoc 3)) = 0" "bblock (blocks s7 (BLoc 3)) = 2"
    using read_again [OF f6 prints_lock [OF s6(2)]] s5 unfolding s6(3) by metis
  obtain s8 where s8: "printf (cstr (''[Block Read] second read: %s'' @ nl)) [Str bs] s7 = Some s8"
    "prints (map of_char ''[Block Read] second read: '' @ T @ [0x0a]) s7 s8" "blocks s8 = blocks s7"
    using print_blocks [OF prints_lock [OF s7(2)] message_line(4) [OF bs(1)]] .
  have f8: "at_front (Buf i) 0 2 s8" "hash_next (blocks s8 (Buf i)) = BNull" using s7(4,5) s8(3) by (simp_all add: at_front_def)
  obtain s9 where s9: "relCachedBlock (Buf i) s8 = Some s9" "at_front (Buf i) 0 2 s9" "buf (blocks s9 (Buf i)) = bs" "disk_io s8 s9"
    "bdevice (blocks s9 (BLoc 3)) = 0" "bblock (blocks s9 (BLoc 3)) = 2"
    using release_front [OF f8] s7(3,6,7) unfolding s8(3) by metis
  note p9 = disk_io_prints [OF s9(4) prints_lock [OF s8(2)]]
  obtain s10 where s10: "blockRead dev 0 2 s9 = Some (Buf i, s10)" "prints [] s9 s10" "buf (blocks s10 (Buf i)) = bs"
    using read_again [OF s9(2) prints_lock [OF p9]] s9(3) by metis
  obtain s11 where s11: "printf (cstr (''[Block Read] third read: %s'' @ nl)) [Str bs] s10 = Some s11"
    "prints (map of_char ''[Block Read] third read: '' @ T @ [0x0a]) s10 s11"
    using print_blocks [OF prints_lock [OF s10(2)] message_line(5) [OF bs(1)]] .
  have up: "upd_blk (BLoc 3) (\<lambda>b. b\<lparr>flags := B_DIRTY\<rparr>) (upd_blk (BLoc 3) (\<lambda>b. b\<lparr>bblock := 2\<rparr>) (upd_blk (BLoc 3) (\<lambda>b. b\<lparr>bdevice := 0\<rparr>) s2))
      = v\<lparr>blocks := (blocks v)(BLoc 3 := B)\<rparr>"
    using s2(3) by (simp add: v_def s1_def upd_blk_def B_def)
  have run: "blockCacheTest dev b0 s = Some s11"
    using cp T(1) assms(4) s2(1) s4(1) up f4(4,5) s5 s6(1,3) s7 s8(1,3) s9 s10 s11(1)
    by (simp add: blockCacheTest_def upd_blk_blocks s1e bs_def [symmetric])
  have tx: "lines [''[Block Write] write: Ernest Hermingway'', ''[Block Read] first read: Ernest Hermingway'',
      ''[Block Read] second read: Ernest Hermingway'', ''[Block Read] third read: Ernest Hermingway''] =
    [] @ (map of_char ''[Block Write] write: '' @ T @ [0x0a]) @ [] @ [] @ (map of_char ''[Block Read] first read: '' @ T @ [0x0a]) @ [] @
    (map of_char ''[Block Read] second read: '' @ T @ [0x0a]) @ [] @ [] @ (map of_char ''[Block Read] third read: '' @ T @ [0x0a])"
    by (simp add: T_def)
  show ?thesis
    unfolding tx using run s11(2)
    by (intro exI conjI prints_trans [OF l1(2)] prints_trans [OF s2(2)] prints_trans [OF p4] prints_trans [OF s5(2)] prints_trans [OF s6(2)]
      prints_trans [OF s7(2)] prints_trans [OF s8(2)] prints_trans [OF p9] prints_trans [OF s10(2)]) simp_all
qed

lemma free_cache:
  "cache_ok (Buf 127 # Buf 126 # Buf 125 # map Buf (rev [0..<125])) (init_cache\<lparr>cslLock := \<lparr>lock = 0\<rparr>\<rparr>)"
  using init_cache_facts(1) lru_links_cong(2) [of "init_cache\<lparr>cslLock := \<lparr>lock = 0\<rparr>\<rparr>" init_cache] by (simp add: cache_ok_def)

theorem blockCacheTest_prints_witness:
  "\<exists>s'. blockCacheTest busy_drive (demo_block\<lparr>buf := replicate 512 0\<rparr>) (init_cache\<lparr>cslLock := \<lparr>lock = 0\<rparr>\<rparr>) = Some s' \<and>
    lock (cslLock s') = 0"
proof -
  have "hash_next (blocks (init_cache\<lparr>cslLock := \<lparr>lock = 0\<rparr>\<rparr>) (BHash 2)) = BNull" by (simp add: init_cache_facts(2))
  from blockCacheTest_prints [OF free_cache this, of "demo_block\<lparr>buf := replicate 512 0\<rparr>" busy_drive] show ?thesis
    by (auto simp: prints_def)
qed

text \<open>\<^verbatim>\<open>superblockTest\<close> prints the three starts it has written, whatever the other fields hold.\<close>

theorem superblockTest_prints:
  assumes "cache_ok (x # xs) s" "hash_next (blocks s (BHash 1)) = BNull" "lock (cslLock s) = 0"
  shows "\<exists>s'. superblockTest dev ws rs s = Some s' \<and>
    prints (lines [''[Log Start Block] 2'', ''[Inode Start Block] 32'', ''[Data Start Block] 64'']) s s'"
proof -
  define sb where "sb = ws\<lparr>sb_device := 0, nLogBlock := 30, nInodeBlock := 32, nDataBlock := 32, logStart := 2, inodeStart := 32, dataStart := 64\<rparr>"
  obtain s1 where s1: "writeSuperblock sb 0 s = Some (0, s1)" "disk_io s s1" "readSuperblock dev rs 0 s1 = Some (0, sb, cache_hit x s1)"
    by (rule superblock_stored [OF assms(1,2), of sb 0 dev rs])
  note p1 = disk_io_prints [OF disk_io_trans [OF s1(2) disk_io_hit] assms(3), of x]
  have "fmt_text (cstr (''[Log Start Block] %d'' @ nl)) [Num (logStart sb)] = Some (lines [''[Log Start Block] 2''])"
    using num_text_dec [of 2] by (simp add: sb_def cstr_def arg_text_def dec.simps)
  note f2 = printf_prints [OF prints_lock [OF p1] this]
  have "fmt_text (cstr (''[Inode Start Block] %d'' @ nl)) [Num (inodeStart sb)] = Some (lines [''[Inode Start Block] 32''])"
    using num_text_dec [of 32] by (simp add: sb_def cstr_def arg_text_def dec.simps)
  note f3 = printf_prints [OF prints_lock [OF f2(2)] this]
  have "fmt_text (cstr (''[Data Start Block] %d'' @ nl)) [Num (dataStart sb)] = Some (lines [''[Data Start Block] 64''])"
    using num_text_dec [of 64] by (simp add: sb_def cstr_def arg_text_def dec.simps)
  note f4 = printf_prints [OF prints_lock [OF f3(2)] this]
  have "superblockTest dev ws rs s = Some (say (lines [''[Data Start Block] 64'']) (say (lines [''[Inode Start Block] 32''])
      (say (lines [''[Log Start Block] 2'']) (cache_hit x s1))))"
    using s1(1,3) f2(1) f3(1) f4(1) by (simp add: superblockTest_def sb_def)
  with prints_trans [OF p1 prints_trans [OF f2(2) prints_trans [OF f3(2) f4(2)]]] show ?thesis by auto
qed

theorem superblockTest_prints_witness:
  "\<exists>s'. superblockTest busy_drive demo_sb demo_sb (init_cache\<lparr>cslLock := \<lparr>lock = 0\<rparr>\<rparr>) = Some s' \<and> lock (cslLock s') = 0"
proof -
  have "hash_next (blocks (init_cache\<lparr>cslLock := \<lparr>lock = 0\<rparr>\<rparr>) (BHash 1)) = BNull" by (simp add: init_cache_facts(2))
  from superblockTest_prints [OF free_cache this, of busy_drive demo_sb demo_sb] show ?thesis by (auto simp: prints_def)
qed

end
