(* ===== verification/Thread_Tests.thy ===== *)
theory Thread_Tests
  imports Self_Tests Sem_Test
begin

text \<open>
  The thread tests of \<^verbatim>\<open>src/thread.c\<close> beside \<^verbatim>\<open>semTest\<close>: \<^verbatim>\<open>thrTest\<close> with threads that never end, \<^verbatim>\<open>cvTest\<close> over a
  condition variable and \<^verbatim>\<open>mtxTest\<close> over a mutex. The functions of the threads run to their next call of the
  scheduler; what they print and whom they leave the processor to is the outcome.
\<close>

section \<open>The tests\<close>

record tests = thr +
  gtLock :: spinlock
  globalTestVar :: u32
  gm :: mutex

text \<open>A thread's loop without end; the counter wraps around.\<close>

partial_function (option) func_loop :: "u8 list \<Rightarrow> u32 \<Rightarrow> 'a console_scheme \<Rightarrow> 'a console_scheme option" where
  "func_loop args i s = do {
     s \<leftarrow> (if sint i smod 40000000 = 0 then printf (cstr (''thread: %s'' @ nl)) [Str args] s else Some s);
     func_loop args (i + 1) s }"

definition func :: "u8 list \<Rightarrow> 'a console_scheme \<Rightarrow> 'a console_scheme option" where
  "func args s = func_loop args 0 s"

text \<open>\<open>fp\<close> is the address of \<^verbatim>\<open>func\<close>, the others are those of the four strings in the frame of \<^verbatim>\<open>thrTest\<close>.\<close>

definition thrTest ::
  "code_syms \<Rightarrow> u32 \<Rightarrow> u32 \<Rightarrow> u32 \<Rightarrow> u32 \<Rightarrow> u32 \<Rightarrow> 'a thr_scheme \<Rightarrow> 'a thr_scheme option" where
  "thrTest sy fp ta tb tc td s = do {
     let (t0, s) = thrCreate sy fp ta s;
     let (t1, s) = thrCreate sy fp tb s;
     let (t2, s) = thrCreate sy fp tc s;
     s \<leftarrow> printf (cstr (''thread A, B, C joined'' @ nl)) [] s;
     let (t3, s) = thrCreate sy fp td s;
     s \<leftarrow> printf (cstr (''thread D joined'' @ nl)) [] s;
     thrKill t0 s }"

text \<open>\<open>key\<close> is the address of \<^verbatim>\<open>globalTestVar\<close>. The delay loop of \<^verbatim>\<open>gfunc0\<close> has an empty body.\<close>

definition gfunc0 :: "u32 \<Rightarrow> 'a tests_scheme \<Rightarrow> 'a tests_scheme option" where
  "gfunc0 key s = do {
     (l, s) \<leftarrow> spinlockLock (gtLock s) s;
     let s = s\<lparr>gtLock := l\<rparr>;
     let s = s\<lparr>globalTestVar := globalTestVar s + 10\<rparr>;
     let (l, s) = spinlockUnlock (gtLock s) s;
     let s = s\<lparr>gtLock := l\<rparr>;
     let s = thrCondSignal key s;
     Some (thrExit s) }"

text \<open>The call of \<^verbatim>\<open>thrCondWait\<close> does not come back, so that the loop around it is left after its first test.\<close>

definition gfunc1 :: "u32 \<Rightarrow> thr_ref \<Rightarrow> 'a tests_scheme \<Rightarrow> 'a tests_scheme option" where
  "gfunc1 key junk s = do {
     (l, s) \<leftarrow> spinlockLock (gtLock s) s;
     let s = s\<lparr>gtLock := l\<rparr>;
     (if globalTestVar s = 23
      then do {
        (l, s) \<leftarrow> thrCondWait key (Some (gtLock s)) junk s;
        Some (s\<lparr>gtLock := the l\<rparr>) }
      else do {
        s \<leftarrow> printf (cstr (''gfunc: %d'' @ nl)) [Num (globalTestVar s)] s;
        let (l, s) = spinlockUnlock (gtLock s) s;
        let s = s\<lparr>gtLock := l\<rparr>;
        Some (thrExit s) }) }"

definition cvTest :: "code_syms \<Rightarrow> u32 \<Rightarrow> u32 \<Rightarrow> 'a tests_scheme \<Rightarrow> 'a tests_scheme" where
  "cvTest sy f0 f1 s =
     (let s = s\<lparr>gtLock := spinlockInit (gtLock s)\<rparr>;
          s = s\<lparr>globalTestVar := 23\<rparr>;
          (t0, s) = thrCreate sy f0 0 s;
          (t1, s) = thrCreate sy f1 0 s
      in s)"

text \<open>\<open>a\<close> is the address of \<^verbatim>\<open>gm\<close>.\<close>

fun mfunc_loop :: "u32 \<Rightarrow> thr_ref \<Rightarrow> nat \<Rightarrow> 'a tests_scheme \<Rightarrow> 'a tests_scheme outcome option" where
  "mfunc_loop a junk 0 s = Some (Returns s)"
| "mfunc_loop a junk (Suc n) s = do {
     r \<leftarrow> thrMutexLock a junk (gm s) s;
     (case r of
        Dispatches (m, s) \<Rightarrow> Some (Dispatches (s\<lparr>gm := m\<rparr>))
      | Returns (m, s) \<Rightarrow> do {
          let s = s\<lparr>gm := m\<rparr>;
          let local = globalTestVar s;
          let local = local + 1;
          let s = s\<lparr>globalTestVar := local\<rparr>;
          s \<leftarrow> printf (cstr (''%d'' @ nl)) [Num (globalTestVar s)] s;
          (m, s) \<leftarrow> thrMutexUnlock a (gm s) s;
          mfunc_loop a junk n (s\<lparr>gm := m\<rparr>) }) }"

definition mfunc :: "u32 \<Rightarrow> thr_ref \<Rightarrow> 'a tests_scheme \<Rightarrow> 'a tests_scheme outcome option" where
  "mfunc a junk s = mfunc_loop a junk 100 s"

definition mtxTest :: "code_syms \<Rightarrow> u32 \<Rightarrow> 'a tests_scheme \<Rightarrow> 'a tests_scheme" where
  "mtxTest sy fm s =
     (let s = s\<lparr>gm := thrMutexInit (gm s)\<rparr>;
          s = s\<lparr>globalTestVar := 23\<rparr>;
          (t0, s) = thrCreate sy fm 0 s;
          (t1, s) = thrCreate sy fm 0 s
      in s)"

section \<open>What a print leaves alone\<close>

lemma putc_form: "putc c s = s\<lparr>row := row (putc c s), col := col (putc c s), videoMemory := videoMemory (putc c s)\<rparr>"
  by (simp add: putc_def clear_def Let_def)

lemma say_form:
  obtains b r c v l where "say t s = s\<lparr>iflag := b, row := r, col := c, videoMemory := v, cslLock := l\<rparr>"
proof -
  have fold: "\<exists>r c v. fold putc t u = u\<lparr>row := r, col := c, videoMemory := v\<rparr>" for u :: "'a console_scheme"
  proof (induction t arbitrary: u)
    case Nil
    have "fold putc [] u = u\<lparr>row := row u, col := col u, videoMemory := videoMemory u\<rparr>" by simp
    then show ?case by blast
  next
    case (Cons ch t)
    obtain r c v where "putc ch u = u\<lparr>row := r, col := c, videoMemory := v\<rparr>" using putc_form by blast
    with Cons [of "putc ch u"] show ?case by auto
  qed
  obtain r c v where "fold putc t (cli s\<lparr>cslLock := (cslLock s)\<lparr>lock := 1\<rparr>\<rparr>) =
      (cli s\<lparr>cslLock := (cslLock s)\<lparr>lock := 1\<rparr>\<rparr>)\<lparr>row := r, col := c, videoMemory := v\<rparr>"
    using fold by blast
  then show ?thesis
    using that [of "\<lparr>lock = 0\<rparr>" v c r True] by (simp add: say_def unlock_console_def spinlockUnlock_def sti_def cli_def Let_def)
qed

lemma say_thr:
  fixes s :: "'a tests_scheme"
  shows "thrqueue (say t s) = thrqueue s" "thr_current (say t s) = thr_current s" "gm (say t s) = gm s"
    "gtLock (say t s) = gtLock s" "globalTestVar (say t s) = globalTestVar s"
proof -
  obtain b r c v l where "say t s = s\<lparr>iflag := b, row := r, col := c, videoMemory := v, cslLock := l\<rparr>" by (rule say_form)
  then show "thrqueue (say t s) = thrqueue s" "thr_current (say t s) = thr_current s" "gm (say t s) = gm s"
    "gtLock (say t s) = gtLock s" "globalTestVar (say t s) = globalTestVar s"
    by simp_all
qed

section \<open>Threads that do not end\<close>

lemma func_loop_never: "func_loop args i s \<noteq> Some s'"
proof
  assume run: "func_loop args i s = Some s'"
  show False
    by (rule func_loop.raw_induct [where P = "\<lambda>_ _ _ _. False", OF _ run]) (auto simp: bind_eq_Some_conv)
qed

section \<open>The mutex\<close>

lemma no_sleepers: "\<forall>t \<in> set ts. status t \<noteq> THR_SLEEPING \<Longrightarrow> broadcast_scan a ts = ts"
  by (induction ts) (auto simp: sleeps_on_def)

lemma broadcast_none: "\<forall>t \<in> set (thrqueue s). status t \<noteq> THR_SLEEPING \<Longrightarrow> thrCondBroadcast a s = s"
  using no_sleepers [of "drop 1 (thrqueue s)" a] in_set_dropD [of _ 1 "thrqueue s"] by (simp add: thrCondBroadcast_def Ball_def)

lemma num_line: "n < 2147483648 \<Longrightarrow> fmt_text (cstr (''%d'' @ nl)) [Num (of_nat n)] = Some (dec n @ [0x0a])"
  using num_text_dec [of n] by (simp add: cstr_def arg_text_def)

lemma prints_cong: "prints t s s' \<Longrightarrow> screen u = screen s \<Longrightarrow> screen u' = screen s' \<Longrightarrow> cslLock u' = cslLock s' \<Longrightarrow> prints t u u'"
  using screen_fold [of u s t] by (simp add: prints_def)

lemma mfunc_turn:
  fixes s :: "'a tests_scheme"
  assumes "lock (cslLock s) = 0" "lock (lk (gm s)) = 0" "mlock (gm s) \<noteq> 1" "globalTestVar s = of_nat v" "Suc v < 2147483648"
    and "\<forall>t \<in> set (thrqueue s). status t \<noteq> THR_SLEEPING"
  obtains s' where "mfunc_loop a junk (Suc n) s = mfunc_loop a junk n s'" "prints (dec (Suc v) @ [0x0a]) s s'"
    "lock (lk (gm s')) = 0" "mlock (gm s') \<noteq> 1" "globalTestVar s' = of_nat (Suc v)" "thrqueue s' = thrqueue s"
    "thr_current s' = thr_current s"
proof -
  define u where "u = (sti (cli s))\<lparr>gm := (gm s)\<lparr>mlock := 1\<rparr>, globalTestVar := of_nat (Suc v)\<rparr>"
  have u: "lock (cslLock u) = 0" "screen u = screen s" using assms(1) by (simp_all add: u_def sti_def cli_def screen_def)
  have ue: "s\<lparr>iflag := True, gm := (gm s)\<lparr>mlock := 1\<rparr>, globalTestVar := 1 + of_nat v\<rparr> = u"
    by (simp add: u_def sti_def cli_def)
  note pf = printf_prints [OF u(1) num_line [OF assms(5)]]
  define w where "w = say (dec (Suc v) @ [0x0a]) u"
  have w: "gm w = (gm s)\<lparr>mlock := 1\<rparr>" "thrqueue w = thrqueue s" "thr_current w = thr_current s" "globalTestVar w = of_nat (Suc v)"
    by (simp_all add: w_def say_thr) (simp_all add: u_def sti_def cli_def)
  have "\<forall>t \<in> set (thrqueue (cli w)). status t \<noteq> THR_SLEEPING" using assms(6) w(2) by (simp add: cli_def)
  note bc = broadcast_none [OF this, of a]
  have lw: "lock (lk (gm w)) = 0" using assms(2) w(1) by simp
  define s' where "s' = (sti (cli w))\<lparr>gm := (gm s)\<lparr>mlock := 0\<rparr>\<rparr>"
  show ?thesis
  proof (rule that [of s'])
    show "mfunc_loop a junk (Suc n) s = mfunc_loop a junk n s'"
      using pf(1) mutex_lock_free [OF assms(2,3), of a junk s] mutex_unlock_free [OF lw, of a w] bc assms(4)
      by (simp add: ue w_def [symmetric] s'_def w(1) sti_def cli_def Let_def add.commute)
    show "prints (dec (Suc v) @ [0x0a]) s s'"
      by (rule prints_cong [OF pf(2) u(2) [symmetric]]) (simp_all add: s'_def w_def sti_def cli_def screen_def)
  qed (use assms(2) w in \<open>simp_all add: s'_def sti_def cli_def\<close>)
qed

lemma mfunc_counts:
  fixes s :: "'a tests_scheme"
  assumes "lock (cslLock s) = 0" "lock (lk (gm s)) = 0" "mlock (gm s) \<noteq> 1" "globalTestVar s = of_nat v" "v + n < 2147483648"
    and "\<forall>t \<in> set (thrqueue s). status t \<noteq> THR_SLEEPING"
  obtains s' where "mfunc_loop a junk n s = Some (Returns s')"
    "prints (concat (map (\<lambda>i. dec i @ [0x0a]) [Suc v..<Suc (v + n)])) s s'"
    "lock (lk (gm s')) = 0" "mlock (gm s') \<noteq> 1" "globalTestVar s' = of_nat (v + n)" "thrqueue s' = thrqueue s"
    "thr_current s' = thr_current s"
proof -
  have "\<exists>s'. mfunc_loop a junk n s = Some (Returns s') \<and>
      prints (concat (map (\<lambda>i. dec i @ [0x0a]) [Suc v..<Suc (v + n)])) s s' \<and> lock (lk (gm s')) = 0 \<and> mlock (gm s') \<noteq> 1 \<and>
      globalTestVar s' = of_nat (v + n) \<and> thrqueue s' = thrqueue s \<and> thr_current s' = thr_current s"
    using assms
  proof (induction n arbitrary: v s)
    case (Suc n)
    have v: "Suc v < 2147483648" "Suc v + n < 2147483648" using Suc.prems(5) by simp_all
    obtain s1 where s1: "mfunc_loop a junk (Suc n) s = mfunc_loop a junk n s1" "prints (dec (Suc v) @ [0x0a]) s s1"
      "lock (lk (gm s1)) = 0" "mlock (gm s1) \<noteq> 1" "globalTestVar s1 = of_nat (Suc v)" "thrqueue s1 = thrqueue s"
      "thr_current s1 = thr_current s"
      by (rule mfunc_turn [OF Suc.prems(1-4) v(1) Suc.prems(6)])
    have "\<forall>t \<in> set (thrqueue s1). status t \<noteq> THR_SLEEPING" using Suc.prems(6) s1(6) by simp
    from Suc.IH [OF prints_lock [OF s1(2)] s1(3-5) v(2) this] obtain s2 where s2:
      "mfunc_loop a junk n s1 = Some (Returns s2)"
      "prints (concat (map (\<lambda>i. dec i @ [0x0a]) [Suc (Suc v)..<Suc (Suc v + n)])) s1 s2" "lock (lk (gm s2)) = 0" "mlock (gm s2) \<noteq> 1"
      "globalTestVar s2 = of_nat (Suc v + n)" "thrqueue s2 = thrqueue s1" "thr_current s2 = thr_current s1" by blast
    have "[Suc v..<Suc (v + Suc n)] = Suc v # [Suc (Suc v)..<Suc (Suc v + n)]" by (subst upt_conv_Cons) simp_all
    with prints_trans [OF s1(2) s2(2)] s1 s2 show ?case by (simp add: add.assoc del: upt_Suc mfunc_loop.simps)
  qed (simp add: prints_Nil)
  with that show ?thesis by blast
qed

section \<open>Two threads in the table\<close>

lemma two_created:
  assumes "thr_ok s" "\<forall>i < 256. status (thrqueue s ! i) = THR_UNUSED"
  obtains u w where "snd (thrCreate sy f1 0 (snd (thrCreate sy f0 0 s))) = s\<lparr>thrqueue := (thrqueue s)[0 := u, 1 := w]\<rparr>"
    "status u = THR_READY" "counter u = 100" "status w = THR_READY" "counter w = 100"
proof -
  have len: "length (thrqueue s) = 256" using thr_okD(1) [OF assms(1)] .
  then have "thrAlloc s = Some 0" using assms(2) by (simp add: thrAlloc_Some)
  from create_form [OF assms(1) this, of sy f0 0] obtain u where
    u: "snd (thrCreate sy f0 0 s) = s\<lparr>thrqueue := (thrqueue s)[0 := u]\<rparr>" "status u = THR_READY" "counter u = 100" by blast
  have ok: "thr_ok (snd (thrCreate sy f0 0 s))" by (rule thr_ok_keeps [OF assms(1) calm_keeps [OF calm_create [OF assms(1)]]])
  have "thrAlloc (snd (thrCreate sy f0 0 s)) = Some 1"
    using assms(2) len u(2) by (simp add: thrAlloc_Some u(1))
  from create_form [OF ok this, of sy f1 0] obtain w where
    w: "snd (thrCreate sy f1 0 (snd (thrCreate sy f0 0 s))) =
      (snd (thrCreate sy f0 0 s))\<lparr>thrqueue := (thrqueue (snd (thrCreate sy f0 0 s)))[1 := w]\<rparr>"
      "status w = THR_READY" "counter w = 100"
    by blast
  from w(1) have "snd (thrCreate sy f1 0 (snd (thrCreate sy f0 0 s))) = s\<lparr>thrqueue := (thrqueue s)[0 := u, 1 := w]\<rparr>"
    unfolding u(1) by simp
  with that u w show ?thesis by blast
qed

text \<open>\<open>pair\<close>: slot 0 runs and slot 1 is ready with a full counter, the others are unused.\<close>

definition pair :: "'a thr_scheme \<Rightarrow> bool" where
  "pair s \<longleftrightarrow> length (thrqueue s) = 256 \<and> thr_current s = Thr 0 \<and> status (thrqueue s ! 0) = THR_RUNNING \<and>
     status (thrqueue s ! 1) = THR_READY \<and> counter (thrqueue s ! 1) = 100 \<and>
     (\<forall>j < 256. 1 < j \<longrightarrow> status (thrqueue s ! j) = THR_UNUSED)"

lemma pair_dispatched:
  assumes "length ts = 256" "\<forall>i < 256. status (ts ! i) = THR_UNUSED"
    and "status u = THR_READY" "counter u = 100" "status w = THR_READY" "counter w = 100"
    and "v = s\<lparr>thrqueue := ts[0 := u, 1 := w]\<rparr>"
  obtains t where "thrSched_step v = v\<lparr>thrqueue := t, thr_current := Thr 0, sched_t := Thr 0\<rparr>" "pair (thrSched_step v)"
proof -
  have "sched_pick v = Some 0" using table_pick [of v 100 100] assms by simp
  note d = dispatch_Some [OF this]
  have "pair (thrSched_step v)" unfolding d using assms by (simp add: pair_def)
  with that d show ?thesis by blast
qed

lemma pair_started:
  assumes "thr_ok s0" "\<forall>i < 256. status (thrqueue s0 ! i) = THR_UNUSED"
    and "T = snd (thrCreate sy f1 0 (snd (thrCreate sy f0 0 s0)))"
  obtains ts where "thrSched_step T = s0\<lparr>thrqueue := ts, thr_current := Thr 0, sched_t := Thr 0\<rparr>" "pair (thrSched_step T)"
proof -
  obtain u w where c: "T = s0\<lparr>thrqueue := (thrqueue s0)[0 := u, 1 := w]\<rparr>"
    "status u = THR_READY" "counter u = 100" "status w = THR_READY" "counter w = 100"
    by (rule two_created [OF assms(1,2)]) (use assms(3) in blast)
  obtain ts where "thrSched_step T = T\<lparr>thrqueue := ts, thr_current := Thr 0, sched_t := Thr 0\<rparr>" "pair (thrSched_step T)"
    by (rule pair_dispatched [OF thr_okD(1) [OF assms(1)] assms(2) c(2-5) c(1)])
  then show ?thesis using that c(1) by simp
qed

lemma pair_exit:
  assumes "pair s"
  obtains t where "thrExit s = s\<lparr>thrqueue := t, thr_current := Thr 1, sched_t := Thr 1\<rparr>"
    "\<forall>x \<in> set t. status x \<noteq> THR_SLEEPING"
proof -
  define z where "z = upd_thr (thr_current s) (\<lambda>t. t\<lparr>status := THR_ZOMBIE\<rparr>) s"
  have z: "z = s\<lparr>thrqueue := (thrqueue s)[0 := (thrqueue s ! 0)\<lparr>status := THR_ZOMBIE\<rparr>]\<rparr>" "length (thrqueue z) = 256"
    "thrqueue z ! 1 = thrqueue s ! 1" "status (thrqueue z ! 0) = THR_ZOMBIE"
    using assms by (simp_all add: z_def pair_def upd_thr_def)
  have other: "status (thrqueue z ! j) \<noteq> THR_READY \<and> status (thrqueue z ! j) \<noteq> THR_SLEEPING" if "j < 256" "j \<noteq> 1" for j
    using assms that z(4) by (cases "j = 0") (simp_all add: z(1) pair_def)
  have prio: "prio_of (thrqueue z ! 1) = 100" "\<And>j. j < 256 \<Longrightarrow> j \<noteq> 1 \<Longrightarrow> prio_of (thrqueue z ! j) = 0"
    using assms other z(3) by (simp_all add: prio_of_def pair_def)
  have pick: "sched_pick z = Some 1"
  proof (rule krn.pick_eqI)
    show "table_prio z ! j \<le> table_prio z ! 1" if "j < length (table_prio z)" for j
      using that prio z(2) by (cases "j = 1") simp_all
    show "table_prio z ! j < table_prio z ! 1" if "j < 1" for j
      using that prio z(2) by simp
  qed (use prio z(2) in simp_all)
  define t where "t = (thrqueue z)[1 := (thrqueue z ! 1)\<lparr>status := THR_RUNNING\<rparr>]"
  have "thrExit s = s\<lparr>thrqueue := t, thr_current := Thr 1, sched_t := Thr 1\<rparr>"
    unfolding thrExit_def z_def [symmetric] dispatch_Some [OF pick] t_def [symmetric] by (simp add: z(1))
  moreover have "status (t ! j) \<noteq> THR_SLEEPING" if "j < 256" for j
    using other [OF that] that z(2) by (cases "j = 1") (simp_all add: t_def)
  then have "\<forall>x \<in> set t. status x \<noteq> THR_SLEEPING" using z(2) by (auto simp: in_set_conv_nth t_def)
  ultimately show ?thesis using that by blast
qed

lemma pair_awake:
  assumes "pair s"
  shows "\<forall>x \<in> set (thrqueue s). status x \<noteq> THR_SLEEPING"
proof
  fix x assume "x \<in> set (thrqueue s)"
  then obtain j where "j < 256" "x = thrqueue s ! j" using assms by (auto simp: in_set_conv_nth pair_def)
  with assms show "status x \<noteq> THR_SLEEPING" by (cases "j = 0"; cases "j = 1") (simp_all add: pair_def)
qed

section \<open>The condition variable\<close>

lemma signal_none: "\<forall>t \<in> set ts. status t \<noteq> THR_SLEEPING \<Longrightarrow> signal_scan w ts = ts"
  by (induction ts) (auto simp: sleeps_on_def)

lemma gfunc0_free:
  assumes "lock (gtLock s) = 0" "\<forall>t \<in> set (thrqueue s). status t \<noteq> THR_SLEEPING"
  shows "gfunc0 key s = Some (thrExit (s\<lparr>iflag := True, globalTestVar := globalTestVar s + 10\<rparr>))"
proof -
  have "signal_scan key (drop 1 (thrqueue s)) = drop 1 (thrqueue s)"
    using assms(2) by (intro signal_none) (auto dest: in_set_dropD)
  moreover have g: "gtLock s = \<lparr>lock = 0\<rparr>" using assms(1) by (cases "gtLock s") simp
  moreover have e: "s\<lparr>globalTestVar := x, iflag := True, gtLock := \<lparr>lock = 0\<rparr>\<rparr> = s\<lparr>iflag := True, globalTestVar := x\<rparr>" for x
    using g by (cases s) simp
  ultimately show ?thesis
    by (simp add: e gfunc0_def spinlockLock_free spinlockUnlock_def thrCondSignal_def cli_def sti_def Let_def)
qed

lemma gfunc1_free:
  fixes s :: "'a tests_scheme"
  assumes "lock (gtLock s) = 0" "lock (cslLock s) = 0" "globalTestVar s = of_nat n" "n < 2147483648" "n \<noteq> 23"
  obtains s' where "gfunc1 key junk s = Some s'" "prints (map of_char ''gfunc: '' @ dec n @ [0x0a]) s s'"
proof -
  define T where "T = map of_char ''gfunc: '' @ dec n @ [0x0a]"
  define u where "u = s\<lparr>iflag := False, gtLock := (gtLock s)\<lparr>lock := 1\<rparr>\<rparr>"
  have u: "lock (cslLock u) = 0" "screen u = screen s" using assms(2) by (simp_all add: u_def screen_def)
  have gu: "globalTestVar u = of_nat n" by (simp add: u_def assms(3))
  have "fmt_text (cstr (''gfunc: %d'' @ nl)) [Num (of_nat n)] = Some (T)"
    using num_text_dec [OF assms(4)] by (simp add: cstr_def arg_text_def T_def)
  note pf = printf_prints [OF u(1) this]
  define w where "w = say (T) u"
  have "(of_nat n :: u32) \<noteq> 23"
    using assms(4,5) of_nat_u32_eq_iff [of n 23] by simp
  then have run: "gfunc1 key junk s = Some (thrExit (w\<lparr>iflag := True, gtLock := (gtLock w)\<lparr>lock := 0\<rparr>\<rparr>))"
    using pf(1) assms(1,3) gu by (simp add: gfunc1_def spinlockLock_free spinlockUnlock_def cli_def sti_def u_def [symmetric] w_def [symmetric] Let_def)
  have "screen (upd_thr r f v) = screen v" "cslLock (upd_thr r f v) = cslLock v" for r f and v :: "'a tests_scheme"
    by (cases r; simp add: upd_thr_def screen_def)+
  then have "screen (thrExit v) = screen v" "cslLock (thrExit v) = cslLock v" for v :: "'a tests_scheme"
    by (simp_all add: thrExit_def thrSched_step_def Let_def) (simp_all add: screen_def)
  then have "prints T s (thrExit (w\<lparr>iflag := True, gtLock := (gtLock w)\<lparr>lock := 0\<rparr>\<rparr>))"
    by (intro prints_cong [OF pf(2) u(2) [symmetric]]) (simp_all add: w_def screen_def)
  from that [OF run this [unfolded T_def]] show ?thesis .
qed

section \<open>Creation\<close>

lemma say_table: "thrqueue (say t s) = thrqueue (s :: 'a thr_scheme)"
proof -
  obtain b r c v l where "say t s = s\<lparr>iflag := b, row := r, col := c, videoMemory := v, cslLock := l\<rparr>" by (rule say_form)
  then show ?thesis by simp
qed

definition in_use :: "'a thr_scheme \<Rightarrow> nat \<Rightarrow> bool" where
  "in_use s i \<longleftrightarrow> (\<forall>j < i. status (thrqueue s ! j) = THR_READY) \<and> (\<forall>j. i \<le> j \<longrightarrow> j < 256 \<longrightarrow> status (thrqueue s ! j) = THR_UNUSED)"

lemma create_next:
  assumes "thr_ok s" "in_use s i" "i < 256"
  obtains t where "thrCreate sy f x s = (of_nat i, s\<lparr>thrqueue := (thrqueue s)[i := t]\<rparr>)" "status t = THR_READY"
    "get32 (kstack t) 944 = x" "thr_ok (s\<lparr>thrqueue := (thrqueue s)[i := t]\<rparr>)" "in_use (s\<lparr>thrqueue := (thrqueue s)[i := t]\<rparr>) (Suc i)"
proof -
  have len: "length (thrqueue s) = 256" using thr_okD(1) [OF assms(1)] .
  have "thrAlloc s = Some i" using assms(2,3) len by (simp add: thrAlloc_Some in_use_def)
  moreover note fr = thread_setup_frame [OF thr_okD(3) [OF assms(1,3)]]
  ultimately have c: "thrCreate sy f x s = (of_nat i, s\<lparr>thrqueue := (thrqueue s)[i := thread_setup sy f x i (thrqueue s ! i)]\<rparr>)"
    using assms(3) len by (simp add: thrCreate_def upd_thr_def Let_def thr_okD(2) [OF assms(1,3)])
  have "thr_ok (snd (thrCreate sy f x s))" by (rule thr_ok_keeps [OF assms(1) calm_keeps [OF calm_create [OF assms(1)]]])
  then have ok: "thr_ok (s\<lparr>thrqueue := (thrqueue s)[i := thread_setup sy f x i (thrqueue s ! i)]\<rparr>)" by (simp add: c)
  have "in_use (s\<lparr>thrqueue := (thrqueue s)[i := thread_setup sy f x i (thrqueue s ! i)]\<rparr>) (Suc i)"
    using assms(2,3) len fr(1) by (auto simp: in_use_def nth_list_update less_Suc_eq)
  from that [OF c fr(1,10) ok this] show ?thesis .
qed

section \<open>Properties\<close>

text \<open>
  C29. \<^verbatim>\<open>mtxTest\<close> without interruption: the dispatcher starts the first thread, whose hundred rounds under the mutex end
  with the mutex free; its exit starts the second; together they print 24 to 223, each number once and in order.
\<close>

theorem mtxTest_counts:
  fixes s :: "'a tests_scheme"
  assumes "thr_ok s" "\<forall>i < 256. status (thrqueue s ! i) = THR_UNUSED" "lock (cslLock s) = 0"
  shows "\<exists>s1 s2. mfunc a junk (thrSched_step (mtxTest sy fm s)) = Some (Returns s1) \<and> thr_current s1 = Thr 0 \<and>
    mfunc a junk (thrExit s1) = Some (Returns s2) \<and> thr_current s2 = Thr 1 \<and> globalTestVar s2 = 223 \<and>
    prints (concat (map (\<lambda>i. dec i @ [0x0a]) [24..<224])) s s2"
proof -
  define s0 where "s0 = s\<lparr>gm := thrMutexInit (gm s), globalTestVar := 23\<rparr>"
  have ok: "thr_ok s0" "\<forall>i < 256. status (thrqueue s0 ! i) = THR_UNUSED" using assms(1,2) by (simp_all add: s0_def thr_ok_def)
  have "mtxTest sy fm s = snd (thrCreate sy fm 0 (snd (thrCreate sy fm 0 s0)))"
    by (simp add: mtxTest_def s0_def case_prod_beta Let_def)
  then obtain ts where d: "thrSched_step (mtxTest sy fm s) = s0\<lparr>thrqueue := ts, thr_current := Thr 0, sched_t := Thr 0\<rparr>"
    "pair (thrSched_step (mtxTest sy fm s))" by (rule pair_started [OF ok])
  define p where "p = thrSched_step (mtxTest sy fm s)"
  have pe: "p = s0\<lparr>thrqueue := ts, thr_current := Thr 0, sched_t := Thr 0\<rparr>" by (simp only: p_def d(1))
  have p: "lock (cslLock p) = 0" "lock (lk (gm p)) = 0" "mlock (gm p) \<noteq> 1" "globalTestVar p = of_nat 23" "screen p = screen s"
    using assms(3) by (simp_all add: pe s0_def thrMutexInit_def spinlockInit_def screen_def Let_def)
  have sl: "\<forall>x \<in> set (thrqueue p). status x \<noteq> THR_SLEEPING" using d(2) pair_awake by (simp add: p_def)
  obtain s1 where s1: "mfunc_loop a junk 100 p = Some (Returns s1)"
    "prints (concat (map (\<lambda>i. dec i @ [0x0a]) [Suc 23..<Suc (23 + 100)])) p s1" "lock (lk (gm s1)) = 0" "mlock (gm s1) \<noteq> 1"
    "globalTestVar s1 = of_nat (23 + 100)" "thrqueue s1 = thrqueue p" "thr_current s1 = thr_current p"
    by (rule mfunc_counts [OF p(1-4) _ sl, of 100 a junk]) simp_all
  have "pair s1" using d(2) s1(6,7) by (simp add: pair_def p_def)
  then obtain t' where e: "thrExit s1 = s1\<lparr>thrqueue := t', thr_current := Thr 1, sched_t := Thr 1\<rparr>"
    "\<forall>x \<in> set t'. status x \<noteq> THR_SLEEPING" by (rule pair_exit)
  define q where "q = thrExit s1"
  have q: "lock (cslLock q) = 0" "lock (lk (gm q)) = 0" "mlock (gm q) \<noteq> 1" "globalTestVar q = of_nat 123" "screen q = screen s1"
    "\<forall>x \<in> set (thrqueue q). status x \<noteq> THR_SLEEPING" "thr_current q = Thr 1"
    using prints_lock [OF s1(2)] s1(3-5) e(2) by (simp_all add: q_def e(1) screen_def)
  obtain s2 where s2: "mfunc_loop a junk 100 q = Some (Returns s2)"
    "prints (concat (map (\<lambda>i. dec i @ [0x0a]) [Suc 123..<Suc (123 + 100)])) q s2" "globalTestVar s2 = of_nat (123 + 100)"
    "thr_current s2 = thr_current q"
    by (rule mfunc_counts [OF q(1-4) _ q(6), of 100 a junk]) simp_all
  have "prints (concat (map (\<lambda>i. dec i @ [0x0a]) [24..<124])) s s1"
    using prints_cong [OF s1(2), of s s1] p(5) by simp
  moreover have "prints (concat (map (\<lambda>i. dec i @ [0x0a]) [124..<224])) s1 s2"
    using prints_cong [OF s2(2), of s1 s2] q(5) by simp
  moreover have "[24..<224] = [24..<124] @ [124..<124 + 100]" by (subst upt_add_eq_append [symmetric]) simp_all
  ultimately have "prints (concat (map (\<lambda>i. dec i @ [0x0a]) [24..<224])) s s2"
    using prints_trans by fastforce
  moreover have "thr_current s1 = Thr 0" using \<open>pair s1\<close> by (simp add: pair_def)
  ultimately show ?thesis
    using s1(1) s2(1,3,4) q(7) by (auto simp: mfunc_def p_def q_def)
qed

text \<open>
  \<^verbatim>\<open>cvTest\<close> without interruption: the first thread raises the variable and leaves the processor to the second,
  which therefore does not wait and prints the new value.
\<close>

theorem cvTest_hands_over:
  fixes s :: "'a tests_scheme"
  assumes "thr_ok s" "\<forall>i < 256. status (thrqueue s ! i) = THR_UNUSED" "lock (cslLock s) = 0"
  shows "\<exists>s1 s2. gfunc0 key (thrSched_step (cvTest sy f0 f1 s)) = Some s1 \<and> thr_current s1 = Thr 1 \<and>
    gfunc1 key junk s1 = Some s2 \<and> prints (lines [''gfunc: 33'']) s s2"
proof -
  define s0 where "s0 = s\<lparr>gtLock := spinlockInit (gtLock s), globalTestVar := 23\<rparr>"
  have ok: "thr_ok s0" "\<forall>i < 256. status (thrqueue s0 ! i) = THR_UNUSED" using assms(1,2) by (simp_all add: s0_def thr_ok_def)
  have "cvTest sy f0 f1 s = snd (thrCreate sy f1 0 (snd (thrCreate sy f0 0 s0)))"
    by (simp add: cvTest_def s0_def case_prod_beta Let_def)
  then obtain ts where d: "thrSched_step (cvTest sy f0 f1 s) = s0\<lparr>thrqueue := ts, thr_current := Thr 0, sched_t := Thr 0\<rparr>"
    "pair (thrSched_step (cvTest sy f0 f1 s))" by (rule pair_started [OF ok])
  define p where "p = thrSched_step (cvTest sy f0 f1 s)"
  have pe: "p = s0\<lparr>thrqueue := ts, thr_current := Thr 0, sched_t := Thr 0\<rparr>" by (simp only: p_def d(1))
  define v where "v = p\<lparr>iflag := True, globalTestVar := 33\<rparr>"
  have "\<forall>x \<in> set (thrqueue p). status x \<noteq> THR_SLEEPING" using d(2) pair_awake by (simp add: p_def)
  then have g0: "gfunc0 key p = Some (thrExit v)"
    using gfunc0_free [of p key] by (simp add: v_def pe s0_def spinlockInit_def)
  have "pair v" using d(2) by (simp add: pair_def v_def p_def)
  then obtain t' where e: "thrExit v = v\<lparr>thrqueue := t', thr_current := Thr 1, sched_t := Thr 1\<rparr>" by (rule pair_exit)
  have q: "lock (gtLock (thrExit v)) = 0" "lock (cslLock (thrExit v)) = 0" "globalTestVar (thrExit v) = of_nat 33"
    "screen (thrExit v) = screen s"
    using assms(3) unfolding e by (simp_all add: v_def pe s0_def spinlockInit_def screen_def)
  obtain s2 where s2: "gfunc1 key junk (thrExit v) = Some s2"
    "prints (map of_char ''gfunc: '' @ dec 33 @ [0x0a]) (thrExit v) s2"
    by (rule gfunc1_free [OF q(1-3), of key junk]) simp_all
  have "thr_current (thrExit v) = Thr 1" by (simp add: e)
  moreover have "prints (lines [''gfunc: 33'']) s s2"
    using prints_cong [OF s2(2) q(4) [symmetric] refl refl] by (simp add: dec.simps)
  ultimately show ?thesis using g0 s2(1) by (auto simp: p_def)
qed

text \<open>
  \<^verbatim>\<open>thrTest\<close> in an empty table: four threads in the first four slots, each with the address of its own string,
  two lines on the screen, and the first thread killed before it has run.
\<close>

theorem thrTest_creates:
  fixes s :: "'a thr_scheme"
  assumes "thr_ok s" "\<forall>i < 256. status (thrqueue s ! i) = THR_UNUSED" "lock (cslLock s) = 0"
  shows "\<exists>s'. thrTest sy fp ta tb tc td s = Some s' \<and> prints (lines [''thread A, B, C joined'', ''thread D joined'']) s s' \<and>
    map (\<lambda>i. status (thrqueue s' ! i)) [0, 1, 2, 3] = [THR_ZOMBIE, THR_READY, THR_READY, THR_READY] \<and>
    map (\<lambda>i. get32 (kstack (thrqueue s' ! i)) 944) [0, 1, 2, 3] = [ta, tb, tc, td]"
proof -
  have un: "in_use s 0" using assms(2) by (simp add: in_use_def)
  obtain t0 where t0: "thrCreate sy fp ta s = (of_nat 0, s\<lparr>thrqueue := (thrqueue s)[0 := t0]\<rparr>)" "status t0 = THR_READY"
    "get32 (kstack t0) 944 = ta" "thr_ok (s\<lparr>thrqueue := (thrqueue s)[0 := t0]\<rparr>)" "in_use (s\<lparr>thrqueue := (thrqueue s)[0 := t0]\<rparr>) (Suc 0)"
    by (rule create_next [OF assms(1) un, of sy fp ta]) simp_all
  define s1 where "s1 = s\<lparr>thrqueue := (thrqueue s)[0 := t0]\<rparr>"
  obtain t1 where t1: "thrCreate sy fp tb s1 = (of_nat (Suc 0), s1\<lparr>thrqueue := (thrqueue s1)[Suc 0 := t1]\<rparr>)" "status t1 = THR_READY"
    "get32 (kstack t1) 944 = tb" "thr_ok (s1\<lparr>thrqueue := (thrqueue s1)[Suc 0 := t1]\<rparr>)" "in_use (s1\<lparr>thrqueue := (thrqueue s1)[Suc 0 := t1]\<rparr>) (Suc (Suc 0))"
    by (rule create_next [OF t0(4,5) [folded s1_def], of sy fp tb]) simp_all
  define s2 where "s2 = s1\<lparr>thrqueue := (thrqueue s1)[Suc 0 := t1]\<rparr>"
  obtain t2 where t2: "thrCreate sy fp tc s2 = (of_nat (Suc (Suc 0)), s2\<lparr>thrqueue := (thrqueue s2)[Suc (Suc 0) := t2]\<rparr>)"
    "status t2 = THR_READY" "get32 (kstack t2) 944 = tc" "thr_ok (s2\<lparr>thrqueue := (thrqueue s2)[Suc (Suc 0) := t2]\<rparr>)"
    "in_use (s2\<lparr>thrqueue := (thrqueue s2)[Suc (Suc 0) := t2]\<rparr>) (Suc (Suc (Suc 0)))"
    by (rule create_next [OF t1(4,5) [folded s2_def], of sy fp tc]) simp_all
  define s3 where "s3 = s2\<lparr>thrqueue := (thrqueue s2)[Suc (Suc 0) := t2]\<rparr>"
  have l3: "lock (cslLock s3) = 0" "screen s3 = screen s" using assms(3) by (simp_all add: s3_def s2_def s1_def screen_def)
  have f1: "fmt_text (cstr (''thread A, B, C joined'' @ nl)) [] = Some (lines [''thread A, B, C joined''])" by (simp add: cstr_def)
  have f2: "fmt_text (cstr (''thread D joined'' @ nl)) [] = Some (lines [''thread D joined''])" by (simp add: cstr_def)
  note p3 = printf_prints [OF l3(1) f1]
  define s4 where "s4 = say (lines [''thread A, B, C joined'']) s3"
  have p3': "printf (cstr (''thread A, B, C joined'' @ nl)) [] s3 = Some s4" using p3(1) by (simp only: s4_def)
  have q4: "thrqueue s4 = thrqueue s3" by (simp add: s4_def say_table)
  have ok4: "thr_ok s4" "in_use s4 3"
    using t2(4,5) q4 by (simp_all add: s3_def [symmetric] thr_ok_def in_use_def numeral_3_eq_3)
  obtain t3 where t3: "thrCreate sy fp td s4 = (of_nat 3, s4\<lparr>thrqueue := (thrqueue s4)[3 := t3]\<rparr>)" "status t3 = THR_READY"
    "get32 (kstack t3) 944 = td"
    by (rule create_next [OF ok4, of sy fp td]) simp_all
  define s5 where "s5 = s4\<lparr>thrqueue := (thrqueue s4)[3 := t3]\<rparr>"
  have l5: "lock (cslLock s5) = 0" "screen s5 = screen s4"
    using prints_lock [OF p3(2)] by (simp_all add: s5_def s4_def screen_def)
  note p5 = printf_prints [OF l5(1) f2]
  define s6 where "s6 = say (lines [''thread D joined'']) s5"
  have p5': "printf (cstr (''thread D joined'' @ nl)) [] s5 = Some s6" using p5(1) by (simp only: s6_def)
  have q6: "thrqueue s6 = (thrqueue s)[0 := t0, 1 := t1, 2 := t2, 3 := t3]"
    by (simp add: s6_def say_table s5_def q4 s3_def s2_def s1_def numeral_2_eq_2)
  have len: "length (thrqueue s) = 256" "thrqueue s \<noteq> []" using thr_okD(1) [OF assms(1)] by auto
  define s7 where "s7 = s6\<lparr>thrqueue := (thrqueue s6)[0 := (thrqueue s6 ! 0)\<lparr>status := THR_ZOMBIE\<rparr>]\<rparr>"
  have "thrTest sy fp ta tb tc td s = Some s7"
    using t0(1) t1(1) t2(1) p3' t3(1) p5' len
    by (simp add: thrTest_def s1_def [symmetric] s2_def [symmetric] s3_def [symmetric] s5_def [symmetric] thrKill_def upd_thr_def s7_def q6)
  moreover have "prints (lines [''thread A, B, C joined''] @ lines [''thread D joined'']) s s7"
    by (rule prints_trans [of _ s s4]) (rule prints_cong [OF p3(2)] prints_cong [OF p5(2)];
      use l3 l5 in \<open>simp add: s4_def s6_def s7_def screen_def\<close>)+
  ultimately show ?thesis
    using t0(2,3) t1(2,3) t2(2,3) t3(2,3) len by (auto simp: s7_def q6)
qed

text \<open>A thread of \<^verbatim>\<open>thrTest\<close> never returns.\<close>

theorem func_never_returns: "func args s = None"
  using func_loop_never [of args 0 s] by (cases "func_loop args 0 s") (auto simp: func_def)

section \<open>On a concrete state\<close>

definition demo_tests :: tests where
  "demo_tests = thr.extend fresh_threads
     \<lparr>gtLock = \<lparr>lock = 1\<rparr>, globalTestVar = 0, gm = \<lparr>mlock = 1, lk = \<lparr>lock = 1\<rparr>\<rparr>\<rparr>"

lemma demo_tests_facts:
  "thr_ok demo_tests" "\<forall>i < 256. status (thrqueue demo_tests ! i) = THR_UNUSED" "lock (cslLock demo_tests) = 0"
proof -
  have q: "thrqueue demo_tests = thrqueue fresh_threads" by (simp add: demo_tests_def thr.defs)
  show "thr_ok demo_tests" using fresh_threads_facts(1) by (simp add: thr_ok_def q)
  show "\<forall>i < 256. status (thrqueue demo_tests ! i) = THR_UNUSED"
    by (simp add: q fresh_threads_def del: upt_Suc)
qed (simp add: demo_tests_def thr.defs fresh_threads_def idle_threads_def)

theorem mtxTest_counts_witness:
  "\<exists>s1 s2. mfunc 64 ThrNull (thrSched_step (mtxTest demo_syms 4096 demo_tests)) = Some (Returns s1) \<and>
    mfunc 64 ThrNull (thrExit s1) = Some (Returns s2) \<and> globalTestVar s2 = 223"
  using mtxTest_counts [OF demo_tests_facts, of 64 ThrNull demo_syms 4096] by blast

theorem cvTest_hands_over_witness:
  "\<exists>s1 s2. gfunc0 96 (thrSched_step (cvTest demo_syms 4096 8192 demo_tests)) = Some s1 \<and>
    gfunc1 96 ThrNull s1 = Some s2 \<and> prints (lines [''gfunc: 33'']) demo_tests s2"
  using cvTest_hands_over [OF demo_tests_facts, of 96 demo_syms 4096 8192 ThrNull] by blast

theorem thrTest_creates_witness:
  "\<exists>s'. thrTest demo_syms 4096 1 2 3 4 demo_tests = Some s' \<and> status (thrqueue s' ! 0) = THR_ZOMBIE \<and>
    get32 (kstack (thrqueue s' ! 3)) 944 = 4"
  using thrTest_creates [OF demo_tests_facts, of demo_syms 4096 1 2 3 4] by auto

end
