(* ===== verification/Memory_Tests.thy ===== *)
theory Memory_Tests
  imports Kernel Self_Tests
begin

text \<open>
  The test functions of \<^verbatim>\<open>src/memory.c\<close> on the kernel's memory and console: \<open>pageTest\<close>, \<open>mapTest\<close> and
  \<open>mallocTest\<close>. They run on the memory that \<^verbatim>\<open>kmemInit\<close> has set up; how many pages that takes is counted here.
\<close>

section \<open>The test functions\<close>

definition page_alloc :: "kernel \<Rightarrow> u32 \<times> kernel" where
  "page_alloc s = (let (p, m) = allocPage (k_mem s) in (p, s\<lparr>k_mem := m\<rparr>))"

text \<open>\<open>junk\<close> is the uninitialised pointer of \<^verbatim>\<open>freePage\<close>.\<close>

definition pageTest :: "u32 \<Rightarrow> kernel \<Rightarrow> kernel option" where
  "pageTest junk s = do {
     let (paddr0, s) = page_alloc s;
     s \<leftarrow> printf (cstr (''page addr0: %x'' @ nl)) [Num paddr0] s;
     let (paddr1, s) = page_alloc s;
     s \<leftarrow> printf (cstr (''page addr1: %x'' @ nl)) [Num paddr1] s;
     let (paddr2, s) = page_alloc s;
     s \<leftarrow> printf (cstr (''page addr2: %x'' @ nl)) [Num paddr2] s;
     let s = s\<lparr>k_mem := freePage junk paddr1 (k_mem s)\<rparr>;
     let (paddr3, s) = page_alloc s;
     printf (cstr (''page addr3: %x'' @ nl)) [Num paddr3] s }"

definition paddr_row :: "u32 \<Rightarrow> u32 \<Rightarrow> kernel \<Rightarrow> kernel option" where
  "paddr_row pa ta s = printf (cstr (''paddr: %x, trans: %x'' @ nl)) [Num pa, Num ta] s"

text \<open>The statements that \<^verbatim>\<open>mapTest\<close> has twice, and its loop over the four pages.\<close>

definition map_fresh :: "kernel \<Rightarrow> kernel option" where
  "map_fresh s = do {
     let (pa, s) = page_alloc s;
     let va = PTOV pa;
     let s = s\<lparr>k_mem := snd (map_page (kpgdir (k_mem s)) pa va PAGE_RW (k_mem s))\<rparr>;
     let ta = translate (kpgdir (k_mem s)) va (k_mem s);
     paddr_row pa ta s }"

definition map_row :: "u32 \<Rightarrow> nat \<Rightarrow> kernel \<Rightarrow> kernel option" where
  "map_row pa i s =
     (let ta = translate (kpgdir (k_mem s)) (PTOV (pa + PGSIZE * of_nat i)) (k_mem s)
      in paddr_row (pa + PGSIZE * of_nat i) ta s)"

definition mapTest :: "kernel \<Rightarrow> kernel option" where
  "mapTest s = do {
     s \<leftarrow> map_fresh s;
     s \<leftarrow> map_fresh s;
     let (pa2, s) = page_alloc s;
     m \<leftarrow> rangemap (kpgdir (k_mem s)) pa2 (PTOV pa2) (PGSIZE * 4) PAGE_RW (k_mem s);
     let s = s\<lparr>k_mem := m\<rparr>;
     for_each (map_row pa2) [0..<4] s }"

text \<open>\<^verbatim>\<open>sizeof (struct dentry)\<close> is 104, \<^verbatim>\<open>sizeof (struct inode)\<close> 324: the inode on disk of 292 and eight words.\<close>

definition mallocTest :: "kernel \<Rightarrow> kernel option" where
  "mallocTest s = do {
     s \<leftarrow> printf (cstr (''dentry: %x, inode: %x'' @ nl)) [Num 104, Num 324] s;
     (p1, m) \<leftarrow> sbrk 104 (k_mem s);
     let s = s\<lparr>k_mem := m\<rparr>;
     s \<leftarrow> printf (cstr (''sbrk: %x'' @ nl)) [Num p1] s;
     (p2, m) \<leftarrow> sbrk 324 (k_mem s);
     let s = s\<lparr>k_mem := m\<rparr>;
     printf (cstr (''sbrk: %x'' @ nl)) [Num p2] s }"

section \<open>Hexadecimal text\<close>

definition hex :: "u32 \<Rightarrow> u8 list" where
  "hex w = the (num_text w 16)"

lemma num_text_hex: "w \<noteq> 0x80000000 \<Longrightarrow> num_text w 16 = Some (hex w)"
  using num_text_reads_back [of w 16] by (auto simp: hex_def)

lemma hex_sizes: "num_text 104 16 = Some (map of_char ''68'')" "num_text 324 16 = Some (map of_char ''144'')"
  by (simp_all add: num_text_def printi_loop.simps [of 104] printi_loop.simps [of 6] printi_loop.simps [of 0]
      printi_loop.simps [of 324] printi_loop.simps [of 20] printi_loop.simps [of 1]
      digit_at_def cstr_def signed_modulo_int_def signed_divide_int_def)

definition row_text :: "u32 \<Rightarrow> u8 list" where
  "row_text p = map of_char ''paddr: '' @ hex p @ map of_char '', trans: '' @ hex p @ [0x0a]"

lemma paddr_row_prints:
  assumes "lock (cslLock s) = 0" "p \<noteq> 0x80000000"
  shows "paddr_row p p s = Some (say (row_text p) s)" "prints (row_text p) s (say (row_text p) s)"
proof -
  have "fmt_text (cstr (''paddr: %x, trans: %x'' @ nl)) [Num p, Num p] = Some (row_text p)"
    using num_text_hex [OF assms(2)] by (simp add: cstr_def arg_text_def row_text_def)
  from printf_prints [OF assms(1) this]
  show "paddr_row p p s = Some (say (row_text p) s)" "prints (row_text p) s (say (row_text p) s)"
    by (simp_all add: paddr_row_def)
qed

lemma say_mem [simp]: "k_mem (say t (s :: kernel)) = k_mem s"
proof -
  have p: "k_mem (putc c u) = k_mem u" for c and u :: kernel by (simp add: putc_def clear_def Let_def)
  have "k_mem (fold putc t u) = k_mem u" for u :: kernel by (induction t arbitrary: u) (simp_all add: p)
  then show ?thesis by (simp add: say_def unlock_console_def spinlockUnlock_def sti_def cli_def Let_def)
qed

lemma prints_mem [simp]: "prints t (s\<lparr>k_mem := m\<rparr>) s' = prints t s s'"
  using screen_fold [of "s\<lparr>k_mem := m\<rparr>" s t] by (simp add: prints_def screen_def)

section \<open>The pages the kernel's directory takes\<close>

lemma pte_present: "pte_of m pgd va \<noteq> 0 \<Longrightarrow> present (entry m pgd (PGDINDEX va))"
  by (auto simp: pte_of_def Let_def split: if_splits)

lemma map_page_brk:
  "pgavail s \<le> 0 \<Longrightarrow> brk (snd (map_page pgd pa va fl s)) =
    (if present (entry (mem s) pgd (PGDINDEX va)) then brk s else brk s + PGSIZE)"
  by (subst map_page_state) (simp add: allocPage_bump)

lemma kernel_page:
  assumes "k < 65536"
  shows "unat (of_nat (4096 * k) :: u32) = 4096 * k" "unat (KERNELBASE + of_nat (4096 * k)) = 134217728 + 4096 * k"
proof -
  show u: "unat (of_nat (4096 * k) :: u32) = 4096 * k" using assms unat_of_nat_u32 [of "4096 * k"] by (simp del: of_nat_mult)
  show "unat (KERNELBASE + of_nat (4096 * k)) = 134217728 + 4096 * k"
    using assms unat_add_lt [of KERNELBASE "of_nat (4096 * k)"] by (simp only: u) simp
qed

lemma same_table:
  assumes "k < 65536" "k mod 1024 \<noteq> 0"
  shows "PGDINDEX (KERNELBASE + of_nat (4096 * (k - 1))) = PGDINDEX (KERNELBASE + of_nat (4096 * k))"
proof -
  obtain j where j: "k = Suc j" using assms(2) by (cases k) auto
  have d: "(134217728 + 4096 * i) div 4194304 = 32 + i div 1024" for i :: nat
    using div_mult2_eq [of "134217728 + 4096 * i" 4096 1024] by simp
  have "j div 1024 = k div 1024" using assms(2) by (simp add: j div_Suc)
  then show ?thesis
    using assms(1) kernel_page(2) [of j] kernel_page(2) [of k]
    by (simp only: word_unat_eq_iff unat_PGDINDEX j diff_Suc_1 d)
qed

lemma table_count:
  "(k + Suc n + 1023) div 1024 - (k + 1023) div 1024 =
    (Suc k + n + 1023) div 1024 - (Suc k + 1023) div 1024 + (if k mod 1024 = 0 then 1 else 0)"
proof -
  have "(Suc k + 1023) div 1024 = (k + 1023) div 1024 + (if k mod 1024 = 0 then 1 else 0)"
    using div_Suc [of "k + 1023" 1024] by (simp add: add.commute [of k 1024])
  moreover have "(Suc k + 1023) div 1024 \<le> (Suc k + n + 1023) div 1024" by (rule div_le_mono) simp
  moreover have "a' = a + e \<Longrightarrow> a' \<le> b \<Longrightarrow> b - a = b - a' + e" for a a' b e :: nat by simp
  moreover have "k + Suc n + 1023 = Suc k + n + 1023" by simp
  ultimately show ?thesis by metis
qed

text \<open>A table for every 1024 pages from the first one on, when the loop starts with a full table.\<close>

lemma rangemap_loop_brk:
  "dir_inv s pgd \<Longrightarrow> room s n \<Longrightarrow> k + n \<le> 65536 \<Longrightarrow>
   (k mod 1024 \<noteq> 0 \<longrightarrow> pte_of (mem s) pgd (KERNELBASE + of_nat (4096 * (k - 1))) \<noteq> 0) \<Longrightarrow>
   rangemap_loop pgd (of_nat (4096 * k)) (of_nat (4096 * (k + n))) (KERNELBASE + of_nat (4096 * k)) PAGE_RW s = Some s' \<Longrightarrow>
   pgavail s' = pgavail s \<and> aligned (brk s') \<and>
   unat (brk s') \<le> unat (brk s) + 4096 * ((k + n + 1023) div 1024 - (k + 1023) div 1024)"
proof (induction n arbitrary: k s)
  case 0
  then show ?case by (simp add: rangemap_loop.simps room_def)
next
  case (Suc n)
  let ?p = "of_nat (4096 * k) :: u32" and ?q = "of_nat (4096 * (k + Suc n)) :: u32" and ?v = "KERNELBASE + of_nat (4096 * k)"
  let ?s = "snd (map_page pgd ?p ?v PAGE_RW s)"
  have k: "k < 65536" using Suc.prems(3) by simp
  have "unat ?q = 4096 * (k + Suc n)" using Suc.prems(3) unat_of_nat_u32 [of "4096 * (k + Suc n)"] by (simp del: of_nat_mult)
  then have lt: "?p < ?q" by (simp only: word_less_nat_alt kernel_page(1) [OF k]) simp
  note step = dir_inv_map_page [OF Suc.prems(1,2), of PAGE_RW ?p ?v]
    and pte = map_page_correct(3) [OF dir_inv_map_pre [OF Suc.prems(1,2), of PAGE_RW ?v], of ?p]
  have nz: "pte_of (mem ?s) pgd ?v \<noteq> 0"
    using pte [of ?v] present_flags [of "PPN ?p" 2] by (auto simp: present_def)
  have av: "pgavail s \<le> 0" using Suc.prems(2) by (simp add: room_def)
  have b: "unat (brk ?s) \<le> unat (brk s) + (if k mod 1024 = 0 then 4096 else 0)"
  proof (cases "k mod 1024 = 0")
    case True
    then show ?thesis using room_Suc(1) [OF Suc.prems(2)] by (simp add: map_page_brk [OF av])
  next
    case False
    with Suc.prems(4) pte_present have "present (entry (mem s) pgd (PGDINDEX ?v))"
      by (metis same_table [OF k])
    with False show ?thesis by (simp add: map_page_brk [OF av])
  qed
  note n = table_count [of k n]
  have "rangemap_loop pgd (of_nat (4096 * Suc k)) (of_nat (4096 * (Suc k + n))) (KERNELBASE + of_nat (4096 * Suc k)) PAGE_RW ?s = Some s'"
  proof -
    have "?p + PGSIZE = of_nat (4096 * Suc k)" "?v + PGSIZE = KERNELBASE + of_nat (4096 * Suc k)"
      "?q = of_nat (4096 * (Suc k + n))" by simp_all
    with Suc.prems(5) lt show ?thesis by (simp only: rangemap_loop.simps [of pgd ?p _ ?v] if_True)
  qed
  from Suc.IH [OF step, of "Suc k"] this nz Suc.prems(3)
  have "pgavail s' = pgavail ?s" "aligned (brk s')"
    "unat (brk s') \<le> unat (brk ?s) + 4096 * ((Suc k + n + 1023) div 1024 - (Suc k + 1023) div 1024)" by simp_all
  moreover have "pgavail ?s = pgavail s" using av by (subst map_page_state) (simp add: allocPage_bump)
  moreover have "x \<le> y + 4096 * D \<Longrightarrow> y \<le> z + (if c then 4096 else 0) \<Longrightarrow> x \<le> z + 4096 * (D + (if c then 1 else 0))"
    for x y z D :: nat and c by (cases c) simp_all
  ultimately show ?case using b by (simp only: n)
qed

text \<open>The kernel's memory as \<^verbatim>\<open>kmemInit\<close> leaves it, up to pages taken since.\<close>

definition linear :: "kmem \<Rightarrow> bool" where
  "linear m \<longleftrightarrow> dir_inv m (kpgdir m) \<and> pgavail m \<le> 0 \<and> aligned (brk m) \<and>
     pte_of (mem m) (kpgdir m) = range_pte 0 KERNELBASE 65536 PAGE_RW (\<lambda>_. 0)"

lemma kmemInit_pages:
  assumes "kernheap < 0x80000000" "kmemInit kernheap s = Some s'"
  shows "linear s'" "kmsize s' = kpgdir s'" "kpgdir s' = PGUPBOUND kernheap"
    "unat (brk s') \<le> unat (PGUPBOUND kernheap) + 266240" "pgavail s' = 0"
proof -
  let ?b = "PGUPBOUND kernheap" and ?c = "cleared_heap kernheap s"
  obtain u where u: "rangemap_loop ?b 0 KERNSIZE KERNELBASE PAGE_RW ?c = Some u" "s' = switchPageTable (kpgdir u) u"
    using assms(2) by (auto simp: kmemInit_eq split: bind_splits)
  have "pgavail u = pgavail ?c \<and> aligned (brk u) \<and> unat (brk u) \<le> unat (brk ?c) + 4096 * 64"
    using rangemap_loop_brk [OF cleared_heap_inv [OF assms(1), of s], of 0 u] u(1) by simp
  moreover have "unat (brk ?c) = unat ?b + 4096"
  proof -
    have "unat kernheap < 2147483648" using assms(1) by (simp add: word_less_nat_alt)
    with unat_PGUPBOUND [of kernheap] show ?thesis
      using unat_add_lt [of ?b 4096] by (simp add: cleared_heap_def Let_def)
  qed
  ultimately have b: "pgavail u = pgavail ?c" "aligned (brk u)" "unat (brk u) \<le> unat ?b + 266240" by auto
  from b(1) show "pgavail s' = 0" by (simp add: u(2) switchPageTable_def cleared_heap_def Let_def)
  from b show "unat (brk s') \<le> unat ?b + 266240" by (simp add: u(2) switchPageTable_def)
  from kmemInit_dir [OF assms(1), of s] assms(2) have d: "kpgdir s' = ?b" "kmsize s' = ?b" "dir_inv s' (kpgdir s')"
    "pgavail s' \<le> 0" "pte_of (mem s') (kpgdir s') = range_pte 0 KERNELBASE 65536 PAGE_RW (\<lambda>_. 0)" by auto
  then show "linear s'" using b(2) by (simp add: linear_def u(2) switchPageTable_def)
  from d show "kmsize s' = kpgdir s'" "kpgdir s' = ?b" by simp_all
qed

lemma linear_room: "linear m \<Longrightarrow> unat (brk m) + 4096 * n < 4294967296 \<Longrightarrow> room m n"
  by (simp add: linear_def room_def)

lemma linear_translate: "linear m \<Longrightarrow> translate (kpgdir m) va m = (if VTOP va < KERNSIZE then VTOP va else 0)"
  by (rule kernel_pte_translate) (simp add: linear_def)

lemma linear_alloc:
  assumes "linear m" "unat (brk m) + 8192 < 4294967296"
  shows "allocPage m = (brk m, m\<lparr>brk := brk m + PGSIZE\<rparr>)" "linear (m\<lparr>brk := brk m + PGSIZE\<rparr>)"
    "unat (brk m + PGSIZE) = unat (brk m) + 4096" "aligned (brk m)"
proof -
  have r: "room m (Suc 0)" using assms by (intro linear_room) simp_all
  show u: "unat (brk m + PGSIZE) = unat (brk m) + 4096" and "aligned (brk m)"
    using room_Suc(1) [OF r] assms(1) by (simp_all add: linear_def)
  show "allocPage m = (brk m, m\<lparr>brk := brk m + PGSIZE\<rparr>)" using assms(1) by (simp add: linear_def allocPage_bump)
  have "taken m x \<Longrightarrow> taken (m\<lparr>brk := brk m + PGSIZE\<rparr>) x" for x using u by (auto simp: taken_def word_less_nat_alt)
  then show "linear (m\<lparr>brk := brk m + PGSIZE\<rparr>)"
    using assms(1) room_Suc(2) [OF r] by (auto simp: linear_def dir_inv_def)
qed

lemma linear_part:
  assumes "aligned p" "p < KERNSIZE" "PPN x = PPN (PTOV p)"
  shows "x - KERNELBASE < KERNSIZE" "PPN (x - KERNELBASE) = p"
proof -
  have k: "aligned KERNELBASE" by (simp add: aligned_def OFFSET_def)
  have "KERNELBASE + PPN (x - KERNELBASE) = KERNELBASE + PPN p"
    using assms(3) PPN_add(1) [OF k, of "x - KERNELBASE"] PPN_add(1) [OF k, of p] by (simp add: PTOV_def add.commute)
  then show p: "PPN (x - KERNELBASE) = p" by (simp add: PPN_aligned [OF assms(1)])
  have "u - u mod 4096 < 4096 * 65536 \<Longrightarrow> u < 4096 * 65536" for u :: nat
    using less_mult_imp_div_less [of "4096 * (u div 4096)" 65536 4096] minus_mod_eq_mult_div [of u 4096] dividend_less_times_div [of 4096 u]
    by simp
  from this [of "unat (x - KERNELBASE)"] show "x - KERNELBASE < KERNSIZE"
    using assms(2) unat_PPN [of "x - KERNELBASE"] by (simp add: p word_less_nat_alt)
qed

text \<open>Mapping a page of the linear part where it is already changes nothing but the bytes of its entry, which stay.\<close>

lemma linear_map:
  assumes "linear m" "unat (brk m) + 4096 < 4294967296" "aligned p" "p < KERNSIZE"
  defines "m' \<equiv> snd (map_page (kpgdir m) p (PTOV p) PAGE_RW m)"
  shows "linear m'" "brk m' = brk m" "kpgdir m' = kpgdir m"
proof -
  have r: "room m (Suc 0)" using assms(1,2) by (intro linear_room) simp_all
  have inv: "dir_inv m (kpgdir m)" and pte: "pte_of (mem m) (kpgdir m) = range_pte 0 KERNELBASE 65536 PAGE_RW (\<lambda>_. 0)"
    using assms(1) by (simp_all add: linear_def)
  have e: "pte_of (mem m) (kpgdir m) x = PPN p OR 2 OR PAGE_PRESENT" if "PPN x = PPN (PTOV p)" for x
    using linear_part [OF assms(3,4) that] by (simp add: pte range_pte_kernel PPN_aligned [OF assms(3)])
  have "pte_of (mem m) (kpgdir m) (PTOV p) \<noteq> 0"
    using e [of "PTOV p"] present_flags [of "PPN p" 2] by (auto simp: present_def)
  from pte_present [OF this] have f: "m' = m\<lparr>mem := mem m'\<rparr>"
    unfolding m'_def by (subst map_page_state) simp
  from arg_cong [OF f, of brk] arg_cong [OF f, of kpgdir] show b: "brk m' = brk m" "kpgdir m' = kpgdir m" by simp_all
  have "pte_of (mem m') (kpgdir m) = pte_of (mem m) (kpgdir m)"
    using map_page_correct(3) [OF dir_inv_map_pre [OF inv r, of PAGE_RW "PTOV p"], of p] e
    by (auto simp: m'_def fun_eq_iff)
  moreover have "dir_inv m' (kpgdir m)" using dir_inv_map_page(1) [OF inv r] by (simp add: m'_def)
  ultimately show "linear m'" using assms(1) b arg_cong [OF f, of pgavail] by (simp add: linear_def)
qed

lemma PTOV_step: "PTOV p + PGSIZE = PTOV (p + PGSIZE)"
  by (simp add: PTOV_def)

lemma linear_range:
  "linear m \<Longrightarrow> unat (brk m) + 4096 < 4294967296 \<Longrightarrow> aligned p \<Longrightarrow> unat p + 4096 * n \<le> 268435456 \<Longrightarrow>
   pub = p + of_nat (4096 * n) \<Longrightarrow>
   \<exists>m'. rangemap_loop (kpgdir m) p pub (PTOV p) PAGE_RW m = Some m' \<and> linear m' \<and> brk m' = brk m \<and> kpgdir m' = kpgdir m"
proof (induction n arbitrary: m p)
  case 0
  then show ?case by (simp add: rangemap_loop.simps)
next
  case (Suc n)
  let ?m = "snd (map_page (kpgdir m) p (PTOV p) PAGE_RW m)"
  have "unat p < 268435456" using Suc.prems(4) by simp
  then have "p < KERNSIZE" by (simp add: word_less_nat_alt)
  note s = linear_map [OF Suc.prems(1-3) this]
  have u: "unat (of_nat (4096 * Suc n) :: u32) = 4096 * Suc n"
    using Suc.prems(4) unat_of_nat_u32 [of "4096 * Suc n"] by (simp del: of_nat_mult)
  have "unat pub = unat p + 4096 * Suc n"
    using Suc.prems(4) unat_add_lt [of p "of_nat (4096 * Suc n)"] by (simp only: Suc.prems(5) u)
  then have lt: "p < pub" by (simp add: word_less_nat_alt)
  have p: "unat (p + PGSIZE) = unat p + 4096" using Suc.prems(4) unat_add_lt [of p 4096] by simp
  have "pub = p + PGSIZE + of_nat (4096 * n)" using Suc.prems(5) by simp
  from Suc.IH [OF s(1) _ aligned_add [OF Suc.prems(3) aligned_PGSIZE(1)] _ this] Suc.prems(2,4)
  obtain m' where "rangemap_loop (kpgdir m) (p + PGSIZE) pub (PTOV (p + PGSIZE)) PAGE_RW ?m = Some m'"
    "linear m'" "brk m' = brk m" "kpgdir m' = kpgdir m" by (auto simp: s(2,3) p)
  with lt show ?case by (simp add: rangemap_loop.simps [of _ p] PTOV_step)
qed

text \<open>The two pages \<^verbatim>\<open>mapTest\<close> maps one by one.\<close>

lemma low_page:
  assumes "unat p < 268435456"
  shows "p < KERNSIZE" "p \<noteq> 0x80000000" "VTOP (PTOV p) = p"
  using assms by (auto simp: word_less_nat_alt VTOP_def PTOV_def)

lemma map_fresh_prints:
  assumes "linear (k_mem s)" "unat (brk (k_mem s)) < 268435456" "lock (cslLock s) = 0"
  shows "\<exists>s'. map_fresh s = Some s' \<and> prints (row_text (brk (k_mem s))) s s' \<and> linear (k_mem s') \<and>
    brk (k_mem s') = brk (k_mem s) + PGSIZE"
proof -
  let ?b = "brk (k_mem s)" and ?m = "k_mem s\<lparr>brk := brk (k_mem s) + PGSIZE\<rparr>"
  define m' where "m' = snd (map_page (kpgdir ?m) ?b (PTOV ?b) PAGE_RW ?m)"
  have "unat ?b + 8192 < 4294967296" using assms(2) by simp
  note a = linear_alloc [OF assms(1) this]
  have "unat (brk ?m) + 4096 < 4294967296" using assms(2) a(3) by simp
  from linear_map [OF a(2) this a(4) low_page(1) [OF assms(2)]]
  have m': "linear m'" "brk m' = ?b + PGSIZE" "kpgdir m' = kpgdir ?m" by (simp_all add: m'_def)
  have "translate (kpgdir m') (PTOV ?b) m' = ?b" using linear_translate [OF m'(1), of "PTOV ?b"] low_page [OF assms(2)] by simp
  moreover have "lock (cslLock (s\<lparr>k_mem := m'\<rparr>)) = 0" using assms(3) by simp
  note paddr_row_prints [OF this low_page(2) [OF assms(2)]]
  ultimately show ?thesis using a(1) m' by (simp add: map_fresh_def page_alloc_def m'_def)
qed

text \<open>The rows of the loop.\<close>

lemma map_rows:
  assumes "linear m" "unat p + 16384 \<le> 268435456"
  shows "set is \<subseteq> {0..<4} \<Longrightarrow> k_mem s = m \<Longrightarrow> lock (cslLock s) = 0 \<Longrightarrow> \<exists>s'. for_each (map_row p) is s = Some s' \<and>
    prints (concat (map (\<lambda>i. row_text (p + PGSIZE * of_nat i)) is)) s s' \<and> k_mem s' = m"
proof (induction "is" arbitrary: s)
  case (Cons i "is")
  let ?p = "p + PGSIZE * of_nat i"
  have i: "i < 4" using Cons.prems(1) by simp
  then have "unat (PGSIZE * of_nat i) = 4096 * i" using unat_of_nat_u32 [of "4096 * i"] by simp
  then have "unat ?p < 268435456" using assms(2) i unat_add_lt [of p "PGSIZE * of_nat i"] by simp
  note low = low_page [OF this]
  have "translate (kpgdir m) (PTOV ?p) m = ?p" using linear_translate [OF assms(1), of "PTOV ?p"] low by simp
  with Cons.prems(2) paddr_row_prints [OF Cons.prems(3) low(2)]
  have r: "map_row p i s = Some (say (row_text ?p) s)" "prints (row_text ?p) s (say (row_text ?p) s)" by (simp_all add: map_row_def)
  from Cons.IH [OF _ _ prints_lock [OF r(2)]] Cons.prems(1,2) prints_trans [OF r(2)] r(1) show ?case by fastforce
qed (simp add: prints_Nil)

lemma aligned_PTOV: "aligned p \<Longrightarrow> aligned (PTOV p)"
  by (simp add: PTOV_def aligned_add aligned_def [of KERNELBASE] OFFSET_def)

lemma heap_pages:
  assumes "kernheap < 0xF000000" "kmemInit kernheap m = Some m'"
  shows "linear m'" "kmsize m' = kpgdir m'" "unat (brk m') \<le> 252000000" "unat (kpgdir m') \<le> 252000000" "pgavail m' = 0"
proof -
  have k: "unat kernheap < 251658240" "kernheap < 0x80000000" using assms(1) by (simp_all add: word_less_nat_alt)
  note i = kmemInit_pages [OF k(2) assms(2)]
  from i show "linear m'" "kmsize m' = kpgdir m'" "pgavail m' = 0" by simp_all
  show "unat (brk m') \<le> 252000000" "unat (kpgdir m') \<le> 252000000"
    using i(3,4) unat_PGUPBOUND [of kernheap] k(1) by simp_all
qed

lemma page_line:
  assumes "allocPage (k_mem s) = (p, m)" "lock (cslLock s) = 0" "fmt_text f [Num p] = Some t"
  shows "\<exists>s'. (case page_alloc s of (p, s) \<Rightarrow> printf f [Num p] s) = Some s' \<and> prints t s s' \<and> k_mem s' = m"
proof -
  have "lock (cslLock (s\<lparr>k_mem := m\<rparr>)) = 0" using assms(2) by simp
  from printf_prints [OF this assms(3)] assms(1) show ?thesis by (simp add: page_alloc_def)
qed

lemma page_texts:
  assumes "w \<noteq> 0x80000000"
  shows "fmt_text (cstr (''page addr0: %x'' @ nl)) [Num w] = Some (map of_char ''page addr0: '' @ hex w @ [0x0a])"
    "fmt_text (cstr (''page addr1: %x'' @ nl)) [Num w] = Some (map of_char ''page addr1: '' @ hex w @ [0x0a])"
    "fmt_text (cstr (''page addr2: %x'' @ nl)) [Num w] = Some (map of_char ''page addr2: '' @ hex w @ [0x0a])"
    "fmt_text (cstr (''page addr3: %x'' @ nl)) [Num w] = Some (map of_char ''page addr3: '' @ hex w @ [0x0a])"
  using num_text_hex [OF assms] by (simp_all add: cstr_def arg_text_def)

section \<open>Properties\<close>

text \<open>
  C37. \<^verbatim>\<open>mapTest\<close> on the memory that \<^verbatim>\<open>kmemInit\<close> leaves (with an image that ends below 240 MB): every page it maps
  translates back, since it was mapped there already, so that no translation changes; the last four pages are mapped
  but only the first of them has been taken from the allocator.
\<close>

theorem mapTest_prints:
  assumes "kernheap < 0xF000000" "kmemInit kernheap m = Some (k_mem s)" "lock (cslLock s) = 0"
  shows "\<exists>s'. mapTest s = Some s' \<and>
    prints (concat (map (\<lambda>i. row_text (brk (k_mem s) + PGSIZE * of_nat i)) [0..<6])) s s' \<and>
    brk (k_mem s') = brk (k_mem s) + PGSIZE * 3 \<and>
    (\<forall>va. translate (kpgdir (k_mem s')) va (k_mem s') = (if VTOP va < KERNSIZE then VTOP va else 0))"
proof -
  let ?b = "brk (k_mem s)"
  note h = heap_pages [OF assms(1,2)]
  have u: "unat (?b + of_nat k) = unat ?b + k" if "k \<le> 24576" for k
    using that h(3) unat_add_lt [of ?b "of_nat k"] by (simp add: unat_of_nat_u32)
  obtain s1 where s1: "map_fresh s = Some s1" "prints (row_text ?b) s s1" "linear (k_mem s1)" "brk (k_mem s1) = ?b + PGSIZE"
    using map_fresh_prints [OF h(1) _ assms(3)] h(3) by auto
  have "unat (brk (k_mem s1)) < 268435456" using s1(4) u [of 4096] h(3) by simp
  from map_fresh_prints [OF s1(3) this prints_lock [OF s1(2)]] obtain s2 where
    s2: "map_fresh s1 = Some s2" "prints (row_text (?b + PGSIZE)) s1 s2" "linear (k_mem s2)" "brk (k_mem s2) = ?b + 8192"
    by (auto simp: s1(4) add.assoc)
  have b2: "unat (?b + 8192) = unat ?b + 8192" using u [of 8192] by simp
  have "unat (brk (k_mem s2)) + 8192 < 4294967296" using h(3) by (simp add: s2(4) b2)
  note a = linear_alloc [OF s2(3) this]
  let ?m = "k_mem s2\<lparr>brk := brk (k_mem s2) + PGSIZE\<rparr>"
  have "unat (brk ?m) + 4096 < 4294967296" using h(3) a(3) by (simp add: s2(4) b2)
  from linear_range [OF a(2) this a(4), of 4] h(3) b2 s2(4)
  obtain m' where m': "rangemap_loop (kpgdir ?m) (?b + 8192) (?b + 8192 + 16384) (PTOV (?b + 8192)) PAGE_RW ?m = Some m'"
    "linear m'" "brk m' = ?b + 12288" by (auto simp: add.assoc)
  then have r: "rangemap (kpgdir ?m) (?b + 8192) (PTOV (?b + 8192)) (PGSIZE * 4) PAGE_RW ?m = Some m'"
    using a(4) s2(4) aligned_PTOV [OF a(4)] by (simp add: rangemap_def PGLOWBOUND_PPN PPN_aligned Let_def)
  have "unat (?b + 8192) + 16384 \<le> 268435456" using h(3) b2 by simp
  from map_rows [OF m'(2) this, of "[0..<4]" "s2\<lparr>k_mem := m'\<rparr>"] prints_lock [OF s2(2)] obtain s3 where
    s3: "for_each (map_row (?b + 8192)) [0..<4] (s2\<lparr>k_mem := m'\<rparr>) = Some s3" "k_mem s3 = m'"
    "prints (concat (map (\<lambda>i. row_text (?b + 8192 + PGSIZE * of_nat i)) [0..<4])) s2 s3" by auto
  have "mapTest s = Some s3"
    using s1(1) s2(1,4) a(1) r s3(1) by (simp add: mapTest_def page_alloc_def)
  moreover have "prints (concat (map (\<lambda>i. row_text (?b + PGSIZE * of_nat i)) [0..<6])) s s3"
    using prints_trans [OF s1(2) prints_trans [OF s2(2) s3(3)]] by (simp add: upt_conv_Cons add.assoc)
  ultimately show ?thesis using m'(3) linear_translate [OF m'(2)] by (simp add: s3(2))
qed

text \<open>
  \<^verbatim>\<open>mallocTest\<close>: the first block of the heap that \<^verbatim>\<open>sbrk\<close> gives out is the page directory, the second lies in it.
\<close>

theorem mallocTest_prints:
  assumes "kernheap < 0xF000000" "kmemInit kernheap m = Some (k_mem s)" "lock (cslLock s) = 0"
  shows "\<exists>s'. mallocTest s = Some s' \<and>
    prints (lines [''dentry: 68, inode: 144''] @ map of_char ''sbrk: '' @ hex (kpgdir (k_mem s)) @ [0x0a] @
      map of_char ''sbrk: '' @ hex (kpgdir (k_mem s) + 104) @ [0x0a]) s s'"
proof -
  let ?d = "kpgdir (k_mem s)"
  note h = heap_pages [OF assms(1,2)]
  have av: "pgavail (k_mem s) \<le> 0" using h(1) by (simp add: linear_def)
  have "fmt_text (cstr (''dentry: %x, inode: %x'' @ nl)) [Num 104, Num 324] = Some (lines [''dentry: 68, inode: 144''])"
    using hex_sizes by (simp add: cstr_def arg_text_def)
  note p1 = printf_prints [OF assms(3) this]
  let ?s1 = "say (lines [''dentry: 68, inode: 144'']) s"
  have f: "fmt_text (cstr (''sbrk: %x'' @ nl)) [Num w] = Some (map of_char ''sbrk: '' @ hex w @ [0x0a])" if "unat w \<le> 252000104" for w
    using that num_text_hex [of w] by (cases "w = 0x80000000") (simp_all add: cstr_def arg_text_def)
  obtain m1 where m1: "sbrk 104 (k_mem s) = Some (?d, m1)" "kmsize m1 = ?d + 104" "pgavail m1 \<le> 0"
    using sbrk_bump [OF av, of 104] h(2,4) av by simp
  define s1 where "s1 = ?s1\<lparr>k_mem := m1\<rparr>"
  have "lock (cslLock s1) = 0" using prints_lock [OF p1(2)] by (simp add: s1_def)
  note p2 = printf_prints [OF this f [of ?d]]
  define s2 where "s2 = say (map of_char ''sbrk: '' @ hex ?d @ [0x0a]) s1"
  have u: "unat (?d + 104) = unat ?d + 104" using h(4) unat_add_lt [of ?d 104] by simp
  obtain m2 where m2: "sbrk 324 m1 = Some (?d + 104, m2)"
    using sbrk_bump [OF m1(3), of 324] m1(2) u h(4) by simp
  define s3 where "s3 = s2\<lparr>k_mem := m2\<rparr>"
  have "lock (cslLock s3) = 0" using prints_lock [OF p2(2)] h(4) by (simp add: s3_def s2_def)
  note p3 = printf_prints [OF this f [of "?d + 104"]]
  have "mallocTest s = Some (say (map of_char ''sbrk: '' @ hex (?d + 104) @ [0x0a]) s3)"
    using p1(1) m1(1) p2(1) m2 p3(1) h(4) u by (simp add: mallocTest_def s1_def s2_def s3_def)
  moreover have "prints (map of_char ''sbrk: '' @ hex ?d @ [0x0a]) ?s1 s2" using p2(2) h(4) by (simp add: s1_def s2_def)
  moreover have "prints (map of_char ''sbrk: '' @ hex (?d + 104) @ [0x0a]) s2 (say (map of_char ''sbrk: '' @ hex (?d + 104) @ [0x0a]) s3)"
    using p3(2) h(4) u by (simp add: s3_def)
  ultimately show ?thesis using prints_trans [OF p1(2) prints_trans] by (metis append_assoc)
qed

text \<open>
  \<^verbatim>\<open>pageTest\<close>: the page freed is the one given out again, when the pointer that \<^verbatim>\<open>freePage\<close> never sets lies outside it.
\<close>

theorem pageTest_prints:
  assumes "kernheap < 0xF000000" "kmemInit kernheap m = Some (k_mem s)" "lock (cslLock s) = 0"
    and "node_outside junk (brk (k_mem s) + PGSIZE)"
  shows "\<exists>s'. pageTest junk s = Some s' \<and>
    prints (map of_char ''page addr0: '' @ hex (brk (k_mem s)) @ [0x0a] @
      map of_char ''page addr1: '' @ hex (brk (k_mem s) + PGSIZE) @ [0x0a] @
      map of_char ''page addr2: '' @ hex (brk (k_mem s) + PGSIZE * 2) @ [0x0a] @
      map of_char ''page addr3: '' @ hex (brk (k_mem s) + PGSIZE) @ [0x0a]) s s'"
proof -
  let ?b = "brk (k_mem s)"
  note h = heap_pages [OF assms(1,2)]
  have u: "unat (?b + of_nat k) = unat ?b + k" if "k \<le> 12288" for k
    using that h(3) unat_add_lt [of ?b "of_nat k"] by (simp add: unat_of_nat_u32)
  have lo: "unat (?b + 4096) = unat ?b + 4096" "unat (?b + 8192) = unat ?b + 8192"
    using u [of 4096] u [of 8192] by simp_all
  define m1 where "m1 = k_mem s\<lparr>brk := ?b + PGSIZE\<rparr>"
  define m2 where "m2 = m1\<lparr>brk := ?b + PGSIZE * 2\<rparr>"
  define m3 where "m3 = m2\<lparr>brk := ?b + PGSIZE * 3\<rparr>"
  define m4 where "m4 = freePage junk (?b + PGSIZE) m3"
  have a: "allocPage (k_mem s) = (?b, m1)" "allocPage m1 = (?b + PGSIZE, m2)" "allocPage m2 = (?b + PGSIZE * 2, m3)"
    using h(5) by (simp_all add: allocPage_bump m1_def m2_def m3_def add.assoc)
  obtain m5 where m5: "allocPage m4 = (?b + PGSIZE, m5)"
    using freePage_outside(1) [OF assms(4), of m3] h(5)
    by (simp add: allocPage_def m4_def m3_def m2_def m1_def freePage_def Let_def)
  have ne: "?b \<noteq> 0x80000000" "?b + PGSIZE \<noteq> 0x80000000" "?b + PGSIZE * 2 \<noteq> 0x80000000"
    using h(3) lo by auto
  obtain s1 where s1: "(case page_alloc s of (p, s) \<Rightarrow> printf (cstr (''page addr0: %x'' @ nl)) [Num p] s) = Some s1"
    "prints (map of_char ''page addr0: '' @ hex ?b @ [0x0a]) s s1" "k_mem s1 = m1"
    using page_line [OF a(1) assms(3) page_texts(1) [OF ne(1)]] by blast
  have "allocPage (k_mem s1) = (?b + PGSIZE, m2)" using a(2) s1(3) by simp
  from page_line [OF this prints_lock [OF s1(2)] page_texts(2) [OF ne(2)]] obtain s2 where
    s2: "(case page_alloc s1 of (p, s) \<Rightarrow> printf (cstr (''page addr1: %x'' @ nl)) [Num p] s) = Some s2"
    "prints (map of_char ''page addr1: '' @ hex (?b + PGSIZE) @ [0x0a]) s1 s2" "k_mem s2 = m2" by blast
  have "allocPage (k_mem s2) = (?b + PGSIZE * 2, m3)" using a(3) s2(3) by simp
  from page_line [OF this prints_lock [OF s2(2)] page_texts(3) [OF ne(3)]] obtain s3 where
    s3: "(case page_alloc s2 of (p, s) \<Rightarrow> printf (cstr (''page addr2: %x'' @ nl)) [Num p] s) = Some s3"
    "prints (map of_char ''page addr2: '' @ hex (?b + PGSIZE * 2) @ [0x0a]) s2 s3" "k_mem s3 = m3" by blast
  have "allocPage (k_mem (s3\<lparr>k_mem := m4\<rparr>)) = (?b + PGSIZE, m5)" "lock (cslLock (s3\<lparr>k_mem := m4\<rparr>)) = 0"
    using m5 prints_lock [OF s3(2)] by simp_all
  from page_line [OF this page_texts(4) [OF ne(2)]] obtain s4 where
    s4: "(case page_alloc (s3\<lparr>k_mem := m4\<rparr>) of (p, s) \<Rightarrow> printf (cstr (''page addr3: %x'' @ nl)) [Num p] s) = Some s4"
    "prints (map of_char ''page addr3: '' @ hex (?b + PGSIZE) @ [0x0a]) s3 s4" by auto
  have "pageTest junk s = Some s4"
    using s1(1,3) s2(1,3) s3(1,3) s4(1) a m5 by (simp add: pageTest_def page_alloc_def m4_def)
  with prints_trans [OF s1(2) prints_trans [OF s2(2) prints_trans [OF s3(2) s4(2)]]] show ?thesis by auto
qed

section \<open>On a concrete state\<close>

definition demo_memory :: kernel where
  "demo_memory = demo_kernel\<lparr>cslLock := \<lparr>lock = 0\<rparr>, k_mem := the (kmemInit 0x123456 small_heap)\<rparr>"

lemma demo_memory_facts:
  "kmemInit 0x123456 small_heap = Some (k_mem demo_memory)" "lock (cslLock demo_memory) = 0"
  using kmemInit_dir [of "0x123456" small_heap] by (auto simp: demo_memory_def)

theorem mapTest_prints_witness:
  "\<exists>s'. mapTest demo_memory = Some s' \<and> brk (k_mem s') = brk (k_mem demo_memory) + 0x3000 \<and>
     translate (kpgdir (k_mem s')) 0x8000abc (k_mem s') = 0xabc"
  using mapTest_prints [OF _ demo_memory_facts] by (auto simp: VTOP_def)

theorem mallocTest_prints_witness:
  "\<exists>s'. mallocTest demo_memory = Some s' \<and> lock (cslLock s') = 0"
  using mallocTest_prints [OF _ demo_memory_facts] by (auto simp: prints_def)

theorem pageTest_prints_witness:
  "\<exists>s'. pageTest 0x80000000 demo_memory = Some s' \<and> lock (cslLock s') = 0"
proof -
  have b: "unat (brk (k_mem demo_memory) + PGSIZE) < 268435456"
    using heap_pages(3) [OF _ demo_memory_facts(1)] unat_add_lt [of "brk (k_mem demo_memory)" 4096] by simp
  have "node_outside 0x80000000 (brk (k_mem demo_memory) + PGSIZE)"
    unfolding node_outside_def
  proof (intro allI impI)
    fix k :: nat assume k: "k < 8"
    have u: "unat (0x80000000 + of_nat k :: u32) = 2147483648 + k"
      using k unat_add_lt [of "0x80000000 :: u32" "of_nat k"] by (simp add: unat_of_nat_u32)
    with b show "4096 \<le> unat (0x80000000 + of_nat k - (brk (k_mem demo_memory) + PGSIZE))"
      by (subst unat_sub) (simp_all add: word_le_nat_alt)
  qed
  from pageTest_prints [OF _ demo_memory_facts this] show ?thesis by (auto simp: prints_def)
qed

end
