(* ===== verification/Cache_Pool.thy ===== *)
theory Cache_Pool
  imports Inode
begin

text \<open>
  The block cache of \<^verbatim>\<open>src/fs.c\<close> as a pool of numbered buffers: the abstract machine that the lookups of
  one device implement once the LRU list has been walked past its unlinked buffers.

  After \<^verbatim>\<open>blockCacheInit\<close> buffer \<open>i\<close> is followed by buffer \<open>i - 1\<close>, and no lookup changes that link. A
  lookup that misses takes the buffer \<open>spot\<close> at the front of the list; a hit on buffer \<open>i\<close> unlinks it
  once more and so sets the front of the list back to buffer \<open>i - 1\<close>. Either way the next free buffer
  is the one below the buffer returned last, whoever holds it. The chain of a key is only looked at in
  its first entry.
\<close>

section \<open>The pool\<close>

record pool =
  spot :: nat
  front :: "nat \<Rightarrow> nat option"
  tail :: "nat \<Rightarrow> nat option"
  tag :: "nat \<Rightarrow> u32"
  full :: "nat \<Rightarrow> bool"
  data :: "nat \<Rightarrow> u8 list"
  zero :: u32

text \<open>The buffer a lookup of block \<open>b\<close> with key \<open>k\<close> returns, whether it is a hit, and the pool it leaves.\<close>

definition pool_hit :: "u32 \<Rightarrow> nat \<Rightarrow> pool \<Rightarrow> bool" where
  "pool_hit b k p = (case front p k of None \<Rightarrow> False | Some i \<Rightarrow> tag p i = b)"

definition pool_buf :: "u32 \<Rightarrow> nat \<Rightarrow> pool \<Rightarrow> nat" where
  "pool_buf b k p = (if pool_hit b k p then the (front p k) else spot p)"

definition pool_get :: "u32 \<Rightarrow> nat \<Rightarrow> pool \<Rightarrow> pool" where
  "pool_get b k p =
     (let i = pool_buf b k p
      in if pool_hit b k p then p\<lparr>spot := i - 1, full := (full p)(i := True)\<rparr>
         else p\<lparr>spot := i - 1, front := (front p)(k \<mapsto> i), tail := (tail p)(i := front p k), tag := (tag p)(i := b)\<rparr>)"

text \<open>A buffer that is given new contents.\<close>

definition pool_put :: "nat \<Rightarrow> u8 list \<Rightarrow> pool \<Rightarrow> pool" where
  "pool_put i c p = p\<lparr>full := (full p)(i := True), data := (data p)(i := c)\<rparr>"

definition pool_write :: "u32 \<Rightarrow> nat \<Rightarrow> u8 list \<Rightarrow> pool \<Rightarrow> pool" where
  "pool_write b k c p = pool_put (pool_buf b k p) c (pool_get b k p)"

text \<open>The pool of the state. The list head and the block at address 0 are the same.\<close>

definition bref :: "nat option \<Rightarrow> block_ref" where
  "bref i = (case i of None \<Rightarrow> BNull | Some i \<Rightarrow> Buf i)"

lemma bref_simps [simp]: "bref None = BNull" "bref (Some i) = Buf i"
  by (simp_all add: bref_def)

definition pool_list :: "pool \<Rightarrow> 'a disk_scheme \<Rightarrow> bool" where
  "pool_list p s \<longleftrightarrow> spot p < 128 \<and> lru_next (blocks s BNull) = Buf (spot p) \<and>
     (\<forall>i. 0 < i \<longrightarrow> i < 128 \<longrightarrow> lru_next (blocks s (Buf i)) = Buf (i - 1)) \<and>
     lru_prev (blocks s (Buf (spot p))) = BNull \<and> lru_prev (blocks s BNull) \<in> insert (Buf 0) (range BLoc) \<and>
     bblock (blocks s BNull) = zero p"

definition pool_chains :: "u32 \<Rightarrow> pool \<Rightarrow> 'a disk_scheme \<Rightarrow> bool" where
  "pool_chains d p s \<longleftrightarrow> (\<forall>k < 128. hash_next (blocks s (BHash k)) = bref (front p k)) \<and>
     (\<forall>k i. k < 128 \<longrightarrow> front p k = Some i \<longrightarrow> 0 < i \<and> i < 128 \<and> bdevice (blocks s (Buf i)) = d \<and>
        hash_next (blocks s (Buf i)) = bref (tail p i) \<and> lru_prev (blocks s (Buf i)) = BNull)"

definition pool_data :: "pool \<Rightarrow> 'a disk_scheme \<Rightarrow> bool" where
  "pool_data p s \<longleftrightarrow> (\<forall>i < 128. bblock (blocks s (Buf i)) = tag p i \<and> buf (blocks s (Buf i)) = data p i \<and>
     length (data p i) = 512 \<and> (full p i \<longleftrightarrow> flags (blocks s (Buf i)) = B_VALID))"

definition pooled :: "u32 \<Rightarrow> pool \<Rightarrow> 'a disk_scheme \<Rightarrow> bool" where
  "pooled d p s \<longleftrightarrow> pool_list p s \<and> pool_chains d p s \<and> pool_data p s"

lemma pooledD:
  assumes "pooled d p s"
  shows "spot p < 128" "lru_next (blocks s BNull) = Buf (spot p)" "lru_prev (blocks s (Buf (spot p))) = BNull"
    "lru_prev (blocks s BNull) \<in> insert (Buf 0) (range BLoc)" "bblock (blocks s BNull) = zero p"
    "0 < i \<Longrightarrow> i < 128 \<Longrightarrow> lru_next (blocks s (Buf i)) = Buf (i - 1)"
    "k < 128 \<Longrightarrow> hash_next (blocks s (BHash k)) = bref (front p k)"
    "k < 128 \<Longrightarrow> front p k = Some i \<Longrightarrow> 0 < i \<and> i < 128 \<and> bdevice (blocks s (Buf i)) = d \<and>
        hash_next (blocks s (Buf i)) = bref (tail p i) \<and> lru_prev (blocks s (Buf i)) = BNull"
    "i < 128 \<Longrightarrow> bblock (blocks s (Buf i)) = tag p i \<and> buf (blocks s (Buf i)) = data p i \<and>
     length (data p i) = 512 \<and> (full p i \<longleftrightarrow> flags (blocks s (Buf i)) = B_VALID)"
  using assms unfolding pooled_def pool_list_def pool_chains_def pool_data_def by blast+

lemma pooledI:
  assumes "spot p < 128" "lru_next (blocks s BNull) = Buf (spot p)" "lru_prev (blocks s (Buf (spot p))) = BNull"
    "lru_prev (blocks s BNull) \<in> insert (Buf 0) (range BLoc)" "bblock (blocks s BNull) = zero p"
    "\<And>i. 0 < i \<Longrightarrow> i < 128 \<Longrightarrow> lru_next (blocks s (Buf i)) = Buf (i - 1)"
    "\<And>k. k < 128 \<Longrightarrow> hash_next (blocks s (BHash k)) = bref (front p k)"
    "\<And>k i. k < 128 \<Longrightarrow> front p k = Some i \<Longrightarrow> 0 < i \<and> i < 128 \<and> bdevice (blocks s (Buf i)) = d \<and>
        hash_next (blocks s (Buf i)) = bref (tail p i) \<and> lru_prev (blocks s (Buf i)) = BNull"
    "\<And>i. i < 128 \<Longrightarrow> bblock (blocks s (Buf i)) = tag p i \<and> buf (blocks s (Buf i)) = data p i \<and>
     length (data p i) = 512 \<and> (full p i \<longleftrightarrow> flags (blocks s (Buf i)) = B_VALID)"
  shows "pooled d p s"
  using assms unfolding pooled_def pool_list_def pool_chains_def pool_data_def by blast

lemma BLKHASH_less: "BLKHASH b = Some k \<Longrightarrow> k < 128"
  by (auto simp: BLKHASH_def Let_def split: if_splits) 
    (use smod_int_range [of 128 "sint b"] in auto)

section \<open>Lookups\<close>

lemma pooled_hit:
  assumes "pooled d p s" "BLKHASH b = Some k" "front p k = Some i" "tag p i = b"
  shows "getCachedBlock d b s = Some (Buf i, cache_hit (Buf i) s)" "pooled d (pool_get b k p) (cache_hit (Buf i) s)"
proof -
  have k: "k < 128" by (rule BLKHASH_less [OF assms(2)])
  note D = pooledD [OF assms(1)]
  have i: "0 < i" "i < 128" "bdevice (blocks s (Buf i)) = d" "lru_prev (blocks s (Buf i)) = BNull"
    "hash_next (blocks s (BHash k)) = Buf i" "bblock (blocks s (Buf i)) = b" "lru_next (blocks s (Buf i)) = Buf (i - 1)"
    using D(8) [OF k assms(3)] D(7) [OF k] D(9) [of i] D(6) [of i] assms(3,4) by simp_all
  show "getCachedBlock d b s = Some (Buf i, cache_hit (Buf i) s)"
    using cache_find_front [OF i(5) _ i(3), of b] i(6) by (intro get_hit [OF assms(2)]) simp
  define t where "t = cache_hit (Buf i) s"
  have n: "Buf i \<noteq> Buf (i - 1)" using i(1) by simp
  have t: "lru_next (blocks t r) = (if r = BNull then Buf (i - 1) else lru_next (blocks s r))"
    "lru_prev (blocks t r) = (if r = Buf (i - 1) then BNull else lru_prev (blocks s r))"
    "flags (blocks t r) = (if r = Buf i then B_VALID else flags (blocks s r))" for r
    using i n by (simp_all add: t_def cache_hit_def Let_def upd_blk_blocks)
  have f: "hash_next (blocks t r) = hash_next (blocks s r)" "bdevice (blocks t r) = bdevice (blocks s r)"
    "bblock (blocks t r) = bblock (blocks s r)" "buf (blocks t r) = buf (blocks s r)" for r
    by (simp_all add: t_def cache_hit_blocks)
  have g: "pool_get b k p = p\<lparr>spot := i - 1, full := (full p)(i := True)\<rparr>"
    using assms(3,4) by (simp add: pool_get_def pool_buf_def pool_hit_def Let_def)
  show "pooled d (pool_get b k p) (cache_hit (Buf i) s)"
    unfolding g t_def [symmetric]
  proof (rule pooledI)
    fix k j assume "k < 128" "front (p\<lparr>spot := i - 1, full := (full p)(i := True)\<rparr>) k = Some j"
    then show "0 < j \<and> j < 128 \<and> bdevice (blocks t (Buf j)) = d \<and>
        hash_next (blocks t (Buf j)) = bref (tail (p\<lparr>spot := i - 1, full := (full p)(i := True)\<rparr>) j) \<and> lru_prev (blocks t (Buf j)) = BNull"
      using D(8) [of k j] by (simp add: t f)
  qed (use i D(1-5) D(6,7,9) in \<open>simp_all add: t f\<close>)
qed

lemma pooled_take:
  assumes "pooled d p s" "BLKHASH b = Some k" "\<not> pool_hit b k p" "0 < spot p"
  shows "getCachedBlock d b s = Some (Buf (spot p), snd (cache_take k d b s))"
    "pooled d (pool_get b k p) (snd (cache_take k d b s))"
    "disk_io s (snd (cache_take k d b s))" "buf (blocks (snd (cache_take k d b s)) r) = buf (blocks s r)"
    "blocks (snd (cache_take k d b s)) (BLoc j) = blocks s (BLoc j)" "iotrace (snd (cache_take k d b s)) = iotrace s"
proof -
  have k: "k < 128" by (rule BLKHASH_less [OF assms(2)])
  note D = pooledD [OF assms(1)]
  define i where "i = spot p"
  have i: "0 < i" "i < 128" "lru_next (blocks s BNull) = Buf i" "lru_next (blocks s (Buf i)) = Buf (i - 1)"
    "lru_prev (blocks s (Buf i)) = BNull"
    using D(1-3) D(6) [of i] assms(4) by (simp_all add: i_def)
  have h: "hash_next (blocks s (BHash k)) = bref (front p k)" by (rule D(7) [OF k])
  have f: "cache_find k d b s = Some None"
  proof (cases "front p k")
    case None
    with h show ?thesis by (simp add: cache_find_empty)
  next
    case (Some j)
    then have "bdevice (blocks s (Buf j)) = d" "bblock (blocks s (Buf j)) \<noteq> b"
      using D(8) [OF k Some] D(9) [of j] assms(3) by (auto simp: pool_hit_def)
    with Some h show ?thesis by (simp add: cache_find_front)
  qed
  obtain t where ct: "cache_take k d b s = (Buf i, t)"
    using cache_take_fields(1) i(3) by (metis prod.collapse)
  have t0: "t = snd (cache_take k d b s)" by (simp add: ct)
  have n: "Buf i \<noteq> Buf (i - 1)" using i(1) by simp
  have t: "lru_next (blocks t r) = (if r = BNull then Buf (i - 1) else lru_next (blocks s r))"
    "lru_prev (blocks t r) = (if r = Buf (i - 1) then BNull else lru_prev (blocks s r))"
    "flags (blocks t r) = flags (blocks s r)" "buf (blocks t r) = buf (blocks s r)"
    "bdevice (blocks t r) = (if r = Buf i then d else bdevice (blocks s r))"
    "bblock (blocks t r) = (if r = Buf i then b else bblock (blocks s r))"
    "hash_next (blocks t r) = (if r = BHash k then Buf i else if r = Buf i then bref (front p k) else hash_next (blocks s r))"
    "blocks t (BLoc j) = blocks s (BLoc j)" "disk_io s t" "iotrace t = iotrace s" for r
    using i n h unfolding t0 cache_take_def by (simp_all add: Let_def upd_blk_blocks disk_io_def) (simp_all add: upd_blk_def)
  show "getCachedBlock d b s = Some (Buf (spot p), snd (cache_take k d b s))"
    using f i assms(2) ct by (simp add: getCachedBlock_def i_def)
  show "disk_io s (snd (cache_take k d b s))" "buf (blocks (snd (cache_take k d b s)) r) = buf (blocks s r)"
    "blocks (snd (cache_take k d b s)) (BLoc j) = blocks s (BLoc j)" "iotrace (snd (cache_take k d b s)) = iotrace s"
    using t by (simp_all add: ct)
  let ?p = "p\<lparr>spot := i - 1, front := (front p)(k \<mapsto> i), tail := (tail p)(i := front p k), tag := (tag p)(i := b)\<rparr>"
  have g: "pool_get b k p = ?p"
    using assms(3) by (simp add: pool_get_def pool_buf_def Let_def i_def)
  show "pooled d (pool_get b k p) (snd (cache_take k d b s))"
    unfolding g t0 [symmetric]
  proof (rule pooledI)
    fix k' j assume k': "k' < 128" "front ?p k' = Some j"
    then show "0 < j \<and> j < 128 \<and> bdevice (blocks t (Buf j)) = d \<and>
        hash_next (blocks t (Buf j)) = bref (tail ?p j) \<and> lru_prev (blocks t (Buf j)) = BNull"
      using D(8) [of k' j] i n by (cases "j = i"; cases "k' = k") (simp_all add: t)
  next
    show "lru_prev (blocks t BNull) \<in> insert (Buf 0) (range BLoc)" using D(4) by (simp add: t)
  qed (use i D(1-3) D(5) D(6,7,9) in \<open>simp_all add: t\<close>)
qed

text \<open>What a cache operation leaves alone: everything but the blocks and the port traffic, and the blocks of stack frames.\<close>

definition cache_io :: "'a disk_scheme \<Rightarrow> 'a disk_scheme \<Rightarrow> bool" where
  "cache_io s s' \<longleftrightarrow> disk_io s s' \<and> (\<forall>j. blocks s' (BLoc j) = blocks s (BLoc j))"

lemma cache_ioD: "cache_io s s' \<Longrightarrow> disk_io s s'" "cache_io s s' \<Longrightarrow> blocks s' (BLoc j) = blocks s (BLoc j)"
  by (simp_all add: cache_io_def)

lemma get_pooled:
  assumes "pooled d p s" "BLKHASH b = Some k" "0 < spot p \<or> pool_hit b k p"
  obtains s' where "getCachedBlock d b s = Some (Buf (pool_buf b k p), s')" "pooled d (pool_get b k p) s'"
    "cache_io s s'" "\<forall>r. buf (blocks s' r) = buf (blocks s r)" "iotrace s' = iotrace s"
proof (cases "pool_hit b k p")
  case True
  then obtain i where i: "front p k = Some i" "tag p i = b" by (auto simp: pool_hit_def split: option.splits)
  note h = pooled_hit [OF assms(1,2) i]
  have e: "pool_buf b k p = i" using True i by (simp add: pool_buf_def)
  have "0 < i" "i < 128" "lru_prev (blocks s (Buf i)) = BNull" "lru_next (blocks s (Buf i)) = Buf (i - 1)"
    using pooledD(8) [OF assms(1) BLKHASH_less [OF assms(2)] i(1)] pooledD(6) [OF assms(1), of i] by simp_all
  then have l: "blocks (cache_hit (Buf i) s) (BLoc j) = blocks s (BLoc j)" for j
    by (simp add: cache_hit_def Let_def upd_blk_blocks)
  show ?thesis
    using that [of "cache_hit (Buf i) s"] h l disk_io_hit cache_hit_blocks(4,6) unfolding e cache_io_def by blast
next
  case False
  note t = pooled_take [OF assms(1,2) False]
  have "pool_buf b k p = spot p" using False by (simp add: pool_buf_def)
  then show ?thesis using that [of "snd (cache_take k d b s)"] t False assms(3) unfolding cache_io_def by simp
qed

text \<open>Changing what the pool does not see.\<close>

lemma pooled_cong:
  assumes "pooled d p s"
    and "\<And>r. r \<notin> range BLoc \<Longrightarrow> blocks s' r = blocks s r"
  shows "pooled d p s'"
proof -
  have "blocks s' BNull = blocks s BNull" "blocks s' (Buf i) = blocks s (Buf i)" "blocks s' (BHash i) = blocks s (BHash i)" for i
    by (simp_all add: assms(2) image_iff)
  then show ?thesis using assms(1) unfolding pooled_def pool_list_def pool_chains_def pool_data_def by simp
qed

lemma pooled_loc [simp]: "pooled d p (upd_blk (BLoc j) f s) = pooled d p s"
proof -
  have "blocks (upd_blk (BLoc j) f s) r = blocks s r" if "r \<notin> range BLoc" for r
    using that by (auto simp: upd_blk_blocks)
  then show ?thesis using pooled_cong [of d p s "upd_blk (BLoc j) f s"] pooled_cong [of d p "upd_blk (BLoc j) f s" s] by metis
qed

lemma pooled_put:
  assumes "pooled d p s" "i < 128" "length c = 512"
    and "blocks s' = (blocks s)(Buf i := (blocks s (Buf i))\<lparr>buf := c, flags := B_VALID\<rparr>)"
  shows "pooled d (pool_put i c p) s'"
proof -
  note D = pooledD [OF assms(1)]
  show ?thesis
  proof (rule pooledI)
    show "lru_prev (blocks s' BNull) \<in> insert (Buf 0) (range BLoc)" using D(4) by (simp add: assms(4))
    fix k j assume k: "k < 128" "front (pool_put i c p) k = Some j"
    then show "0 < j \<and> j < 128 \<and> bdevice (blocks s' (Buf j)) = d \<and>
        hash_next (blocks s' (Buf j)) = bref (tail (pool_put i c p) j) \<and> lru_prev (blocks s' (Buf j)) = BNull"
      using D(8) [of k j] by (cases "j = i") (simp_all add: assms(4) pool_put_def)
  qed (use D(1-3) D(5) D(6,7,9) assms(3) in \<open>auto simp: assms(4) pool_put_def\<close>)
qed

text \<open>The bytes of a full buffer changed in place.\<close>

definition pool_set :: "nat \<Rightarrow> u8 list \<Rightarrow> pool \<Rightarrow> pool" where
  "pool_set i c p = p\<lparr>data := (data p)(i := c)\<rparr>"

lemma pooled_set:
  assumes "pooled d p s" "i < 128" "length c = 512"
  shows "pooled d (pool_set i c p) (upd_blk (Buf i) (\<lambda>b. b\<lparr>buf := c\<rparr>) s)"
proof -
  note D = pooledD [OF assms(1)]
  let ?s = "upd_blk (Buf i) (\<lambda>b. b\<lparr>buf := c\<rparr>) s"
  show ?thesis
  proof (rule pooledI)
    show "lru_prev (blocks ?s BNull) \<in> insert (Buf 0) (range BLoc)" using D(4) by (simp add: upd_blk_blocks)
    fix k j assume k: "k < 128" "front (pool_set i c p) k = Some j"
    then show "0 < j \<and> j < 128 \<and> bdevice (blocks ?s (Buf j)) = d \<and>
        hash_next (blocks ?s (Buf j)) = bref (tail (pool_set i c p) j) \<and> lru_prev (blocks ?s (Buf j)) = BNull"
      using D(8) [of k j] by (cases "j = i") (simp_all add: upd_blk_blocks pool_set_def)
  qed (use D(1-3) D(5) D(6,7,9) assms(3) in \<open>auto simp: upd_blk_blocks pool_set_def\<close>)
qed

section \<open>Reading, writing and release\<close>

lemma pool_buf_less:
  assumes "pooled d p s" "BLKHASH b = Some k"
  shows "pool_buf b k p < 128"
  using pooledD(8) [OF assms(1) BLKHASH_less [OF assms(2)]] pooledD(1) [OF assms(1)]
  by (auto simp: pool_buf_def pool_hit_def split: option.splits)

lemma pool_get_fields [simp]:
  "data (pool_get b k p) = data p" "zero (pool_get b k p) = zero p"
  "spot (pool_get b k p) = pool_buf b k p - 1"
  by (simp_all add: pool_get_def Let_def)

text \<open>A block whose buffer is full is read without access to the disk.\<close>

lemma read_pooled:
  assumes "pooled d p s" "BLKHASH b = Some k" "0 < spot p \<or> pool_hit b k p" "full (pool_get b k p) (pool_buf b k p)"
  obtains s' where "blockRead dev d b s = Some (Buf (pool_buf b k p), s')" "pooled d (pool_get b k p) s'"
    "cache_io s s'" "buf (blocks s' (Buf (pool_buf b k p))) = data p (pool_buf b k p)" "iotrace s' = iotrace s"
proof -
  obtain s' where g: "getCachedBlock d b s = Some (Buf (pool_buf b k p), s')" "pooled d (pool_get b k p) s'"
    "cache_io s s'" "iotrace s' = iotrace s"
    by (rule get_pooled [OF assms(1-3)])
  note d = pooledD(9) [OF g(2) pool_buf_less [OF assms(1,2)]]
  show ?thesis
    using that [of s'] g d assms(4) by (simp add: blockRead_def)
qed

text \<open>Otherwise the sector comes from the drive, unless that reports an error.\<close>

lemma read_pooled_disk:
  assumes "pooled d p s" "BLKHASH b = Some k" "0 < spot p \<or> pool_hit b k p" "\<not> full (pool_get b k p) (pool_buf b k p)"
    and "\<And>t. \<not> bit (rd8 dev t IDE_CMD_PORT) 0"
  obtains s' c where "blockRead dev d b s = Some (Buf (pool_buf b k p), s')" "length c = 512"
    "pooled d (pool_put (pool_buf b k p) c (pool_get b k p)) s'" "cache_io s s'"
proof -
  let ?i = "pool_buf b k p"
  obtain s1 where g: "getCachedBlock d b s = Some (Buf ?i, s1)" "pooled d (pool_get b k p) s1"
    "cache_io s s1"
    by (rule get_pooled [OF assms(1-3)])
  note i = pool_buf_less [OF assms(1,2)]
  have f: "flags (blocks s1 (Buf ?i)) \<noteq> B_VALID" using pooledD(9) [OF g(2) i] assms(4) by simp
  define t where "t = Outb IDE_CMD_PORT IDE_CMD_R_PIO # iotrace (ide_select (blocks s1 (Buf ?i)) s1)"
  define c where "c = concat (map bytes_of (read_words dev IDE_DATA_PORT (Inb IDE_CMD_PORT # t) 128))"
  define s2 where "s2 = s1\<lparr>iotrace := replicate 128 (Inl IDE_DATA_PORT) @ Inb IDE_CMD_PORT # t,
      blocks := (blocks s1)(Buf ?i := (blocks s1 (Buf ?i))\<lparr>buf := c, flags := B_VALID\<rparr>)\<rparr>"
  have h: "hardReadWait dev (Buf ?i) s1 = Some (0, s2)"
    using assms(5) [of t] unfolding hardReadWait_eq s2_def c_def t_def by simp
  have c: "length c = 512" by (simp add: c_def)
  have u: "upd_blk (Buf ?i) (\<lambda>b. b\<lparr>flags := B_VALID\<rparr>) s2 = s2" by (simp add: s2_def upd_blk_def)
  have "pooled d (pool_put ?i c (pool_get b k p)) s2"
    by (rule pooled_put [OF g(2) i c]) (simp add: s2_def)
  moreover have "cache_io s s2"
    using disk_io_trans [OF cache_ioD(1) [OF g(3)], of s2] cache_ioD(2) [OF g(3)]
    by (simp add: cache_io_def disk_io_def s2_def)
  moreover have "blockRead dev d b s = Some (Buf ?i, s2)"
    using g(1) f h u by (simp add: blockRead_def)
  ultimately show ?thesis using that c by blast
qed

lemma write_pooled:
  assumes "pooled d p s" "BLKHASH b = Some k" "0 < spot p \<or> pool_hit b k p"
    and "bdevice (blocks s r) = d" "bblock (blocks s r) = b" "length (buf (blocks s r)) = 512"
  obtains s' where "blockWrite r s = Some (0, s')" "pooled d (pool_write b k (buf (blocks s r)) p) s'"
    "cache_io s s'"
proof -
  let ?i = "pool_buf b k p"
  let ?c = "buf (blocks s r)"
  obtain s1 where g: "getCachedBlock d b s = Some (Buf ?i, s1)" "pooled d (pool_get b k p) s1"
    "cache_io s s1" "\<forall>r. buf (blocks s1 r) = buf (blocks s r)"
    by (rule get_pooled [OF assms(1-3)])
  note i = pool_buf_less [OF assms(1,2)]
  define u where "u = upd_blk (Buf ?i) (\<lambda>b. b\<lparr>buf := ?c\<rparr>) s1"
  have l: "length (buf (blocks u (Buf ?i))) = 512" using assms(6) by (simp add: u_def upd_blk_blocks)
  define s2 where "s2 = snd (hardWrite (Buf ?i) u)"
  note hw = hardWrite_eq [OF l]
  have "hardWrite (Buf ?i) u = (0, s2)" unfolding s2_def hw by simp
  then have "blockWrite r s = Some (0, s2)"
    using g(1,4) assms(4,5) by (simp add: blockWrite_def u_def)
  moreover have b: "blocks s2 = (blocks s1)(Buf ?i := (blocks s1 (Buf ?i))\<lparr>buf := ?c, flags := B_VALID\<rparr>)"
    unfolding s2_def hw by (simp add: u_def upd_blk_def)
  moreover have "pooled d (pool_write b k ?c p) s2"
    unfolding pool_write_def by (rule pooled_put [OF g(2) i assms(6) b])
  moreover have "cache_io s s2"
    using disk_io_trans [OF cache_ioD(1) [OF g(3)], of s2] cache_ioD(2) [OF g(3)]
    unfolding s2_def hw by (simp add: cache_io_def disk_io_def u_def upd_blk_def)
  ultimately show ?thesis using that by blast
qed

text \<open>
  Releasing a block of a stack frame that was never taken from the cache: when its chain holds at most
  one buffer, the pool stays as it is. The last link of the list now leads to the stack frame.
\<close>

lemma rel_pooled:
  assumes "pooled d p s" "BLKHASH (bblock B) = Some k" "zero p \<noteq> bblock B"
    and "\<And>i. front p k = Some i \<Longrightarrow> tail p i = None"
  obtains s' where "relCachedBlock (BLoc 2) (upd_blk (BLoc 2) (\<lambda>_. B) s) = Some s'" "pooled d p s'" "disk_io s s'"
proof -
  define u where "u = upd_blk (BLoc 2) (\<lambda>_. B) s"
  have pu: "pooled d p u" by (simp add: u_def assms(1))
  note D = pooledD [OF pu] and k = BLKHASH_less [OF assms(2)]
  have B: "blocks u (BLoc 2) = B" by (simp add: u_def upd_blk_blocks)
  have rem: "chain_remove k (BLoc 2) u = Some u"
  proof (cases "front p k")
    case None
    then show ?thesis using D(7) [OF k] by (simp add: chain_remove_def)
  next
    case (Some i)
    then have n: "hash_next (blocks u (BHash k)) = Buf i" "hash_next (blocks u (Buf i)) = BNull"
      using D(7) [OF k] D(8) [OF k Some] assms(4) by simp_all
    then have "chain_pred (BLoc 2) (Buf i) u = Some (Buf i)" by (subst chain_pred.simps) simp
    then show ?thesis using n D(5) assms(3) by (simp add: chain_remove_def B)
  qed
  define l where "l = lru_prev (blocks u BNull)"
  have l: "l = Buf 0 \<or> l \<in> range BLoc" using D(4) by (simp add: l_def)
  define v where "v = upd_blk (BLoc 2) (\<lambda>b. b\<lparr>flags := B_UNUSED\<rparr>) (upd_blk (BLoc 2) (\<lambda>b. b\<lparr>hash_next := BNull\<rparr>)
     (upd_blk (BLoc 2) (\<lambda>b. b\<lparr>hash_prev := BNull\<rparr>) u))"
  have v: "blocks v r = blocks u r" if "r \<noteq> BLoc 2" for r using that by (simp add: v_def upd_blk_blocks)
  define s' where "s' = upd_blk (BLoc 2) (\<lambda>b. b\<lparr>lru_next := BNull\<rparr>) (upd_blk BNull (\<lambda>b. b\<lparr>lru_prev := BLoc 2\<rparr>)
     (upd_blk (BLoc 2) (\<lambda>b. b\<lparr>lru_prev := l\<rparr>) (upd_blk l (\<lambda>b. b\<lparr>lru_next := BLoc 2\<rparr>) v)))"
  have ln: "lru_prev (blocks v BNull) = l" "l \<noteq> BNull" "BNull \<noteq> l" using v l by (auto simp: l_def)
  have s': "relCachedBlock (BLoc 2) u = Some s'"
    using ln by (simp add: relCachedBlock_def B assms(2) rem v_def [symmetric] l_def [symmetric] s'_def upd_blk_blocks Let_def)
  have bl: "blocks s' r = (if r = BNull then (blocks u BNull)\<lparr>lru_prev := BLoc 2\<rparr> 
      else if r = Buf 0 \<and> l = Buf 0 then (blocks u (Buf 0))\<lparr>lru_next := BLoc 2\<rparr> else blocks u r)" if "r \<notin> range BLoc" for r
    using that l v [of r] by (cases l) (auto simp: s'_def upd_blk_blocks image_iff)
  have b: "blocks s' BNull = (blocks u BNull)\<lparr>lru_prev := BLoc 2\<rparr>" "blocks s' (BHash j) = blocks u (BHash j)"
    "lru_prev (blocks s' (Buf j)) = lru_prev (blocks u (Buf j))" "0 < j \<Longrightarrow> lru_next (blocks s' (Buf j)) = lru_next (blocks u (Buf j))"
    "bdevice (blocks s' (Buf j)) = bdevice (blocks u (Buf j))" "bblock (blocks s' (Buf j)) = bblock (blocks u (Buf j))"
    "hash_next (blocks s' (Buf j)) = hash_next (blocks u (Buf j))" "buf (blocks s' (Buf j)) = buf (blocks u (Buf j))"
    "flags (blocks s' (Buf j)) = flags (blocks u (Buf j))" for j
    by (simp_all add: bl image_iff)
  have "pooled d p s'"
    using pu by (simp add: pooled_def pool_list_def pool_chains_def pool_data_def b)
  moreover have "disk_io s s'"
    by (simp add: s'_def v_def u_def disk_io_def) (simp add: upd_blk_def)
  ultimately show ?thesis using that s' by (simp add: u_def)
qed

section \<open>The pool after initialisation\<close>

definition pool_init :: "'a disk_scheme \<Rightarrow> pool" where
  "pool_init s = \<lparr>spot = 127, front = \<lambda>_. None, tail = \<lambda>_. None, tag = \<lambda>_. - 1, full = \<lambda>_. False,
     data = (\<lambda>i. buf (blocks s (Buf i))), zero = bblock (blocks s BNull)\<rparr>"

lemma bcache_link_fields:
  "bblock (blocks (bcache_link i s) r) = (if r = Buf i then - 1 else bblock (blocks s r))"
  "buf (blocks (bcache_link i s) r) = buf (blocks s r)" "disk_io s (bcache_link i s)"
  by (simp_all add: bcache_link_def Let_def upd_blk_blocks disk_io_def) (simp_all add: upd_blk_def)

lemma bcache_unhash_fields:
  "r \<notin> range BHash \<Longrightarrow> bblock (blocks (bcache_unhash i s) r) = bblock (blocks s r)"
  "buf (blocks (bcache_unhash i s) r) = buf (blocks s r)" "disk_io s (bcache_unhash i s)"
  by (auto simp: bcache_unhash_def Let_def upd_blk_blocks disk_io_def) (simp_all add: upd_blk_def)

lemma disk_io_fold: "(\<And>i s. disk_io s (f i s)) \<Longrightarrow> disk_io s (fold f is s)"
proof (induction "is" arbitrary: s)
  case (Cons i "is")
  from disk_io_trans [OF Cons.prems Cons.IH [OF Cons.prems]] show ?case by simp
qed (simp add: disk_io_def)

lemma fold_bcache_fields:
  "bblock (blocks (fold bcache_link [0..<n] s) (Buf i)) = (if i < n then - 1 else bblock (blocks s (Buf i)))"
  "bblock (blocks (fold bcache_link [0..<n] s) BNull) = bblock (blocks s BNull)"
  "buf (blocks (fold bcache_link [0..<n] s) r) = buf (blocks s r)"
  "r \<notin> range BHash \<Longrightarrow> bblock (blocks (fold bcache_unhash [0..<n] s) r) = bblock (blocks s r)"
  "buf (blocks (fold bcache_unhash [0..<n] s) r) = buf (blocks s r)"
  by (induction n) (auto simp: bcache_link_fields bcache_unhash_fields)

lemma blockCacheInit_fields:
  "i < 128 \<Longrightarrow> bblock (blocks (blockCacheInit s) (Buf i)) = - 1"
  "bblock (blocks (blockCacheInit s) BNull) = bblock (blocks s BNull)"
  "buf (blocks (blockCacheInit s) r) = buf (blocks s r)" "disk_io s (blockCacheInit s)"
proof -
  define s0 where "s0 = upd_blk BNull (\<lambda>b. b\<lparr>lru_next := BNull\<rparr>) (upd_blk BNull (\<lambda>b. b\<lparr>lru_prev := BNull\<rparr>) s)"
  define s1 where "s1 = fold bcache_link [0..<128] s0"
  define s2 where "s2 = upd_blk (Buf 0) (\<lambda>b. b\<lparr>lru_next := BNull\<rparr>) (upd_blk BNull (\<lambda>b. b\<lparr>lru_prev := Buf 0\<rparr>) s1)"
  have init: "blockCacheInit s = fold bcache_unhash [0..<128] s2"
    unfolding blockCacheInit_def s0_def s1_def s2_def Let_def ..
  have f: "bblock (blocks s2 (Buf i)) = (if i < 128 then - 1 else bblock (blocks s (Buf i)))"
    "bblock (blocks s2 BNull) = bblock (blocks s BNull)" "buf (blocks s2 r) = buf (blocks s r)" for i r
    unfolding s2_def s1_def s0_def by (simp_all only: upd_blk_blocks) (simp_all add: fold_bcache_fields upd_blk_blocks del: upt_rec_numeral)
  show "i < 128 \<Longrightarrow> bblock (blocks (blockCacheInit s) (Buf i)) = - 1"
    "bblock (blocks (blockCacheInit s) BNull) = bblock (blocks s BNull)"
    "buf (blocks (blockCacheInit s) r) = buf (blocks s r)"
    unfolding init using f by (simp_all add: fold_bcache_fields(4,5) image_iff del: upt_rec_numeral)
  have "disk_io s s0" by (simp add: s0_def disk_io_def) (simp add: upd_blk_def)
  moreover have "disk_io s0 s1" unfolding s1_def by (intro disk_io_fold bcache_link_fields)
  moreover have "disk_io s1 s2" by (simp add: s2_def disk_io_def) (simp add: upd_blk_def)
  moreover have "disk_io s2 (blockCacheInit s)" unfolding init by (intro disk_io_fold bcache_unhash_fields)
  ultimately show "disk_io s (blockCacheInit s)" using disk_io_trans by blast
qed

lemma pool_initial:
  assumes "\<forall>i < 128. length (buf (blocks s (Buf i))) = 512"
  shows "pooled d (pool_init s) (blockCacheInit s)"
proof -
  let ?t = "blockCacheInit s"
  note F = blockCacheInit_facts [of s] and G = blockCacheInit_fields(1) [of _ s] blockCacheInit_fields(2,3) [of s]
  have m: "lru_prev (blocks ?t (Buf i)) = last (BNull # map Buf (rev [Suc i..<128])) \<and>
      lru_next (blocks ?t (Buf i)) = hd (map Buf (rev [0..<i]) @ [BNull])" if "i < 128" for i
  proof -
    have "[0..<128] = [0..<i] @ i # [Suc i..<128]" using that upt_add_eq_append [of 0 i "128 - i"] by (simp add: upt_conv_Cons)
    then have "map Buf (rev [0..<128]) = map Buf (rev [Suc i..<128]) @ Buf i # map Buf (rev [0..<i])" by simp
    with F(1) have "lru.ring ?t BNull (map Buf (rev [Suc i..<128]) @ Buf i # map Buf (rev [0..<i]))" by metis
    from lru.ring_member [OF this] show ?thesis by simp
  qed
  show ?thesis
  proof (rule pooledI)
    have c: "[0..<128] = [0..<127] @ [127]" by (simp add: upt_Suc_append [of 0 127, simplified])
    have "lru_next (blocks ?t BNull) = hd (map Buf (rev [0..<128]) @ [BNull])" using lru.ring_nxt_head [OF F(1)] by simp
    then show "lru_next (blocks ?t BNull) = Buf (spot (pool_init s))" unfolding c by (simp add: pool_init_def)
    show "lru_prev (blocks ?t (Buf (spot (pool_init s)))) = BNull" using m [of 127] by (simp add: pool_init_def)
    have "last (map Buf (rev [0..<128])) = Buf 0" "map Buf (rev [0..<128]) \<noteq> []"
      by (simp_all add: last_map last_rev del: upt_Suc)
    then show "lru_prev (blocks ?t BNull) \<in> insert (Buf 0) (range BLoc)" using lru.ring_prv_head [OF F(1)] by simp
    fix i :: nat assume i: "0 < i" "i < 128"
    have "rev [0..<i] = (i - 1) # rev [0..<i - 1]" using i(1) by (cases i) simp_all
    with m [OF i(2)] show "lru_next (blocks ?t (Buf i)) = Buf (i - 1)" by simp
  qed (use F(2,3) G assms in \<open>simp_all add: pool_init_def\<close>)
qed

text \<open>
  C15. The cache implements the pool: a lookup gives the buffer the pool gives, a read of a full buffer
  gives the pool's bytes without access to the disk, and a write of any block puts its bytes into that
  buffer. Right after \<^verbatim>\<open>blockCacheInit\<close> the pool is empty and its spot is the last buffer; from there on
  the next buffer handed out is always the one below the buffer handed out last, in use or not.
\<close>

theorem cache_refines_pool:
  assumes "pooled d p s" "BLKHASH b = Some k" "0 < spot p \<or> pool_hit b k p"
  shows "(\<exists>s1. getCachedBlock d b s = Some (Buf (pool_buf b k p), s1) \<and> pooled d (pool_get b k p) s1) \<and>
    (full (pool_get b k p) (pool_buf b k p) \<longrightarrow>
      (\<exists>s1. blockRead dev d b s = Some (Buf (pool_buf b k p), s1) \<and> pooled d (pool_get b k p) s1 \<and>
         iotrace s1 = iotrace s \<and> buf (blocks s1 (Buf (pool_buf b k p))) = data p (pool_buf b k p))) \<and>
    (\<forall>r. bdevice (blocks s r) = d \<and> bblock (blocks s r) = b \<and> length (buf (blocks s r)) = 512 \<longrightarrow>
      (\<exists>s1. blockWrite r s = Some (0, s1) \<and> pooled d (pool_write b k (buf (blocks s r)) p) s1))"
proof (intro conjI impI allI)
  show "\<exists>s1. getCachedBlock d b s = Some (Buf (pool_buf b k p), s1) \<and> pooled d (pool_get b k p) s1"
    by (rule get_pooled [OF assms]) blast
  show "\<exists>s1. blockRead dev d b s = Some (Buf (pool_buf b k p), s1) \<and> pooled d (pool_get b k p) s1 \<and>
      iotrace s1 = iotrace s \<and> buf (blocks s1 (Buf (pool_buf b k p))) = data p (pool_buf b k p)"
    if "full (pool_get b k p) (pool_buf b k p)"
    by (rule read_pooled [OF assms that, of dev]) blast
  show "\<exists>s1. blockWrite r s = Some (0, s1) \<and> pooled d (pool_write b k (buf (blocks s r)) p) s1"
    if r: "bdevice (blocks s r) = d \<and> bblock (blocks s r) = b \<and> length (buf (blocks s r)) = 512" for r
    by (rule write_pooled [OF assms r [THEN conjunct1] r [THEN conjunct2, THEN conjunct1] r [THEN conjunct2, THEN conjunct2]]) blast
qed

theorem cache_refines_pool_witness:
  "(\<exists>s1. getCachedBlock 0 20 init_cache = Some (Buf 127, s1)) \<and>
   (\<exists>s1. blockWrite (BLoc 0) init_cache = Some (0, s1) \<and>
      pooled 0 (pool_write 1 1 (replicate 512 7) (pool_init demo_disk)) s1)"
proof -
  have p: "pooled 0 (pool_init demo_disk) init_cache"
    unfolding init_cache_def by (rule pool_initial) (simp add: demo_block_def)
  have f: "0 < spot (pool_init demo_disk)" "\<And>b k. pool_buf b k (pool_init demo_disk) = 127"
    by (simp_all add: pool_init_def pool_buf_def pool_hit_def)
  have k: "BLKHASH 1 = Some 1" by (simp add: BLKHASH_nonneg)
  have b: "blocks init_cache (BLoc 0) = demo_block" by (rule init_cache_loc)
  have r: "bdevice (blocks init_cache (BLoc 0)) = 0 \<and> bblock (blocks init_cache (BLoc 0)) = 1 \<and>
      length (buf (blocks init_cache (BLoc 0))) = 512" "buf (blocks init_cache (BLoc 0)) = replicate 512 7"
    unfolding b by (simp_all add: demo_block_def)
  note c1 = cache_refines_pool [OF p BLKHASH_20(1) disjI1 [OF f(1)], of busy_drive, unfolded f(2), THEN conjunct1]
  note c2 = cache_refines_pool [OF p k disjI1 [OF f(1)], of busy_drive, THEN conjunct2, THEN conjunct2,
      THEN spec, THEN mp, OF r(1), unfolded r(2)]
  show ?thesis using c1 c2 by blast
qed

end
