(* ===== verification/Mount.thy ===== *)
theory Mount
  imports Self_Tests Fs_Invariant Cache_Pool
begin

text \<open>
  \<^verbatim>\<open>fsInit\<close> of \<^verbatim>\<open>src/fs.c\<close> from its first to its last line, as the kernel runs it when it boots: driver, caches,
  disk layout, the root directory, and \<^verbatim>\<open>fileTest\<close>, which makes three files and a directory, lists them,
  writes to the first file and reads it again.

  The proof follows the run through the pool of theory \<open>Cache_Pool\<close>. One buffer of the pool serves as the
  inode bitmap and as the data bitmap: each allocation looks up the superblock first, which sets the front
  of the list to the buffer below the superblock's, so that the bitmap looked up next is given that buffer
  with the bytes the other bitmap left in it.
\<close>

section \<open>Single cache operations\<close>

text \<open>Buffer \<open>i\<close> given to block \<open>b\<close>, found or taken, with the bytes \<open>c\<close>.\<close>

definition took :: "nat \<Rightarrow> u32 \<Rightarrow> nat \<Rightarrow> u8 list \<Rightarrow> pool \<Rightarrow> pool" where
  "took i b k c p = p\<lparr>spot := i - 1, front := (front p)(k \<mapsto> i),
     tail := (tail p)(i := if pool_hit b k p then tail p i else front p k), tag := (tag p)(i := b),
     full := (full p)(i := True), data := (data p)(i := c)\<rparr>"

lemma took_get: "pool_buf b k p = i \<Longrightarrow> pool_put i c (pool_get b k p) = took i b k c p"
proof (cases "pool_hit b k p")
  case True
  assume "pool_buf b k p = i"
  moreover from True obtain j where "front p k = Some j" "tag p j = b" by (auto simp: pool_hit_def split: option.splits)
  ultimately have "front p k = Some i" "tag p i = b" using True by (auto simp: pool_buf_def)
  with True show ?thesis
    by (simp add: took_def pool_get_def pool_put_def pool_buf_def fun_upd_idem Let_def)
qed (simp add: took_def pool_get_def pool_put_def Let_def)

lemma read_took:
  assumes "pooled d p s" "BLKHASH b = Some k" "pool_buf b k p = i" "0 < i" "\<forall>t. \<not> bit (rd8 dev t IDE_CMD_PORT) 0"
  obtains s' c where "blockRead dev d b s = Some (Buf i, s')" "pooled d (took i b k c p) s'" "cache_io s s'"
    "length c = 512" "full p i \<Longrightarrow> c = data p i" "buf (blocks s' (Buf i)) = c"
proof (cases "full (pool_get b k p) i")
  case True
  have sp: "0 < spot p \<or> pool_hit b k p" using assms(3,4) by (auto simp: pool_buf_def split: if_splits)
  have i: "i < 128" using pool_buf_less [OF assms(1,2)] assms(3) by simp
  obtain s' where s': "blockRead dev d b s = Some (Buf i, s')" "pooled d (pool_get b k p) s'"
    "cache_io s s'" "buf (blocks s' (Buf i)) = data p i"
    using read_pooled [OF assms(1,2) sp, unfolded assms(3), OF True, of dev] by metis
  have "pool_put i (data p i) (pool_get b k p) = pool_get b k p"
    using True by (simp add: pool_put_def fun_upd_idem)
  then have "pooled d (took i b k (data p i) p) s'" using s'(2) took_get [OF assms(3)] by simp
  with that [OF s'(1) this s'(3)] s'(4) pooledD(9) [OF assms(1) i] show ?thesis by simp
next
  case False
  have sp: "0 < spot p \<or> pool_hit b k p" using assms(3,4) by (auto simp: pool_buf_def split: if_splits)
  have i: "i < 128" using pool_buf_less [OF assms(1,2)] assms(3) by simp
  from False have nf: "\<not> full p i" by (auto simp: pool_get_def Let_def split: if_splits)
  have "\<And>t. \<not> bit (rd8 dev t IDE_CMD_PORT) 0" using assms(5) by simp
  from read_pooled_disk [OF assms(1,2) sp, unfolded assms(3), OF False this]
  obtain s' c where s': "blockRead dev d b s = Some (Buf i, s')" "length c = 512"
    "pooled d (pool_put i c (pool_get b k p)) s'" "cache_io s s'" by metis
  have "buf (blocks s' (Buf i)) = c" using pooledD(9) [OF s'(3) i] by (simp add: pool_put_def)
  with that [OF s'(1) s'(3) [unfolded took_get [OF assms(3)]] s'(4,2)] nf show ?thesis by simp
qed

lemma write_took:
  assumes "pooled d p s" "BLKHASH b = Some k" "pool_buf b k p = i" "0 < i"
    and "bdevice (blocks s r) = d" "bblock (blocks s r) = b" "buf (blocks s r) = c" "length c = 512"
  obtains s' where "blockWrite r s = Some (0, s')" "pooled d (took i b k c p) s'" "cache_io s s'"
proof -
  have sp: "0 < spot p \<or> pool_hit b k p" using assms(3,4) by (auto simp: pool_buf_def split: if_splits)
  have l: "length (buf (blocks s r)) = 512" by (simp add: assms(7,8))
  obtain s' where "blockWrite r s = Some (0, s')" "pooled d (pool_write b k (buf (blocks s r)) p) s'" "cache_io s s'"
    by (rule write_pooled [OF assms(1,2) sp assms(5,6) l])
  then show ?thesis using that by (simp add: pool_write_def assms(3,7) took_get)
qed

lemma took_buf: "0 < i \<Longrightarrow> pool_buf b k (took i b k c p) = i" "pool_hit b k (took i b k c p)"
  by (simp_all add: took_def pool_buf_def pool_hit_def)

text \<open>Reading, changing and writing back.\<close>

lemma pooled_front:
  assumes "pooled d p s" "k < 128" "front p k = Some i" 
  shows "bdevice (blocks s (Buf i)) = d" "bblock (blocks s (Buf i)) = tag p i" "buf (blocks s (Buf i)) = data p i"
    "length (data p i) = 512" "i < 128" "0 < i"
  using pooledD(8) [OF assms] pooledD(9) [OF assms(1), of i] by simp_all

lemma update_took:
  assumes "pooled d (took i b k c p) s" "BLKHASH b = Some k" "0 < i" "i < 128" "length c' = 512"
  obtains s' where "blockWrite (Buf i) (upd_blk (Buf i) (\<lambda>b. b\<lparr>buf := c'\<rparr>) s) = Some (0, s')"
    "pooled d (took i b k c' p) s'" "disk_io s s'"
proof -
  define u where "u = upd_blk (Buf i) (\<lambda>b. b\<lparr>buf := c'\<rparr>) s"
  let ?p = "pool_set i c' (took i b k c p)"
  have pu: "pooled d ?p u" unfolding u_def by (rule pooled_set [OF assms(1,4,5)])
  have k: "k < 128" by (rule BLKHASH_less [OF assms(2)])
  have f: "front ?p k = Some i" "tag ?p i = b" "data ?p i = c'" by (simp_all add: pool_set_def took_def)
  note d = pooled_front [OF pu k f(1), unfolded f(2,3)]
  have h: "pool_buf b k ?p = i" "pool_hit b k ?p" by (simp_all add: pool_buf_def pool_hit_def f)
  obtain s' where s': "blockWrite (Buf i) u = Some (0, s')" "pooled d (took i b k c' ?p) s'" "cache_io u s'"
    by (rule write_took [OF pu assms(2) h(1) assms(3) d(1-3) assms(5)])
  have "took i b k c' ?p = took i b k c' p"
    using h(2) by (simp add: took_def [of _ _ _ _ "pool_set _ _ _"]) (simp add: pool_set_def took_def)
  then show ?thesis
    using that [of s'] s' disk_io_trans [OF _ cache_ioD(1) [OF s'(3)], of s] by (simp add: u_def)
qed

section \<open>The state of the boot\<close>

text \<open>
  \<open>stack_ok\<close>: what the stack holds where \<^verbatim>\<open>allocInode\<close> and \<^verbatim>\<open>allocData\<close> take it for a block, a block of
  device 0 with number \<open>J\<close> and key \<open>K\<close>, away from the blocks the boot uses.
\<close>

definition marks :: "nat \<Rightarrow> u8 list" where
  "marks m = replicate m 1 @ replicate (512 - m) 0"

definition junk_ok :: "nat \<Rightarrow> u32 \<Rightarrow> block \<Rightarrow> bool" where
  "junk_ok K J B \<longleftrightarrow> BLKHASH J = Some K \<and> K \<notin> {1, 24, 26} \<and> \<not> (10 \<le> K \<and> K \<le> 21) \<and>
     bdevice B = 0 \<and> bblock B = J \<and> length (buf B) = 512"

definition stack_ok :: "nat \<Rightarrow> u32 \<Rightarrow> env \<Rightarrow> bool" where
  "stack_ok K J e \<longleftrightarrow> (\<forall>t. junk_ok K J (j_stack (f_junk (e_frame e t))) \<and> length (f_dentry (e_frame e t)) = 104)"

text \<open>
  \<open>booted\<close>: buffer 127 holds the superblock; buffer 126 holds whichever bitmap was used last, with \<open>m\<close>
  marks; buffer 125 will take, or has taken, the block of the stack. \<open>dir_at\<close>: the root directory, in
  buffer 123 once it has an entry.
\<close>

definition booted :: "nat \<Rightarrow> u32 \<Rightarrow> u32 \<Rightarrow> nat \<Rightarrow> pool \<Rightarrow> bool" where
  "booted K J n m p \<longleftrightarrow> front p 1 = Some 127 \<and> tag p 127 = 1 \<and> full p 127 \<and> sb_of_bytes (data p 127) = layout n \<and>
     front p 20 = Some 126 \<and> front p 21 \<in> {Some 125, Some 126} \<and> full p 126 \<and> data p 126 = marks m \<and> m \<le> 10 \<and>
     (\<forall>j < 10. m \<le> j \<longrightarrow> front p (10 + j) = None) \<and> zero p \<noteq> J"

definition junked :: "nat \<Rightarrow> u32 \<Rightarrow> pool \<Rightarrow> bool" where
  "junked K J p \<longleftrightarrow> front p K = Some 125 \<and> tag p 125 = J \<and> tail p 125 = None"

definition dir_at :: "(u32 \<times> u8 list) list \<Rightarrow> pool \<Rightarrow> bool" where
  "dir_at es p \<longleftrightarrow> front p 24 = None \<and> es = [] \<or>
     front p 24 = Some 123 \<and> tag p 123 = 24 \<and> full p 123 \<and> (\<exists>c. data p 123 = concat (map dentry es) @ c)"

lemma marks_facts:
  "length (marks m) = 512 \<longleftrightarrow> m \<le> 512" "m < 10 \<Longrightarrow> (marks m)[m := 1] = marks (Suc m)"
  "m \<le> 10 \<Longrightarrow> bitmap_scan (marks m) 0 10 = Some (if m < 10 then of_nat m else - 1)"
proof -
  show "length (marks m) = 512 \<longleftrightarrow> m \<le> 512" by (auto simp: marks_def)
  assume m: "m < 10"
  then show "(marks m)[m := 1] = marks (Suc m)"
    by (cases "512 - m") (auto simp: marks_def list_update_append replicate_app_Cons_same)
next
  show "m \<le> 10 \<Longrightarrow> bitmap_scan (marks m) 0 10 = Some (if m < 10 then of_nat m else - 1)"
    unfolding marks_def by (rule scan_marked)
qed

lemma BLKHASH_nat: "k < 128 \<Longrightarrow> BLKHASH (of_nat k) = Some k"
proof -
  assume k: "k < 128"
  have "sint (of_nat k :: u32) = int k" using k sint_small [of "of_nat k"] by (simp add: unat_of_nat_u32)
  with k show ?thesis using BLKHASH_nonneg [of "of_nat k"] by simp
qed

lemma BLKHASH_boot: "BLKHASH 1 = Some 1" "BLKHASH 24 = Some 24" "BLKHASH 26 = Some 26"
  using BLKHASH_nat [of 1] BLKHASH_nat [of 24] BLKHASH_nat [of 26] by simp_all

text \<open>The superblock, then one of the bitmaps: it is always buffer 126 that is returned, with all the marks.\<close>

lemma read_bitmap:
  assumes "pooled 0 p s" "booted K J n m p" "g = 20 \<or> g = 21 \<and> junked K J p \<and> J \<noteq> 21" "\<forall>t. \<not> bit (rd8 dev t IDE_CMD_PORT) 0"
  obtains s1 s2 where "readSuperblock dev sb 0 s = Some (0, layout n, s1)" "blockRead dev 0 (of_nat g) s1 = Some (Buf 126, s2)"
    "pooled 0 (took 126 (of_nat g) g (marks m) (took 127 1 1 (data p 127) p)) s2" "buf (blocks s2 (Buf 126)) = marks m" "disk_io s s2"
proof -
  have b: "front p 1 = Some 127" "tag p 127 = 1" "full p 127" "sb_of_bytes (data p 127) = layout n"
    "front p 20 = Some 126" "front p 21 \<in> {Some 125, Some 126}" "full p 126" "data p 126 = marks m"
    using assms(2) by (simp_all add: booted_def)
  have h1: "pool_buf 1 1 p = 127" using b(1,2) by (simp add: pool_buf_def pool_hit_def)
  obtain s1 where s1: "blockRead dev 0 1 s = Some (Buf 127, s1)" "pooled 0 (took 127 1 1 (data p 127) p) s1" "cache_io s s1"
    "buf (blocks s1 (Buf 127)) = data p 127"
    by (rule read_took [OF assms(1) BLKHASH_boot(1) h1 _ assms(4)]) (use b(3) in auto)
  let ?p = "took 127 1 1 (data p 127) p"
  have g: "g = 20 \<or> g = 21" using assms(3) by blast
  have h2: "pool_buf (of_nat g) g ?p = 126"
    using assms(3) b(5,6) by (auto simp: pool_buf_def pool_hit_def took_def junked_def)
  have kg: "BLKHASH (of_nat g) = Some g" using g by (intro BLKHASH_nat) auto
  have f: "full ?p 126" "data ?p 126 = marks m" using b(7,8) by (simp_all add: took_def)
  obtain s2 where s2: "blockRead dev 0 (of_nat g) s1 = Some (Buf 126, s2)" "pooled 0 (took 126 (of_nat g) g (marks m) ?p) s2"
    "cache_io s1 s2" "buf (blocks s2 (Buf 126)) = marks m"
    by (rule read_took [OF s1(2) kg h2 _ assms(4)]) (use f in auto)
  have "readSuperblock dev sb 0 s = Some (0, layout n, s1)"
    using s1(1,4) b(4) by (simp add: readSuperblock_def)
  moreover have "disk_io s s2" using disk_io_trans cache_ioD(1) s1(3) s2(3) by blast
  ultimately show ?thesis using that s2(1,2,4) by blast
qed

lemma poke_mark:
  assumes "buf (blocks s r) = marks m" "m < 10"
  shows "poke_buf r (sint (of_nat m :: u32)) 1 s = Some (upd_blk r (\<lambda>b. b\<lparr>buf := marks (Suc m)\<rparr>) s)"
proof -
  have "sint (of_nat m :: u32) = int m" using assms(2) sint_small [of "of_nat m"] by (simp add: unat_of_nat_u32)
  moreover have "upd_blk r (\<lambda>b. b\<lparr>buf := (buf b)[m := 1]\<rparr>) s = upd_blk r (\<lambda>b. b\<lparr>buf := marks (Suc m)\<rparr>) s"
    using marks_facts(2) [OF assms(2)] by (simp add: upd_blk_def assms(1))
  ultimately show ?thesis
    using assms marks_facts(1) [of m] by (simp add: poke_buf_def)
qed

text \<open>\<open>took\<close> with the bytes set afterwards.\<close>

lemma pooled_retook:
  assumes "pooled d (took i b k c p) s" "i < 128" "length c' = 512"
  shows "pooled d (took i b k c' p) (upd_blk (Buf i) (\<lambda>b. b\<lparr>buf := c'\<rparr>) s)"
proof -
  have "pool_set i c' (took i b k c p) = took i b k c' p" by (simp add: pool_set_def took_def)
  with pooled_set [OF assms] show ?thesis by simp
qed

text \<open>The pool after an allocation of an inode, and after one of a data block.\<close>

definition inode_pool :: "nat \<Rightarrow> u32 \<Rightarrow> nat \<Rightarrow> u8 list \<Rightarrow> u8 list \<Rightarrow> pool \<Rightarrow> pool" where
  "inode_pool K J m j c p = (let p = took 127 1 1 (data p 127) p; p = took 126 20 20 (marks (Suc m)) p;
     p = took 125 J K j p in took 124 (of_nat (10 + m)) (10 + m) c p)"

definition data_pool :: "nat \<Rightarrow> pool \<Rightarrow> pool" where
  "data_pool m p = took 126 21 21 (marks m) (took 127 1 1 (data p 127) p)"

lemma inode_pool_facts:
  assumes "booted K J n m p" "junk_ok K J B" "m < 10" "junked K J p \<or> front p K = None" "q = inode_pool K J m j c p"
  shows "booted K J n (Suc m) q" "junked K J q" "spot q = 123" "dir_at es q = dir_at es p" "front q 26 = front p 26"
proof -
  have K: "K \<notin> {1, 20, 21, 24, 26}" "\<And>i. i < 10 \<Longrightarrow> K \<noteq> 10 + i" "\<And>i. i < 10 \<Longrightarrow> 10 + i \<noteq> K"
    using assms(2) by (auto simp: junk_ok_def)
  show "booted K J n (Suc m) q"
    using assms(1,3,4) K unfolding booted_def assms(5) inode_pool_def by (auto simp: took_def Let_def)
  show "junked K J q"
    using assms(3,4) K unfolding junked_def assms(5) inode_pool_def by (auto simp: took_def Let_def pool_hit_def)
  show "spot q = 123" "dir_at es q = dir_at es p" "front q 26 = front p 26"
    using assms(3) K unfolding dir_at_def assms(5) inode_pool_def by (simp_all add: took_def Let_def)
qed

section \<open>The inode buffers\<close>

text \<open>\<open>iring j m s\<close>: the inode buffers from \<open>j\<close> down are free and inode number \<open>m\<close> is the next to be looked up.\<close>

definition iring :: "nat \<Rightarrow> nat \<Rightarrow> 'a fsys_scheme \<Rightarrow> bool" where
  "iring j m s \<longleftrightarrow> 0 < j \<and> j < 128 \<and> ilru_next (inodes s INull) = IBuf j \<and>
     (\<forall>i. 0 < i \<longrightarrow> i < 128 \<longrightarrow> ilru_next (inodes s (IBuf i)) = IBuf (i - 1)) \<and>
     (\<forall>k < 128. m \<le> k \<longrightarrow> ihash_next (inodes s (IHash k)) = INull)"

definition body :: "inode \<Rightarrow> u32 \<times> u32 \<times> u32 \<times> diskInode" where
  "body i = (isize i, ino i, idevice i, dinode i)"

definition fs_io :: "'a fsys_scheme \<Rightarrow> 'a fsys_scheme \<Rightarrow> bool" where
  "fs_io s s' \<longleftrightarrow> s' = s\<lparr>iotrace := iotrace s', blocks := blocks s', inodes := inodes s'\<rparr>"

lemma fs_io_disk: "disk_io s s' \<Longrightarrow> fs_io s s' \<and> inodes s' = inodes s"
  by (cases s; cases s') (simp add: disk_io_def fs_io_def)

lemma fs_io_trans: "fs_io s t \<Longrightarrow> fs_io t u \<Longrightarrow> fs_io s u"
  by (cases s; cases t; cases u) (auto simp: fs_io_def)

text \<open>What the file system never writes while it boots: the name of the directory, the threads, and the rest of the kernel.\<close>

definition static :: "'a files_scheme \<Rightarrow> u8 list \<times> sched_view \<times> 'a" where
  "static s = (cwd_name s, view s, files.more s)"

lemma static_simps [simp]:
  "static (s\<lparr>root := r\<rparr>) = static s" "static (s\<lparr>cwd := r\<rparr>) = static s" "static (s\<lparr>of_cnt := m\<rparr>) = static s"
  "static (s\<lparr>max_fd := m\<rparr>) = static s" "static (s\<lparr>fds := f\<rparr>) = static s"
  "static (s\<lparr>cwd_name := c\<rparr>) = (c, snd (static s))" "static (s\<lparr>iflag := i\<rparr>) = static s" "static (s\<lparr>row := x\<rparr>) = static s"
  "static (s\<lparr>col := x\<rparr>) = static s" "static (s\<lparr>videoMemory := v\<rparr>) = static s" "static (s\<lparr>cslLock := l\<rparr>) = static s"
  "static (s\<lparr>iotrace := e\<rparr>) = static s"
  by (simp_all add: static_def view_def)

lemma fs_io_files:
  assumes "fs_io s s'"
  shows "cwd s' = cwd s" "fds s' = fds s" "max_fd s' = max_fd s" "root s' = root s" "cslLock s' = cslLock s" "screen s' = screen s"
    "cwd_name s' = cwd_name s" "static s' = static s"
proof -
  obtain t b i where "s' = s\<lparr>iotrace := t, blocks := b, inodes := i\<rparr>" using assms by (auto simp: fs_io_def)
  then show "cwd s' = cwd s" "fds s' = fds s" "max_fd s' = max_fd s" "root s' = root s" "cslLock s' = cslLock s" "screen s' = screen s"
    "cwd_name s' = cwd_name s" "static s' = static s"
    by (simp_all add: screen_def static_def view_def)
qed

lemma fs_io_prints: "fs_io s s' \<Longrightarrow> lock (cslLock s) = 0 \<Longrightarrow> prints [] s s'"
  by (cases s; cases s') (auto simp: fs_io_def prints_def screen_def)

lemma fs_io_ino: "fs_io s (upd_ino r f s)"
  by (simp add: fs_io_def upd_ino_def)

lemma IHASH_nat: "k < 128 \<Longrightarrow> IHASH (of_nat k) = Some k"
proof -
  assume k: "k < 128"
  have "sint (of_nat k :: u32) = int k" using k sint_small [of "of_nat k"] by (simp add: unat_of_nat_u32)
  with k show ?thesis by (auto simp: IHASH_def signed_modulo_int_def sgn_if Let_def)
qed

lemma iring_take:
  assumes "iring j m s" "m < 128"
  obtains s' where "getCachedInode (of_nat m) d s = Some (IBuf j, s')"
    "s' = s\<lparr>inodes := inodes s'\<rparr>" "\<forall>r. r \<noteq> IBuf j \<longrightarrow> body (inodes s' r) = body (inodes s r)"
    "ilru_next (inodes s' INull) = IBuf (j - 1)" "\<forall>r. r \<noteq> INull \<longrightarrow> ilru_next (inodes s' r) = ilru_next (inodes s r)"
    "\<forall>k. k \<noteq> m \<longrightarrow> ihash_next (inodes s' (IHash k)) = ihash_next (inodes s (IHash k))"
proof -
  have r: "ilru_next (inodes s INull) = IBuf j" "ilru_next (inodes s (IBuf j)) = IBuf (j - 1)"
    "ihash_next (inodes s (IHash m)) = INull" "IBuf (j - 1) \<noteq> IBuf j"
    using assms by (auto simp: iring_def)
  have u: "icache_take m s = (IBuf j, upd_ino (IHash m) (\<lambda>n. n\<lparr>ihash_next := IBuf j\<rparr>)
      (upd_ino (IBuf j) (\<lambda>n. n\<lparr>ihash_prev := IHash m\<rparr>)
      (upd_ino (IBuf j) (\<lambda>n. n\<lparr>ihash_next := INull\<rparr>)
      (upd_ino (IBuf j) (\<lambda>n. n\<lparr>dinode := (dinode n)\<lparr>itype := I_NOTCACHE\<rparr>\<rparr>)
      (upd_ino (IBuf (j - 1)) (\<lambda>n. n\<lparr>ilru_prev := INull\<rparr>)
      (upd_ino INull (\<lambda>n. n\<lparr>ilru_next := IBuf (j - 1)\<rparr>) s))))))"
    using r by (simp add: icache_take_def Let_def upd_ino_inodes)
  show ?thesis
  proof (rule that [of "snd (icache_take m s)"])
    show "getCachedInode (of_nat m) d s = Some (IBuf j, snd (icache_take m s))"
      using r IHASH_nat [OF assms(2)] by (simp add: getCachedInode_def icache_find_def u)
    show "snd (icache_take m s) = s\<lparr>inodes := inodes (snd (icache_take m s))\<rparr>"
      unfolding u snd_conv by (simp add: upd_ino_def)
  qed (use r in \<open>simp_all add: u upd_ino_inodes body_def\<close>)
qed

lemma length_di_zero: "length (di_bytes zero_dinode) = 292"
proof -
  have "length (concat (map bytes_of xs)) = 4 * length xs" for xs :: "u32 list" by (induction xs) simp_all
  from this [of "replicate 64 0"] show ?thesis by (simp add: di_bytes_def zero_dinode_def bytes16_def del: map_replicate)
qed

section \<open>Allocation\<close>

lemma allocInode_boot:
  fixes s :: "'a fsys_scheme"
  assumes "pooled 0 p s" "booted K J n m p" "m < 10" "junked K J p \<or> front p K = None" "junk_ok K J (j_stack jk)"
    and "iring j m s" "1 < j" "\<forall>t. \<not> bit (rd8 dev t IDE_CMD_PORT) 0"
  obtains s' q where "allocInode dev jk 0 s = Some (IBuf j, s')" "pooled 0 q s'" "booted K J n (Suc m) q" "junked K J q"
    "spot q = 123" "\<forall>es. dir_at es q = dir_at es p" "front q 26 = front p 26" "fs_io s s'" "iring (j - 1) (Suc m) s'"
    "body (inodes s' (IBuf j)) = (0, of_nat m, 0, zero_dinode)" "\<forall>r. r \<noteq> IBuf j \<longrightarrow> body (inodes s' r) = body (inodes s r)"
proof -
  have J: "BLKHASH J = Some K" "bdevice (j_stack jk) = 0" "bblock (j_stack jk) = J" "length (buf (j_stack jk)) = 512"
    "K \<noteq> 1" "K \<noteq> 20" "\<And>i. i < 10 \<Longrightarrow> K \<noteq> 10 + i"
    using assms(5) by (auto simp: junk_ok_def)
  let ?p1 = "took 127 1 1 (data p 127) p"
  obtain s1 s2 where s2: "readSuperblock dev (j_sb jk) 0 s = Some (0, layout n, s1)" "blockRead dev 0 20 s1 = Some (Buf 126, s2)"
    "pooled 0 (took 126 20 20 (marks m) ?p1) s2" "buf (blocks s2 (Buf 126)) = marks m" "disk_io s s2"
    using read_bitmap [OF assms(1,2), of 20 dev "j_sb jk"] assms(8) by auto
  have sc: "bitmap_scan (buf (blocks s2 (Buf 126))) 0 (nat (sint (nInodeBlock (layout n)))) = Some (of_nat m)"
    using marks_facts(3) [of m] assms(3) by (simp add: s2(4) layout_fields)
  define s3 where "s3 = upd_blk (Buf 126) (\<lambda>b. b\<lparr>buf := marks (Suc m)\<rparr>) s2"
  have pk: "poke_buf (Buf 126) (sint (of_nat m :: u32)) 1 s2 = Some s3"
    unfolding s3_def by (rule poke_mark [OF s2(4) assms(3)])
  let ?p3 = "took 126 20 20 (marks (Suc m)) ?p1"
  have p3: "pooled 0 ?p3 s3"
    unfolding s3_def by (rule pooled_retook [OF s2(3)]) (use assms(3) marks_facts(1) in auto)
  define B where "B = j_stack jk"
  define s4 where "s4 = upd_blk (BLoc 2) (\<lambda>_. B) s3"
  have p4: "pooled 0 ?p3 s4" "bdevice (blocks s4 (BLoc 2)) = 0" "bblock (blocks s4 (BLoc 2)) = J" "buf (blocks s4 (BLoc 2)) = buf B"
    using p3 J by (simp_all add: s4_def upd_blk_blocks B_def)
  have h4: "pool_buf J K ?p3 = 125"
    using assms(4) J(5,6) by (auto simp: pool_buf_def pool_hit_def took_def junked_def)
  obtain s5 where s5: "blockWrite (BLoc 2) s4 = Some (0, s5)" "pooled 0 (took 125 J K (buf B) ?p3) s5" "cache_io s4 s5"
    by (rule write_took [OF p4(1) J(1) h4 _ p4(2-4)]) (use J(4) in \<open>simp_all add: B_def\<close>)
  let ?p5 = "took 125 J K (buf B) ?p3"
  have mark: "allocInode_mark dev jk 0 s = Some (of_nat m, layout n, s5)"
    using s2(1,2) sc pk s5(1) by (simp add: allocInode_mark_def layout_fields s4_def B_def)
  have "disk_io s2 s3" "disk_io s3 s4" by (simp_all add: s3_def s4_def)
  then have io5: "disk_io s s5" using s2(5) cache_ioD(1) [OF s5(3)] disk_io_trans by blast
  then have in5: "inodes s5 = inodes s" "fs_io s s5" using fs_io_disk by blast+
  have "iring j m s5" using assms(6) by (simp add: iring_def in5(1))
  then obtain s6 where s6: "getCachedInode (of_nat m) 0 s5 = Some (IBuf j, s6)"
    "s6 = s5\<lparr>inodes := inodes s6\<rparr>" "\<forall>r. r \<noteq> IBuf j \<longrightarrow> body (inodes s6 r) = body (inodes s r)"
    "ilru_next (inodes s6 INull) = IBuf (j - 1)" "\<forall>r. r \<noteq> INull \<longrightarrow> ilru_next (inodes s6 r) = ilru_next (inodes s r)"
    "\<forall>k. k \<noteq> m \<longrightarrow> ihash_next (inodes s6 (IHash k)) = ihash_next (inodes s (IHash k))"
    using assms(3) by (auto elim: iring_take [where m = m and d = 0] simp: in5(1))
  define s7 where "s7 = upd_ino (IBuf j) (\<lambda>i. i\<lparr>dinode := zero_dinode\<rparr>) (upd_ino (IBuf j) (\<lambda>i. i\<lparr>isize := 0\<rparr>)
    (upd_ino (IBuf j) (\<lambda>i. i\<lparr>access := 0\<rparr>) (upd_ino (IBuf j) (\<lambda>i. i\<lparr>idevice := 0\<rparr>)
    (upd_ino (IBuf j) (\<lambda>i. i\<lparr>ino := of_nat m\<rparr>) s6))))"
  have "blocks s6 = blocks s5" "fs_io s5 s6" by (subst s6(2), simp add: fs_io_def)+
  then have io7: "fs_io s5 s7" "blocks s7 = blocks s5"
    unfolding s7_def using fs_io_ino fs_io_trans by (blast, simp add: upd_ino_def)
  have s7: "body (inodes s7 (IBuf j)) = (0, of_nat m, 0, zero_dinode)"
    "dinode (inodes s7 (IBuf j)) = zero_dinode" "\<forall>r. r \<noteq> IBuf j \<longrightarrow> body (inodes s7 r) = body (inodes s r)"
    "ilru_next (inodes s7 r) = ilru_next (inodes s6 r)" "ihash_next (inodes s7 r) = ihash_next (inodes s6 r)" for r
    using s6(3) by (simp_all add: s7_def upd_ino_inodes body_def)
  have "iring (j - 1) (Suc m) s7"
    using assms(6,7) s6(4-6) by (auto simp: iring_def s7(4,5))
  have p7: "pooled 0 ?p5 s7" by (rule pooled_cong [OF s5(2)]) (simp add: io7(2))
  have nf: "front p (10 + m) = None" using assms(2,3) by (simp add: booted_def)
  have h7: "pool_buf (of_nat (10 + m)) (10 + m) ?p5 = 124"
    using nf assms(3) J(7) [of m] by (auto simp: pool_buf_def pool_hit_def took_def)
  have k7: "BLKHASH (of_nat (10 + m)) = Some (10 + m)" by (rule BLKHASH_nat) (use assms(3) in simp)
  obtain s8 c where s8: "blockRead dev 0 (of_nat (10 + m)) s7 = Some (Buf 124, s8)"
    "pooled 0 (took 124 (of_nat (10 + m)) (10 + m) c ?p5) s8" "cache_io s7 s8" "length c = 512" "buf (blocks s8 (Buf 124)) = c"
    by (rule read_took [OF p7 k7 h7 _ assms(8)]) auto
  define c' where "c' = blit c 0 (di_bytes zero_dinode)"
  have c': "length c' = 512" using s8(4) length_di_zero by (simp add: c'_def)
  obtain s9 where s9: "blockWrite (Buf 124) (upd_blk (Buf 124) (\<lambda>b. b\<lparr>buf := c'\<rparr>) s8) = Some (0, s9)"
    "pooled 0 (took 124 (of_nat (10 + m)) (10 + m) c' ?p5) s9" "disk_io s8 s9"
    by (rule update_took [OF s8(2) k7 _ _ c']) auto
  have in8: "inodes s8 = inodes s7" "fs_io s7 s8" using fs_io_disk [OF cache_ioD(1) [OF s8(3)]] by auto
  have in9: "inodes s9 = inodes s7" "fs_io s8 s9" using fs_io_disk [OF s9(3)] in8 by auto
  have up: "upd_blk (Buf 124) (\<lambda>b. b\<lparr>buf := blit (buf b) 0 (di_bytes (dinode (inodes s8 (IBuf j))))\<rparr>) s8 =
      upd_blk (Buf 124) (\<lambda>b. b\<lparr>buf := c'\<rparr>) s8"
    using s8(5) by (simp add: in8(1) s7(2) c'_def upd_blk_def)
  have ne: "of_nat m \<noteq> (- 1 :: u32)"
  proof
    assume "of_nat m = (- 1 :: u32)"
    then have "sint (of_nat m :: u32) = - 1" by simp
    with assms(3) show False using sint_small [of "of_nat m"] by (simp add: unat_of_nat_u32)
  qed
  have nb: "of_nat m + inodeStart (layout n) = of_nat (10 + m)" by (simp add: layout_fields)
  have run: "allocInode dev jk 0 s = Some (IBuf j, s9)"
    using ne s6(1) s8(1) s9(1) unfolding allocInode_def mark Option.bind.bind_lunit case_prod_conv Let_def
    by (simp add: s7_def [symmetric] nb up del: of_nat_add)
  have ring: "iring (j - 1) (Suc m) s9" using \<open>iring (j - 1) (Suc m) s7\<close> by (simp add: iring_def in9(1))
  let ?q = "inode_pool K J m (buf B) c' p"
  have q: "pooled 0 ?q s9" using s9(2) by (simp add: inode_pool_def Let_def took_def [of 127])
  have io: "fs_io s s9" by (rule fs_io_trans [OF fs_io_trans [OF fs_io_trans [OF in5(2) io7(1)] in8(2)] in9(2)])
  note f = inode_pool_facts [OF assms(2,5,3,4) refl]
  show ?thesis
    by (rule that [OF run q f(1-3) _ f(5) io ring]) (use f(4) s7(1,3) in \<open>simp_all add: in9(1)\<close>)
qed

lemma data_pool_facts:
  assumes "booted K J n m p" "junk_ok K J B" "m < 10" "junked K J p" "q = data_pool (Suc m) p"
  shows "booted K J n (Suc m) q" "junked K J q" "spot q = 125" "dir_at es q = dir_at es p" "front q 26 = front p 26"
proof -
  have K: "K \<noteq> 1" "K \<noteq> 21" using assms(2) by (auto simp: junk_ok_def)
  show "booted K J n (Suc m) q"
    using assms(1,3,4) K unfolding booted_def assms(5) data_pool_def by (auto simp: took_def)
  show "junked K J q"
    using assms(3,4) K unfolding junked_def assms(5) data_pool_def by (auto simp: took_def pool_hit_def)
  show "spot q = 125" "dir_at es q = dir_at es p" "front q 26 = front p 26"
    using assms(3) K unfolding dir_at_def assms(5) data_pool_def by (simp_all add: took_def)
qed

lemma allocData_boot:
  fixes s :: "'a disk_scheme"
  assumes "pooled 0 p s" "booted K J n m p" "m < 10" "junked K J p" "junk_ok K J (j_stack jk)"
    and "\<forall>t. \<not> bit (rd8 dev t IDE_CMD_PORT) 0"
  obtains s' q where "allocData dev jk 0 s = Some (of_nat (23 + m), s')" "pooled 0 q s'" "booted K J n (Suc m) q" "junked K J q"
    "spot q = 125" "\<forall>es. dir_at es q = dir_at es p" "front q 26 = front p 26" "disk_io s s'"
proof -
  have J: "BLKHASH (bblock (j_stack jk)) = Some K" "bblock (j_stack jk) = J" "J \<noteq> 21"
    using assms(5) BLKHASH_20(2) by (auto simp: junk_ok_def)
  let ?p1 = "took 127 1 1 (data p 127) p"
  obtain s1 s2 where s2: "readSuperblock dev (j_sb jk) 0 s = Some (0, layout n, s1)" "blockRead dev 0 21 s1 = Some (Buf 126, s2)"
    "pooled 0 (took 126 21 21 (marks m) ?p1) s2" "buf (blocks s2 (Buf 126)) = marks m" "disk_io s s2"
    using read_bitmap [OF assms(1,2), of 21 dev "j_sb jk"] assms(4,6) J(3) by auto
  have sc: "bitmap_scan (buf (blocks s2 (Buf 126))) 0 (nat (sint (nDataBlock (layout n)))) = Some (of_nat m)"
    using marks_facts(3) [of m] assms(3) by (simp add: s2(4) layout_fields)
  note pk = poke_mark [OF s2(4) assms(3)]
  have l: "length (marks (Suc m)) = 512" using assms(3) by (simp add: marks_facts(1))
  obtain s3 where s3: "blockWrite (Buf 126) (upd_blk (Buf 126) (\<lambda>b. b\<lparr>buf := marks (Suc m)\<rparr>) s2) = Some (0, s3)"
    "pooled 0 (took 126 21 21 (marks (Suc m)) ?p1) s3" "disk_io s2 s3"
    by (rule update_took [OF s2(3) BLKHASH_20(2) _ _ l]) auto
  let ?q = "data_pool (Suc m) p"
  have q: "pooled 0 ?q s3" using s3(2) by (simp add: data_pool_def)
  note f = data_pool_facts [OF assms(2,5,3,4) refl]
  have z: "zero ?q \<noteq> bblock (j_stack jk)" using f(1) J(2) by (simp add: booted_def)
  obtain s4 where s4: "relCachedBlock (BLoc 2) (upd_blk (BLoc 2) (\<lambda>_. j_stack jk) s3) = Some s4" "pooled 0 ?q s4" "disk_io s3 s4"
    by (rule rel_pooled [OF q J(1) z]) (use f(2) in \<open>auto simp: junked_def\<close>)
  have run: "allocData dev jk 0 s = Some (of_nat (23 + m), s4)"
    using s2(1,2) sc pk s3(1) s4(1) by (simp add: allocData_def layout_fields)
  have io: "disk_io s s4" by (rule disk_io_trans [OF disk_io_trans [OF s2(5) s3(3)] s4(3)])
  show ?thesis by (rule that [OF run s4(2) f(1-3) _ f(5) io]) (simp add: f(4))
qed

text \<open>With all ten marks set, neither an inode nor a block is left.\<close>

lemma allocInode_full:
  fixes s :: "'a fsys_scheme"
  assumes "pooled 0 p s" "booted K J n 10 p" "junked K J p" "junk_ok K J (j_stack jk)" "lock (cslLock s) = 0"
    and "\<forall>t. \<not> bit (rd8 dev t IDE_CMD_PORT) 0"
  shows "\<exists>s'. allocInode dev jk 0 s = Some (INull, s') \<and>
    prints (lines [''[Error] allocInode: no available inode block'']) s s'"
proof -
  have J: "BLKHASH J = Some K" "bdevice (j_stack jk) = 0" "bblock (j_stack jk) = J" "length (buf (j_stack jk)) = 512"
    "K \<noteq> 1" "K \<noteq> 20"
    using assms(4) by (auto simp: junk_ok_def)
  let ?p1 = "took 127 1 1 (data p 127) p"
  let ?p2 = "took 126 20 20 (marks 10) ?p1"
  obtain s1 s2 where s2: "readSuperblock dev (j_sb jk) 0 s = Some (0, layout n, s1)" "blockRead dev 0 20 s1 = Some (Buf 126, s2)"
    "pooled 0 ?p2 s2" "buf (blocks s2 (Buf 126)) = marks 10" "disk_io s s2"
    using read_bitmap [OF assms(1,2), of 20 dev "j_sb jk"] assms(6) by auto
  have sc: "bitmap_scan (buf (blocks s2 (Buf 126))) 0 (nat (sint (nInodeBlock (layout n)))) = Some (- 1)"
    using marks_facts(3) [of 10] by (simp add: s2(4) layout_fields)
  define s3 where "s3 = upd_blk (Buf 126) (\<lambda>b. b\<lparr>lruCnt := (lruCnt b AND 0x00ffffff) OR push_bit 24 (ucast (1 :: u8))\<rparr>) s2"
  have pk: "poke_buf (Buf 126) (sint (- 1 :: u32)) 1 s2 = Some s3" by (simp add: poke_buf_def s3_def)
  define s4 where "s4 = upd_blk (BLoc 2) (\<lambda>_. j_stack jk) s3"
  have f: "lru_next (blocks s3 r) = lru_next (blocks s2 r)" "lru_prev (blocks s3 r) = lru_prev (blocks s2 r)" "flags (blocks s3 r) = flags (blocks s2 r)"
    "bdevice (blocks s3 r) = bdevice (blocks s2 r)" "bblock (blocks s3 r) = bblock (blocks s2 r)" "hash_next (blocks s3 r) = hash_next (blocks s2 r)"
    "buf (blocks s3 r) = buf (blocks s2 r)" for r
    by (simp_all add: s3_def upd_blk_blocks)
  have "pooled 0 ?p2 s3"
    using s2(3) unfolding pooled_def pool_list_def pool_chains_def pool_data_def f .
  then have p4: "pooled 0 ?p2 s4" "bdevice (blocks s4 (BLoc 2)) = 0" "bblock (blocks s4 (BLoc 2)) = J" "buf (blocks s4 (BLoc 2)) = buf (j_stack jk)"
    using J by (simp_all add: s4_def upd_blk_blocks)
  have h4: "pool_buf J K ?p2 = 125"
    using assms(3) J(5,6) by (auto simp: pool_buf_def pool_hit_def took_def junked_def)
  obtain s5 where s5: "blockWrite (BLoc 2) s4 = Some (0, s5)" "cache_io s4 s5"
    by (rule write_took [OF p4(1) J(1) h4 _ p4(2-4) J(4)]) auto
  have mark: "allocInode_mark dev jk 0 s = Some (- 1, layout n, s5)"
    using s2(1,2) sc pk s5(1) by (simp add: allocInode_mark_def layout_fields s4_def)
  have "disk_io s2 s3" "disk_io s3 s4" by (simp_all add: s3_def s4_def)
  then have io5: "disk_io s s5" using s2(5) cache_ioD(1) [OF s5(2)] disk_io_trans by blast
  note p5 = disk_io_prints [OF io5 assms(5)]
  have "fmt_text (cstr (''[Error] allocInode: no available inode block'' @ nl)) [] =
      Some (lines [''[Error] allocInode: no available inode block''])" by (simp add: cstr_def)
  note pf = printf_prints [OF prints_lock [OF p5] this]
  show ?thesis using prints_trans [OF p5 pf(2)] pf(1) by (simp add: allocInode_def mark msg_def)
qed

section \<open>Entries of the root directory\<close>

definition dir_inode :: "inode_ref \<Rightarrow> (u32 \<times> u8 list) list \<Rightarrow> 'a fsys_scheme \<Rightarrow> bool" where
  "dir_inode r es s \<longleftrightarrow> length es \<le> 4 \<and> (\<forall>d \<in> set es. entry_ok d) \<and> isize (inodes s r) = of_nat (104 * length es) \<and>
     idevice (inodes s r) = 0 \<and> length (dblock (dinode (inodes s r))) = 64 \<and> dblock (dinode (inodes s r)) ! 0 = 24"

lemma dir_inode_size:
  assumes "dir_inode r es s"
  shows "unat (isize (inodes s r)) = 104 * length es" "dblock_at r (unat (isize (inodes s r)) div 512) s = Some 24"
    "unat (isize (inodes s r)) div 512 = 0" "unat (isize (inodes s r)) mod 512 = 104 * length es"
proof -
  have l: "104 * length es < 512" using assms by (simp add: dir_inode_def)
  then show sz: "unat (isize (inodes s r)) = 104 * length es"
    using assms by (simp add: dir_inode_def unat_of_nat_u32 del: of_nat_mult)
  show "unat (isize (inodes s r)) div 512 = 0" "unat (isize (inodes s r)) mod 512 = 104 * length es" using l unfolding sz by simp_all
  then show "dblock_at r (unat (isize (inodes s r)) div 512) s = Some 24" using assms by (auto simp: dir_inode_def dblock_at_def Let_def)
qed

lemma length_entries: "\<forall>d \<in> set es. entry_ok d \<Longrightarrow> length (concat (map dentry es)) = 104 * length es"
  by (induction es) (simp_all add: entry_facts(1))

lemma took_dir_facts:
  assumes "booted K J n m p" "junked K J p" "K \<noteq> 24" "q = took 123 24 24 c p" "\<exists>r. c = concat (map dentry es) @ r"
  shows "booted K J n m q" "junked K J q" "dir_at es q" "front q 26 = front p 26" "spot q = 122"
proof -
  show "booted K J n m q" using assms(1) unfolding booted_def assms(4) by (simp add: took_def)
  show "junked K J q" using assms(2,3) unfolding junked_def assms(4) by (simp add: took_def)
  show "dir_at es q" "front q 26 = front p 26" "spot q = 122" using assms(5) unfolding dir_at_def assms(4) by (simp_all add: took_def)
qed

lemma read_dir:
  assumes "pooled 0 p s" "dir_at es p" "spot p = 123 \<or> es \<noteq> []" "\<forall>t. \<not> bit (rd8 dev t IDE_CMD_PORT) 0"
  obtains s' c where "blockRead dev 0 24 s = Some (Buf 123, s')" "pooled 0 (took 123 24 24 c p) s'" "cache_io s s'"
    "length c = 512" "\<exists>r. c = concat (map dentry es) @ r" "buf (blocks s' (Buf 123)) = c"
proof -
  have h: "pool_buf 24 24 p = 123" using assms(2,3) by (auto simp: dir_at_def pool_buf_def pool_hit_def)
  obtain s' c where s': "blockRead dev 0 24 s = Some (Buf 123, s')" "pooled 0 (took 123 24 24 c p) s'" "cache_io s s'"
    "length c = 512" "full p 123 \<Longrightarrow> c = data p 123" "buf (blocks s' (Buf 123)) = c"
    by (rule read_took [OF assms(1) BLKHASH_boot(2) h _ assms(4)]) auto
  have "\<exists>r. c = concat (map dentry es) @ r" using assms(2) s'(5) by (auto simp: dir_at_def)
  with that s' show ?thesis by blast
qed

lemma add_entry_boot:
  fixes s :: "'a fsys_scheme"
  assumes "pooled 0 p s" "booted K J n m p" "junked K J p" "K \<noteq> 24" "dir_at es p" "spot p = 123" "dir_inode r es s"
    and "length es < 4" "entry_ok d" "\<forall>t. \<not> bit (rd8 (e_dev e) t IDE_CMD_PORT) 0"
  obtains s' q where "add_entry e who (dentry d) r s = Some (0, s')" "pooled 0 q s'" "booted K J n m q" "junked K J q"
    "dir_at (es @ [d]) q" "front q 26 = front p 26" "fs_io s s'" "dir_inode r (es @ [d]) s'"
    "inodes s' = (inodes s)(r := (inodes s r)\<lparr>isize := isize (inodes s r) + 104\<rparr>)"
proof -
  let ?off = "104 * length es"
  note sz = dir_inode_size [OF assms(7)]
  define s0 where "s0 = upd_ino r (\<lambda>n. n\<lparr>isize := isize n + of_nat sizeof_dentry\<rparr>) s"
  have in0: "inodes s0 = (inodes s)(r := (inodes s r)\<lparr>isize := isize (inodes s r) + 104\<rparr>)" by (simp add: s0_def upd_ino_def)
  have p0: "pooled 0 p s0" by (rule pooled_cong [OF assms(1)]) (simp add: s0_def upd_ino_def)
  obtain s1 c where s1: "blockRead (e_dev e) 0 24 s0 = Some (Buf 123, s1)" "pooled 0 (took 123 24 24 c p) s1" "cache_io s0 s1"
    "length c = 512" "\<exists>r. c = concat (map dentry es) @ r" "buf (blocks s1 (Buf 123)) = c"
    using read_dir [OF p0 assms(5) _ assms(10)] assms(6) by metis
  obtain z where z: "c = concat (map dentry es) @ z" using s1(5) ..
  have ld: "length (dentry d) = 104" by (rule entry_facts(1) [OF assms(9)])
  have le: "length (concat (map dentry es)) = ?off" using assms(7) by (intro length_entries) (simp add: dir_inode_def)
  define c' where "c' = blit c ?off (dentry d)"
  have c': "length c' = 512" "c' = concat (map dentry (es @ [d])) @ drop 104 z"
    using s1(4) ld le assms(8) by (simp_all add: c'_def) (simp add: blit_def z)
  have pk: "poke e (Buf 123) ?off (dentry d) s1 = Some (upd_blk (Buf 123) (\<lambda>b. b\<lparr>buf := c'\<rparr>) s1)"
    using s1(4,6) ld assms(8) by (simp add: poke_def poke_blk_def c'_def upd_blk_def)
  obtain s2 where s2: "blockWrite (Buf 123) (upd_blk (Buf 123) (\<lambda>b. b\<lparr>buf := c'\<rparr>) s1) = Some (0, s2)"
    "pooled 0 (took 123 24 24 c' p) s2" "disk_io s1 s2"
    by (rule update_took [OF s1(2) BLKHASH_boot(2) _ _ c'(1)]) auto
  have "\<exists>y. c' = concat (map dentry (es @ [d])) @ y" using c'(2) by blast
  note f = took_dir_facts [OF assms(2-4) refl this]
  have in1: "inodes s1 = inodes s0" "fs_io s0 s1" using fs_io_disk [OF cache_ioD(1) [OF s1(3)]] by auto
  have in2: "inodes s2 = inodes s0" "fs_io s1 s2" using fs_io_disk [OF s2(3)] in1 by auto
  have dv: "idevice (inodes s0 r) = 0" using assms(7) by (simp add: in0 dir_inode_def)
  have run: "add_entry e who (dentry d) r s = Some (0, s2)"
    unfolding add_entry_def sz(2,4) Option.bind.bind_lunit Let_def s0_def [symmetric] dv s1(1) case_prod_conv
      pk if_not_P [OF block_ref.distinct(2)] s2(1) by simp
  have io: "fs_io s s2" by (rule fs_io_trans [OF fs_io_trans [OF fs_io_ino [of s] in1(2) [unfolded s0_def]] in2(2)])
  have di: "dir_inode r (es @ [d]) s2"
    using assms(7-9) by (auto simp: dir_inode_def in2(1) in0)
  show ?thesis
    by (rule that [OF run s2(2) f(1-3) f(4) io di]) (simp add: in2(1) in0)
qed

section \<open>Making files\<close>

text \<open>
  \<open>mounted K J n es m j s\<close>: the current directory is the root with the entries \<open>es\<close>, \<open>m\<close> of the ten marks
  are set, and inode buffer \<open>j\<close> is the next free one.
\<close>

definition mounted ::
  "nat \<Rightarrow> u32 \<Rightarrow> u32 \<Rightarrow> (u32 \<times> u8 list) list \<Rightarrow> nat \<Rightarrow> nat \<Rightarrow> 'a files_scheme \<Rightarrow> bool" where
  "mounted K J n es m j s \<longleftrightarrow> (\<exists>p. pooled 0 p s \<and> booted K J n m p \<and> junked K J p \<and> dir_at es p \<and> front p 26 = None) \<and>
     iring j m s \<and> dir_inode (cwd s) es s \<and> (\<exists>i. cwd s = IBuf i \<and> j < i)"

definition drive_ready :: "device \<Rightarrow> bool" where
  "drive_ready dev \<longleftrightarrow> (\<forall>t. \<not> bit (rd8 dev t IDE_CMD_PORT) 0)"

definition new_dinode :: "u32 \<Rightarrow> nat \<Rightarrow> diskInode" where
  "new_dinode t b = zero_dinode\<lparr>itype := t, dblock := of_nat b # replicate 63 0\<rparr>"

lemma name_entry:
  assumes "c_text path = Some nm" "entry_ok (x, nm)" "length d = 104"
  shows "set_name (blit (put32 d 0 x) 4 (replicate NAMELEN 0)) path = Some (dentry (x, nm))"
proof -
  have l: "length nm \<le> 100" using assms(2) by (simp add: entry_ok_def)
  have de: "blit (put32 d 0 x) 4 (replicate 100 0) = bytes_of x @ replicate 100 0"
    using assms(3) by (simp add: blit_def put32_def)
  show ?thesis
    using copied_name [OF assms(1), of "replicate 100 0"] l unfolding de
    by (simp add: set_name_def blit_def dentry_def)
qed

lemma body_fields:
  "body x = (a, b, c, d) \<Longrightarrow> isize x = a" "body x = (a, b, c, d) \<Longrightarrow> ino x = b"
  "body x = (a, b, c, d) \<Longrightarrow> idevice x = c" "body x = (a, b, c, d) \<Longrightarrow> dinode x = d"
  by (simp_all add: body_def)

lemma dir_inode_body: "body (inodes s' r) = body (inodes s r) \<Longrightarrow> dir_inode r es s' = dir_inode r es s"
  by (simp add: dir_inode_def body_def)

text \<open>The steps \<^verbatim>\<open>creat\<close> and \<^verbatim>\<open>mk\<close> have in common, for a file or directory of type \<open>t\<close>.\<close>

lemma new_file:
  fixes s :: "'a files_scheme"
  assumes "mounted K J n es m j s" "stack_ok K J e" "drive_ready (e_dev e)" "m + 1 < 10" "length es < 4" "1 < j"
    and "entry_ok (of_nat m, nm)"
  obtains s1 s2 s3 s4 where "allocInode (e_dev e) (junk_at e s) 0 s = Some (IBuf j, s1)"
    "ino (inodes (set_itype (IBuf j) t s1) (IBuf j)) = of_nat m" "cwd s1 = cwd s"
    "add_entry e who (dentry (of_nat m, nm)) (cwd s) (set_itype (IBuf j) t s1) = Some (0, s2)"
    "idevice (inodes s2 (IBuf j)) = 0" "allocData (e_dev e) (junk_at e s2) 0 s2 = Some (of_nat (24 + m), s3)"
    "set_dblock (IBuf j) 0 (of_nat (24 + m)) s3 = Some s4" "fs_io s s4"
    "mounted K J n (es @ [(of_nat m, nm)]) (m + 2) (j - 1) s4" "body (inodes s4 (IBuf j)) = (0, of_nat m, 0, new_dinode t (24 + m))"
    "\<forall>r. r \<noteq> IBuf j \<longrightarrow> r \<noteq> cwd s \<longrightarrow> body (inodes s4 r) = body (inodes s r)"
proof -
  obtain p i where p: "pooled 0 p s" "booted K J n m p" "junked K J p" "dir_at es p" "front p 26 = None"
    and r: "iring j m s" "dir_inode (cwd s) es s" "cwd s = IBuf i" "j < i"
    using assms(1) by (auto simp: mounted_def)
  have st: "junk_ok K J (j_stack (junk_at e u))" for u :: "'a files_scheme" using assms(2) by (simp add: stack_ok_def)
  have dr: "\<forall>t. \<not> bit (rd8 (e_dev e) t IDE_CMD_PORT) 0" using assms(3) by (simp add: drive_ready_def)
  have K: "K \<noteq> 24" using st [of s] by (simp add: junk_ok_def)
  have m: "m < 10" "Suc m < 10" using assms(4) by simp_all
  obtain s1 p1 where s1: "allocInode (e_dev e) (junk_at e s) 0 s = Some (IBuf j, s1)" "pooled 0 p1 s1"
    "booted K J n (Suc m) p1" "junked K J p1" "spot p1 = 123" "\<forall>es. dir_at es p1 = dir_at es p" "front p1 26 = front p 26"
    "fs_io s s1" "iring (j - 1) (Suc m) s1" "body (inodes s1 (IBuf j)) = (0, of_nat m, 0, zero_dinode)"
    "\<forall>r. r \<noteq> IBuf j \<longrightarrow> body (inodes s1 r) = body (inodes s r)"
    by (rule allocInode_boot [OF p(1,2) m(1) disjI1 [OF p(3)] st [of s] r(1) assms(6) dr])
  define t1 where "t1 = set_itype (IBuf j) t s1"
  have ne: "IBuf i \<noteq> IBuf j" using r(4) by simp
  have t1: "pooled 0 p1 t1" "fs_io s t1" "iring (j - 1) (Suc m) t1" "ino (inodes t1 (IBuf j)) = of_nat m"
    "body (inodes t1 (IBuf j)) = (0, of_nat m, 0, zero_dinode\<lparr>itype := t\<rparr>)"
    "\<forall>r. r \<noteq> IBuf j \<longrightarrow> body (inodes t1 r) = body (inodes s r)"
    using pooled_cong [OF s1(2), of t1] fs_io_trans [OF s1(8) fs_io_ino] s1(9-11)
    by (simp_all add: t1_def iring_def upd_ino_inodes body_def) (simp add: upd_ino_def)
  have d1: "dir_inode (cwd s) es t1" using r(2,3) ne t1(6) dir_inode_body [of t1 "IBuf i" s es] by simp
  have da: "dir_at es p1" using s1(6) p(4) by blast
  obtain s2 p2 where s2: "add_entry e who (dentry (of_nat m, nm)) (cwd s) t1 = Some (0, s2)" "pooled 0 p2 s2"
    "booted K J n (Suc m) p2" "junked K J p2" "dir_at (es @ [(of_nat m, nm)]) p2" "front p2 26 = front p1 26" "fs_io t1 s2"
    "dir_inode (cwd s) (es @ [(of_nat m, nm)]) s2"
    "inodes s2 = (inodes t1)(cwd s := (inodes t1 (cwd s))\<lparr>isize := isize (inodes t1 (cwd s)) + 104\<rparr>)"
    by (rule add_entry_boot [OF t1(1) s1(3,4) K da s1(5) d1 assms(5,7) dr])
  obtain s3 p3 where s3: "allocData (e_dev e) (junk_at e s2) 0 s2 = Some (of_nat (23 + Suc m), s3)" "pooled 0 p3 s3"
    "booted K J n (Suc (Suc m)) p3" "junked K J p3" "\<forall>es. dir_at es p3 = dir_at es p2" "front p3 26 = front p2 26" "disk_io s2 s3"
    by (rule allocData_boot [OF s2(2,3) m(2) s2(4) st [of s2] dr])
  have in3: "inodes s3 = inodes s2" "fs_io s2 s3" using fs_io_disk [OF s3(7)] by auto
  define s4 where "s4 = upd_ino (IBuf j) (\<lambda>n. n\<lparr>dinode := (dinode n)\<lparr>dblock := (dblock (dinode n))[0 := of_nat (24 + m)]\<rparr>\<rparr>) s3"
  have b2: "body (inodes s2 (IBuf j)) = (0, of_nat m, 0, zero_dinode\<lparr>itype := t\<rparr>)"
    "\<forall>r. r \<noteq> IBuf j \<longrightarrow> r \<noteq> cwd s \<longrightarrow> body (inodes s2 r) = body (inodes s r)"
    using t1(5,6) r(3) ne by (simp_all add: s2(9))
  have rep: "(replicate 64 (0 :: u32))[0 := v] = v # replicate 63 0" for v
    by (simp add: numeral_eq_Suc)
  have sd: "set_dblock (IBuf j) 0 (of_nat (24 + m)) s3 = Some s4"
    using body_fields(4) [OF b2(1)] by (simp add: set_dblock_def in3(1) s4_def zero_dinode_def)
  have b4: "body (inodes s4 (IBuf j)) = (0, of_nat m, 0, new_dinode t (24 + m))"
    "\<forall>r. r \<noteq> IBuf j \<longrightarrow> body (inodes s4 r) = body (inodes s2 r)"
    using b2(1) rep by (simp_all add: s4_def upd_ino_inodes body_def in3(1) new_dinode_def zero_dinode_def)
  have io: "fs_io s s4"
    unfolding s4_def by (rule fs_io_trans [OF fs_io_trans [OF fs_io_trans [OF t1(2) s2(7)] in3(2)] fs_io_ino])
  have cw: "cwd s4 = cwd s" and cw1: "cwd s1 = cwd s" using fs_io_files(1) [OF io] fs_io_files(1) [OF s1(8)] .
  have "iring (j - 1) (Suc m) s2" using t1(3) r(3) by (simp add: iring_def s2(9))
  then have ir: "iring (j - 1) (m + 2) s4" by (simp add: iring_def s4_def upd_ino_inodes in3(1))
  have "pooled 0 p3 s4" by (rule pooled_cong [OF s3(2)]) (simp add: s4_def upd_ino_def)
  moreover have "dir_at (es @ [(of_nat m, nm)]) p3" "front p3 26 = None" using s3(5,6) s2(5,6) s1(7) p(5) by simp_all
  moreover have "dir_inode (cwd s) (es @ [(of_nat m, nm)]) s4"
    using s2(8) dir_inode_body [of s4 "cwd s" s2] b4(2) r(3) ne by simp
  ultimately have mt: "mounted K J n (es @ [(of_nat m, nm)]) (m + 2) (j - 1) s4"
    using s3(3,4) ir r(3,4) unfolding mounted_def cw by auto
  show ?thesis
    by (rule that [OF s1(1) _ cw1 _ _ _ sd io mt b4(1)])
      (use t1(4) s2(1) body_fields(3) [OF b2(1)] s3(1) b4(2) b2(2) in \<open>simp_all add: t1_def\<close>)
qed

lemma mounted_cong:
  "blocks s' = blocks s \<Longrightarrow> inodes s' = inodes s \<Longrightarrow> cwd s' = cwd s \<Longrightarrow> mounted K J n es m j s' = mounted K J n es m j s"
  by (simp add: mounted_def iring_def dir_inode_def pooled_def pool_list_def pool_chains_def pool_data_def)

lemma mountedD:
  assumes "mounted K J n es m j s"
  shows "idevice (inodes s (cwd s)) = 0" "cwd s \<noteq> INull" "cwd s \<noteq> IBuf j" "dir_inode (cwd s) es s"
  using assms by (auto simp: mounted_def dir_inode_def)

lemma creat_boot:
  fixes s :: "'a files_scheme"
  assumes "mounted K J n es m j s" "stack_ok K J e" "drive_ready (e_dev e)" "m + 1 < 10" "length es < 4" "1 < j"
    and "c_text path = Some nm" "entry_ok (of_nat m, nm)" "path ! 0 \<noteq> SLASH" "unat (max_fd s) < length (fds s)" "lock (cslLock s) = 0"
  obtains s' where "creat e path md s = Some (max_fd s, s')" "mounted K J n (es @ [(of_nat m, nm)]) (m + 2) (j - 1) s'" "prints [] s s'"
    "max_fd s' = max_fd s + 1" "cwd s' = cwd s"
    "fds s' = (fds s)[unat (max_fd s) := (fds s ! unat (max_fd s))\<lparr>find := IBuf j, fflag := ucast md, foff := 0\<rparr>]"
    "body (inodes s' (IBuf j)) = (0, of_nat m, 0, new_dinode I_FILE (24 + m))"
    "\<forall>r. r \<noteq> IBuf j \<longrightarrow> r \<noteq> cwd s \<longrightarrow> body (inodes s' r) = body (inodes s r)" "static s' = static s"
proof -
  obtain s1 s2 s3 s4 where n: "allocInode (e_dev e) (junk_at e s) 0 s = Some (IBuf j, s1)"
    "ino (inodes (set_itype (IBuf j) I_FILE s1) (IBuf j)) = of_nat m" "cwd s1 = cwd s"
    "add_entry e ''creat'' (dentry (of_nat m, nm)) (cwd s) (set_itype (IBuf j) I_FILE s1) = Some (0, s2)"
    "idevice (inodes s2 (IBuf j)) = 0" "allocData (e_dev e) (junk_at e s2) 0 s2 = Some (of_nat (24 + m), s3)"
    "set_dblock (IBuf j) 0 (of_nat (24 + m)) s3 = Some s4" "fs_io s s4"
    "mounted K J n (es @ [(of_nat m, nm)]) (m + 2) (j - 1) s4" "body (inodes s4 (IBuf j)) = (0, of_nat m, 0, new_dinode I_FILE (24 + m))"
    "\<forall>r. r \<noteq> IBuf j \<longrightarrow> r \<noteq> cwd s \<longrightarrow> body (inodes s4 r) = body (inodes s r)"
    by (rule new_file [OF assms(1-6,8), of I_FILE "''creat''"])
  note fr = fs_io_files [OF n(8)]
  let ?i = "unat (max_fd s)"
  define s' where "s' = s4\<lparr>max_fd := max_fd s + 1, fds := (fds s)[?i := (fds s ! ?i)\<lparr>find := IBuf j, fflag := ucast md, foff := 0\<rparr>]\<rparr>"
  have de: "set_name (blit (put32 (f_dentry (e_frame e (iotrace s))) 0 (of_nat m)) 4 (replicate 100 0)) path = Some (dentry (of_nat m, nm))"
    by (rule name_entry [OF assms(7,8)]) (use assms(2) in \<open>simp add: stack_ok_def\<close>)
  have fd: "Option.bind (set_fd (max_fd s) (\<lambda>f. f\<lparr>find := IBuf j\<rparr>) (s4\<lparr>max_fd := max_fd s + 1\<rparr>))
      (\<lambda>s. Option.bind (set_fd fd (\<lambda>f. f\<lparr>fflag := ucast md\<rparr>) s) (set_fd fd (\<lambda>f. f\<lparr>foff := 0\<rparr>))) = Some s'"
    if "fd = max_fd s" for fd
    using assms(10) fr(2) that by (simp add: set_fd_def s'_def)
  have cw: "cwd (set_itype (IBuf j) I_FILE s1) = cwd s" using n(3) by (simp add: upd_ino_def)
  have run: "creat e path md s = Some (max_fd s, s')"
    using n(1,2,4-7) de fd fr(3) assms(9)
    by (simp add: creat_def mountedD(1) [OF assms(1)] Let_def cw)
      (simp add: bind_eq_Some_conv)
  show ?thesis
  proof (rule that [OF run])
    show "mounted K J n (es @ [(of_nat m, nm)]) (m + 2) (j - 1) s'"
      using n(9) by (subst mounted_cong [of s' s4]) (simp_all add: s'_def)
    show "prints [] s s'" by (rule prints_Nil) (use fr(5,6) assms(11) in \<open>simp_all add: s'_def screen_def\<close>)
  qed (use n(10,11) fr(1,3,8) in \<open>simp_all add: s'_def\<close>)
qed

lemma mk_boot:
  fixes s :: "'a files_scheme"
  assumes "mounted K J n es m j s" "stack_ok K J e" "drive_ready (e_dev e)" "m + 1 < 10" "length es < 4" "1 < j"
    and "c_text path = Some nm" "entry_ok (of_nat m, nm)" "lock (cslLock s) = 0"
  obtains s' where "mk e path s = Some (0, s')" "mounted K J n (es @ [(of_nat m, nm)]) (m + 2) (j - 1) s'" "prints [] s s'"
    "fs_io s s'" "\<forall>r. r \<noteq> IBuf j \<longrightarrow> r \<noteq> cwd s \<longrightarrow> body (inodes s' r) = body (inodes s r)"
proof -
  obtain s1 s2 s3 s4 where n: "allocInode (e_dev e) (junk_at e s) 0 s = Some (IBuf j, s1)"
    "ino (inodes (set_itype (IBuf j) I_DIR s1) (IBuf j)) = of_nat m" "cwd s1 = cwd s"
    "add_entry e ''mk'' (dentry (of_nat m, nm)) (cwd s) (set_itype (IBuf j) I_DIR s1) = Some (0, s2)"
    "idevice (inodes s2 (IBuf j)) = 0" "allocData (e_dev e) (junk_at e s2) 0 s2 = Some (of_nat (24 + m), s3)"
    "set_dblock (IBuf j) 0 (of_nat (24 + m)) s3 = Some s4" "fs_io s s4"
    "mounted K J n (es @ [(of_nat m, nm)]) (m + 2) (j - 1) s4" "body (inodes s4 (IBuf j)) = (0, of_nat m, 0, new_dinode I_DIR (24 + m))"
    "\<forall>r. r \<noteq> IBuf j \<longrightarrow> r \<noteq> cwd s \<longrightarrow> body (inodes s4 r) = body (inodes s r)"
    by (rule new_file [OF assms(1-6,8), of I_DIR "''mk''"])
  have de: "set_name (blit (put32 (f_dentry (e_frame e (iotrace s))) 0 (of_nat m)) 4 (replicate 100 0)) path = Some (dentry (of_nat m, nm))"
    by (rule name_entry [OF assms(7,8)]) (use assms(2) in \<open>simp add: stack_ok_def\<close>)
  have cw: "cwd (set_itype (IBuf j) I_DIR s1) = cwd s" using n(3) by (simp add: upd_ino_def)
  have run: "mk e path s = Some (0, s4)"
    using n(1,2,4-7) de by (simp add: mk_def mountedD(1) [OF assms(1)] Let_def cw)
  show ?thesis by (rule that [OF run n(9) fs_io_prints [OF n(8) assms(9)] n(8,11)])
qed

section \<open>Listing them\<close>

lemma say_frame:
  "blocks (say t u) = blocks (u :: 'a disk_scheme)" "inodes (say t v) = inodes (v :: 'a fsys_scheme)"
  "cwd (say t w) = cwd (w :: 'b files_scheme)" "fds (say t w) = fds w" "max_fd (say t w) = max_fd w" "lock (cslLock (say t s)) = 0"
  "static (say t w) = static w"
proof -
  have "blocks (fold putc t u) = blocks u" for u :: "'a disk_scheme" by (rule fold_putc_blocks)
  moreover have "inodes (fold putc t v) = inodes v" for v :: "'a fsys_scheme"
    by (induction t arbitrary: v) (simp_all add: putc_def scroll_def clear_def Let_def)
  moreover have "cwd (fold putc t w) = cwd w" "fds (fold putc t w) = fds w" "max_fd (fold putc t w) = max_fd w" "static (fold putc t w) = static w" for w :: "'b files_scheme"
    by (induction t arbitrary: w) (simp_all add: putc_def scroll_def clear_def Let_def)
  ultimately show "blocks (say t u) = blocks u" "inodes (say t v) = inodes v" "cwd (say t w) = cwd w" "fds (say t w) = fds w"
    "max_fd (say t w) = max_fd w" "lock (cslLock (say t s)) = 0" "static (say t w) = static w"
    by (simp_all add: say_def unlock_console_def spinlockUnlock_def sti_def cli_def Let_def)
qed

lemma mounted_say [simp]: "mounted K J n es m j (say t s) = mounted K J n es m j s"
  by (rule mounted_cong) (simp_all only: say_frame)

definition names :: "(u32 \<times> u8 list) list \<Rightarrow> u8 list" where
  "names es = concat (map (\<lambda>d. snd d @ [0x20]) es)"

lemma ls_entries_prints:
  fixes s :: "'a files_scheme"
  assumes "dir_block es db s" "unat (isize (inodes s r)) = 104 * length es" "i \<le> length es" "lock (cslLock s) = 0"
  shows "\<exists>s'. ls_entries e ''%s '' False db (104 * i) r s = Some s' \<and> prints (names (drop i es)) s s' \<and>
    blocks s' = blocks s \<and> inodes s' = inodes s \<and> cwd s' = cwd s \<and> fds s' = fds s \<and> max_fd s' = max_fd s \<and> static s' = static s"
  using assms
proof (induction "length es - i" arbitrary: i s)
  case 0
  then have "i = length es" "104 * length es < 512" by (simp_all add: dir_block_def)
  with 0 show ?case by (subst ls_entries.simps) (simp add: entry_bound_def names_def prints_Nil)
next
  case (Suc k)
  then have i: "i < length es" "104 * length es < 512" "k = length es - Suc i" by (auto simp: dir_block_def)
  have "entry_ok (es ! i)" using Suc(3) i(1) by (simp add: dir_block_def)
  note ent = entry_facts [OF this]
  define u where "u = say (snd (es ! i) @ [0x20]) s"
  have "fmt_text (cstr ''%s '') [Str (drop 4 (dentry (es ! i)))] = Some (snd (es ! i) @ [0x20])"
    using ent(3) by (simp add: cstr_def arg_text_def)
  note pf = printf_prints [OF Suc(6) this, folded u_def]
  have fr: "blocks u = blocks s" "inodes u = inodes s" "cwd u = cwd s" "fds u = fds s" "max_fd u = max_fd s" "lock (cslLock u) = 0"
    "static u = static s"
    unfolding u_def by (simp_all only: say_frame)
  have d: "dir_block es db u" using Suc(3) by (simp add: dir_block_def fr(1))
  obtain s' where s': "ls_entries e ''%s '' False db (104 * Suc i) r u = Some s'" "prints (names (drop (Suc i) es)) u s'"
    "blocks s' = blocks u" "inodes s' = inodes u" "cwd s' = cwd u" "fds s' = fds u" "max_fd s' = max_fd u" "static s' = static u"
    using Suc(1) [OF i(3) d] Suc(4) i(1) fr(2,6) by auto
  have "ls_entries e ''%s '' False db (104 * i) r s = Some s'"
    using i(1,2) Suc(4) pf(1) s'(1)
    by (subst ls_entries.simps) (simp add: entry_bound_def peek_entry [OF Suc(3) i(1)] add.commute)
  moreover have "names (drop i es) = (snd (es ! i) @ [0x20]) @ names (drop (Suc i) es)"
    using i(1) by (simp add: names_def Cons_nth_drop_Suc [symmetric])
  ultimately show ?case using prints_trans [OF pf(2) s'(2)] s'(3-) fr by simp
qed

lemma ls_run:
  fixes s :: "'a files_scheme"
  assumes "pooled 0 p s" "dir_at es p" "dir_inode (cwd s) es s" "cwd s \<noteq> INull" "es \<noteq> []" "drive_ready (e_dev e)" "lock (cslLock s) = 0"
  obtains s' c where "ls e s = Some (0, s')" "prints (0x0a # names es) s s'" "pooled 0 (took 123 24 24 c p) s'"
    "\<exists>r. c = concat (map dentry es) @ r" "fds s' = fds s" "max_fd s' = max_fd s" "inodes s' = inodes s" "cwd s' = cwd s"
    "static s' = static s"
proof -
  have dr: "\<forall>t. \<not> bit (rd8 (e_dev e) t IDE_CMD_PORT) 0" using assms(6) by (simp add: drive_ready_def)
  note sz = dir_inode_size [OF assms(3)]
  have dv: "idevice (inodes s (cwd s)) = 0" using assms(3) by (simp add: dir_inode_def)
  have lb: "ls_blocks e 0 (cwd s) s = Some (0, s)" using sz(3) by (subst ls_blocks.simps) simp
  obtain s1 c where s1: "blockRead (e_dev e) 0 24 s = Some (Buf 123, s1)" "pooled 0 (took 123 24 24 c p) s1" "cache_io s s1"
    "length c = 512" "\<exists>r. c = concat (map dentry es) @ r" "buf (blocks s1 (Buf 123)) = c"
    using read_dir [OF assms(1,2) _ dr] assms(5) by metis
  have io: "fs_io s s1" "inodes s1 = inodes s" using fs_io_disk [OF cache_ioD(1) [OF s1(3)]] by auto
  note fr = fs_io_files [OF io(1)]
  note p1 = fs_io_prints [OF io(1) assms(7)]
  define s2 where "s2 = say [0x0a] s1"
  have "fmt_text (cstr [CHR 0x0a]) [] = Some [0x0a]" by (simp add: cstr_def)
  note pf = printf_prints [OF prints_lock [OF p1] this, folded s2_def]
  have fr2: "blocks s2 = blocks s1" "inodes s2 = inodes s" "cwd s2 = cwd s" "fds s2 = fds s" "max_fd s2 = max_fd s" "lock (cslLock s2) = 0"
    "static s2 = static s"
    unfolding s2_def using fr io(2) by (simp_all only: say_frame)
  have d: "dir_block es (Buf 123) s2"
    using assms(3) s1(4-6) by (auto simp: dir_block_def dir_inode_def fr2(1))
  obtain s3 where s3: "ls_entries e ''%s '' False (Buf 123) 0 (cwd s) s2 = Some s3" "prints (names es) s2 s3"
    "blocks s3 = blocks s2" "inodes s3 = inodes s2" "cwd s3 = cwd s2" "fds s3 = fds s2" "max_fd s3 = max_fd s2" "static s3 = static s2"
    using ls_entries_prints [OF d _ _ fr2(6), of "cwd s" 0 e] sz(1) fr2(2) by auto
  have "ls e s = Some (0, s3)"
    unfolding ls_def Let_def lb Option.bind.bind_lunit case_prod_conv sz(2) dv s1(1)
    using pf(1) s3(1) by simp
  moreover have "prints (0x0a # names es) s s3"
    using prints_trans [OF p1 prints_trans [OF pf(2) s3(2)]] by simp
  moreover have "pooled 0 (took 123 24 24 c p) s3" using pooled_cong [OF s1(2), of s3] by (simp add: s3(3) fr2(1))
  ultimately show ?thesis using that s1(5) s3(4-8) fr2 by simp
qed

lemma ls_boot:
  fixes s :: "'a files_scheme"
  assumes "mounted K J n es m j s" "es \<noteq> []" "stack_ok K J e" "drive_ready (e_dev e)" "lock (cslLock s) = 0"
  obtains s' where "ls e s = Some (0, s')" "prints (0x0a # names es) s s'"
    "fds s' = fds s" "max_fd s' = max_fd s" "inodes s' = inodes s" "cwd s' = cwd s" "static s' = static s"
    "\<exists>q. pooled 0 q s' \<and> booted K J n m q \<and> junked K J q \<and> dir_at es q \<and> front q 26 = None \<and> spot q = 122"
proof -
  obtain p where p: "pooled 0 p s" "booted K J n m p" "junked K J p" "dir_at es p" "front p 26 = None" "dir_inode (cwd s) es s"
    using assms(1) by (auto simp: mounted_def)
  have K: "K \<noteq> 24" using assms(3) by (simp add: stack_ok_def junk_ok_def)
  obtain s' c where s': "ls e s = Some (0, s')" "prints (0x0a # names es) s s'" "pooled 0 (took 123 24 24 c p) s'"
    "\<exists>r. c = concat (map dentry es) @ r" "fds s' = fds s" "max_fd s' = max_fd s" "inodes s' = inodes s" "cwd s' = cwd s"
    "static s' = static s"
    by (rule ls_run [OF p(1,4,6) mountedD(2) [OF assms(1)] assms(2,4,5)])
  note f = took_dir_facts [OF p(2,3) K refl s'(4)]
  show ?thesis by (rule that [OF s'(1,2,5-9)]) (use s'(3) f p(5) in auto)
qed

section \<open>Writing and reading\<close>

lemma took_file_facts:
  assumes "booted K J n m p" "junked K J p" "K \<noteq> 26" "q = took 122 26 26 c p"
  shows "booted K J n m q" "junked K J q" "dir_at es q = dir_at es p"
proof -
  show "booted K J n m q" using assms(1) unfolding booted_def assms(4) by (simp add: took_def)
  show "junked K J q" using assms(2,3) unfolding junked_def assms(4) by (simp add: took_def)
  show "dir_at es q = dir_at es p" unfolding dir_at_def assms(4) by (simp add: took_def)
qed

lemma write_boot:
  fixes s :: "'a files_scheme"
  assumes "pooled 0 p s" "booted K J n m p" "junked K J p" "K \<noteq> 26" "front p 26 = None" "spot p = 122"
    and "get_fd fd s = Some f" "find f = IBuf a" "body (inodes s (IBuf a)) = (0, x, 0, new_dinode t 26)"
    and "length txt < 512" "drive_ready (e_dev e)"
  obtains s' c where "write_fd e fd (txt @ r) (of_nat (length txt)) s = Some (of_nat (length txt), s')"
    "pooled 0 (took 122 26 26 (txt @ c) p) s'" "fs_io s s'" "body (inodes s' (IBuf a)) = (of_nat (length txt), x, 0, new_dinode t 26)"
    "\<forall>r. r \<noteq> IBuf a \<longrightarrow> inodes s' r = inodes s r"
proof -
  have dr: "\<forall>t. \<not> bit (rd8 (e_dev e) t IDE_CMD_PORT) 0" using assms(11) by (simp add: drive_ready_def)
  note b = body_fields [OF assms(9)]
  have db: "dblock_at (IBuf a) 0 s = Some 26" by (simp add: dblock_at_def b(4) new_dinode_def)
  have len: "unat (of_nat (length txt) :: u32) = length txt" using assms(10) by (simp add: unat_of_nat_u32)
  have h: "pool_buf 26 26 p = 122" using assms(5,6) by (simp add: pool_buf_def pool_hit_def)
  obtain s1 c where s1: "blockRead (e_dev e) 0 26 s = Some (Buf 122, s1)" "pooled 0 (took 122 26 26 c p) s1" "cache_io s s1"
    "length c = 512" "buf (blocks s1 (Buf 122)) = c"
    by (rule read_took [OF assms(1) BLKHASH_boot(3) h _ dr]) auto
  define c' where "c' = txt @ drop (length txt) c"
  have c': "length c' = 512" "c' = blit c 0 txt" using s1(4) assms(10) by (simp_all add: c'_def blit_def)
  have pk: "poke e (Buf 122) 0 txt s1 = Some (upd_blk (Buf 122) (\<lambda>b. b\<lparr>buf := c'\<rparr>) s1)"
    using s1(4,5) assms(10) by (simp add: poke_def poke_blk_def c'(2) upd_blk_def)
  obtain s2 where s2: "blockWrite (Buf 122) (upd_blk (Buf 122) (\<lambda>b. b\<lparr>buf := c'\<rparr>) s1) = Some (0, s2)"
    "pooled 0 (took 122 26 26 c' p) s2" "disk_io s1 s2"
    by (rule update_took [OF s1(2) BLKHASH_boot(3) _ _ c'(1)]) auto
  have io: "fs_io s s1" "inodes s1 = inodes s" "fs_io s1 s2" "inodes s2 = inodes s"
    using fs_io_disk [OF cache_ioD(1) [OF s1(3)]] fs_io_disk [OF s2(3)] by auto
  define s3 where "s3 = upd_ino (IBuf a) (\<lambda>n. n\<lparr>isize := isize n + of_nat (length txt)\<rparr>) s2"
  have wp: "write_piece e (IBuf a) 0 0 txt s = Some s2"
    using db s1(1) pk s2(1) by (simp add: write_piece_def)
  have run: "write_fd e fd (txt @ r) (of_nat (length txt)) s = Some (of_nat (length txt), s3)"
    using wp assms(7,8,10) by (simp add: write_fd_def Let_def b(1) len src_bytes_def s3_def)
  show ?thesis
  proof (rule that [OF run])
    show "pooled 0 (took 122 26 26 (txt @ drop (length txt) c) p) s3"
      by (rule pooled_cong [OF s2(2) [unfolded c'_def]]) (simp add: s3_def upd_ino_def)
    show "fs_io s s3" unfolding s3_def by (rule fs_io_trans [OF fs_io_trans [OF io(1,3)] fs_io_ino])
    show "body (inodes s3 (IBuf a)) = (of_nat (length txt), x, 0, new_dinode t 26)"
      using assms(9) by (simp add: s3_def upd_ino_inodes body_def io(4))
    show "\<forall>r. r \<noteq> IBuf a \<longrightarrow> inodes s3 r = inodes s r" by (simp add: s3_def upd_ino_inodes io(4))
  qed
qed

lemma read_boot:
  fixes s :: "'a files_scheme"
  assumes "pooled 0 (took 122 26 26 (txt @ c) p) s" "get_fd fd s = Some f" "find f = IBuf a" "foff f = 0"
    and "body (inodes s (IBuf a)) = (of_nat (length txt), x, 0, new_dinode t 26)" "length txt < 512" "drive_ready (e_dev e)"
  obtains s' c' where "read_fd e fd (of_nat (length txt)) s = Some (of_nat (length txt), txt, s')"
    "pooled 0 (took 122 26 26 c' (took 122 26 26 (txt @ c) p)) s'" "screen s' = screen s" "cslLock s' = cslLock s" "inodes s' = inodes s"
    "cwd s' = cwd s" "static s' = static s"
proof -
  have dr: "\<forall>t. \<not> bit (rd8 (e_dev e) t IDE_CMD_PORT) 0" using assms(7) by (simp add: drive_ready_def)
  note b = body_fields [OF assms(5)]
  have db: "dblock_at (IBuf a) 0 s = Some 26" by (simp add: dblock_at_def b(4) new_dinode_def)
  have len: "unat (of_nat (length txt) :: u32) = length txt" "uint (of_nat (length txt) :: u32) = int (length txt)"
    using assms(6) unat_of_nat_u32 [of "length txt"] by (simp_all add: uint_nat)
  let ?p = "took 122 26 26 (txt @ c) p"
  have h: "pool_buf 26 26 ?p = 122" by (simp add: pool_buf_def pool_hit_def took_def)
  obtain s1 c' where s1: "blockRead (e_dev e) 0 26 s = Some (Buf 122, s1)" "pooled 0 (took 122 26 26 c' ?p) s1" "cache_io s s1"
    "length c' = 512" "full ?p 122 \<Longrightarrow> c' = data ?p 122" "buf (blocks s1 (Buf 122)) = c'"
    by (rule read_took [OF assms(1) BLKHASH_boot(3) h _ dr]) auto
  have c': "c' = txt @ c" using s1(5) by (simp add: took_def)
  have io: "fs_io s s1" using fs_io_disk [OF cache_ioD(1) [OF s1(3)]] by auto
  note fr = fs_io_files [OF io]
  have pk: "peek e (Buf 122) 0 (length txt) s1 = Some txt"
    using peek_inside [of s1 "Buf 122" 0 "length txt" e] s1(4,6) assms(6) by (simp add: c')
  have rp: "read_piece e (IBuf a) 0 0 (length txt) s = Some (txt, s1)"
    using db s1(1) pk by (simp add: read_piece_def)
  define s2 where "s2 = s1\<lparr>fds := (fds s)[unat fd := f\<lparr>foff := of_nat (length txt)\<rparr>]\<rparr>"
  have g1: "get_fd fd s1 = Some f" using assms(2) unfolding get_fd_def fr(2) .
  have sf: "set_fd fd (\<lambda>f. f\<lparr>foff := foff f + of_nat (length txt)\<rparr>) s1 = Some s2"
    unfolding set_fd_get [OF g1] by (simp add: s2_def fr(2) assms(4))
  have z: "sint (0 :: u32) sdiv 512 = 0" "sint (0 :: u32) smod 512 = 0" by (simp_all add: signed_divide_int_def signed_modulo_int_def)
  have run: "read_fd e fd (of_nat (length txt)) s = Some (of_nat (length txt), txt, s2)"
    using rp sf assms(2,3,4,6) by (simp add: read_fd_def Let_def b(1) len z)
  show ?thesis
    by (rule that [OF run, of c']) (use s1(2) fr fs_io_disk [OF cache_ioD(1) [OF s1(3)]] pooled_cong [OF s1(2), of s2] in \<open>simp_all add: s2_def screen_def\<close>)
qed

section \<open>The test of the file system\<close>

definition file_name :: "char \<Rightarrow> u8 list" where
  "file_name c = map of_char (''orcas'' @ [c])"

lemma file_name_facts:
  assumes "c \<in> {CHR ''0'', CHR ''1'', CHR ''2'', CHR ''3''}"
  shows "c_text (cstr (''orcas'' @ [c])) = Some (file_name c)" "entry_ok (x, file_name c)" "cstr (''orcas'' @ [c]) ! 0 \<noteq> SLASH"
  using assms by (auto simp: file_name_def entry_ok_def cstr_def)

definition potter :: "u8 list" where
  "potter = map of_char ''Harry Potter and the Goblet of Fire''"

lemma potter_facts: "cstr ''Harry Potter and the Goblet of Fire'' = potter @ [0]" "length potter = 35" "0 \<notin> set potter"
  by (simp_all add: potter_def cstr_def)

definition boot_lines :: "string list" where
  "boot_lines = [''[Test] ls'', '''', ''orcas0 orcas1 orcas2 orcas3 '', ''[Test] write'',
     ''Harry Potter and the Goblet of Fire'', ''[Test] read'', ''Harry Potter and the Goblet of Fire'']"

definition root_entries :: "(u32 \<times> u8 list) list" where
  "root_entries = [(2, file_name CHR ''0''), (4, file_name CHR ''1''), (6, file_name CHR ''2''), (8, file_name CHR ''3'')]"

text \<open>Everything that is left to allocate is gone.\<close>

definition used_up :: "nat \<Rightarrow> u32 \<Rightarrow> 'a files_scheme \<Rightarrow> bool" where
  "used_up K J s \<longleftrightarrow> (\<exists>n p. pooled 0 p s \<and> booted K J n 10 p \<and> junked K J p \<and> dir_at root_entries p) \<and>
     dir_inode (cwd s) root_entries s \<and> cwd s \<noteq> INull \<and> lock (cslLock s) = 0"

text \<open>One file made; the state as the next step needs it.\<close>

lemma creat_next:
  fixes s :: "'a files_scheme"
  assumes "mounted K J n es m j s" "stack_ok K J e" "drive_ready (e_dev e)" "m + 1 < 10" "length es < 4" "1 < j"
    and "c \<in> {CHR ''0'', CHR ''1'', CHR ''2'', CHR ''3''}" "unat (max_fd s) < length (fds s)" "lock (cslLock s) = 0"
  obtains s' where "creat e (cstr (''orcas'' @ [c])) M_READ s = Some (max_fd s, s')"
    "mounted K J n (es @ [(of_nat m, file_name c)]) (m + 2) (j - 1) s'" "prints [] s s'" "max_fd s' = max_fd s + 1"
    "cwd s' = cwd s" "fds s' = (fds s)[unat (max_fd s) := (fds s ! unat (max_fd s))\<lparr>find := IBuf j, fflag := 1, foff := 0\<rparr>]"
    "body (inodes s' (IBuf j)) = (0, of_nat m, 0, new_dinode I_FILE (24 + m))"
    "\<forall>r. r \<noteq> IBuf j \<longrightarrow> r \<noteq> cwd s \<longrightarrow> body (inodes s' r) = body (inodes s r)" "static s' = static s"
  by (rule creat_boot [OF assms(1-6) file_name_facts [OF assms(7)] assms(8,9), of M_READ]) simp

lemma four_entries:
  fixes s :: "'a files_scheme"
  assumes "mounted K J n [] 2 j s" "stack_ok K J e" "drive_ready (e_dev e)" "4 < j" "max_fd s = 0" "2 < length (fds s)"
    and "lock (cslLock s) = 0"
  obtains s1 s2 s3 s4 where "creat e (cstr ''orcas0'') M_READ s = Some (0, s1)" "creat e (cstr ''orcas1'') M_READ s1 = Some (1, s2)"
    "creat e (cstr ''orcas2'') M_READ s2 = Some (2, s3)" "mk e (cstr ''orcas3'') s3 = Some (0, s4)"
    "mounted K J n root_entries 10 (j - 4) s4" "prints [] s s4" "body (inodes s4 (IBuf j)) = (0, 2, 0, new_dinode I_FILE 26)"
    "get_fd 0 s4 = Some ((fds s ! 0)\<lparr>find := IBuf j, fflag := 1, foff := 0\<rparr>)" "static s4 = static s" "cwd s4 = cwd s"
proof -
  have cw: "cwd s \<noteq> IBuf j" by (rule mountedD(3) [OF assms(1)])
  obtain s1 where s1: "creat e (cstr (''orcas'' @ ''0'')) M_READ s = Some (max_fd s, s1)"
    "mounted K J n ([] @ [(of_nat 2, file_name CHR ''0'')]) (2 + 2) (j - 1) s1" "prints [] s s1" "max_fd s1 = max_fd s + 1" "cwd s1 = cwd s"
    "fds s1 = (fds s)[unat (max_fd s) := (fds s ! unat (max_fd s))\<lparr>find := IBuf j, fflag := 1, foff := 0\<rparr>]"
    "body (inodes s1 (IBuf j)) = (0, of_nat 2, 0, new_dinode I_FILE (24 + 2))" "static s1 = static s"
    by (rule creat_next [OF assms(1-3) _ _ _ _ _ assms(7), of "CHR ''0''"]) (use assms(4-6) in auto)
  have m1: "max_fd s1 = 1" using s1(4) assms(5) by simp
  obtain s2 where s2: "creat e (cstr (''orcas'' @ ''1'')) M_READ s1 = Some (max_fd s1, s2)"
    "mounted K J n (([] @ [(of_nat 2, file_name CHR ''0'')]) @ [(of_nat (2 + 2), file_name CHR ''1'')]) (2 + 2 + 2) (j - 1 - 1) s2"
    "prints [] s1 s2" "max_fd s2 = max_fd s1 + 1" "cwd s2 = cwd s1"
    "fds s2 = (fds s1)[unat (max_fd s1) := (fds s1 ! unat (max_fd s1))\<lparr>find := IBuf (j - 1), fflag := 1, foff := 0\<rparr>]"
    "\<forall>r. r \<noteq> IBuf (j - 1) \<longrightarrow> r \<noteq> cwd s1 \<longrightarrow> body (inodes s2 r) = body (inodes s1 r)" "static s2 = static s1"
    by (rule creat_next [OF s1(2) assms(2,3) _ _ _ _ _ prints_lock [OF s1(3)], of "CHR ''1''"]) (use assms(4-6) m1 s1(6) in auto)
  have m2: "max_fd s2 = 2" using s2(4) m1 by simp
  obtain s3 where s3: "creat e (cstr (''orcas'' @ ''2'')) M_READ s2 = Some (max_fd s2, s3)"
    "mounted K J n ((([] @ [(of_nat 2, file_name CHR ''0'')]) @ [(of_nat (2 + 2), file_name CHR ''1'')]) @ [(of_nat (2 + 2 + 2), file_name CHR ''2'')])
       (2 + 2 + 2 + 2) (j - 1 - 1 - 1) s3"
    "prints [] s2 s3" "max_fd s3 = max_fd s2 + 1" "cwd s3 = cwd s2"
    "fds s3 = (fds s2)[unat (max_fd s2) := (fds s2 ! unat (max_fd s2))\<lparr>find := IBuf (j - 1 - 1), fflag := 1, foff := 0\<rparr>]"
    "\<forall>r. r \<noteq> IBuf (j - 1 - 1) \<longrightarrow> r \<noteq> cwd s2 \<longrightarrow> body (inodes s3 r) = body (inodes s2 r)" "static s3 = static s2"
    by (rule creat_next [OF s2(2) assms(2,3) _ _ _ _ _ prints_lock [OF s2(3)], of "CHR ''2''"]) (use assms(4-6) m2 s1(6) s2(6) in auto)
  obtain s4 where s4: "mk e (cstr (''orcas'' @ ''3'')) s3 = Some (0, s4)"
    "mounted K J n (((([] @ [(of_nat 2, file_name CHR ''0'')]) @ [(of_nat (2 + 2), file_name CHR ''1'')]) @ [(of_nat (2 + 2 + 2), file_name CHR ''2'')])
       @ [(of_nat (2 + 2 + 2 + 2), file_name CHR ''3'')]) (2 + 2 + 2 + 2 + 2) (j - 1 - 1 - 1 - 1) s4"
    "prints [] s3 s4" "fs_io s3 s4" "\<forall>r. r \<noteq> IBuf (j - 1 - 1 - 1) \<longrightarrow> r \<noteq> cwd s3 \<longrightarrow> body (inodes s4 r) = body (inodes s3 r)"
    by (rule mk_boot [OF s3(2) assms(2,3) _ _ _ file_name_facts(1,2) prints_lock [OF s3(3)], of "CHR ''3''"]) (use assms(4) in auto)
  have b: "body (inodes s4 (IBuf j)) = (0, 2, 0, new_dinode I_FILE 26)"
    using s4(5) s3(5,7) s2(5,7) s1(5,7) cw assms(4) by simp
  have "fds s \<noteq> []" using assms(6) by auto
  then have f: "get_fd 0 s4 = Some ((fds s ! 0)\<lparr>find := IBuf j, fflag := 1, foff := 0\<rparr>)"
    using fs_io_files(2) [OF s4(4)] s3(6) s2(6) s1(6) assms(5,6) m1 m2 by (simp add: get_fd_def)
  have p: "prints [] s s4"
    using prints_trans [OF s1(3) prints_trans [OF s2(3) prints_trans [OF s3(3) s4(3)]]] by simp
  have cd: "cwd s4 = cwd s" using fs_io_files(1) [OF s4(4)] s3(5) s2(5) s1(5) by simp
  have nm: "static s4 = static s" using fs_io_files(8) [OF s4(4)] s3(8) s2(8) s1(8) by simp
  have "j - 1 - 1 - 1 - 1 = j - 4" by arith
  from s4(2) [unfolded this] have r: "mounted K J n root_entries 10 (j - 4) s4" by (simp add: root_entries_def)
  show ?thesis
    by (rule that [OF _ _ _ _ r p b f nm cd]) (use s1(1) s2(1) s3(1) s4(1) assms(5) m1 m2 in simp_all)
qed

lemma text_line: "c_text p = Some t \<Longrightarrow> lock (cslLock s) = 0 \<Longrightarrow>
    printf (cstr (''%s'' @ [CHR 0x0a])) [Str p] s = Some (say (t @ [0x0a]) s)"
  by (rule printf_prints(1) [OF _ fmt_row])

lemma msg_lines:
  assumes "lock (cslLock s) = 0"
  shows "msg ''[Test] ls'' s = Some (say (lines [''[Test] ls'']) s)" "msg [] s = Some (say [0x0a] s)"
    "msg ''[Test] write'' s = Some (say (lines [''[Test] write'']) s)" "msg ''[Test] read'' s = Some (say (lines [''[Test] read'']) s)"
    "msg ''[Error] creat: allocInode'' s = Some (say (lines [''[Error] creat: allocInode'']) s)"
  using assms by (simp_all add: msg_def printf_say cstr_def)

lemma booted_cong: "mounted K J n es m j s \<Longrightarrow> \<exists>p. pooled 0 p s \<and> booted K J n m p \<and> junked K J p"
  by (auto simp: mounted_def)

lemma fileTest_boot:
  fixes s :: "'a files_scheme"
  assumes "mounted K J n [] 2 j s" "stack_ok K J e" "drive_ready (e_dev e)" "4 < j" "max_fd s = 0" "2 < length (fds s)"
    and "lock (cslLock s) = 0"
  shows "\<exists>s'. fileTest e s = Some s' \<and> prints (lines boot_lines) s s' \<and> used_up K J s' \<and> static s' = static s"
proof -
  obtain s1 s2 s3 s4 where c: "creat e (cstr ''orcas0'') M_READ s = Some (0, s1)" "creat e (cstr ''orcas1'') M_READ s1 = Some (1, s2)"
    "creat e (cstr ''orcas2'') M_READ s2 = Some (2, s3)" "mk e (cstr ''orcas3'') s3 = Some (0, s4)"
    "mounted K J n root_entries 10 (j - 4) s4" "prints [] s s4" "body (inodes s4 (IBuf j)) = (0, 2, 0, new_dinode I_FILE 26)"
    "get_fd 0 s4 = Some ((fds s ! 0)\<lparr>find := IBuf j, fflag := 1, foff := 0\<rparr>)"
    "static s4 = static s" "cwd s4 = cwd s"
    by (rule four_entries [OF assms])
  let ?f = "(fds s ! 0)\<lparr>find := IBuf j, fflag := 1, foff := 0\<rparr>"
  define s5 where "s5 = say (lines [''[Test] ls'']) s4"
  have m5: "mounted K J n root_entries 10 (j - 4) s5" "lock (cslLock s5) = 0"
    using c(5) by (simp_all add: s5_def say_frame)
  have K: "K \<noteq> 26" using assms(2) by (simp add: stack_ok_def junk_ok_def)
  obtain s6 q where s6: "ls e s5 = Some (0, s6)" "prints (0x0a # names root_entries) s5 s6"
    "fds s6 = fds s5" "inodes s6 = inodes s5" "cwd s6 = cwd s5" "static s6 = static s5"
    "pooled 0 q s6" "booted K J n 10 q" "junked K J q" "dir_at root_entries q" "front q 26 = None" "spot q = 122"
    by (rule ls_boot [OF m5(1) _ assms(2,3) m5(2)]) (auto simp: root_entries_def)
  define s7 where "s7 = say (lines [''[Test] write'']) (say [0x0a] s6)"
  have f7: "blocks s7 = blocks s6" "inodes s7 = inodes s4" "fds s7 = fds s4" "cwd s7 = cwd s4" "lock (cslLock s7) = 0"
    by (simp_all add: s7_def say_frame s6(3-5) s5_def)
  have p7: "pooled 0 q s7" by (rule pooled_cong [OF s6(7)]) (simp add: f7(1))
  have g7: "get_fd 0 s7 = Some ?f" using c(8) unfolding get_fd_def f7(3) .
  have h7: "find ?f = IBuf j" "body (inodes s7 (IBuf j)) = (0, 2, 0, new_dinode I_FILE 26)" "length potter < 512"
    using c(7) by (simp_all add: f7(2) potter_facts(2))
  obtain s8 z where s8: "write_fd e 0 (potter @ [0]) (of_nat (length potter)) s7 = Some (of_nat (length potter), s8)"
    "pooled 0 (took 122 26 26 (potter @ z) q) s8" "fs_io s7 s8" "body (inodes s8 (IBuf j)) = (of_nat (length potter), 2, 0, new_dinode I_FILE 26)"
    "\<forall>r. r \<noteq> IBuf j \<longrightarrow> inodes s8 r = inodes s7 r"
    by (rule write_boot [OF p7 s6(8,9) K s6(11,12) g7 h7 assms(3)])
  note fr8 = fs_io_files [OF s8(3)]
  define s9 where "s9 = say (lines [''[Test] read'']) (say (potter @ [0x0a]) s8)"
  have f9: "blocks s9 = blocks s8" "inodes s9 = inodes s8" "fds s9 = fds s7" "cwd s9 = cwd s4" "lock (cslLock s9) = 0"
    using fr8 f7 by (simp_all add: s9_def say_frame)
  have p9: "pooled 0 (took 122 26 26 (potter @ z) q) s9" by (rule pooled_cong [OF s8(2)]) (simp add: f9(1))
  have g9: "get_fd 0 s9 = Some ?f" using g7 unfolding get_fd_def f9(3) .
  have h9: "foff ?f = 0" "body (inodes s9 (IBuf j)) = (of_nat (length potter), 2, 0, new_dinode I_FILE 26)"
    using s8(4) by (simp_all add: f9(2))
  obtain s10 z' where s10: "read_fd e 0 (of_nat (length potter)) s9 = Some (of_nat (length potter), potter, s10)"
    "pooled 0 (took 122 26 26 z' (took 122 26 26 (potter @ z) q)) s10" "screen s10 = screen s9" "cslLock s10 = cslLock s9"
    "inodes s10 = inodes s9" "cwd s10 = cwd s9" "static s10 = static s9"
    by (rule read_boot [OF p9 g9 h7(1) h9 h7(3) assms(3)])
  define s11 where "s11 = say (potter @ [0x0a]) s10"
  have ct: "c_text (potter @ [0]) = Some potter" "c_text (blit (replicate 40 0) 0 potter) = Some potter"
    using potter_facts c_text_copied [of potter "replicate 40 0"] by simp_all
  have l: "lock (cslLock (say [0x0a] s6)) = 0" "lock (cslLock s8) = 0" "lock (cslLock (say (potter @ [0x0a]) s8)) = 0"
    "lock (cslLock s10) = 0" "lock (cslLock s6) = 0"
    using fr8(5) f7(5) f9(5) s10(4) prints_lock [OF s6(2)] by (simp_all add: say_frame)
  have e: "msg ''[Test] ls'' s4 = Some s5" "msg [] s6 = Some (say [0x0a] s6)" "msg ''[Test] write'' (say [0x0a] s6) = Some s7"
    "printf (cstr (''%s'' @ [CHR 0x0a])) [Str (potter @ [0])] s8 = Some (say (potter @ [0x0a]) s8)"
    "msg ''[Test] read'' (say (potter @ [0x0a]) s8) = Some s9"
    "printf (cstr (''%s'' @ [CHR 0x0a])) [Str (blit (replicate 40 0) 0 potter)] s10 = Some s11"
    unfolding s5_def s7_def s9_def s11_def
    using msg_lines(1) [OF prints_lock [OF c(6)]] msg_lines(2) [OF l(5)] msg_lines(3) [OF l(1)] msg_lines(4) [OF l(3)]
      text_line [OF ct(1) l(2)] text_line [OF ct(2) l(4)] by simp_all
  have run: "fileTest e s = Some s11"
    unfolding fileTest_def c(1-4) Option.bind.bind_lunit case_prod_conv e(1) s6(1) e(2,3) Let_def potter_facts(1)
      strlen_text ct(1) option.map s8(1) e(4,5) s10(1) e(6) ..
  have pr: "prints [] s7 s8" "prints [] s9 s10"
    using fs_io_prints [OF s8(3) f7(5)] prints_Nil [OF s10(3) l(4)] .
  have "prints (lines [''[Test] ls'']) s4 s5" "prints ([0x0a] @ lines [''[Test] write'']) s6 s7"
    "prints ((potter @ [0x0a]) @ lines [''[Test] read'']) s8 s9" "prints (potter @ [0x0a]) s10 s11"
    unfolding s5_def s7_def s9_def s11_def by (rule prints_trans prints_say)+
  note prints_trans [OF c(6) prints_trans [OF this(1) prints_trans [OF s6(2) prints_trans [OF this(2) prints_trans [OF pr(1)
      prints_trans [OF this(3) prints_trans [OF pr(2) this(4)]]]]]]]
  moreover have "[] @ lines [''[Test] ls''] @ (0x0a # names root_entries) @ ([0x0a] @ lines [''[Test] write'']) @ [] @
      ((potter @ [0x0a]) @ lines [''[Test] read'']) @ [] @ potter @ [0x0a] = lines boot_lines"
    by (simp add: names_def root_entries_def file_name_def potter_def boot_lines_def)
  ultimately have "prints (lines boot_lines) s s11" by simp
  moreover have "used_up K J s11"
  proof -
    let ?q = "took 122 26 26 z' (took 122 26 26 (potter @ z) q)"
    have "pooled 0 ?q s11" by (rule pooled_cong [OF s10(2)]) (simp add: s11_def say_frame)
    moreover note tq = took_file_facts [OF s6(8,9) K refl]
    have "booted K J n 10 ?q" "junked K J ?q" "dir_at root_entries ?q"
      using took_file_facts [OF tq(1,2) K refl] tq(3) s6(10) by simp_all
    moreover have w: "cwd s11 = cwd s4" using s10(6) f9(4) by (simp add: s11_def say_frame)
    have "cwd s4 = cwd s" "cwd s \<noteq> IBuf j" using c(10) mountedD(3) [OF assms(1)] by auto
    then have "inodes s11 (cwd s11) = inodes s4 (cwd s4)"
      using s10(5) f9(2) s8(5) f7(2) unfolding w by (simp add: s11_def say_frame)
    then have "dir_inode (cwd s11) root_entries s11" "cwd s11 \<noteq> INull"
      using mountedD(4) [OF c(5)] mountedD(2) [OF c(5)] by (simp_all add: dir_inode_def w)
    moreover have "lock (cslLock s11) = 0" by (simp add: s11_def say_frame)
    ultimately show ?thesis unfolding used_up_def by blast
  qed
  moreover have "static s11 = static s"
    using c(9) by (simp add: s11_def say_frame s10(7) s9_def fr8(8) s7_def s6(6) s5_def)
  ultimately show ?thesis using run by blast
qed

text \<open>From then on no file can be made.\<close>

lemma creat_fails:
  fixes s :: "'a files_scheme"
  assumes "used_up K J s" "stack_ok K J e" "drive_ready (e_dev e)"
  shows "\<exists>s'. creat e path md s = Some (- 1, s') \<and>
    prints (lines [''[Error] allocInode: no available inode block'', ''[Error] creat: allocInode'']) s s'"
proof -
  obtain n p where p: "pooled 0 p s" "booted K J n 10 p" "junked K J p" and d: "idevice (inodes s (cwd s)) = 0" "lock (cslLock s) = 0"
    using assms(1) by (auto simp: used_up_def dir_inode_def)
  have j: "junk_ok K J (j_stack (junk_at e s))" using assms(2) by (simp add: stack_ok_def)
  have dr: "\<forall>t. \<not> bit (rd8 (e_dev e) t IDE_CMD_PORT) 0" using assms(3) by (simp add: drive_ready_def)
  obtain s1 where s1: "allocInode (e_dev e) (junk_at e s) 0 s = Some (INull, s1)"
    "prints (lines [''[Error] allocInode: no available inode block'']) s s1"
    using allocInode_full [OF p j d(2) dr] by blast
  note m = msg_lines(5) [OF prints_lock [OF s1(2)]]
  have "creat e path md s = Some (- 1, say (lines [''[Error] creat: allocInode'']) s1)"
    unfolding creat_def Let_def d(1) s1(1) Option.bind.bind_lunit case_prod_conv m by simp
  moreover have "prints (lines [''[Error] allocInode: no available inode block''] @ lines [''[Error] creat: allocInode'']) s
      (say (lines [''[Error] creat: allocInode'']) s1)"
    by (rule prints_trans [OF s1(2) prints_say])
  ultimately show ?thesis by simp
qed

section \<open>From the driver to the test\<close>

lemma driver_starts:
  assumes "\<forall>t. rd8 dev t IDE_CMD_PORT = b" "b \<noteq> 0" "b \<noteq> 0xff" "\<not> bit b 0" "\<not> bit b 7"
  obtains s' where "hardDriverInit dev s = Some (0, s')" "disk_io s s'" "\<forall>r. buf (blocks s' r) = buf (blocks s r)"
    "\<forall>r. bblock (blocks s' r) = bblock (blocks s r)"
proof -
  have test: "testIdeState dev s = Some (0, s\<lparr>iotrace := Inb IDE_CMD_PORT # iotrace s\<rparr>)" for s :: "'a disk_scheme"
    using assms by (simp add: testIdeState_def inb_def c_eq_def and_1_cases)
  have idf: "identify_loop dev b s = Some (b, s)" for s :: "'a disk_scheme"
    using assms(5) by (subst identify_loop.simps) (simp add: and_0x80)
  define s' where "s' = snd (the (hardDriverInit dev s))"
  show ?thesis
  proof (rule that [of s'])
    show "hardDriverInit dev s = Some (0, s')" "disk_io s s'"
      using assms test idf by (simp_all add: s'_def hardDriverInit_def inb_def outb_def Let_def and_1_cases disk_io_def upd_blk_def)
    show "\<forall>r. buf (blocks s' r) = buf (blocks s r)" "\<forall>r. bblock (blocks s' r) = bblock (blocks s r)"
      using assms test idf by (simp_all add: s'_def hardDriverInit_def inb_def outb_def Let_def and_1_cases upd_blk_def)
  qed
qed

definition inodes_only :: "'a fsys_scheme \<Rightarrow> 'a fsys_scheme \<Rightarrow> bool" where
  "inodes_only s s' \<longleftrightarrow> s' = s\<lparr>inodes := inodes s'\<rparr>"

lemma inodes_only_upd: "inodes_only s t \<Longrightarrow> inodes_only s (upd_ino r f t)"
proof -
  assume "inodes_only s t"
  then obtain i where t: "t = s\<lparr>inodes := i\<rparr>" by (auto simp: inodes_only_def)
  show ?thesis unfolding t inodes_only_def upd_ino_def by simp
qed

lemma inodes_only_steps: "inodes_only s t \<Longrightarrow> inodes_only s (icache_link i t)" "inodes_only s t \<Longrightarrow> inodes_only s (icache_unhash i t)"
  by (simp_all add: icache_link_def icache_unhash_def Let_def inodes_only_upd)

lemma inodes_only_folds:
  "inodes_only s t \<Longrightarrow> inodes_only s (fold icache_link is t)" "inodes_only s t \<Longrightarrow> inodes_only s (fold icache_unhash is t)"
  by (induction "is" arbitrary: t) (simp_all add: inodes_only_steps)

lemma inodeCacheInit_only: "inodes_only s (inodeCacheInit s)"
proof -
  have "inodes_only s s" by (simp add: inodes_only_def)
  then show ?thesis
    unfolding inodeCacheInit_def Let_def by (intro inodes_only_folds inodes_only_upd)
qed

lemma iring_initial: "iring 127 0 (inodeCacheInit s)"
proof -
  let ?t = "inodeCacheInit s"
  note F = inodeCacheInit_facts [of s]
  have m: "ilru_next (inodes ?t (IBuf i)) = hd (map IBuf (rev [0..<i]) @ [INull])" if "i < 128" for i
  proof -
    have "[0..<128] = [0..<i] @ i # [Suc i..<128]" using that upt_add_eq_append [of 0 i "128 - i"] by (simp add: upt_conv_Cons)
    then have "map IBuf (rev [0..<128]) = map IBuf (rev [Suc i..<128]) @ IBuf i # map IBuf (rev [0..<i])" by simp
    with F(1) have "ilru.ring ?t INull (map IBuf (rev [Suc i..<128]) @ IBuf i # map IBuf (rev [0..<i]))" by metis
    from ilru.ring_member [OF this] show ?thesis by simp
  qed
  have n: "ilru_next (inodes ?t (IBuf i)) = IBuf (i - 1)" if "0 < i" "i < 128" for i
  proof -
    have "rev [0..<i] = (i - 1) # rev [0..<i - 1]" using that(1) by (cases i) simp_all
    with m [OF that(2)] show ?thesis by simp
  qed
  have c: "[0..<128] = [0..<127] @ [127]" by (simp add: upt_Suc_append [of 0 127, simplified])
  have "ilru_next (inodes ?t INull) = hd (map IBuf (rev [0..<128]) @ [INull])" using ilru.ring_nxt_head [OF F(1)] by simp
  then have "ilru_next (inodes ?t INull) = IBuf 127" unfolding c by simp
  with n F(2) show ?thesis by (simp add: iring_def)
qed

text \<open>The layout is written to the first three buffers.\<close>

definition layout_pool :: "u32 \<Rightarrow> pool \<Rightarrow> pool" where
  "layout_pool n p = took 125 21 21 (marks 0) (took 126 20 20 (marks 0)
     (took 127 1 1 (blit (replicate 512 0) 0 (sb_bytes (layout n))) p))"

lemma diskLayoutInit_pool:
  fixes s :: "'a disk_scheme"
  assumes "pooled 0 p s" "spot p = 127" "front p = (\<lambda>_. None)"
  obtains s' where "diskLayoutInit sb s = Some s'" "pooled 0 (layout_pool (sb_size sb) p) s'" "disk_io s s'"
proof -
  let ?sb = "layout (sb_size sb)" and ?c = "blit (replicate 512 0) 0 (sb_bytes (layout (sb_size sb)))"
  have sb: "sb\<lparr>nLogBlock := 10, nInodeBlock := 10, nDataBlock := 10, logStart := 3, inodeStart := 10,
      bitmapStart := 20, dataStart := 23, sb_device := 0\<rparr> = ?sb"
    by (cases sb) (simp add: layout_def)
  have z: "replicate 512 0 = marks 0" by (simp add: marks_def)
  define u1 where "u1 = upd_blk (BLoc 0) (\<lambda>b. b\<lparr>buf := blit (buf b) 0 (sb_bytes ?sb)\<rparr>) (upd_blk (BLoc 0) (\<lambda>b. b\<lparr>buf := replicate 512 0\<rparr>)
    (upd_blk (BLoc 0) (\<lambda>b. b\<lparr>bblock := 1\<rparr>) (upd_blk (BLoc 0) (\<lambda>b. b\<lparr>bdevice := 0\<rparr>) s)))"
  have u1: "pooled 0 p u1" "bdevice (blocks u1 (BLoc 0)) = 0" "bblock (blocks u1 (BLoc 0)) = 1" "buf (blocks u1 (BLoc 0)) = ?c" "disk_io s u1"
    using assms(1) by (simp_all add: u1_def upd_blk_blocks disk_io_def) (simp add: upd_blk_def)
  have h1: "pool_buf 1 1 p = 127" using assms(2,3) by (simp add: pool_buf_def pool_hit_def)
  obtain s1 where s1: "blockWrite (BLoc 0) u1 = Some (0, s1)" "pooled 0 (took 127 1 1 ?c p) s1" "cache_io u1 s1"
    by (rule write_took [OF u1(1) BLKHASH_boot(1) h1 _ u1(2-4)]) simp_all
  let ?p1 = "took 127 1 1 ?c p"
  define u2 where "u2 = upd_blk (BLoc 1) (\<lambda>b. b\<lparr>bblock := 20\<rparr>) (upd_blk (BLoc 1) (\<lambda>b. b\<lparr>buf := replicate 512 0\<rparr>)
    (upd_blk (BLoc 1) (\<lambda>b. b\<lparr>bdevice := 0\<rparr>) s1))"
  have u2: "pooled 0 ?p1 u2" "bdevice (blocks u2 (BLoc 1)) = 0" "bblock (blocks u2 (BLoc 1)) = 20" "buf (blocks u2 (BLoc 1)) = marks 0" "disk_io s1 u2"
    using s1(2) by (simp_all add: u2_def upd_blk_blocks z disk_io_def) (simp add: upd_blk_def)
  have h2: "pool_buf 20 20 ?p1 = 126" using assms(3) by (simp add: pool_buf_def pool_hit_def took_def)
  have l: "length (marks 0) = 512" by (simp add: marks_facts(1))
  obtain s2 where s2: "blockWrite (BLoc 1) u2 = Some (0, s2)" "pooled 0 (took 126 20 20 (marks 0) ?p1) s2" "cache_io u2 s2"
    by (rule write_took [OF u2(1) BLKHASH_20(1) h2 _ u2(2-4) l]) simp
  let ?p2 = "took 126 20 20 (marks 0) ?p1"
  define u3 where "u3 = upd_blk (BLoc 1) (\<lambda>b. b\<lparr>bblock := 21\<rparr>) s2"
  have u3: "pooled 0 ?p2 u3" "bdevice (blocks u3 (BLoc 1)) = 0" "bblock (blocks u3 (BLoc 1)) = 21" "buf (blocks u3 (BLoc 1)) = marks 0" "disk_io s2 u3"
    using s2(2) cache_ioD(2) [OF s2(3), of 1] u2(2,4) by (simp_all add: u3_def upd_blk_blocks)
  have h3: "pool_buf 21 21 ?p2 = 125" using assms(3) by (simp add: pool_buf_def pool_hit_def took_def)
  obtain s3 where s3: "blockWrite (BLoc 1) u3 = Some (0, s3)" "pooled 0 (took 125 21 21 (marks 0) ?p2) s3" "cache_io u3 s3"
    by (rule write_took [OF u3(1) BLKHASH_20(2) h3 _ u3(2-4) l]) simp
  have w: "writeSuperblock ?sb 0 s = Some (0, s1)" using s1(1) by (simp add: writeSuperblock_def u1_def)
  have run: "diskLayoutInit sb s = Some s3"
    unfolding diskLayoutInit_def Let_def sb
    using w s2(1) s3(1) by (simp add: layout_fields u2_def u3_def)
  have io: "disk_io s s3"
    by (rule disk_io_trans [OF disk_io_trans [OF disk_io_trans [OF disk_io_trans [OF disk_io_trans [OF u1(5) cache_ioD(1) [OF s1(3)]]
      u2(5)] cache_ioD(1) [OF s2(3)]] u3(5)] cache_ioD(1) [OF s3(3)]])
  show ?thesis by (rule that [OF run _ io]) (use s3(2) in \<open>simp add: layout_pool_def\<close>)
qed

lemma layout_pool_booted:
  assumes "junk_ok K J B" "front p = (\<lambda>_. None)" "zero p \<noteq> J" "q = layout_pool n p"
  shows "booted K J n 0 q" "front q K = None" "front q 24 = None" "front q 26 = None"
proof -
  have K: "K \<noteq> 1" "K \<noteq> 20" "K \<noteq> 21" using assms(1) by (auto simp: junk_ok_def)
  have sb: "sb_of_bytes (blit (replicate 512 0) 0 (sb_bytes (layout n))) = layout n"
    by (simp add: blit_def sb_of_bytes_sb_bytes)
  show "booted K J n 0 q"
    using assms(2,3) unfolding booted_def assms(4) layout_pool_def by (simp add: took_def sb)
  show "front q K = None" "front q 24 = None" "front q 26 = None"
    using K assms(2) unfolding assms(4) layout_pool_def by (simp_all add: took_def)
qed

text \<open>The root directory, made by hand: its inode is the first of the cache, its block the second of the bitmap.\<close>

lemma root_boot:
  fixes s :: "'a files_scheme"
  assumes "pooled 0 p s" "booted K J n 0 p" "front p K = None" "front p 24 = None" "front p 26 = None"
    and "iring 127 0 s" "stack_ok K J e" "drive_ready (e_dev e)"
  obtains s1 s2 s3 where "allocInode (e_dev e) (junk_at e s) 0 s = Some (IBuf 127, s1)"
    "allocData (e_dev e) (junk_at e s1) 0 (s1\<lparr>root := IBuf 127\<rparr>) = Some (24, s2)" "set_dblock (IBuf 127) 0 24 s2 = Some s3"
    "root s2 = IBuf 127" "fds s3 = fds s" "cslLock s3 = cslLock s" "screen s3 = screen s" "cwd_name s3 = cwd_name s" "root s3 = IBuf 127"
    "static s3 = static s"
    "\<forall>r c w. mounted K J n [] 2 126 (s3\<lparr>cwd := IBuf 127, cwd_name := c, of_cnt := w, max_fd := r\<rparr>)"
proof -
  have st: "junk_ok K J (j_stack (junk_at e u))" for u :: "'a files_scheme" using assms(7) by (simp add: stack_ok_def)
  have dr: "\<forall>t. \<not> bit (rd8 (e_dev e) t IDE_CMD_PORT) 0" using assms(8) by (simp add: drive_ready_def)
  obtain s1 p1 where s1: "allocInode (e_dev e) (junk_at e s) 0 s = Some (IBuf 127, s1)" "pooled 0 p1 s1"
    "booted K J n (Suc 0) p1" "junked K J p1" "spot p1 = 123" "\<forall>es. dir_at es p1 = dir_at es p" "front p1 26 = front p 26"
    "fs_io s s1" "iring (127 - 1) (Suc 0) s1" "body (inodes s1 (IBuf 127)) = (0, of_nat 0, 0, zero_dinode)"
    "\<forall>r. r \<noteq> IBuf 127 \<longrightarrow> body (inodes s1 r) = body (inodes s r)"
    by (rule allocInode_boot [OF assms(1,2) _ disjI2 [OF assms(3)] st [of s] assms(6) _ dr]) simp_all
  let ?t = "s1\<lparr>root := IBuf 127\<rparr>"
  have pt: "pooled 0 p1 ?t" by (rule pooled_cong [OF s1(2)]) simp
  obtain s2 p2 where s2: "allocData (e_dev e) (junk_at e s1) 0 ?t = Some (of_nat (23 + Suc 0), s2)" "pooled 0 p2 s2"
    "booted K J n (Suc (Suc 0)) p2" "junked K J p2" "\<forall>es. dir_at es p2 = dir_at es p1" "front p2 26 = front p1 26" "disk_io ?t s2"
    by (rule allocData_boot [OF pt s1(3) _ s1(4) st [of s1] dr]) simp
  have in2: "inodes s2 = inodes s1" "fs_io ?t s2" using fs_io_disk [OF s2(7)] by auto
  define s3 where "s3 = upd_ino (IBuf 127) (\<lambda>n. n\<lparr>dinode := (dinode n)\<lparr>dblock := (dblock (dinode n))[0 := 24]\<rparr>\<rparr>) s2"
  have sd: "set_dblock (IBuf 127) 0 24 s2 = Some s3"
    using body_fields(4) [OF s1(10)] by (simp add: set_dblock_def in2(1) s3_def zero_dinode_def)
  have p3: "pooled 0 p2 s3" by (rule pooled_cong [OF s2(2)]) (simp add: s3_def upd_ino_def)
  have ir: "iring 126 2 s3"
    using s1(9) by (simp add: iring_def s3_def upd_ino_inodes in2(1))
  have di: "dir_inode (IBuf 127) [] s3"
    using body_fields [OF s1(10)] by (simp add: dir_inode_def s3_def upd_ino_inodes in2(1) zero_dinode_def)
  have "dir_at [] p" using assms(4) by (simp add: dir_at_def)
  then have da: "dir_at [] p2" using s2(5) s1(6) by blast
  have m: "mounted K J n [] 2 126 (s3\<lparr>cwd := IBuf 127, cwd_name := c, of_cnt := w, max_fd := r\<rparr>)" (is "mounted _ _ _ _ _ _ ?s") for c w r
  proof -
    have "pooled 0 p2 ?s" by (rule pooled_cong [OF p3]) simp
    moreover have "iring 126 2 ?s" using ir by (simp add: iring_def)
    moreover have "dir_inode (cwd ?s) [] ?s" using di by (simp add: dir_inode_def)
    moreover have "booted K J n 2 p2" using s2(3) by (simp add: numeral_2_eq_2)
    ultimately show ?thesis using s2(4,6) s1(7) assms(5) da unfolding mounted_def by auto
  qed
  have io: "fs_io ?t s3" unfolding s3_def by (rule fs_io_trans [OF in2(2) fs_io_ino])
  show ?thesis
    by (rule that [OF s1(1) _ sd])
      (use m s2(1) fs_io_files [OF io] fs_io_files [OF s1(8)] fs_io_files(4) [OF in2(2)] in \<open>simp_all add: screen_def\<close>)
qed

text \<open>The sizes of the objects, and a lock that is free. \<open>drive_idle\<close>: a drive that is always ready.\<close>

definition boot_stores :: "u32 \<Rightarrow> 'a files_scheme \<Rightarrow> bool" where
  "boot_stores J s \<longleftrightarrow> (\<forall>i < 128. length (buf (blocks s (Buf i))) = 512) \<and> bblock (blocks s BNull) \<noteq> J \<and>
     5 \<le> length (cwd_name s) \<and> 2 < length (fds s) \<and> lock (cslLock s) = 0"

definition drive_idle :: "device \<Rightarrow> bool" where
  "drive_idle dev \<longleftrightarrow> (\<exists>b. (\<forall>t. rd8 dev t IDE_CMD_PORT = b) \<and> b \<noteq> 0 \<and> b \<noteq> 0xff \<and> \<not> bit b 0 \<and> \<not> bit b 7)"

lemma fsInit_runs:
  fixes s :: "'a files_scheme"
  assumes "drive_idle (e_dev e)" "stack_ok K J e" "boot_stores J s"
  shows "\<exists>s'. fsInit e s = Some s' \<and> prints (lines boot_lines) s s' \<and> used_up K J s' \<and>
    static s' = (blit (cwd_name s) 0 (map of_char ''root/''), snd (static s))"
proof -
  have mem: "\<forall>i < 128. length (buf (blocks s (Buf i))) = 512" "bblock (blocks s BNull) \<noteq> J" "5 \<le> length (cwd_name s)"
    "2 < length (fds s)" "lock (cslLock s) = 0"
    using assms(3) by (simp_all add: boot_stores_def)
  obtain b where b: "\<forall>t. rd8 (e_dev e) t IDE_CMD_PORT = b" "b \<noteq> 0" "b \<noteq> 0xff" "\<not> bit b 0" "\<not> bit b 7"
    using assms(1) by (auto simp: drive_idle_def)
  have dr: "drive_ready (e_dev e)" using b by (simp add: drive_ready_def)
  obtain s1 where s1: "hardDriverInit (e_dev e) s = Some (0, s1)" "disk_io s s1" "\<forall>r. buf (blocks s1 r) = buf (blocks s r)"
    "\<forall>r. bblock (blocks s1 r) = bblock (blocks s r)"
    by (rule driver_starts [OF b])
  define s2 where "s2 = blockCacheInit s1"
  let ?p = "pool_init s1"
  have p2: "pooled 0 ?p s2" unfolding s2_def by (rule pool_initial) (simp add: s1(3) mem(1))
  have io2: "fs_io s s2"
    unfolding s2_def using fs_io_disk [OF disk_io_trans [OF s1(2) blockCacheInit_fields(4)]] by blast
  define s3 where "s3 = inodeCacheInit s2"
  obtain i where i: "s3 = s2\<lparr>inodes := i\<rparr>" using inodeCacheInit_only [of s2] by (auto simp: inodes_only_def s3_def)
  have p3: "pooled 0 ?p s3" by (rule pooled_cong [OF p2]) (simp add: i)
  have io3: "fs_io s s3" by (rule fs_io_trans [OF io2]) (simp add: i fs_io_def)
  define sb where "sb = j_sb (junk_at e s3)"
  define n where "n = sb_size sb"
  obtain s4 where s4: "diskLayoutInit sb s3 = Some s4" "pooled 0 (layout_pool n ?p) s4" "disk_io s3 s4"
    unfolding n_def by (rule diskLayoutInit_pool [OF p3, of sb]) (simp_all add: pool_init_def)
  have junk: "junk_ok K J (j_stack (junk_at e s))" using assms(2) by (simp add: stack_ok_def)
  note L = layout_pool_booted [OF junk, of ?p "layout_pool n ?p" n]
  have L: "booted K J n 0 (layout_pool n ?p)" "front (layout_pool n ?p) K = None" "front (layout_pool n ?p) 24 = None"
    "front (layout_pool n ?p) 26 = None"
    using L mem(2) by (simp_all add: pool_init_def s1(4))
  have r4: "iring 127 0 s4"
    using iring_initial [of s2] fs_io_disk [OF s4(3)] by (simp add: iring_def s3_def)
  obtain s5 s6 s7 where s7: "allocInode (e_dev e) (junk_at e s4) 0 s4 = Some (IBuf 127, s5)"
    "allocData (e_dev e) (junk_at e s5) 0 (s5\<lparr>root := IBuf 127\<rparr>) = Some (24, s6)" "set_dblock (IBuf 127) 0 24 s6 = Some s7"
    "root s6 = IBuf 127" "fds s7 = fds s4" "cslLock s7 = cslLock s4" "screen s7 = screen s4" "cwd_name s7 = cwd_name s4" "root s7 = IBuf 127"
    "static s7 = static s4" "\<forall>r c w. mounted K J n [] 2 126 (s7\<lparr>cwd := IBuf 127, cwd_name := c, of_cnt := w, max_fd := r\<rparr>)"
    by (rule root_boot [OF s4(2) L r4 assms(2) dr])
  note fr = fs_io_files [OF fs_io_trans [OF io3 fs_io_disk [OF s4(3), THEN conjunct1]]]
  define w where "w = (map of_char ''root/'' :: u8 list)"
  have w: "c_text (cstr ''root/'') = Some w" "length w = 5" by (simp_all add: cstr_def w_def)
  have nm: "strncpy (cwd_name s) (cstr ''root/'') 5 = Some (blit (cwd_name s) 0 w, 0)"
    using copied_name(2) [OF w(1), of "cwd_name s"] mem(3) unfolding w(2) by simp
  define s8 where "s8 = s7\<lparr>cwd := IBuf 127, cwd_name := blit (cwd_name s) 0 w, of_cnt := 0, max_fd := 0\<rparr>"
  have m8: "mounted K J n [] 2 126 s8" using s7(11) by (simp add: s8_def)
  have f8: "max_fd s8 = 0" "2 < length (fds s8)" "lock (cslLock s8) = 0" "screen s8 = screen s"
    using fr s7(5-8) mem(4,5) by (simp_all add: s8_def screen_def)
  obtain s' where s': "fileTest e s8 = Some s'" "prints (lines boot_lines) s8 s'" "used_up K J s'" "static s' = static s8"
    using fileTest_boot [OF m8 assms(2) dr _ f8(1-3)] by auto
  have p8: "prints [] s s8" by (rule prints_Nil [OF f8(4,3)])
  have "fsInit e s = Some s'"
    using s1(1) s4(1) s7(1-4,8,9) nm mem(3) fr(7) s'(1)
    by (simp add: fsInit_def s2_def [symmetric] s3_def [symmetric] sb_def [symmetric] s8_def [symmetric] Let_def)
  moreover have "static s' = (blit (cwd_name s) 0 (map of_char ''root/''), snd (static s))"
    using s'(4) s7(10) fr(8) by (simp add: s8_def w_def)
  ultimately show ?thesis using prints_trans [OF p8 s'(2)] s'(3) by simp
qed

section \<open>A block in the buffer of another\<close>

text \<open>
  C16. \<^verbatim>\<open>getCachedBlock\<close> does not reset the flags of a buffer it takes, and a hit makes the buffer below the
  one found the next to be taken. So when a cached block has been read, the next block that is not cached
  reads as whatever valid block that buffer holds, which loses its place, and the disk is not asked: this
  is how both bitmaps of the boot come to be one.
\<close>

theorem taken_buffer_reads_as_old_block:
  assumes "pooled d p s" "BLKHASH a = Some ka" "BLKHASH c = Some kc" "front p ka = Some (Suc i)" "tag p (Suc i) = a"
    and "0 < i" "full p i" "tag p i \<noteq> c" "\<not> pool_hit c kc p"
  shows "\<exists>s1 s2. blockRead dev d a s = Some (Buf (Suc i), s1) \<and> blockRead dev d c s1 = Some (Buf i, s2) \<and>
    bblock (blocks s (Buf i)) \<noteq> c \<and> bblock (blocks s2 (Buf i)) = c \<and>
    buf (blocks s2 (Buf i)) = buf (blocks s (Buf i)) \<and> iotrace s2 = iotrace s"
proof -
  have ha: "pool_hit a ka p" "pool_buf a ka p = Suc i" using assms(4,5) by (simp_all add: pool_hit_def pool_buf_def)
  let ?p = "pool_get a ka p"
  have pg: "?p = p\<lparr>spot := i, full := (full p)(Suc i := True)\<rparr>" using ha by (simp add: pool_get_def Let_def)
  have fa: "full ?p (Suc i)" by (simp add: pg)
  obtain s1 where s1: "blockRead dev d a s = Some (Buf (Suc i), s1)" "pooled d ?p s1" "iotrace s1 = iotrace s"
    using read_pooled [OF assms(1,2) disjI2 [OF ha(1)], unfolded ha(2), OF fa, of dev] by metis
  have hc: "\<not> pool_hit c kc ?p" "spot ?p = i"
    using assms(9) by (simp_all add: pool_hit_def pg split: option.splits)
  then have bc: "pool_buf c kc ?p = i" by (simp add: pool_buf_def)
  have fi: "full (pool_get c kc ?p) i" "data ?p i = data p i" "tag (pool_get c kc ?p) i = c"
    using assms(7) hc ha by (simp_all add: pool_get_def [of c] bc Let_def) (simp_all add: pool_get_def Let_def)
  have sp: "0 < spot ?p \<or> pool_hit c kc ?p" using assms(6) hc by simp
  obtain s2 where s2: "blockRead dev d c s1 = Some (Buf i, s2)" "pooled d (pool_get c kc ?p) s2" "buf (blocks s2 (Buf i)) = data p i"
    "iotrace s2 = iotrace s1"
    using read_pooled [OF s1(2) assms(3) sp, unfolded bc fi(2), OF fi(1), of dev] by metis
  have i: "i < 128" using pooledD(8) [OF assms(1) BLKHASH_less [OF assms(2)] assms(4)] by simp
  show ?thesis
    using s1 s2 pooledD(9) [OF assms(1) i] pooledD(9) [OF s2(2) i] fi(3) assms(8) by auto
qed

text \<open>Block 22, right after \<^verbatim>\<open>diskLayoutInit\<close>: it reads as the inode bitmap.\<close>

theorem taken_buffer_reads_as_old_block_witness:
  "\<exists>s s1 s2. diskLayoutInit demo_sb init_cache = Some s \<and>
    blockRead busy_drive 0 1 s = Some (Buf 127, s1) \<and> blockRead busy_drive 0 22 s1 = Some (Buf 126, s2) \<and>
    bblock (blocks s (Buf 126)) = 20 \<and> bblock (blocks s2 (Buf 126)) = 22 \<and>
    buf (blocks s2 (Buf 126)) = buf (blocks s (Buf 126))"
proof -
  have p0: "pooled 0 (pool_init demo_disk) init_cache"
    unfolding init_cache_def by (rule pool_initial) (simp add: demo_block_def)
  obtain s where s: "diskLayoutInit demo_sb init_cache = Some s" "pooled 0 (layout_pool (sb_size demo_sb) (pool_init demo_disk)) s"
    by (rule diskLayoutInit_pool [OF p0, of demo_sb]) (simp_all add: pool_init_def)
  let ?p = "layout_pool (sb_size demo_sb) (pool_init demo_disk)"
  have f: "front ?p 1 = Some (Suc 126)" "tag ?p (Suc 126) = 1" "full ?p 126" "tag ?p 126 = 20" "\<not> pool_hit 22 22 ?p"
    by (simp_all add: layout_pool_def took_def pool_hit_def pool_init_def)
  have t: "bblock (blocks s (Buf 126)) = 20" using pooledD(9) [OF s(2), of 126] f(4) by simp
  have "tag ?p 126 \<noteq> 22" using f(4) by simp
  from taken_buffer_reads_as_old_block [OF s(2) BLKHASH_boot(1) BLKHASH_20(3) f(1,2) _ f(3) this f(5), of busy_drive] s(1) t
  show ?thesis by auto
qed

section \<open>The boot\<close>


abbreviation (input) boot_env :: env where
  "boot_env \<equiv> demo_env\<lparr>e_dev := ram_disk (\<lambda>_. replicate 128 0)\<rparr>"

lemma boot_env_ok:
  "drive_idle (e_dev boot_env)" "stack_ok 77 77 boot_env" "boot_stores 77 demo_files"
proof -
  show "drive_idle (e_dev boot_env)"
    unfolding drive_idle_def by (intro exI [of _ "0x50"]) (simp add: ram_disk_def bit_0)
  show "stack_ok 77 77 boot_env"
    by (simp add: stack_ok_def junk_ok_def demo_junk_def demo_block_def BLKHASH_nonneg)
  have "length (buf (blocks demo_files (Buf i))) = 512" for i
    using demo_dir(9) by (cases "i = 7") (simp_all add: demo_files_fields demo_block_def)
  moreover have "bblock (blocks demo_files BNull) = 1" by (simp add: demo_files_fields demo_block_def)
  moreover have "5 \<le> length (cwd_name demo_files)" by (simp add: demo_files_fields cstr_def)
  ultimately show "boot_stores 77 demo_files" using demo_dir(8) demo_files_table(1) by (simp add: boot_stores_def)
qed


end
