(* ===== verification/Boot.thy ===== *)
theory Boot
  imports Kernel Mount
begin

text \<open>
  \<^verbatim>\<open>kernelMain\<close> of \<^verbatim>\<open>src/kernel.c\<close> from its first to its last line: the console, the memory, the tables and the
  threads of theory \<open>Kernel\<close>, the file system of theory \<open>Mount\<close>, the prompt, the keyboard and the timer.
\<close>

section \<open>What the first steps leave alone\<close>

lemma say_kernel [simp]:
  fixes s :: "'a files_scheme"
  shows "blocks (say t s) = blocks s" "fds (say t s) = fds s" "static (say t s) = static s" "lock (cslLock (say t s)) = 0"
  by (simp_all only: say_frame)

lemma boot_console_says:
  fixes s :: kernel
  obtains s1 where "boot_console s = Some s1"
    "prints (lines [''[ORCAS]: an evolving operating system.'', ''[ORCAS]: powered by arjenk.'']) (s\<lparr>row := 0, col := 0\<rparr>) s1"
    "blocks s1 = blocks s" "fds s1 = fds s" "static s1 = static s"
proof -
  obtain s0 where s0: "cslInit s = Some s0" "lock (cslLock s0) = 0" "screen s0 = screen (s\<lparr>row := 0, col := 0\<rparr>)"
    "blocks s0 = blocks s" "fds s0 = fds s" "static s0 = static s"
    by (simp add: cslInit_def lock_console_free spinlockInit_def unlock_console_def spinlockUnlock_def
        cli_def sti_def Let_def screen_def static_def view_def)
  have fmt: "fmt_text (cstr (''[ORCAS]: an evolving operating system.'' @ [CHR 0x0a])) [] =
      Some (lines [''[ORCAS]: an evolving operating system.''])"
    "fmt_text (cstr (''[ORCAS]: powered by arjenk.'' @ [CHR 0x0a])) [] = Some (lines [''[ORCAS]: powered by arjenk.''])"
    by (simp_all add: cstr_def)
  note p1 = printf_prints [OF s0(2) fmt(1)]
  note p2 = printf_prints [OF prints_lock [OF p1(2)] fmt(2)]
  have p0: "prints [] (s\<lparr>row := 0, col := 0\<rparr>) s0" by (rule prints_Nil [OF s0(3,2)])
  note pr = prints_trans [OF p0 prints_trans [OF p1(2) p2(2)]]
  show ?thesis
    by (rule that [of "say (lines [''[ORCAS]: powered by arjenk.'']) (say (lines [''[ORCAS]: an evolving operating system.'']) s0)"])
      (use pr s0 p1(1) p2(1) in \<open>simp_all add: boot_console_def lines_def\<close>)
qed

lemma on_desc_files [simp]:
  "blocks (on_desc f s) = blocks s" "fds (on_desc f s) = fds s" "cwd_name (on_desc f s) = cwd_name s"
  "row (on_desc f s) = row s" "col (on_desc f s) = col s" "videoMemory (on_desc f s) = videoMemory s" "thrqueue (on_desc f s) = thrqueue s" "thr_current (on_desc f s) = thr_current s"
  "sched_t (on_desc f s) = sched_t s" "line (on_desc f s) = line s" "pos (on_desc f s) = pos s" "cmd (on_desc f s) = cmd s"
  by (simp_all add: on_desc_def Let_def)

lemma boot_core_files:
  assumes "boot_core im s = Some s'" "length (thrqueue s) = 256"
  shows "prints (lines [''[ORCAS]: an evolving operating system.'', ''[ORCAS]: powered by arjenk.'']) (s\<lparr>row := 0, col := 0\<rparr>) s'"
    "blocks s' = blocks s" "fds s' = fds s" "cwd_name s' = cwd_name s" "thr_current s' = thr_current s" "sched_t s' = sched_t s"
    "line s' = line s" "pos s' = pos s" "cmd s' = cmd s" "length (thrqueue s') = 256"
proof -
  obtain s1 where s1: "boot_console s = Some s1"
    "prints (lines [''[ORCAS]: an evolving operating system.'', ''[ORCAS]: powered by arjenk.'']) (s\<lparr>row := 0, col := 0\<rparr>) s1"
    "blocks s1 = blocks s" "fds s1 = fds s" "static s1 = static s"
    by (rule boot_console_says)
  have st: "cwd_name s1 = cwd_name s" "thrqueue s1 = thrqueue s" "thr_current s1 = thr_current s" "sched_t s1 = sched_t s"
    "line s1 = line s" "pos s1 = pos s" "cmd s1 = cmd s"
    using s1(5) by (simp_all add: static_def view_def) (cases s; cases s1; simp)+
  obtain m where m: "s' = thrInit (im_syms im) (boot_tables im (s1\<lparr>k_mem := m\<rparr>))"
    using assms(1) s1(1) by (auto simp: boot_core_def boot_memory_def bind_eq_Some_conv Let_def)
  let ?t = "boot_tables im (s1\<lparr>k_mem := m\<rparr>)"
  have len: "length (thrqueue ?t) = 256" using assms(2) st(2) by (simp add: boot_tables_def Let_def)
  show "length (thrqueue s') = 256" unfolding m by (simp add: thrInit_table [OF len] del: upt_Suc)
  from thrInit_form [OF len, of "im_syms im"] obtain l q n where
    f: "s' = ?t\<lparr>thrque_lock := l, thrqueue := q, thr_null := n, iflag := True\<rparr>"
    using m by auto
  have "screen s' = screen s1" "cslLock s' = cslLock s1"
    unfolding f by (simp_all add: screen_def boot_tables_def Let_def)
  with s1(2) show "prints (lines [''[ORCAS]: an evolving operating system.'', ''[ORCAS]: powered by arjenk.'']) (s\<lparr>row := 0, col := 0\<rparr>) s'"
    by (simp add: prints_def)
  show "blocks s' = blocks s" "fds s' = fds s" "cwd_name s' = cwd_name s" "thr_current s' = thr_current s" "sched_t s' = sched_t s"
    "line s' = line s" "pos s' = pos s" "cmd s' = cmd s"
    unfolding f using s1(3,4) st by (simp_all add: boot_tables_def Let_def)
qed

section \<open>The last steps\<close>

lemma kbdDriverInit_dry:
  assumes "\<not> has_data dev (drained n (iotrace s))"
  shows "\<exists>t. kbdDriverInit dev s = Some (s\<lparr>iotrace := t\<rparr>)"
proof -
  obtain m where "\<forall>i < m. has_data dev (drained i (iotrace s))" "\<not> has_data dev (drained m (iotrace s))"
    by (rule least_undrained [OF assms])
  from kbd_drain_after [OF this] show ?thesis
    by (simp add: kbdDriverInit_def outb_def inb_def Let_def) (intro exI, rule refl)
qed

text \<open>The globals of the kernel as the loader leaves them, and a keyboard that runs dry.\<close>

definition kernel_stores :: "u32 \<Rightarrow> kernel \<Rightarrow> bool" where
  "kernel_stores J s \<longleftrightarrow> length (k_gdt s) = 6 \<and> (\<forall>g \<in> set (k_gdt s). length g = 8) \<and> length (k_idt s) = 256 \<and>
     length (thrqueue s) = 256 \<and> thr_current s = ThrNull \<and> ref_ok (sched_t s) \<and>
     (\<forall>i < 128. length (buf (blocks s (Buf i))) = 512) \<and> bblock (blocks s BNull) \<noteq> J \<and>
     5 < length (cwd_name s) \<and> cwd_name s ! 5 = 0 \<and> 2 < length (fds s) \<and>
     pos s = 0 \<and> length (line s) = 50 \<and> length (cmd s) = 50"

definition keyboard_dry :: "device \<Rightarrow> bool" where
  "keyboard_dry dev \<longleftrightarrow> (\<forall>t. \<exists>n. \<not> has_data dev (drained n t))"

lemma kernelMain_runs:
  fixes s :: kernel
  assumes "im_heap im < 0x80000000" "kernel_stores J s" "drive_idle (e_dev e)" "keyboard_dry (e_dev e)" "stack_ok K J e"
  obtains s1 s2 s3 t where "boot_core im s = Some s1" "fsInit e s1 = Some s2" "used_up K J s2"
    "s3 = say (codes ''arjenk@orcas: root/$ '') s2" "kernelMain e im s = Some (timerDriverInit (s3\<lparr>iotrace := t\<rparr>))"
    "prints (lines ([''[ORCAS]: an evolving operating system.'', ''[ORCAS]: powered by arjenk.''] @ boot_lines) @
      codes ''arjenk@orcas: root/$ '') (s\<lparr>row := 0, col := 0\<rparr>) s3"
    "c_text (cwd_name s3) = Some (codes ''root/'')" "view s3 = view s1" "files.more s3 = files.more s1"
proof -
  note st = assms(2) [unfolded kernel_stores_def]
  obtain s1 where s1: "boot_core im s = Some s1" "lock (cslLock s1) = 0"
    using boot_core_done [OF assms(1), of s] st by blast
  note f1 = boot_core_files [OF s1(1)]
  have "boot_stores J s1" using st s1(2) f1 by (simp add: boot_stores_def)
  from fsInit_runs [OF assms(3,5) this] obtain s2 where s2: "fsInit e s1 = Some s2" "prints (lines boot_lines) s1 s2"
    "used_up K J s2" "static s2 = (blit (cwd_name s1) 0 (map of_char ''root/''), snd (static s1))"
    by blast
  have r: "length (map of_char ''root/'' :: u8 list) = 5" "0 \<notin> set (map of_char ''root/'' :: u8 list)" by simp_all
  have "c_text (blit (cwd_name s) 0 (map of_char ''root/'')) = Some (codes ''root/'')"
    unfolding codes_def by (rule c_text_copied [OF r(2)]) (use st in \<open>simp_all only: r(1)\<close>)
  then have c2: "c_text (cwd_name s2) = Some (codes ''root/'')" using s2(4) f1 st by (simp add: static_def)
  then have "fmt_text (cstr ''arjenk@orcas: %s$ '') [Str (cwd_name s2)] = Some (codes ''arjenk@orcas: root/$ '')"
    by (simp add: cstr_def arg_text_def codes_def)
  note p3 = printf_prints [OF prints_lock [OF s2(2)] this]
  define s3 where "s3 = say (codes ''arjenk@orcas: root/$ '') s2"
  obtain n where "\<not> has_data (e_dev e) (drained n (iotrace s3))" using assms(4) by (auto simp: keyboard_dry_def)
  from kbdDriverInit_dry [OF this] obtain t where k: "kbdDriverInit (e_dev e) s3 = Some (s3\<lparr>iotrace := t\<rparr>)" by blast
  have main: "kernelMain e im s = Some (timerDriverInit (s3\<lparr>iotrace := t\<rparr>))"
    unfolding kernelMain_def s1(1) s2(1) p3(1) [folded s3_def] k Option.bind.bind_lunit ..
  have "static s3 = static s2" by (simp add: s3_def)
  then have f3: "c_text (cwd_name s3) = Some (codes ''root/'')" "view s3 = view s1" "files.more s3 = files.more s1"
    using s2(4) c2 by (simp_all add: static_def)
  have "prints (lines [''[ORCAS]: an evolving operating system.'', ''[ORCAS]: powered by arjenk.''] @ lines boot_lines @
      codes ''arjenk@orcas: root/$ '') (s\<lparr>row := 0, col := 0\<rparr>) s3"
    unfolding s3_def by (rule prints_trans [OF f1(1) prints_trans [OF s2(2) p3(2)]]) (use st in simp)
  then have "prints (lines ([''[ORCAS]: an evolving operating system.'', ''[ORCAS]: powered by arjenk.''] @ boot_lines) @
      codes ''arjenk@orcas: root/$ '') (s\<lparr>row := 0, col := 0\<rparr>) s3"
    by (simp add: lines_def)
  from that [OF s1(1) s2(1,3) s3_def main this f3] show ?thesis .
qed

section \<open>A command typed after the boot\<close>

text \<open>The keyboard has the keys \<open>ks\<close>, one for each interrupt, which is acknowledged first.\<close>

fun types :: "device \<Rightarrow> ioev list \<Rightarrow> u8 list \<Rightarrow> bool" where
  "types dev t [] = True"
| "types dev t (k # ks) = (key_ready dev (Outb PIC_MASTER_CMD EOI # t) k \<and> types dev (key_read (Outb PIC_MASTER_CMD EOI # t)) ks)"

lemma putc_leaves [simp]:
  fixes s :: "'a files_scheme" and v :: "'b fsys_scheme" and u :: "'c kbd_scheme" and w :: "'d disk_scheme"
  shows "inodes (putc c v) = inodes v" "cwd (putc c s) = cwd s" "cwd_name (putc c s) = cwd_name s"
    "line (putc c u) = line u" "pos (putc c u) = pos u" "cmd (putc c u) = cmd u" "arg (putc c u) = arg u"
    "blocks (putc c w) = blocks w" "cslLock (putc c w) = cslLock w" "iotrace (putc c w) = iotrace w"
  by (simp_all add: putc_def clear_def Let_def)

lemma typed_key:
  fixes s :: "'a kbd_scheme"
  assumes "trapno f = IV_KEYBOARD" "key_ready (e_dev e) (Outb PIC_MASTER_CMD EOI # iotrace s) k" "key_char (keymap ! unat k)"
    and "pos s = of_nat i" "i < 50" "length (line s) = 50"
  shows "handleInterrupt e f s = Some (putc (keymap ! unat k) s\<lparr>iotrace := key_read (Outb PIC_MASTER_CMD EOI # iotrace s),
    line := (line s)[i := keymap ! unat k], pos := of_nat (Suc i)\<rparr>)"
proof -
  have "sint (pos s) = int i" using assms(4,5) by (simp add: sint_pos)
  moreover have "putc c (s\<lparr>iotrace := t\<rparr>) = putc c s\<lparr>iotrace := t\<rparr>" for c t by (simp add: putc_def clear_def Let_def)
  ultimately show ?thesis
    using assms(1,3-6) handler_key [of e "s\<lparr>iotrace := Outb PIC_MASTER_CMD EOI # iotrace s\<rparr>" k] assms(2)
    by (simp add: handleInterrupt_acks acks_def key_pressed_def put_line_def Let_def)
qed

lemma prompt_says:
  fixes s :: "'a files_scheme"
  assumes "c_text (cwd_name s) = Some d" "lock (cslLock s) = 0"
  obtains s' where "prompt s = Some s'" "prints (0x0a # codes ''arjenk@orcas: '' @ d @ codes ''$ '') s s'"
proof -
  have "fmt_text (cstr (CHR 0x0a # ''arjenk@orcas: %s$ '')) [Str (cwd_name s)] =
      Some (0x0a # codes ''arjenk@orcas: '' @ d @ codes ''$ '')"
    using assms(1) by (simp add: cstr_def arg_text_def codes_def)
  from printf_prints [OF assms(2) this] show ?thesis using that by (simp add: prompt_def)
qed

lemma listing_typed:
  fixes s :: "'a kbd_scheme"
  assumes "trapno f = IV_KEYBOARD" "types (e_dev e) (iotrace s) [0x26, 0x1f, 0x1c]" "drive_ready (e_dev e)"
    and "pos s = 0" "length (line s) = 50" "length (cmd s) = 50"
    and "pooled 0 p s" "dir_at es p" "dir_inode (cwd s) es s" "cwd s \<noteq> INull" "es \<noteq> []"
    and "c_text (cwd_name s) = Some d" "lock (cslLock s) = 0"
  shows "\<exists>s'. ticked e f 3 s = Some s' \<and>
    prints (codes ''ls'' @ 0x0a # names es @ 0x0a # codes ''arjenk@orcas: '' @ d @ codes ''$ '') s s'"
proof -
  define t1 where "t1 = key_read (Outb PIC_MASTER_CMD EOI # iotrace s)"
  define t2 where "t2 = key_read (Outb PIC_MASTER_CMD EOI # t1)"
  define t3 where "t3 = Outb PIC_MASTER_CMD EOI # t2"
  have keys: "key_ready (e_dev e) (Outb PIC_MASTER_CMD EOI # iotrace s) 0x26" "key_ready (e_dev e) (Outb PIC_MASTER_CMD EOI # t1) 0x1f"
    "key_ready (e_dev e) t3 0x1c"
    using assms(2) by (simp_all add: t1_def t2_def t3_def)
  have km: "keymap ! unat (0x26 :: u8) = 0x6c" "keymap ! unat (0x1f :: u8) = 0x73" "key_char 0x6c" "key_char 0x73"
    by (simp_all add: keymap_def codes_def key_char_def)
  define s1 where "s1 = putc 0x6c s\<lparr>iotrace := t1, line := (line s)[0 := 0x6c], pos := of_nat (Suc 0)\<rparr>"
  define s2 where "s2 = putc 0x73 s1\<lparr>iotrace := t2, line := (line s1)[1 := 0x73], pos := of_nat (Suc 1)\<rparr>"
  have h1: "handleInterrupt e f s = Some s1"
    using typed_key [OF assms(1) keys(1), of 0] km(1,3) assms(4,5) by (simp add: s1_def t1_def)
  have h2: "handleInterrupt e f s1 = Some s2"
    using typed_key [OF assms(1), of e s1 "0x1f" 1] keys(2) km(2,4) assms(5) by (simp add: s1_def s2_def t2_def)
  define w where "w = codes ''ls''"
  have w: "w = [0x6c, 0x73]" by (simp add: w_def codes_def)
  obtain a b r where ln: "line s = a # b # r" "length r = 48"
    using assms(5) by (cases "line s"; cases "tl (line s)") auto
  have l2: "line s2 = w @ hd r # tl r" "pos s2 = of_nat (length w)" "length (line s2) = 50" "cmd s2 = cmd s" "iotrace s2 = t2"
    using ln by (cases r; simp add: s2_def s1_def w)+
  define s3 where "s3 = s2\<lparr>iotrace := key_read t3, line := w @ 0 # tl r, cmd := blit (cmd s2) 0 (w @ [0]), arg := arg s2\<rparr>"
  have "word_ok w" by (simp add: w word_ok_def)
  note pc = parseCmd_one [of "[]" w "cmd s" "tl r" "arg s2", OF _ this assms(6)]
  have "kbdInterruptHandler e (s2\<lparr>iotrace := t3\<rparr>) = do { s \<leftarrow> shell e w s3; prompt (s\<lparr>pos := 0\<rparr>) }"
    using enter_line [of e "s2\<lparr>iotrace := t3\<rparr>" w "hd r" "tl r" w "arg s2"] keys(3) l2 pc by (simp add: w s3_def)
  then have h3: "handleInterrupt e f s2 = do { (_, s) \<leftarrow> ls e s3; prompt (s\<lparr>pos := 0\<rparr>) }"
    using assms(1) by (cases "ls e s3") (auto simp: handleInterrupt_acks acks_def Let_def l2(5) t3_def shell_def w_def)
  have fr: "blocks s3 = blocks s" "inodes s3 = inodes s" "cwd s3 = cwd s" "cwd_name s3 = cwd_name s" "cslLock s3 = cslLock s"
    by (simp_all add: s3_def s2_def s1_def)
  have "screen s1 = screen (putc 0x6c s)" by (simp add: s1_def screen_def)
  from screen_putc [OF this] have "screen s3 = screen (fold putc w s)" by (simp add: s3_def s2_def screen_def w)
  then have p3: "prints w s s3" using assms(13) by (simp add: prints_def fr(5))
  have p0: "pooled 0 p s3" by (rule pooled_cong [OF assms(7)]) (simp add: fr(1))
  have q: "dir_inode (cwd s3) es s3" "cwd s3 \<noteq> INull" "lock (cslLock s3) = 0"
    using assms(9,10,13) fr by (simp_all add: dir_inode_def)
  obtain s4 where s4: "ls e s3 = Some (0, s4)" "prints (0x0a # names es) s3 s4" "static s4 = static s3"
    by (rule ls_run [OF p0 assms(8) q(1,2) assms(11,3) q(3)])
  have c4: "c_text (cwd_name (s4\<lparr>pos := 0\<rparr>)) = Some d" "lock (cslLock (s4\<lparr>pos := 0\<rparr>)) = 0"
    using s4(3) assms(12) fr(4) prints_lock [OF s4(2)] by (simp_all add: static_def)
  obtain s5 where s5: "prompt (s4\<lparr>pos := 0\<rparr>) = Some s5"
    "prints (0x0a # codes ''arjenk@orcas: '' @ d @ codes ''$ '') (s4\<lparr>pos := 0\<rparr>) s5"
    by (rule prompt_says [OF c4])
  have p5: "prints [] s4 (s4\<lparr>pos := 0\<rparr>)" by (rule prints_Nil [OF _ c4(2)]) (simp add: screen_def)
  have "ticked e f 3 s = Some s5" using h1 h2 h3 s4(1) s5(1) by (simp add: numeral_3_eq_3)
  moreover have "prints (w @ (0x0a # names es) @ [] @ 0x0a # codes ''arjenk@orcas: '' @ d @ codes ''$ '') s s5"
    by (rule prints_trans [OF p3 prints_trans [OF s4(2) prints_trans [OF p5 s5(2)]]])
  ultimately show ?thesis by (simp add: w_def)
qed

section \<open>Properties\<close>

lemma timerDriverInit_trace:
  "\<exists>lo hi. timerDriverInit s = s\<lparr>iotrace := Outb 0x40 hi # Outb 0x40 lo # Outb 0x43 0x36 # iotrace s\<rparr>"
  by (simp add: timerDriverInit_def outb_def Let_def) (intro exI, rule refl)



section \<open>A boot with three keys\<close>

text \<open>
  A drive that is always ready, and a keyboard that has a byte after an acknowledged interrupt: the keys of the command,
  then enter for ever.
\<close>

definition boot_keys :: device where
  "boot_keys = \<lparr>rd8 = (\<lambda>t port.
       if port = KBD_CMD_PORT then (if t \<noteq> [] \<and> hd t = Outb PIC_MASTER_CMD EOI then 1 else 0)
       else if port = KBD_DATA_PORT
       then (case t of _ # _ # Outb p v # _ \<Rightarrow> if p = 0x40 then 0x26 else 0x1c
             | _ # _ # _ # _ # _ # Outb p v # _ \<Rightarrow> if p = 0x40 then 0x1f else 0x1c | _ \<Rightarrow> 0x1c)
       else 0x50), rd32 = (\<lambda>t port. 0)\<rparr>"

abbreviation (input) keys_env :: env where
  "keys_env \<equiv> demo_env\<lparr>e_dev := boot_keys\<rparr>"

definition boot_kernel :: kernel where
  "boot_kernel = demo_kernel\<lparr>cwd_name := replicate 50 0\<rparr>"

lemma boot_kernel_ok:
  "im_heap demo_image < 0x80000000" "kernel_stores 77 boot_kernel" "drive_idle (e_dev keys_env)" "keyboard_dry (e_dev keys_env)"
  "stack_ok 77 77 keys_env"
proof -
  show "im_heap demo_image < 0x80000000" by simp
  have "length (buf (blocks demo_files (Buf i))) = 512" if "i < 128" for i
    using boot_env_ok(3) that by (simp add: boot_stores_def)
  moreover have "bblock (blocks demo_files BNull) \<noteq> 77" "2 < length (fds demo_files)" using boot_env_ok(3) by (simp_all add: boot_stores_def)
  moreover have "line demo_kernel = line (demo_kbd [] 0)" "pos demo_kernel = pos (demo_kbd [] 0)" "cmd demo_kernel = cmd (demo_kbd [] 0)"
    "fds demo_kernel = fds demo_files"
    by (simp_all add: demo_kernel_def demo_kbd_def kernel.defs kbd.defs files.defs fsys.defs disk.defs thr.defs)
  ultimately show "kernel_stores 77 boot_kernel"
    by (simp add: kernel_stores_def boot_kernel_def demo_kernel_fields blank_desc_def ref_ok_def demo_kbd_fields)
  show "drive_idle (e_dev keys_env)"
    unfolding drive_idle_def by (intro exI [of _ "0x50"]) (simp add: boot_keys_def bit_0)
  have "\<not> has_data boot_keys (drained 1 t)" for t by (simp add: has_data_def boot_keys_def)
  then show "keyboard_dry (e_dev keys_env)" unfolding keyboard_dry_def by (intro allI exI [of _ 1]) simp
  show "stack_ok 77 77 keys_env" using boot_env_ok(2) by (simp add: stack_ok_def)
qed



end
