(* ===== verification/Spec2Isabelle.thy ===== *)
theory Spec2Isabelle
  imports Console Memory Util Sync Descriptors Fs_Invariant Schedule Cache_Search Keyboard Kernel Trap Runs Sem_Test Self_Tests Thread_Tests Memory_Tests Boot
begin

text \<open>
  A verification library for the kernel ORCAS (\<^verbatim>\<open>src/\<close>), a small operating system for 32-bit x86
  in C: console, page allocator and page tables, threads and their synchronisation, descriptor tables,
  a PIO disk driver, a block cache, a file system with inodes and directories, a keyboard driver with a
  shell, and the interrupt dispatch and boot sequence that tie them together.

  \<^bold>\<open>State.\<close> The C globals are the fields of records that extend one another, so that the operations
  of a component work on every state that contains it:
  \<open>hw\<close> (port traffic, interrupt flag), \<open>console\<close> (cursor, video memory, lock), \<open>thr\<close> (thread table and
  scheduler), \<open>disk\<close> (the blocks by reference), \<open>fsys\<close> (the inodes by reference), \<open>files\<close> (current
  directory, open files), \<open>kbd\<close> (the line, the command and its argument), \<open>kernel\<close> (all of it, with the memory
  \<open>kmem\<close> of the page allocator and the descriptor tables). C values keep their widths: \<open>int\<close>, \<open>uint32_t\<close>
  and pointers into memory are 32-bit words, read signed where the code does; cursor positions are
  \<open>int\<close> with the bounds proved in \<open>Console\<close>. Pointers to blocks, inodes and threads are references
  (\<open>block_ref\<close>, \<open>inode_ref\<close>, \<open>thr_ref\<close>), the null pointer one of them: the machine has RAM at
  address 0, and paging is never switched on, so the code that goes through a null pointer reads and
  writes an object there.

  \<^bold>\<open>Results.\<close> An operation that the C language lets fail silently returns \<open>None\<close>: an access outside an
  object, a missing terminator, a division by zero, a lock that is never given back, a loop without end. Error
  returns of the code (-1, the null pointer) are values. Loops whose end depends on a device or on pointers are
  \<open>partial_function (option)\<close>; every other loop is a total function.

  \<^bold>\<open>Parameters.\<close> What is not code of the repository is an argument: the answers of devices
  (\<open>device\<close>, a function of the whole history of the port traffic), the contents of uninitialised locals and the addresses
  of blocks (\<open>env\<close>, \<open>junk\<close>), the addresses the linker chooses (\<open>code_syms\<close>, \<open>image\<close>).

  \<^bold>\<open>Theories\<close>, in the order of their imports:

  \<^item> \<open>Prelude\<close>: bytes, words, fields of byte lists, C strings, and the collections of the proofs.
  \<^item> \<open>Hardware\<close> (\<^verbatim>\<open>port.c\<close>; \<^verbatim>\<open>cli\<close> and \<^verbatim>\<open>sti\<close> of \<^verbatim>\<open>idt.c\<close>) and \<open>Concurrency\<close> (\<^verbatim>\<open>concurrency.c\<close>), with the
    interface of a lock as a locale.
  \<^item> \<open>Console\<close> (\<^verbatim>\<open>console.c\<close>): \<^verbatim>\<open>printf\<close> prints exactly the text of its format; numbers read back; the cursor
    stays in its box. It interprets the lock interface.
  \<^item> \<open>Util\<close> (\<^verbatim>\<open>util.c\<close>): strings, \<^verbatim>\<open>split\<close>, the forward copy of \<^verbatim>\<open>memmove\<close>.
  \<^item> \<open>Memory\<close> (\<^verbatim>\<open>memory.c\<close>): mapping a page changes that translation only; the kernel's directory translates the
    256 MB above \<^verbatim>\<open>KERNELBASE\<close>; the heap grows behind the image.
  \<^item> \<open>Thread\<close> and \<open>Sync\<close> (\<^verbatim>\<open>thread.c\<close>): creation, dispatch, conditions, mutexes, semaphores. A dispatch is
    one step from the call that gives up the processor to the next thread's run. The locale of a
    priority scheduler proves the rounds once; the thread table and, in \<open>Schedule\<close>, an abstract priority list
    interpret it, and the first refines the second. \<open>kstep\<close> is the step relation of the thread calls.
  \<^item> \<open>Descriptors\<close> (\<^verbatim>\<open>gdt.c\<close>, \<^verbatim>\<open>idt.c\<close>, \<^verbatim>\<open>timer.c\<close>): segment and interrupt tables.
  \<^item> \<open>Ring\<close>: doubly linked rings as a locale of link fields, interpreted by both caches.
  \<^item> \<open>Ide\<close> (\<^verbatim>\<open>ide.c\<close>): the driver against any device, and the round trip against a drive that follows the
    ATA protocol.
  \<^item> \<open>Block_Cache\<close>, \<open>Cache_Search\<close>, \<open>Superblock\<close>, \<open>Inode\<close>, \<open>Directory\<close>, \<open>Files\<close> (\<^verbatim>\<open>fs.c\<close>): the cache and
    when its search ends, the layout of the disk, inodes and data blocks, paths and directories, open files.
    A file read through its cached blocks is the slice of the list of its bytes.
  \<^item> \<open>Fs_Invariant\<close>: every operation of the file system keeps the sizes of buffers and inodes and leaves the
    scheduler alone, one lemma per operation over a small calculus of partial results.
  \<^item> \<open>Keyboard\<close> (\<^verbatim>\<open>keyboard.c\<close>): scan codes to characters to commands, the line and its bounds.
  \<^item> \<open>Kernel\<close> (\<^verbatim>\<open>idt.c\<close>, \<^verbatim>\<open>kernel.c\<close>): the interrupt dispatch, the boot sequence, and \<open>kernel_step\<close>, which
    interleaves thread calls and interrupts; its invariant joins those of the thread table and the file system.
  \<^item> \<open>Switch\<close> (\<^verbatim>\<open>switch.s\<close>) and \<open>Trap\<close> (\<^verbatim>\<open>interruptVector.s\<close>, \<^verbatim>\<open>interrupt.s\<close>): the assembly on the bytes of the
    kernel stacks. A switch away and back restores the registers; a new thread arrives in \<^verbatim>\<open>kernStub\<close>; an interrupt
    that does not yield leaves no trace in the interrupted thread.
  \<^item> \<open>Machine\<close> and \<open>Runs\<close> (\<^verbatim>\<open>thrSched\<close>, \<^verbatim>\<open>thrYeild\<close>, \<^verbatim>\<open>thrExit\<close> over \<^verbatim>\<open>switch.s\<close>): the dispatch with stacks and
    registers. The scheduler is a coroutine on its own stack; the machine refines the dispatch steps of \<open>Thread\<close>, gives
    a thread that yields its registers back, and starts from \<^verbatim>\<open>thrInit\<close>.
  \<^item> \<open>Sem_Test\<close> (\<^verbatim>\<open>semTest\<close>, \<^verbatim>\<open>producer\<close>, \<^verbatim>\<open>consumer\<close>): the bounded buffer under timer interrupts, load by load and store by
    store; it is safe without an interrupt inside an update and leaves its array with one.
  \<^item> \<open>Self_Tests\<close>, \<open>Memory_Tests\<close> and \<open>Thread_Tests\<close>: the test functions of the console, the strings, the disk,
    the cache, the superblock, inodes and data blocks, of pages and page tables, and of threads, conditions and mutexes (with \<open>tests\<close>, the globals they
    share), each with the lines it prints: the components run together through their public calls. \<open>prints\<close> says
    that the screen changes as by printing a text.
  \<^item> \<open>Cache_Pool\<close>: the cache as a pool of numbered buffers, an abstract machine without links that look-ups,
    reads and writes of one device refine from \<^verbatim>\<open>blockCacheInit\<close> on.
  \<^item> \<open>Mount\<close>: the whole of \<^verbatim>\<open>fsInit\<close>, from the driver to the last line of \<^verbatim>\<open>fileTest\<close>, followed through
    the pool on an idle drive with any contents.
  \<^item> \<open>Boot\<close>: the whole of \<^verbatim>\<open>kernelMain\<close> with the text it leaves on the screen, the first command typed after it, and
    the first timer interrupt.

  \<^bold>\<open>What the lemmas show.\<close> Each theory ends with its properties, every one with a run on a concrete state. Where the
  code does not do what its comments promise the property states what it does: buffers given away twice,
  chains searched by the wrong test, bitmaps written through the wrong pointer, arrays overrun from the
  keyboard, threads starved or never woken.

  \<^bold>\<open>Bounds and fuel.\<close> No definition uses fuel. The counting loops run over the bounds of the code (256
  threads, 128 buffers, 64 block addresses, 50 characters of a line), loops over a buffer end with the buffer
  because leaving it is \<open>None\<close>.

  \<^bold>\<open>Not modelled.\<close> \<^verbatim>\<open>loader.s\<close> (the initial state of the boot sequence, \<open>kernel_stores\<close>). \<^verbatim>\<open>process.c\<close>,
  \<^verbatim>\<open>syscall.c\<close> and \<^verbatim>\<open>user.c\<close> contain no code that runs. \<^verbatim>\<open>lcr0\<close>
  and \<^verbatim>\<open>rcr0\<close>, which nothing calls, and \<^verbatim>\<open>getCurStack\<close>, \<^verbatim>\<open>printStack\<close> and \<^verbatim>\<open>waitloops\<close>, which only
  look at the stack pointer or pass time. Instructions that load
  machine registers appear as the value loaded; memory protection and privilege have no effect in this kernel.
\<close>

end
